(* ===== verification/Prelude.thy ===== *)
theory Prelude
  imports Main "HOL-Library.Word"
begin

text \<open>
  Shared vocabulary of the development: Go's \<open>int64\<close> as a 64-bit word read in two's complement,
  the built-in \<open>max\<close> and \<open>min\<close> on it, \<open>sort.Search\<close>, and the lemmas that move signed word
  arithmetic to \<open>int\<close> whenever no wrap-around happens.
\<close>

section \<open>Machine integers\<close>

type_synonym int64 = "64 word"
type_synonym uint64 = "64 word"
type_synonym byte = "8 word"

text \<open>The rules that read signed words as integers; used as \<open>simp add: i64\<close>.\<close>

named_theorems i64

abbreviation max_int64 :: int where
  "max_int64 \<equiv> 9223372036854775807"

definition fits64 :: "int \<Rightarrow> bool" where
  "fits64 n \<longleftrightarrow> - 9223372036854775808 \<le> n \<and> n \<le> max_int64"

lemma fits64I [intro]: "- 9223372036854775808 \<le> n \<Longrightarrow> n \<le> max_int64 \<Longrightarrow> fits64 n"
  by (simp add: fits64_def)

lemma signed_take_bit_fits: "fits64 n \<Longrightarrow> signed_take_bit 63 n = n"
  by (rule signed_take_bit_int_eq_self) (simp_all add: fits64_def)

lemma sint_range64: "- 9223372036854775808 \<le> sint (a::int64)" "sint (a::int64) \<le> max_int64"
  using sint_greater_eq [of a] sint_less [of a] by simp_all

lemma fits64_sint [simp]: "fits64 (sint (a::int64))"
  by (simp add: fits64_def sint_range64)

lemma sint_of_int64 [i64]: "fits64 n \<Longrightarrow> sint (word_of_int n :: int64) = n"
  by (simp add: signed_of_int signed_take_bit_fits)

lemma sint_of_nat64 [i64]: "fits64 (int n) \<Longrightarrow> sint (word_of_nat n :: int64) = int n"
  by (metis sint_of_int64 of_int_of_nat_eq)

lemma sint_add64: "fits64 (sint a + sint b) \<Longrightarrow> sint (a + b :: int64) = sint a + sint b"
  by (simp add: sint_word_ariths signed_take_bit_fits)

lemma sint_sub64: "fits64 (sint a - sint b) \<Longrightarrow> sint (a - b :: int64) = sint a - sint b"
  by (simp add: sint_word_ariths signed_take_bit_fits)

lemma sint_mult64: "fits64 (sint a * sint b) \<Longrightarrow> sint (a * b :: int64) = sint a * sint b"
  by (simp add: sint_word_ariths signed_take_bit_fits)

lemma sint_inj64: "(a::int64) = b \<longleftrightarrow> sint a = sint b"
  by (auto intro: signed_word_eqI)

declare word_sle_eq [i64] word_sless_alt [i64]

subsection \<open>The built-ins max and min\<close>

definition max64 :: "int64 \<Rightarrow> int64 \<Rightarrow> int64" where
  "max64 a b = (if a <s b then b else a)"

definition min64 :: "int64 \<Rightarrow> int64 \<Rightarrow> int64" where
  "min64 a b = (if b <s a then b else a)"

lemma sint_max64 [i64]: "sint (max64 a b) = max (sint a) (sint b)"
  by (simp add: max64_def i64 max_def)

lemma sint_min64 [i64]: "sint (min64 a b) = min (sint a) (sint b)"
  by (simp add: min64_def i64 min_def)

subsection \<open>sort.Search\<close>

text \<open>
  The loop of the standard library's \<open>sort.Search(n, f)\<close>, started with \<open>i = 0\<close>, \<open>j = n\<close>:
  it halves the interval until it is empty and returns its lower end.
\<close>

function sort_search :: "(nat \<Rightarrow> bool) \<Rightarrow> nat \<Rightarrow> nat \<Rightarrow> nat" where
  "sort_search f i j =
     (if i < j
      then (let h = (i + j) div 2 in if \<not> f h then sort_search f (h + 1) j else sort_search f i h)
      else i)"
  by pat_completeness auto
termination
  by (relation "measure (\<lambda>(f, i, j). j - i)") auto

declare sort_search.simps [simp del]

lemma sort_search_bounds: "i \<le> j \<Longrightarrow> i \<le> sort_search f i j \<and> sort_search f i j \<le> j"
proof (induction f i j rule: sort_search.induct)
  case (1 f i j)
  show ?case
  proof (cases "i < j")
    case True
    then have "i \<le> (i + j) div 2" "(i + j) div 2 < j" by auto
    with True 1 show ?thesis
      by (subst (1 2) sort_search.simps) (fastforce simp: Let_def)
  next
    case False
    with 1 show ?thesis by (subst (1 2) sort_search.simps) simp
  qed
qed

text \<open>On a monotone predicate the result splits the interval: below it \<open>f\<close> fails, from it on \<open>f\<close> holds.\<close>

lemma sort_search_split:
  assumes "\<And>a b. i \<le> a \<Longrightarrow> a \<le> b \<Longrightarrow> b < j \<Longrightarrow> f a \<Longrightarrow> f b"
  shows "(\<forall>k. i \<le> k \<longrightarrow> k < sort_search f i j \<longrightarrow> k < j \<longrightarrow> \<not> f k)
       \<and> (\<forall>k. sort_search f i j \<le> k \<longrightarrow> k < j \<longrightarrow> f k)"
  using assms
proof (induction f i j rule: sort_search.induct)
  case (1 f i j)
  show ?case
  proof (cases "i < j")
    case False
    then show ?thesis by (subst (1 2) sort_search.simps) auto
  next
    case True
    define h where "h = (i + j) div 2"
    have h: "i \<le> h" "h < j" using True by (auto simp: h_def)
    show ?thesis
    proof (cases "f h")
      case False
      have eq: "sort_search f i j = sort_search f (h + 1) j"
        using True False by (subst sort_search.simps) (simp add: h_def)
      have ih: "(\<forall>k. h + 1 \<le> k \<longrightarrow> k < sort_search f (h + 1) j \<longrightarrow> k < j \<longrightarrow> \<not> f k)
          \<and> (\<forall>k. sort_search f (h + 1) j \<le> k \<longrightarrow> k < j \<longrightarrow> f k)"
      proof (rule 1(1) [OF True h_def False])
        show "f b" if "h + 1 \<le> a" "a \<le> b" "b < j" "f a" for a b
          using h(1) that by (intro 1(3) [of a b]) auto
      qed
      have below: "\<not> f k" if "i \<le> k" "k \<le> h" for k
        using 1(3) [of k h] that h False by auto
      show ?thesis
        unfolding eq using ih below by (metis Suc_eq_plus1 not_less_eq_eq)
    next
      case fh: True
      have eq: "sort_search f i j = sort_search f i h"
        using True fh by (subst sort_search.simps) (simp add: h_def)
      have ih: "(\<forall>k. i \<le> k \<longrightarrow> k < sort_search f i h \<longrightarrow> k < h \<longrightarrow> \<not> f k)
          \<and> (\<forall>k. sort_search f i h \<le> k \<longrightarrow> k < h \<longrightarrow> f k)"
      proof (rule 1(2) [OF True h_def])
        show "f b" if "i \<le> a" "a \<le> b" "b < h" "f a" for a b
          using h(2) that by (intro 1(3) [of a b]) auto
      qed (simp add: fh)
      have above: "f k" if "h \<le> k" "k < j" for k
        using 1(3) [of h k] that h fh by auto
      have "sort_search f i h \<le> h" using sort_search_bounds h(1) by blast
      with ih above show ?thesis
        unfolding eq by (meson leI order_less_le_trans)
    qed
  qed
qed

section \<open>Concrete intervals\<close>

lemma int_interval_step: "{a ..< b :: int} = (if a < b then insert a {a + 1 ..< b} else {})"
  by auto

lemmas int_interval =
  int_interval_step [of "numeral m" "numeral n"] int_interval_step [of 0 "numeral n"]
  int_interval_step [of 1 "numeral n"] for m n

section \<open>Lists\<close>

lemma list_split_at: "i < length xs \<Longrightarrow> xs = take i xs @ xs ! i # drop (Suc i) xs"
  by (rule id_take_nth_drop)

lemma nth_append_mid [simp]: "(A @ x # B) ! length A = x"
  by (simp add: nth_append)

lemma nth_append_mid_Suc [simp]: "(A @ x # y # B) ! Suc (length A) = y"
  by (simp add: nth_append)

lemma update_append_mid [simp]: "(A @ x # B)[length A := z] = A @ z # B"
  by (simp add: list_update_append)

end
