(* ===== verification/Ranges.thy ===== *)
theory Ranges
  imports Prelude
begin

text \<open>
  The byte-range bookkeeping of \<open>lib/ranges/ranges.go\<close>: \<open>Range\<close>, \<open>Ranges\<close> and the operations that
  insert into it (\<open>Insert\<close>, \<open>coalesce\<close>, \<open>merge\<close>), with the well-formedness invariant (sorted, non-empty,
  disjoint, not even touching) and the set of bytes a \<open>Ranges\<close> value stands for. The queries are in
  \<open>RangesFind\<close>.
\<close>

section \<open>The model\<close>

record Range =
  Pos :: int64
  Size :: int64

type_synonym Ranges = "Range list"

definition NoRange :: Range where
  "NoRange = \<lparr>Pos = 0, Size = 0\<rparr>"

definition End :: "Range \<Rightarrow> int64" where
  "End r = Pos r + Size r"

definition IsEmpty :: "Range \<Rightarrow> bool" where
  "IsEmpty r \<longleftrightarrow> Size r \<le>s 0"

definition Clip :: "Range \<Rightarrow> int64 \<Rightarrow> Range" where
  "Clip r offset =
     (if End r \<le>s offset then r
      else let size = Size r - (End r - offset)
           in if size <s 0 then \<lparr>Pos = 0, Size = 0\<rparr> else r\<lparr>Size := size\<rparr>)"

definition Range_Intersection :: "Range \<Rightarrow> Range \<Rightarrow> Range" where
  "Range_Intersection r b =
     (if (Pos b \<le>s Pos r \<and> Pos r <s End b) \<or> (Pos r \<le>s Pos b \<and> Pos b <s End r)
      then let p = max64 (Pos r) (Pos b) in \<lparr>Pos = p, Size = min64 (End r) (End b) - p\<rparr>
      else NoRange)"

text \<open>
  \<open>merge(new, dst)\<close> updates \<open>dst\<close> through its pointer: the model returns the new \<open>dst\<close> beside the
  boolean.
\<close>

definition merge :: "Range \<Rightarrow> Range \<Rightarrow> Range \<times> bool" where
  "merge new dst =
     (if End new <s Pos dst then (dst, False)
      else let dst' = (if End dst <s End new then dst\<lparr>Size := Size new\<rparr>
                       else dst\<lparr>Size := Size dst + (Pos dst - Pos new)\<rparr>)
           in (dst'\<lparr>Pos := Pos new\<rparr>, True))"

text \<open>
  The second loop of \<open>coalesce\<close>: it merges each element into its successor for as long as that
  succeeds; the slice elements are overwritten in place, and \<open>endChop\<close> is the last element written.
\<close>

function coalesce_loop :: "Ranges \<Rightarrow> nat \<Rightarrow> nat \<Rightarrow> Ranges \<times> nat" where
  "coalesce_loop ranges j endChop =
     (if Suc j < length ranges
      then (case merge (ranges ! j) (ranges ! Suc j) of
              (d, True) \<Rightarrow> coalesce_loop (ranges[Suc j := d]) (Suc j) (Suc j)
            | (d, False) \<Rightarrow> (ranges, endChop))
      else (ranges, endChop))"
  by pat_completeness auto
termination
  by (relation "measure (\<lambda>(rs, j, e). length rs - j)") auto

declare coalesce_loop.simps [simp del]

text \<open>\<open>coalesce\<close> assumes an element has been inserted at \<open>i\<close>; \<open>Insert\<close> calls it with \<open>i\<close> in range.\<close>

definition coalesce :: "Ranges \<Rightarrow> nat \<Rightarrow> Ranges" where
  "coalesce ranges i =
     (let (ranges1, startChop) =
            (if 0 < i
             then (case merge (ranges ! (i - 1)) (ranges ! i) of
                     (d, True) \<Rightarrow> (ranges[i := d], i - 1)
                   | (d, False) \<Rightarrow> (ranges, i))
             else (ranges, i));
          (ranges2, endChop) = coalesce_loop ranges1 i i
      in if startChop < endChop then take startChop ranges2 @ drop endChop ranges2 else ranges2)"

definition search :: "Ranges \<Rightarrow> Range \<Rightarrow> nat" where
  "search rs r = sort_search (\<lambda>i. Pos r \<le>s Pos (rs ! i)) 0 (length rs)"

definition Insert :: "Ranges \<Rightarrow> Range \<Rightarrow> Ranges" where
  "Insert rs r =
     (if IsEmpty r then rs
      else if length rs = 0 then [r]
      else let i = search rs r
           in if i = length rs then coalesce (take i rs @ r # drop i rs) i
              else (case merge r (rs ! i) of
                      (d, True) \<Rightarrow> coalesce (rs[i := d]) i
                    | (d, False) \<Rightarrow> coalesce (take i rs @ r # drop i rs) i))"

definition Equal :: "Ranges \<Rightarrow> Ranges \<Rightarrow> bool" where
  "Equal rs bs \<longleftrightarrow> length rs = length bs \<and> list_all (\<lambda>i. rs ! i = bs ! i) [0..<length rs]"

definition Ranges_Size :: "Ranges \<Rightarrow> int64" where
  "Ranges_Size rs = foldl (\<lambda>size r. size + Size r) 0 rs"

section \<open>Meaning and invariant\<close>

text \<open>Positions as integers: \<open>lo\<close> and \<open>hi\<close> do not wrap, \<open>End\<close> does.\<close>

definition lo :: "Range \<Rightarrow> int" where
  "lo r = sint (Pos r)"

definition hi :: "Range \<Rightarrow> int" where
  "hi r = sint (Pos r) + sint (Size r)"

definition rbytes :: "Range \<Rightarrow> int set" where
  "rbytes r = {lo r ..< hi r}"

definition rset :: "Ranges \<Rightarrow> int set" where
  "rset rs = (\<Union>r \<in> set rs. rbytes r)"

text \<open>A range of a file: a non-negative offset and an end that fits an \<open>int64\<close>; \<open>ok_range\<close> has a byte too.\<close>

definition file_range :: "Range \<Rightarrow> bool" where
  "file_range r \<longleftrightarrow> 0 \<le> lo r \<and> hi r \<le> max_int64"

definition ok_range :: "Range \<Rightarrow> bool" where
  "ok_range r \<longleftrightarrow> 0 \<le> lo r \<and> lo r < hi r \<and> hi r \<le> max_int64"

text \<open>The invariant the package comment promises: kept sorted and coalesced to the minimum size.\<close>

definition wf_ranges :: "Ranges \<Rightarrow> bool" where
  "wf_ranges rs \<longleftrightarrow> list_all ok_range rs \<and> sorted_wrt (\<lambda>a b. hi a < lo b) rs"

lemma wf_Nil [simp]: "wf_ranges []"
  by (simp add: wf_ranges_def)

lemma wf_Cons: "wf_ranges (x # xs) \<longleftrightarrow> ok_range x \<and> (\<forall>y\<in>set xs. hi x < lo y) \<and> wf_ranges xs"
  by (auto simp: wf_ranges_def)

lemma wf_append:
  "wf_ranges (xs @ ys) \<longleftrightarrow> wf_ranges xs \<and> wf_ranges ys \<and> (\<forall>x\<in>set xs. \<forall>y\<in>set ys. hi x < lo y)"
  by (auto simp: wf_ranges_def sorted_wrt_append)

lemma rset_simps [simp]:
  "rset [] = {}" "rset (x # xs) = rbytes x \<union> rset xs" "rset (xs @ ys) = rset xs \<union> rset ys"
  by (auto simp: rset_def)

lemma wf_ok: "wf_ranges rs \<Longrightarrow> r \<in> set rs \<Longrightarrow> ok_range r"
  by (auto simp: wf_ranges_def list_all_iff)

lemma ok_rangeD: "ok_range r \<Longrightarrow> 0 \<le> lo r \<and> lo r < hi r \<and> hi r \<le> max_int64"
  by (simp add: ok_range_def)

lemma ok_file_range: "ok_range r \<Longrightarrow> file_range r"
  by (simp add: ok_range_def file_range_def)

lemma ok_IsEmpty: "ok_range r \<Longrightarrow> \<not> IsEmpty r"
  by (simp add: ok_range_def IsEmpty_def lo_def hi_def i64)

lemma IsEmpty_iff: "IsEmpty r \<longleftrightarrow> hi r \<le> lo r"
  by (simp add: IsEmpty_def lo_def hi_def i64)

lemma ok_range_iff: "ok_range r \<longleftrightarrow> file_range r \<and> \<not> IsEmpty r"
  by (auto simp: ok_range_def file_range_def IsEmpty_iff)

lemma sint_Pos: "sint (Pos r) = lo r"
  by (simp add: lo_def)

lemma sint_Size: "sint (Size r) = hi r - lo r"
  by (simp add: lo_def hi_def)

lemma sint_End_fits: "fits64 (hi r) \<Longrightarrow> sint (End r) = hi r"
  by (simp add: End_def hi_def sint_add64)

lemma sint_End: "file_range r \<Longrightarrow> hi r \<ge> 0 \<Longrightarrow> sint (End r) = hi r"
  by (rule sint_End_fits) (auto simp: file_range_def)

lemma sint_End_ok: "ok_range r \<Longrightarrow> sint (End r) = hi r"
  by (rule sint_End_fits) (auto simp: ok_range_def)

text \<open>Equality of ranges is equality of both ends.\<close>

lemma Range_eqI: "lo r = lo s \<Longrightarrow> hi r = hi s \<Longrightarrow> r = (s::Range)"
  by (cases r; cases s) (auto simp: lo_def hi_def intro: signed_word_eqI)

section \<open>Merging and coalescing\<close>

text \<open>The effect of a successful \<open>merge\<close>: the hull of the two ranges.\<close>

definition hull :: "Range \<Rightarrow> Range \<Rightarrow> Range" where
  "hull new dst = fst (merge new dst)"

lemma merge_gap:
  assumes "ok_range new" "ok_range dst" "hi new < lo dst"
  shows "merge new dst = (dst, False)"
  using assms by (simp add: merge_def i64 sint_End_ok sint_Pos)

lemma merge_touch:
  assumes "ok_range new" "ok_range dst" "lo new \<le> lo dst" "lo dst \<le> hi new"
  shows "merge new dst = (hull new dst, True)"
    and "lo (hull new dst) = lo new" and "hi (hull new dst) = max (hi new) (hi dst)"
proof -
  have S: "0 \<le> lo new" "lo new < hi new" "hi new \<le> max_int64"
    "0 \<le> lo dst" "lo dst < hi dst" "hi dst \<le> max_int64"
    using assms(1,2) by (auto simp: ok_range_def)
  have d: "sint (Pos dst - Pos new) = lo dst - lo new"
    unfolding lo_def using S assms(3) by (intro sint_sub64) (auto simp: sint_Pos)
  then have sz: "sint (Size dst + (Pos dst - Pos new)) = hi dst - lo new"
    using S assms(3) by (subst sint_add64) (auto simp: sint_Size)
  have E: "sint (End new) = hi new" "sint (End dst) = hi dst"
    using assms(1,2) by (auto intro: sint_End_ok)
  have h: "merge new dst =
      (if hi dst < hi new then dst\<lparr>Size := Size new, Pos := Pos new\<rparr>
       else dst\<lparr>Size := Size dst + (Pos dst - Pos new), Pos := Pos new\<rparr>, True)"
    using assms(4) E by (simp add: merge_def i64 sint_Pos)
  then show "merge new dst = (hull new dst, True)"
    by (simp add: hull_def)
  have u: "hull new dst =
      (if hi dst < hi new then dst\<lparr>Size := Size new, Pos := Pos new\<rparr>
       else dst\<lparr>Size := Size dst + (Pos dst - Pos new), Pos := Pos new\<rparr>)"
    using h by (simp add: hull_def)
  show "lo (hull new dst) = lo new"
    by (simp add: u lo_def)
  have "hi (dst\<lparr>Size := Size new, Pos := Pos new\<rparr>) = hi new"
    by (simp add: hi_def)
  moreover have "hi (dst\<lparr>Size := Size dst + (Pos dst - Pos new), Pos := Pos new\<rparr>) = hi dst"
    unfolding hi_def [of "_ \<lparr>Size := _, Pos := _\<rparr>"] using sz by (simp add: sint_Pos)
  ultimately show "hi (hull new dst) = max (hi new) (hi dst)"
    by (simp add: u)
qed

lemma ok_hull:
  assumes "ok_range a" "ok_range b" "lo a \<le> lo b" "lo b \<le> hi a"
  shows "ok_range (hull a b)"
  using assms(1,2) merge_touch(2,3) [OF assms] by (auto simp: ok_range_def)

lemma rbytes_hull:
  assumes "ok_range a" "ok_range b" "lo a \<le> lo b" "lo b \<le> hi a"
  shows "rbytes (hull a b) = rbytes a \<union> rbytes b"
  using assms merge_touch(2,3) [OF assms] by (auto simp: rbytes_def ok_range_def)

text \<open>What \<open>coalesce_loop\<close> does to the element at \<open>j\<close> and its successors.\<close>

fun absorb :: "Range \<Rightarrow> Ranges \<Rightarrow> Ranges" where
  "absorb x [] = [x]"
| "absorb x (y # ys) = (case merge x y of (d, True) \<Rightarrow> absorb d ys | (d, False) \<Rightarrow> x # y # ys)"

lemma merge_False_dst: "merge x y = (d, False) \<Longrightarrow> d = y"
  by (auto simp: merge_def Let_def split: if_splits)

lemma coalesce_loop_absorb:
  "coalesce_loop (A @ x # ys) (length A) (length A) = (rs, e) \<Longrightarrow>
   length A \<le> e \<and> take (length A) rs = A \<and> drop e rs = absorb x ys"
proof (induction ys arbitrary: A x)
  case Nil
  then show ?case by (subst (asm) coalesce_loop.simps) auto
next
  case (Cons y ys)
  obtain d ok where m: "merge x y = (d, ok)" by fastforce
  show ?case
  proof (cases ok)
    case True
    have upd: "(A @ x # y # ys)[Suc (length A) := d] = (A @ [x]) @ d # ys"
      by (simp add: list_update_append)
    have "coalesce_loop ((A @ [x]) @ d # ys) (length (A @ [x])) (length (A @ [x])) = (rs, e)"
      using Cons.prems m True by (subst (asm) coalesce_loop.simps) (simp add: upd)
    then have "Suc (length A) \<le> e \<and> take (Suc (length A)) rs = A @ [x] \<and> drop e rs = absorb d ys"
      using Cons.IH [of "A @ [x]" d] by simp
    moreover have "take (length A) rs = take (length A) (take (Suc (length A)) rs)"
      by (simp add: min_def)
    ultimately show ?thesis using m True by auto
  next
    case False
    then show ?thesis
      using Cons.prems m by (subst (asm) coalesce_loop.simps) auto
  qed
qed

lemma coalesce_no_prev: "coalesce (x # ys) 0 = absorb x ys"
proof -
  obtain rs e where l: "coalesce_loop (x # ys) 0 0 = (rs, e)" by fastforce
  with coalesce_loop_absorb [of "[]"] have "drop e rs = absorb x ys" by simp
  then show ?thesis by (auto simp: coalesce_def l)
qed

lemma coalesce_prev:
  "coalesce (A @ p # x # ys) (Suc (length A)) =
     (case merge p x of (d, True) \<Rightarrow> A @ absorb d ys | (d, False) \<Rightarrow> A @ p # absorb x ys)"
proof -
  obtain d ok where m: "merge p x = (d, ok)" by fastforce
  define x' where "x' = (if ok then d else x)"
  obtain rs e where l: "coalesce_loop ((A @ [p]) @ x' # ys) (length (A @ [p])) (length (A @ [p])) = (rs, e)"
    by fastforce
  note a = coalesce_loop_absorb [OF l]
  have t: "take (length A) rs = A"
  proof -
    have "take (length A) rs = take (length A) (take (Suc (length A)) rs)"
      by (simp add: min_def)
    with a show ?thesis by simp
  qed
  have full: "drop (Suc (length A)) rs = absorb x' ys \<Longrightarrow> rs = A @ p # absorb x' ys"
    using a by (metis append.assoc append_Cons append_Nil append_take_drop_id length_append_singleton)
  have c: "coalesce (A @ p # x # ys) (Suc (length A)) =
      (let s = (if ok then length A else Suc (length A))
       in if s < e then take s rs @ drop e rs else rs)"
    using l m by (cases ok) (simp_all add: coalesce_def x'_def list_update_append)
  show ?thesis
  proof (cases ok)
    case True
    then show ?thesis using a t m by (simp add: c x'_def)
  next
    case False
    show ?thesis
    proof (cases "e = Suc (length A)")
      case True
      then show ?thesis using False a full m by (simp add: c x'_def)
    next
      case e: False
      then show ?thesis using False a m by (simp add: c x'_def)
    qed
  qed
qed

text \<open>On a sorted tail the merged element swallows exactly what it touches.\<close>

lemma absorb_spec:
  assumes "ok_range x" "wf_ranges ys" "\<forall>y\<in>set ys. lo x \<le> lo y"
  shows "wf_ranges (absorb x ys) \<and> rset (absorb x ys) = rbytes x \<union> rset ys
       \<and> (\<forall>z\<in>set (absorb x ys). lo x \<le> lo z)"
  using assms
proof (induction ys arbitrary: x)
  case Nil
  then show ?case by (auto simp: wf_Cons)
next
  case (Cons y ys)
  have y: "ok_range y" "lo x \<le> lo y" "wf_ranges ys" "\<forall>z\<in>set ys. hi y < lo z"
    using Cons.prems by (auto simp: wf_Cons)
  show ?case
  proof (cases "hi x < lo y")
    case True
    have "\<forall>z\<in>set ys. hi x < lo z"
      using y True by (auto simp: ok_range_def dest!: bspec)
    with True y Cons.prems merge_gap show ?thesis
      by (fastforce simp: wf_Cons)
  next
    case False
    then have t: "lo y \<le> hi x" by simp
    note h = merge_touch [OF Cons.prems(1) y(1,2) t]
    have "\<forall>z\<in>set ys. lo (hull x y) \<le> lo z"
      using h y by (fastforce simp: ok_range_def)
    with Cons.IH [OF ok_hull [OF Cons.prems(1) y(1,2) t] y(3)]
    show ?thesis
      using h rbytes_hull [OF Cons.prems(1) y(1,2) t] by auto
  qed
qed

section \<open>Insert\<close>

lemma coalesce_spec:
  assumes L: "wf_ranges L" and x: "ok_range x" and ys: "wf_ranges ys"
    and Lx: "\<forall>l\<in>set L. lo l \<le> lo x" and xy: "\<forall>y\<in>set ys. lo x \<le> lo y"
    and Ly: "\<forall>l\<in>set L. \<forall>y\<in>set ys. hi l < lo y"
  shows "wf_ranges (coalesce (L @ x # ys) (length L))
       \<and> rset (coalesce (L @ x # ys) (length L)) = rset L \<union> rbytes x \<union> rset ys"
proof (cases L rule: rev_cases)
  case Nil
  then show ?thesis using absorb_spec [OF x ys xy] by (simp add: coalesce_no_prev)
next
  case (snoc A p)
  have p: "ok_range p" "lo p \<le> lo x" "\<forall>a\<in>set A. hi a < lo p" "wf_ranges A"
    using L Lx snoc by (auto simp: wf_append wf_Cons)
  show ?thesis
  proof (cases "hi p < lo x")
    case True
    have "\<forall>a\<in>set A. hi a < lo x" using p True by (auto simp: ok_range_def dest!: bspec)
    with True p absorb_spec [OF x ys xy] show ?thesis
      by (fastforce simp: snoc coalesce_prev merge_gap [OF p(1) x True] wf_append wf_Cons)
  next
    case False
    then have t: "lo x \<le> hi p" by simp
    note h = merge_touch [OF p(1) x p(2) t]
    have "\<forall>y\<in>set ys. lo (hull p x) \<le> lo y"
      using h p(2) xy by fastforce
    note a = absorb_spec [OF ok_hull [OF p(1) x p(2) t] ys this]
    have "\<forall>a\<in>set A. \<forall>z\<in>set (absorb (hull p x) ys). hi a < lo z"
      using a h(2) p(3) by fastforce
    with a p show ?thesis
      using rbytes_hull [OF p(1) x p(2) t] by (auto simp: snoc coalesce_prev h(1) wf_append)
  qed
qed

lemma wf_lo_mono: "wf_ranges rs \<Longrightarrow> a \<le> b \<Longrightarrow> b < length rs \<Longrightarrow> lo (rs ! a) \<le> lo (rs ! b)"
proof (cases "a = b")
  case False
  assume "wf_ranges rs" "a \<le> b" "b < length rs"
  then have "hi (rs ! a) < lo (rs ! b)" "ok_range (rs ! a)"
    using False by (auto simp: wf_ranges_def sorted_wrt_iff_nth_less list_all_length)
  then show ?thesis by (simp add: ok_range_def)
qed simp

lemma search_spec:
  assumes "wf_ranges rs"
  shows "search rs r \<le> length rs"
    and "k < search rs r \<Longrightarrow> lo (rs ! k) < lo r"
    and "search rs r \<le> k \<Longrightarrow> k < length rs \<Longrightarrow> lo r \<le> lo (rs ! k)"
proof -
  show le: "search rs r \<le> length rs"
    unfolding search_def using sort_search_bounds [of 0 "length rs"] by blast
  have sp: "(\<forall>k. 0 \<le> k \<longrightarrow> k < search rs r \<longrightarrow> k < length rs \<longrightarrow> \<not> lo r \<le> lo (rs ! k))
       \<and> (\<forall>k. search rs r \<le> k \<longrightarrow> k < length rs \<longrightarrow> lo r \<le> lo (rs ! k))"
    unfolding search_def word_sle_eq sint_Pos
    by (rule sort_search_split) (meson assms order_trans wf_lo_mono)
  show "k < search rs r \<Longrightarrow> lo (rs ! k) < lo r"
    using sp le by auto
  show "search rs r \<le> k \<Longrightarrow> k < length rs \<Longrightarrow> lo r \<le> lo (rs ! k)"
    using sp by auto
qed

text \<open>The two halves \<open>search\<close> cuts a well-formed list into.\<close>

lemma search_halves:
  assumes "wf_ranges rs" "i = search rs r"
  shows "wf_ranges (take i rs)" "wf_ranges (drop i rs)"
    "\<forall>l\<in>set (take i rs). lo l < lo r" "\<forall>y\<in>set (drop i rs). lo r \<le> lo y"
    "\<forall>l\<in>set (take i rs). \<forall>y\<in>set (drop i rs). hi l < lo y"
    "length (take i rs) = i" "rset rs = rset (take i rs) \<union> rset (drop i rs)"
proof -
  have w: "wf_ranges (take i rs @ drop i rs)" using assms by simp
  then show "wf_ranges (take i rs)" "wf_ranges (drop i rs)"
    "\<forall>l\<in>set (take i rs). \<forall>y\<in>set (drop i rs). hi l < lo y"
    unfolding wf_append by blast+
  show "\<forall>l\<in>set (take i rs). lo l < lo r" "\<forall>y\<in>set (drop i rs). lo r \<le> lo y"
    using search_spec [OF assms(1)] assms(2) by (auto simp: set_conv_nth)
  show "length (take i rs) = i"
    using search_spec(1) [OF assms(1)] assms(2) by simp
  show "rset rs = rset (take i rs) \<union> rset (drop i rs)"
    by (metis append_take_drop_id rset_simps(3))
qed

lemma rbytes_empty: "IsEmpty r \<Longrightarrow> rbytes r = {}"
  by (simp add: IsEmpty_iff rbytes_def)

lemma Insert_spec:
  assumes wf: "wf_ranges rs" and r: "file_range r"
  shows "wf_ranges (Insert rs r) \<and> rset (Insert rs r) = rset rs \<union> rbytes r"
proof (cases "IsEmpty r \<or> rs = []")
  case True
  with assms show ?thesis
    by (auto simp: Insert_def rbytes_empty wf_Cons ok_range_iff)
next
  case False
  define i where "i = search rs r"
  have r: "ok_range r" using r False by (simp add: ok_range_iff)
  note H = search_halves [OF wf i_def]
  define L R where "L = take i rs" and "R = drop i rs"
  note H = H [folded L_def R_def]
  show ?thesis
  proof (cases R)
    case Nil
    then have L: "L = rs" "search rs r = length rs"
      using H(6) search_spec(1) [OF wf] by (auto simp: L_def R_def i_def)
    then have "Insert rs r = coalesce (L @ r # []) (length L)"
      using False by (simp add: Insert_def)
    with coalesce_spec [OF H(1) r, of "[]"] H Nil show ?thesis by (auto simp: less_imp_le)
  next
    case (Cons y ys)
    have rs: "rs = L @ y # ys"
      using Cons by (metis L_def R_def append_take_drop_id)
    with H(6) have i: "i < length rs" "rs ! i = y" "rs = L @ y # ys"
      by auto
    have td: "take i rs = L" "drop i rs = y # ys"
      using Cons by (simp_all add: L_def R_def)
    have y: "ok_range y" "lo r \<le> lo y" "wf_ranges ys" "\<forall>z\<in>set ys. hi y < lo z"
      using H(2,4) Cons by (auto simp: wf_Cons)
    show ?thesis
    proof (cases "hi r < lo y")
      case True
      have "Insert rs r = coalesce (L @ r # y # ys) (length L)"
        using False i(1,2) H(6) merge_gap [OF r y(1) True] td
        by (simp add: Insert_def i_def [symmetric] Let_def)
      with coalesce_spec [OF H(1) r, of "y # ys"] H Cons show ?thesis by (auto simp: less_imp_le)
    next
      case f: False
      then have t: "lo y \<le> hi r" by simp
      note h = merge_touch [OF r y(1,2) t]
      have upd: "rs[i := hull r y] = L @ hull r y # ys"
        using rs H(6) by auto
      have "Insert rs r = coalesce (L @ hull r y # ys) (length L)"
        using False i(1,2) H(6) h(1) upd
        by (simp add: Insert_def i_def [symmetric] Let_def)
      moreover have "\<forall>z\<in>set ys. lo (hull r y) \<le> lo z"
        using H(4) h Cons by fastforce
      moreover have "\<forall>l\<in>set L. lo l \<le> lo (hull r y)" using H(3) h by fastforce
      ultimately show ?thesis
        using coalesce_spec [OF H(1) ok_hull [OF r y(1,2) t] y(3)] H(5,7) Cons
          rbytes_hull [OF r y(1,2) t] by auto
    qed
  qed
qed

section \<open>The representation is canonical\<close>

lemma rset_bounds: "wf_ranges rs \<Longrightarrow> b \<in> rset rs \<Longrightarrow> 0 \<le> b \<and> b < max_int64"
  by (auto simp: rset_def rbytes_def dest!: wf_ok ok_rangeD)

lemma rset_above: "wf_ranges (x # xs) \<Longrightarrow> b \<in> rset xs \<Longrightarrow> hi x < b"
  by (auto simp: wf_Cons rset_def rbytes_def dest!: bspec)

lemma lo_in_rbytes: "ok_range r \<Longrightarrow> lo r \<in> rbytes r"
  by (simp add: ok_range_def rbytes_def)

lemma hi_gap: "wf_ranges (x # xs) \<Longrightarrow> hi x \<notin> rset (x # xs)"
  using rset_above by (fastforce simp: rbytes_def)

lemma rset_tail: "wf_ranges (x # xs) \<Longrightarrow> rset xs = rset (x # xs) - rbytes x"
  using rset_above by (fastforce simp: rbytes_def)

lemma wf_head_eq:
  assumes "wf_ranges (x # xs)" "wf_ranges (y # ys)" "rset (x # xs) = rset (y # ys)"
  shows "x = y"
proof -
  have "lo y \<le> lo x" if "wf_ranges (x # xs)" "wf_ranges (y # ys)" "rset (x # xs) = rset (y # ys)"
    for x y xs ys
  proof -
    have "lo x \<in> rset (y # ys)"
      using that lo_in_rbytes by (metis UnCI rset_simps(2) wf_Cons)
    with rset_above [OF that(2)] show ?thesis
      using that(2) by (fastforce simp: rbytes_def wf_Cons ok_range_def)
  qed
  with assms have lo: "lo x = lo y" by (metis order_antisym)
  have "hi x = hi y"
  proof (rule ccontr)
    assume "hi x \<noteq> hi y"
    then consider "hi x < hi y" | "hi y < hi x" by linarith
    then show False
      using hi_gap [OF assms(1)] hi_gap [OF assms(2)] assms lo
      by cases (auto simp: rbytes_def wf_Cons ok_range_def)
  qed
  with lo show ?thesis by (rule Range_eqI)
qed

lemma wf_ranges_unique: "wf_ranges rs \<Longrightarrow> wf_ranges ss \<Longrightarrow> rset rs = rset ss \<Longrightarrow> rs = ss"
proof (induction rs arbitrary: ss)
  case Nil
  then show ?case using lo_in_rbytes by (cases ss) (auto simp: wf_Cons)
next
  case (Cons x xs)
  then obtain y ys where ss: "ss = y # ys"
    using lo_in_rbytes by (cases ss) (auto simp: wf_Cons)
  then have "x = y" using Cons.prems wf_head_eq by blast
  moreover have "rset xs = rset ys"
    using Cons.prems ss \<open>x = y\<close> rset_tail by metis
  ultimately show ?case using Cons ss by (auto simp: wf_Cons)
qed

lemma Equal_iff: "Equal rs bs \<longleftrightarrow> rs = bs"
  by (auto simp: Equal_def list_all_iff intro: nth_equalityI)

section \<open>Size\<close>

lemma finite_rset [simp]: "finite (rset rs)"
  by (simp add: rset_def rbytes_def)

lemma card_rset:
  "wf_ranges rs \<Longrightarrow> int (card (rset rs)) = sum_list (map (\<lambda>r. hi r - lo r) rs)"
proof (induction rs)
  case (Cons x xs)
  then have "rbytes x \<inter> rset xs = {}"
    using rset_above by (fastforce simp: rbytes_def)
  then have "card (rset (x # xs)) = card (rbytes x) + card (rset xs)"
    by (simp add: card_Un_disjoint rbytes_def)
  moreover have "int (card (rbytes x)) = hi x - lo x"
    using Cons.prems by (simp add: rbytes_def wf_Cons ok_range_def)
  ultimately show ?case using Cons by (simp add: wf_Cons)
qed simp

lemma card_rset_bound: "wf_ranges rs \<Longrightarrow> int (card (rset rs)) \<le> max_int64"
proof -
  assume "wf_ranges rs"
  then have "rset rs \<subseteq> {0..<max_int64}" using rset_bounds by auto
  then have "card (rset rs) \<le> card {0..<max_int64}" by (rule card_mono [rotated]) simp
  then show ?thesis by simp
qed

lemma Ranges_Size_sum: "Ranges_Size rs = sum_list (map Size rs)"
proof -
  have "foldl (\<lambda>size r. size + Size r) a rs = a + sum_list (map Size rs)" for a
    by (induction rs arbitrary: a) (simp_all add: add.assoc)
  then show ?thesis by (simp add: Ranges_Size_def)
qed

lemma sint_Ranges_Size: "wf_ranges rs \<Longrightarrow> sint (Ranges_Size rs) = int (card (rset rs))"
  unfolding Ranges_Size_sum
proof (induction rs)
  case (Cons x xs)
  have b: "int (card (rset (x # xs))) \<le> max_int64"
    using Cons.prems by (rule card_rset_bound)
  have "int (card (rset (x # xs))) = (hi x - lo x) + int (card (rset xs))"
    using card_rset [OF Cons.prems] card_rset [of xs] Cons.prems by (simp add: wf_Cons)
  moreover have "sint (sum_list (map Size xs)) = int (card (rset xs))"
    using Cons by (simp add: wf_Cons)
  moreover have "0 \<le> hi x - lo x" using Cons.prems by (simp add: wf_Cons ok_range_def)
  ultimately show ?case
    using b by (simp add: sint_Size, subst sint_add64) (auto simp: sint_Size)
qed simp

end
