(* ===== verification/RangesFind.thy ===== *)
theory RangesFind
  imports Ranges
begin

text \<open>
  The queries of \<open>lib/ranges/ranges.go\<close>: \<open>Find\<close> and everything built on it (\<open>FindAll\<close>, \<open>Present\<close>,
  \<open>Intersection\<close>, \<open>FindMissing\<close>). Each is related to the set of bytes of a well-formed \<open>Ranges\<close>.
  \<open>FindAll\<close> and \<open>Intersection\<close> are loops over \<open>Find\<close>; they stop on every input, because a call of \<open>Find\<close>
  on a non-empty range leaves a strictly smaller rest.
\<close>

section \<open>Find\<close>

text \<open>The result is \<open>(cur, next, present)\<close>.\<close>

definition Find :: "Ranges \<Rightarrow> Range \<Rightarrow> Range \<times> Range \<times> bool" where
  "Find rs r =
     (if IsEmpty r then (r, NoRange, False)
      else let i = search rs r;
               before = (if 0 < i then Range_Intersection (rs ! (i - 1)) r else NoRange)
           in if 0 < i \<and> \<not> IsEmpty before
              then (before, \<lparr>Pos = End before, Size = Size r - Size before\<rparr>, True)
              else if length rs \<le> i then (r, NoRange, False)
              else let intersection = Range_Intersection (rs ! i) r
                   in if IsEmpty intersection then (r, NoRange, False)
                      else if Pos r <s Pos intersection
                      then let cur = \<lparr>Pos = Pos r, Size = Pos intersection - Pos r\<rparr>
                           in (cur, \<lparr>Pos = End cur, Size = Size r - Size cur\<rparr>, False)
                      else (intersection, \<lparr>Pos = End intersection, Size = Size r - Size intersection\<rparr>, True))"

text \<open>The loop measure: on any \<open>int64\<close> values at all, the rest is strictly smaller.\<close>

lemma Size_shrinks:
  assumes "0 < sint (Size r)" "0 < sint (s::int64)"
  shows "nat (sint (Size r - s)) < nat (sint (Size r))"
proof -
  have "sint (Size r - s) = sint (Size r) - sint s"
    using assms sint_range64 [of "Size r"] sint_range64 [of s] by (intro sint_sub64) auto
  with assms show ?thesis by simp
qed

lemma Range_Intersection_Pos:
  assumes "\<not> IsEmpty r" "\<not> IsEmpty (Range_Intersection b r)" "sint (Pos r) < sint (Pos (Range_Intersection b r))"
  shows "0 < sint (Pos (Range_Intersection b r) - Pos r)"
proof -
  let ?p = "Pos (Range_Intersection b r)"
  have eb: "?p = Pos b" "sint (Pos b) < sint (End r)"
    using assms by (auto simp: Range_Intersection_def NoRange_def IsEmpty_def Let_def i64 max64_def
        split: if_splits)
  have s: "0 < sint (Size r)" using assms(1) by (simp add: IsEmpty_def i64)
  have fit: "fits64 (sint (Pos r) + sint (Size r))"
  proof (rule ccontr)
    assume n: "\<not> fits64 (sint (Pos r) + sint (Size r))"
    with s have big: "max_int64 < sint (Pos r) + sint (Size r)"
      using sint_range64 [of "Pos r"] by (auto simp: fits64_def)
    have "sint (End r) = signed_take_bit 63 (sint (Pos r) + sint (Size r))"
      by (simp add: End_def sint_word_ariths)
    also have "\<dots> = signed_take_bit 63 (sint (Pos r) + sint (Size r) - 2 ^ 64)"
      by (simp add: signed_take_bit_eq_iff_take_bit_eq take_bit_eq_mod)
    also have "\<dots> = sint (Pos r) + sint (Size r) - 2 ^ 64"
      using big sint_range64 [of "Pos r"] sint_range64 [of "Size r"]
      by (intro signed_take_bit_fits) (auto simp: fits64_def)
    finally show False
      using eb assms(3) sint_range64 [of "Size r"] by simp
  qed
  then have "sint (End r) = sint (Pos r) + sint (Size r)"
    by (simp add: End_def sint_add64)
  then have "fits64 (sint ?p - sint (Pos r))"
    using eb assms(3) sint_range64 [of "Size r"] by (auto simp: fits64_def)
  then show ?thesis using assms(3) by (simp add: sint_sub64)
qed

lemma Find_shrinks:
  assumes "\<not> IsEmpty r" "Find rs r = (c, n, p)"
  shows "nat (sint (Size n)) < nat (sint (Size r))"
proof -
  have s: "0 < sint (Size r)" using assms(1) by (simp add: IsEmpty_def i64)
  show ?thesis
    using assms Size_shrinks [OF s] Range_Intersection_Pos [OF assms(1)] s
    by (auto simp: Find_def Let_def IsEmpty_def NoRange_def i64 split: if_splits)
qed

section \<open>The loops over Find\<close>

type_synonym FoundRange = "Range \<times> bool"

function FindAll :: "Ranges \<Rightarrow> Range \<Rightarrow> FoundRange list" where
  "FindAll rs r =
     (if IsEmpty r then []
      else case Find rs r of (cur, next', present) \<Rightarrow> (cur, present) # FindAll rs next')"
  by pat_completeness auto
termination
  by (relation "measure (\<lambda>(rs, r). nat (sint (Size r)))") (auto dest: Find_shrinks [OF _ sym])

declare FindAll.simps [simp del]

definition Present :: "Ranges \<Rightarrow> Range \<Rightarrow> bool" where
  "Present rs r =
     (if IsEmpty r then True
      else case Find rs r of (_, next', present) \<Rightarrow> if \<not> present then False else IsEmpty next')"

function Intersection_loop :: "Ranges \<Rightarrow> Range \<Rightarrow> Ranges \<Rightarrow> Ranges" where
  "Intersection_loop rs r newRs =
     (if IsEmpty r then newRs
      else case Find rs r of (cur, r', found) \<Rightarrow>
             Intersection_loop rs r' (if found then Insert newRs cur else newRs))"
  by pat_completeness auto
termination
  by (relation "measure (\<lambda>(rs, r, n). nat (sint (Size r)))") (auto dest: Find_shrinks [OF _ sym])

declare Intersection_loop.simps [simp del]

definition Ranges_Intersection :: "Ranges \<Rightarrow> Range \<Rightarrow> Ranges" where
  "Ranges_Intersection rs r = (if length rs = 0 then rs else Intersection_loop rs r [])"

definition FindMissing :: "Ranges \<Rightarrow> Range \<Rightarrow> Range" where
  "FindMissing rs r =
     (if IsEmpty r then r
      else case Find rs r of (cur, _, present) \<Rightarrow>
             if \<not> present then r
             else \<lparr>Pos = End cur, Size = Size r - (End cur - Pos r)\<rparr>)"

section \<open>What Find returns on a well-formed list\<close>

lemma Range_Intersection_spec:
  assumes "ok_range b" "ok_range r"
  shows "if max (lo b) (lo r) < min (hi b) (hi r)
         then lo (Range_Intersection b r) = max (lo b) (lo r)
            \<and> hi (Range_Intersection b r) = min (hi b) (hi r)
            \<and> ok_range (Range_Intersection b r)
         else Range_Intersection b r = NoRange"
proof -
  have S: "0 \<le> lo b" "lo b < hi b" "hi b \<le> max_int64" "0 \<le> lo r" "lo r < hi r" "hi r \<le> max_int64"
    using assms by (auto simp: ok_range_def)
  have E: "sint (End b) = hi b" "sint (End r) = hi r" using assms by (auto intro: sint_End_ok)
  have g: "(Pos r \<le>s Pos b \<and> Pos b <s End r) \<or> (Pos b \<le>s Pos r \<and> Pos r <s End b)
      \<longleftrightarrow> max (lo b) (lo r) < min (hi b) (hi r)"
    using S by (auto simp: i64 E sint_Pos)
  show ?thesis
  proof (cases "max (lo b) (lo r) < min (hi b) (hi r)")
    case True
    define m where "m = max64 (Pos b) (Pos r)"
    have I: "Range_Intersection b r = \<lparr>Pos = m, Size = min64 (End b) (End r) - m\<rparr>"
      using True g by (simp add: Range_Intersection_def m_def Let_def)
    have m: "sint m = max (lo b) (lo r)" by (simp add: m_def i64 sint_Pos)
    have "sint (min64 (End b) (End r) - m) = min (hi b) (hi r) - max (lo b) (lo r)"
      using True S by (subst sint_sub64) (auto simp: i64 E m fits64_def)
    with True m S show ?thesis
      by (auto simp: I lo_def hi_def [of "\<lparr>Pos = _, Size = _\<rparr>"] ok_range_def max_def min_def)
  next
    case False
    then show ?thesis using g by (auto simp: Range_Intersection_def)
  qed
qed

lemma NoRange_empty [simp]: "IsEmpty NoRange"
  by (simp add: IsEmpty_def NoRange_def)

text \<open>The rest of \<open>r\<close> behind a prefix that ends at \<open>hi c\<close>.\<close>

lemma rest_spec:
  assumes "ok_range r" "ok_range c" "lo c = lo r" "hi c \<le> hi r"
    and n: "n = \<lparr>Pos = End c, Size = Size r - Size c\<rparr>"
  shows "lo n = hi c" "hi n = hi r" "file_range n"
proof -
  have S: "0 \<le> lo r" "lo r < hi r" "hi r \<le> max_int64" "lo c < hi c"
    using assms(1,2) by (auto simp: ok_range_def)
  have "sint (Size r - Size c) = (hi r - lo r) - (hi c - lo c)"
    using S assms(3,4) by (subst sint_sub64) (auto simp: sint_Size)
  then show "lo n = hi c" "hi n = hi r" "file_range n"
    using sint_End_ok [OF assms(2)] S assms(3,4) by (auto simp: n lo_def hi_def file_range_def)
qed

text \<open>
  \<open>found rs r c n p\<close>: \<open>c\<close> is the longest prefix of \<open>r\<close> whose bytes are all present (\<open>p\<close>) or all absent,
  and \<open>n\<close> is the rest of \<open>r\<close>, empty when \<open>c\<close> reaches the end.
\<close>

definition found :: "Ranges \<Rightarrow> Range \<Rightarrow> Range \<Rightarrow> Range \<Rightarrow> bool \<Rightarrow> bool" where
  "found rs r c n p \<longleftrightarrow>
     ok_range c \<and> lo c = lo r \<and> hi c \<le> hi r
     \<and> (if p then rbytes c \<subseteq> rset rs else rbytes c \<inter> rset rs = {})
     \<and> (IsEmpty n \<longleftrightarrow> hi c = hi r)
     \<and> (\<not> IsEmpty n \<longrightarrow> lo n = hi c \<and> hi n = hi r \<and> file_range n \<and> (hi c \<in> rset rs \<longleftrightarrow> \<not> p))"

lemma found_present:
  assumes wf: "wf_ranges rs" and x: "x \<in> set rs" and r: "ok_range r"
    and xr: "lo x \<le> lo r" "lo r < hi x"
  shows "found rs r (Range_Intersection x r)
           \<lparr>Pos = End (Range_Intersection x r), Size = Size r - Size (Range_Intersection x r)\<rparr> True"
proof -
  have ox: "ok_range x" using wf x by (rule wf_ok)
  let ?c = "Range_Intersection x r"
  have "max (lo x) (lo r) < min (hi x) (hi r)"
    using xr ox r by (auto simp: ok_range_def)
  then have c: "lo ?c = lo r" "hi ?c = min (hi x) (hi r)" "ok_range ?c"
    using Range_Intersection_spec [OF ox r] xr by (auto simp: max_def)
  note n = rest_spec [OF r c(3) c(1) _ refl]
  have sub: "rbytes ?c \<subseteq> rset rs"
    unfolding rbytes_def rset_def using c xr x by (auto intro!: bexI [of _ x])
  have "hi x \<notin> rset rs"
  proof -
    obtain A B where rs: "rs = A @ x # B" using x by (meson split_list)
    have "hi x \<notin> rbytes a" if "a \<in> set A" for a
      using wf that ox unfolding rs by (auto simp: wf_append wf_Cons rbytes_def ok_range_def dest!: bspec)
    then show ?thesis
      using wf hi_gap unfolding rs wf_append by (auto simp: rset_def)
  qed
  then show ?thesis
    using c n sub by (auto simp: found_def IsEmpty_iff min_def split: if_splits)
qed

lemma not_in_rset_between:
  assumes "wf_ranges rs" "i = search rs r" "ok_range r"
    and "0 < i \<Longrightarrow> hi (rs ! (i - 1)) \<le> lo r" "i < length rs \<Longrightarrow> u \<le> lo (rs ! i)"
  shows "{lo r ..< u} \<inter> rset rs = {}"
proof -
  note H = search_halves [OF assms(1,2)]
  have "hi l \<le> lo r" if l: "l \<in> set (take i rs)" for l
  proof -
    from l obtain k where k: "k < i" "k < length rs" "l = rs ! k"
      by (auto simp: in_set_conv_nth)
    show ?thesis
    proof (cases "k = i - 1")
      case True
      then show ?thesis using k assms(4) by simp
    next
      case False
      then have "k < i - 1" "i - 1 < length rs" using k H(6) by auto
      then have "hi l < lo (rs ! (i - 1))"
        using assms(1) k by (auto simp: wf_ranges_def sorted_wrt_iff_nth_less)
      moreover have "lo (rs ! (i - 1)) < lo r"
        using search_spec(2) [OF assms(1), of "i - 1" r] k assms(2) by auto
      ultimately show ?thesis by simp
    qed
  qed
  moreover have "u \<le> lo y" if y: "y \<in> set (drop i rs)" for y
  proof -
    from y obtain k where k: "i \<le> k" "k < length rs" "y = rs ! k"
      by (auto simp: in_set_conv_nth) (metis le_add1 less_diff_conv add.commute)
    then show ?thesis
      using assms(5) wf_lo_mono [OF assms(1) k(1,2)] by auto
  qed
  ultimately show ?thesis
    unfolding H(7) by (fastforce simp: rset_def rbytes_def)
qed

lemma found_absent:
  assumes "ok_range r" "rbytes r \<inter> rset rs = {}"
  shows "found rs r r NoRange False"
  using assms by (simp add: found_def)

lemma found_gap:
  assumes r: "ok_range r" and u: "sint u \<in> rset rs" "lo r < sint u" "sint u < hi r"
    and g: "{lo r ..< sint u} \<inter> rset rs = {}"
    and c: "c = \<lparr>Pos = Pos r, Size = u - Pos r\<rparr>"
  shows "found rs r c \<lparr>Pos = End c, Size = Size r - Size c\<rparr> False"
proof -
  have S: "0 \<le> lo r" "hi r \<le> max_int64" using r by (auto simp: ok_range_def)
  have "sint (u - Pos r) = sint u - lo r"
    using S u by (subst sint_sub64) (auto simp: sint_Pos)
  then have b: "lo c = lo r" "hi c = sint u"
    by (simp_all add: c lo_def hi_def)
  then have "ok_range c" "hi c \<le> hi r" using S u by (auto simp: ok_range_def)
  with rest_spec [OF r _ b(1) _ refl] b u g show ?thesis
    by (simp add: found_def rbytes_def IsEmpty_iff)
qed

text \<open>The branches of \<open>Find\<close>, one equation each.\<close>

lemma Find_left:
  assumes "\<not> IsEmpty r" "i = search rs r" "I = Range_Intersection (rs ! (i - 1)) r"
    and "0 < i \<and> \<not> IsEmpty I"
  shows "Find rs r = (I, \<lparr>Pos = End I, Size = Size r - Size I\<rparr>, True)"
  using assms by (simp add: Find_def Let_def)

lemma Find_right:
  assumes "\<not> IsEmpty r" "i = search rs r" "I = Range_Intersection (rs ! i) r"
    and "\<not> (0 < i \<and> \<not> IsEmpty (Range_Intersection (rs ! (i - 1)) r))"
  shows "Find rs r =
    (if length rs \<le> i \<or> IsEmpty I then (r, NoRange, False)
     else if Pos r <s Pos I
     then let c = \<lparr>Pos = Pos r, Size = Pos I - Pos r\<rparr>
          in (c, \<lparr>Pos = End c, Size = Size r - Size c\<rparr>, False)
     else (I, \<lparr>Pos = End I, Size = Size r - Size I\<rparr>, True))"
  using assms by (cases "0 < i") (auto simp: Find_def Let_def)

lemma Find_found:
  assumes wf: "wf_ranges rs" and r: "ok_range r" and F: "Find rs r = (c, n, p)"
  shows "found rs r c n p"
proof -
  define i where "i = search rs r"
  note sp = search_spec [OF wf, where r = r, folded i_def]
  have ne: "\<not> IsEmpty r" using r by (rule ok_IsEmpty)
  let ?x = "rs ! (i - 1)" and ?y = "rs ! i"
  have inter: "IsEmpty (Range_Intersection b r) \<longleftrightarrow> \<not> max (lo b) (lo r) < min (hi b) (hi r)"
    if "b \<in> set rs" for b
    using Range_Intersection_spec [OF wf_ok [OF wf that] r] ok_IsEmpty by (auto split: if_splits)
  show ?thesis
  proof (cases "0 < i \<and> \<not> IsEmpty (Range_Intersection ?x r)")
    case True
    then have x: "?x \<in> set rs" "lo ?x < lo r" using sp(1) sp(2) [of "i - 1"] by auto
    with True inter [OF x(1)] found_present [OF wf x(1) r] F Find_left [OF ne i_def refl True]
    show ?thesis by auto
  next
    case left: False
    note FR = Find_right [OF ne i_def refl left]
    have prev: "hi ?x \<le> lo r" if "0 < i"
    proof -
      have x: "?x \<in> set rs" "lo ?x < lo r" using that sp(1) sp(2) [of "i - 1"] by auto
      with left that inter [OF x(1)] wf_ok [OF wf x(1)] r show ?thesis by (auto simp: ok_range_def)
    qed
    show ?thesis
    proof (cases "i < length rs \<and> \<not> IsEmpty (Range_Intersection ?y r)")
      case True
      then have y: "?y \<in> set rs" "lo r \<le> lo ?y" using sp(3) [of i] by auto
      note I = Range_Intersection_spec [OF wf_ok [OF wf y(1)] r]
      have ov: "max (lo ?y) (lo r) < min (hi ?y) (hi r)" using True inter [OF y(1)] by simp
      show ?thesis
      proof (cases "lo r < lo ?y")
        case lt: True
        define u where "u = Pos (Range_Intersection ?y r)"
        have u: "sint u = lo ?y" using I ov y(2) by (simp add: u_def sint_Pos)
        have "lo ?y \<in> rset rs" using y(1) lo_in_rbytes wf_ok [OF wf y(1)] by (auto simp: rset_def)
        then have "sint u \<in> rset rs" "lo r < sint u" "sint u < hi r"
          using u lt ov by auto
        moreover have "{lo r ..< sint u} \<inter> rset rs = {}"
          using not_in_rset_between [OF wf i_def r prev, of "sint u"] u by simp
        moreover have "c = \<lparr>Pos = Pos r, Size = u - Pos r\<rparr>" "\<not> p"
          "n = \<lparr>Pos = End c, Size = Size r - Size c\<rparr>"
          using F FR True lt u by (auto simp: i64 sint_Pos u_def Let_def)
        ultimately show ?thesis using found_gap [OF r] by simp
      next
        case False
        with y have eq: "lo ?y = lo r" by simp
        then have "found rs r (Range_Intersection ?y r) \<lparr>Pos = End (Range_Intersection ?y r),
            Size = Size r - Size (Range_Intersection ?y r)\<rparr> True"
          using found_present [OF wf y(1) r] ov by simp
        then show ?thesis
          using F FR True I ov eq by (auto simp: i64 sint_Pos)
      qed
    next
      case False
      have "i < length rs \<Longrightarrow> hi r \<le> lo ?y"
        using False inter [of ?y] wf_ok [OF wf, of ?y] r sp(3) [of i]
        by (fastforce simp: ok_range_def)
      then have "rbytes r \<inter> rset rs = {}"
        using not_in_rset_between [OF wf i_def r prev, of "hi r"] by (simp add: rbytes_def)
      moreover have "c = r" "n = NoRange" "\<not> p"
        using F FR False by auto
      ultimately show ?thesis using found_absent [OF r] by simp
    qed
  qed
qed

lemma foundD:
  assumes "found rs r c n p"
  shows "ok_range c" "lo c = lo r" "hi c \<le> hi r" "IsEmpty n \<longleftrightarrow> hi c = hi r"
    and "lo r \<in> rset rs \<longleftrightarrow> p"
    and "hi c < hi r \<Longrightarrow> lo n = hi c \<and> hi n = hi r \<and> ok_range n \<and> (hi c \<in> rset rs \<longleftrightarrow> \<not> p)"
  using assms lo_in_rbytes [of c]
  by (auto simp: found_def ok_range_iff split: if_splits)

section \<open>Present, FindMissing, Intersection, FindAll\<close>

lemma Present_iff:
  assumes "wf_ranges rs" "file_range r"
  shows "Present rs r \<longleftrightarrow> rbytes r \<subseteq> rset rs"
proof (cases "IsEmpty r")
  case True
  then show ?thesis by (simp add: Present_def rbytes_empty)
next
  case False
  with assms have r: "ok_range r" by (simp add: ok_range_iff)
  obtain c n p where F: "Find rs r = (c, n, p)" by (metis prod_cases3)
  note f = Find_found [OF assms(1) r F]
  note d = foundD [OF f]
  have "\<not> rbytes r \<subseteq> rset rs" if "\<not> p"
    using that d(5) lo_in_rbytes [OF r] by auto
  moreover have "\<not> rbytes r \<subseteq> rset rs" if "p" "hi c \<noteq> hi r"
  proof -
    have "hi c \<in> rbytes r" "hi c \<notin> rset rs"
      using that d by (auto simp: rbytes_def ok_range_def)
    then show ?thesis by blast
  qed
  moreover have "rbytes r \<subseteq> rset rs" if "p" "hi c = hi r"
    using that d(2) f by (auto simp: found_def rbytes_def)
  ultimately show ?thesis
    using F False d(4) by (auto simp: Present_def)
qed

lemma FindMissing_spec:
  assumes "wf_ranges rs" "file_range r" "\<not> IsEmpty r" "m = FindMissing rs r"
  shows "hi m = hi r" "lo r \<le> lo m" "lo m \<le> hi r" "{lo r ..< lo m} \<subseteq> rset rs"
    "lo m < hi r \<Longrightarrow> lo m \<notin> rset rs"
proof -
  from assms have r: "ok_range r" by (simp add: ok_range_iff)
  obtain c n p where F: "Find rs r = (c, n, p)" by (metis prod_cases3)
  note f = Find_found [OF assms(1) r F]
  note d = foundD [OF f]
  have S: "0 \<le> lo r" "lo r < hi r" "hi r \<le> max_int64" "lo c < hi c"
    using r d(1) by (auto simp: ok_range_def)
  have E: "sint (End c) = hi c" using d(1) by (rule sint_End_ok)
  have "sint (Size r - (End c - Pos r)) = hi r - hi c"
  proof -
    have "sint (End c - Pos r) = hi c - lo r"
      using S d(2,3) by (subst sint_sub64) (auto simp: E sint_Pos)
    then show ?thesis using S d(2,3) by (subst sint_sub64) (auto simp: sint_Size)
  qed
  then have m: "if p then lo m = hi c \<and> hi m = hi r else m = r"
    using F assms(3,4) E by (auto simp: FindMissing_def lo_def hi_def)
  have "rbytes c \<subseteq> rset rs" if p using f that by (simp add: found_def)
  then show "hi m = hi r" "lo r \<le> lo m" "lo m \<le> hi r" "{lo r ..< lo m} \<subseteq> rset rs"
    "lo m < hi r \<Longrightarrow> lo m \<notin> rset rs"
    using m d S by (auto simp: rbytes_def split: if_splits)
qed

lemma Intersection_loop_spec:
  "wf_ranges rs \<Longrightarrow> wf_ranges new \<Longrightarrow> file_range r \<Longrightarrow>
   wf_ranges (Intersection_loop rs r new)
   \<and> rset (Intersection_loop rs r new) = rset new \<union> (rbytes r \<inter> rset rs)"
proof (induction rs r new rule: Intersection_loop.induct)
  case (1 rs r new)
  show ?case
  proof (cases "IsEmpty r")
    case True
    then show ?thesis using 1 by (simp add: Intersection_loop.simps [of rs r] rbytes_empty)
  next
    case False
    with 1 have r: "ok_range r" by (simp add: ok_range_iff)
    obtain c n p where F: "Find rs r = (c, n, p)" by (metis prod_cases3)
    note f = Find_found [OF 1(2) r F]
    note d = foundD [OF f]
    define new' where "new' = (if p then Insert new c else new)"
    have new': "wf_ranges new'" "rset new' = rset new \<union> (rbytes c \<inter> rset rs)"
      using Insert_spec [OF 1(3) ok_file_range [OF d(1)]] 1(3) f
      by (auto simp: new'_def found_def split: if_splits)
    have eq: "Intersection_loop rs r new = Intersection_loop rs n new'"
      using False F by (simp add: Intersection_loop.simps [of rs r] new'_def)
    show ?thesis
    proof (cases "hi c = hi r")
      case True
      then have "Intersection_loop rs n new' = new'"
        using d(4) by (simp add: Intersection_loop.simps [of rs n])
      moreover have "rbytes c = rbytes r" using True d(2) by (simp add: rbytes_def)
      ultimately show ?thesis using eq new' by simp
    next
      case lt: False
      with d(3,6) have n: "lo n = hi c" "hi n = hi r" "ok_range n" by auto
      have "rbytes r = rbytes c \<union> rbytes n"
        using n d(1-3) by (auto simp: rbytes_def ok_range_def)
      moreover have "wf_ranges (Intersection_loop rs n new') \<and>
          rset (Intersection_loop rs n new') = rset new' \<union> (rbytes n \<inter> rset rs)"
        using 1(1) [OF False F [symmetric] refl] 1(2) new'(1) ok_file_range [OF n(3)]
        by (simp add: new'_def)
      ultimately show ?thesis using eq new' by auto
    qed
  qed
qed

lemma Ranges_Intersection_spec:
  assumes "wf_ranges rs" "file_range r"
  shows "wf_ranges (Ranges_Intersection rs r)"
    and "rset (Ranges_Intersection rs r) = rset rs \<inter> rbytes r"
  using Intersection_loop_spec [OF assms(1) wf_Nil assms(2)]
  by (auto simp: Ranges_Intersection_def)

text \<open>
  \<open>tiles rs a b frs\<close>: the elements of \<open>frs\<close> cover \<open>[a, b)\<close> in order and without gaps, each is non-empty
  and correctly marked, and marks alternate (so no element could be extended).
\<close>

fun tiles :: "Ranges \<Rightarrow> int \<Rightarrow> int \<Rightarrow> FoundRange list \<Rightarrow> bool" where
  "tiles rs a b [] \<longleftrightarrow> b \<le> a"
| "tiles rs a b ((c, p) # frs) \<longleftrightarrow>
     lo c = a \<and> ok_range c \<and> hi c \<le> b
     \<and> (if p then rbytes c \<subseteq> rset rs else rbytes c \<inter> rset rs = {})
     \<and> (case frs of [] \<Rightarrow> True | (d, q) # _ \<Rightarrow> q = (\<not> p))
     \<and> tiles rs (hi c) b frs"

lemma FindAll_tiles: "wf_ranges rs \<Longrightarrow> file_range r \<Longrightarrow> tiles rs (lo r) (hi r) (FindAll rs r)"
proof (induction rs r rule: FindAll.induct)
  case (1 rs r)
  show ?case
  proof (cases "IsEmpty r")
    case True
    then show ?thesis by (simp add: FindAll.simps [of rs r] IsEmpty_iff)
  next
    case False
    with 1 have r: "ok_range r" by (simp add: ok_range_iff)
    obtain c n p where F: "Find rs r = (c, n, p)" by (metis prod_cases3)
    note f = Find_found [OF 1(2) r F]
    note d = foundD [OF f]
    have eq: "FindAll rs r = (c, p) # FindAll rs n"
      using False F by (simp add: FindAll.simps [of rs r])
    show ?thesis
    proof (cases "hi c = hi r")
      case True
      then have "FindAll rs n = []" using d(4) by (simp add: FindAll.simps [of rs n])
      with True eq f show ?thesis by (simp add: found_def)
    next
      case lt: False
      with d(3,6) have n: "lo n = hi c" "hi n = hi r" "ok_range n" "hi c \<in> rset rs \<longleftrightarrow> \<not> p" by auto
      have t: "tiles rs (hi c) (hi r) (FindAll rs n)"
        using 1(1) [OF False F [symmetric] refl] 1(2) ok_file_range [OF n(3)] n by simp
      obtain c' n' p' where F': "Find rs n = (c', n', p')" by (metis prod_cases3)
      then have "FindAll rs n = (c', p') # FindAll rs n'" "p' \<longleftrightarrow> lo n \<in> rset rs"
        using ok_IsEmpty [OF n(3)] foundD(5) [OF Find_found [OF 1(2) n(3) F']]
        by (simp_all add: FindAll.simps [of rs n])
      with n t eq f show ?thesis by (simp add: found_def)
    qed
  qed
qed

section \<open>Clip\<close>

lemma Clip_spec:
  assumes "file_range r" "lo r \<le> hi r" "0 \<le> sint off"
  shows "file_range (Clip r off)" "rbytes (Clip r off) = rbytes r \<inter> {..< sint off}"
    "hi (Clip r off) \<le> sint off"
proof -
  have S: "0 \<le> lo r" "hi r \<le> max_int64" using assms(1) by (auto simp: file_range_def)
  have E: "sint (End r) = hi r" using assms S by (intro sint_End) auto
  have "sint (Size r - (End r - off)) = sint off - lo r"
  proof -
    have "sint (End r - off) = hi r - sint off"
      using S assms sint_range64 [of off] by (subst sint_sub64) (auto simp: E)
    then show ?thesis using S assms sint_range64 [of off] by (subst sint_sub64) (auto simp: sint_Size)
  qed
  then have c: "Clip r off = r \<and> hi r \<le> sint off
      \<or> Clip r off = \<lparr>Pos = 0, Size = 0\<rparr> \<and> sint off < lo r
      \<or> lo (Clip r off) = lo r \<and> hi (Clip r off) = sint off \<and> lo r \<le> sint off \<and> sint off < hi r"
    by (auto simp: Clip_def Let_def i64 E lo_def hi_def)
  show "file_range (Clip r off)" "rbytes (Clip r off) = rbytes r \<inter> {..< sint off}"
    "hi (Clip r off) \<le> sint off"
    using c S assms by (auto simp: file_range_def rbytes_def lo_def [of "\<lparr>Pos = 0, Size = 0\<rparr>"]
        hi_def [of "\<lparr>Pos = 0, Size = 0\<rparr>"])
qed

section \<open>The interface of a set of byte ranges\<close>

text \<open>
  What the cache item relies on: inserting adds exactly the bytes of the range, \<open>present\<close> decides
  inclusion, and \<open>missing\<close> cuts off a prefix that is all there. The client's lemmas follow from these laws.
\<close>

locale byte_ranges =
  fixes ins :: "'s \<Rightarrow> Range \<Rightarrow> 's"
    and present :: "'s \<Rightarrow> Range \<Rightarrow> bool"
    and missing :: "'s \<Rightarrow> Range \<Rightarrow> Range"
    and wf :: "'s \<Rightarrow> bool"
    and bytes :: "'s \<Rightarrow> int set"
  assumes ins_wf: "wf s \<Longrightarrow> file_range r \<Longrightarrow> wf (ins s r)"
    and ins_bytes: "wf s \<Longrightarrow> file_range r \<Longrightarrow> bytes (ins s r) = bytes s \<union> rbytes r"
    and present_law: "wf s \<Longrightarrow> file_range r \<Longrightarrow> present s r \<longleftrightarrow> rbytes r \<subseteq> bytes s"
    and missing_hi: "wf s \<Longrightarrow> file_range r \<Longrightarrow> hi (missing s r) = hi r"
    and missing_skips: "wf s \<Longrightarrow> file_range r \<Longrightarrow>
      lo r \<le> lo (missing s r) \<and> {lo r ..< lo (missing s r)} \<subseteq> bytes s"
    and missing_first: "wf s \<Longrightarrow> file_range r \<Longrightarrow> lo (missing s r) < hi r \<Longrightarrow>
      lo (missing s r) \<notin> bytes s"
begin

lemma ins_all:
  "wf s \<Longrightarrow> list_all file_range rs \<Longrightarrow>
   wf (foldl ins s rs) \<and> bytes (foldl ins s rs) = bytes s \<union> (\<Union>r \<in> set rs. rbytes r)"
  by (induction rs arbitrary: s) (auto simp: ins_wf ins_bytes)

lemma present_ins:
  assumes "wf s" "file_range r"
  shows "present (ins s r) r"
  using assms by (simp add: present_law ins_wf ins_bytes)

lemma present_ins_mono:
  assumes "wf s" "file_range r" "file_range q" "present s q"
  shows "present (ins s r) q"
  using assms by (auto simp: present_law ins_wf ins_bytes)

lemma missing_file_range:
  assumes "wf s" "file_range r"
  shows "file_range (missing s r)"
  using missing_hi [OF assms] missing_skips [OF assms] assms(2) by (auto simp: file_range_def)

lemma present_iff_missing_empty:
  assumes "wf s" "file_range r"
  shows "present s r \<longleftrightarrow> IsEmpty (missing s r)"
proof -
  have m: "hi (missing s r) = hi r" "lo r \<le> lo (missing s r)"
    "{lo r ..< lo (missing s r)} \<subseteq> bytes s"
    "lo (missing s r) < hi r \<longrightarrow> lo (missing s r) \<notin> bytes s"
    using missing_hi [OF assms] missing_skips [OF assms] missing_first [OF assms] by auto
  show ?thesis
  proof (cases "lo (missing s r) < hi r")
    case True
    then show ?thesis using m by (auto simp: present_law [OF assms] IsEmpty_iff rbytes_def subset_iff)
  next
    case False
    then have "rbytes r \<subseteq> {lo r ..< lo (missing s r)}" by (auto simp: rbytes_def)
    then show ?thesis using m False by (auto simp: present_law [OF assms] IsEmpty_iff)
  qed
qed

text \<open>Filling what \<open>missing\<close> reports makes the whole range present.\<close>

lemma fill_missing:
  assumes "wf s" "file_range r"
  shows "present (ins s (missing s r)) r"
proof -
  have "rbytes r \<subseteq> {lo r ..< lo (missing s r)} \<union> rbytes (missing s r)"
    using missing_hi [OF assms] by (auto simp: rbytes_def)
  then show ?thesis
    using missing_skips [OF assms] missing_file_range [OF assms] assms
    by (auto simp: present_law ins_wf ins_bytes)
qed

end

lemma FindMissing_empty: "IsEmpty r \<Longrightarrow> FindMissing rs r = r"
  by (simp add: FindMissing_def)

interpretation rgs: byte_ranges Insert Present FindMissing wf_ranges rset
proof unfold_locales
  fix rs r assume a: "wf_ranges rs" "file_range r"
  show "wf_ranges (Insert rs r)" "rset (Insert rs r) = rset rs \<union> rbytes r"
    using Insert_spec [OF a] by auto
  show "Present rs r \<longleftrightarrow> rbytes r \<subseteq> rset rs" using Present_iff [OF a] .
  note m = FindMissing_spec [OF a _ refl]
  show "hi (FindMissing rs r) = hi r"
    using m(1) by (cases "IsEmpty r") (auto simp: FindMissing_empty)
  show "lo r \<le> lo (FindMissing rs r) \<and> {lo r ..< lo (FindMissing rs r)} \<subseteq> rset rs"
    using m(2,4) by (cases "IsEmpty r") (auto simp: FindMissing_empty)
  show "lo (FindMissing rs r) \<notin> rset rs" if "lo (FindMissing rs r) < hi r"
    using m(5) that by (cases "IsEmpty r") (auto simp: FindMissing_empty IsEmpty_iff)
qed

section \<open>Properties\<close>

text \<open>C1: \<open>Insert\<close> keeps the list sorted, disjoint and coalesced, and adds exactly the bytes of the
  inserted range, for every range whose bytes have non-negative \<open>int64\<close> positions.\<close>

theorem Insert_exact:
  assumes "wf_ranges rs" "file_range r"
  shows "wf_ranges (Insert rs r) \<and> rset (Insert rs r) = rset rs \<union> rbytes r"
  using assms by (rule Insert_spec)

abbreviation rg :: "int64 \<Rightarrow> int64 \<Rightarrow> Range" where
  "rg p s \<equiv> \<lparr>Pos = p, Size = s\<rparr>"

lemmas range_eval = wf_ranges_def ok_range_def file_range_def lo_def hi_def rbytes_def rset_def

lemma Insert_exact_witness:
  "wf_ranges (Insert [rg 1 2, rg 5 1] (rg 3 2))
   \<and> rset (Insert [rg 1 2, rg 5 1] (rg 3 2)) = {1, 2, 3, 4, 5}"
  using Insert_exact [of "[rg 1 2, rg 5 1]" "rg 3 2"]
  by (simp add: range_eval int_interval) (simp add: insert_commute)

text \<open>C11: The list depends only on the set of bytes: two sequences of insertions that cover the
  same bytes, in any order and with any overlaps, end in the same list.\<close>

theorem Insert_canonical:
  assumes "list_all file_range rs" "list_all file_range qs"
    and "(\<Union>r \<in> set rs. rbytes r) = (\<Union>r \<in> set qs. rbytes r)"
  shows "foldl Insert [] rs = foldl Insert [] qs"
  using rgs.ins_all [OF wf_Nil assms(1)] rgs.ins_all [OF wf_Nil assms(2)] assms(3)
  by (intro wf_ranges_unique) auto

lemma Insert_canonical_witness:
  "foldl Insert [] [rg 0 2, rg 6 1, rg 1 5] = foldl Insert [] [rg 2 5, rg 0 2]"
  by (rule Insert_canonical) (simp_all add: range_eval int_interval insert_commute)

text \<open>C12: \<open>FindAll\<close> cuts the queried range into consecutive non-empty pieces without gaps or overlaps,
  each marked present exactly when all its bytes are and absent exactly when none is, alternately.\<close>

theorem FindAll_exact:
  assumes "wf_ranges rs" "file_range r"
  shows "tiles rs (lo r) (hi r) (FindAll rs r)"
  using assms by (rule FindAll_tiles)

lemma FindAll_exact_witness:
  "tiles [rg 1 2, rg 5 1] 0 9 (FindAll [rg 1 2, rg 5 1] (rg 0 9))"
  using FindAll_exact [of "[rg 1 2, rg 5 1]" "rg 0 9"] by (simp add: range_eval)

text \<open>C13: \<open>FindMissing\<close> cuts from the queried range the longest prefix that is present: the
  rest ends where the range ends, everything before it is present, its first byte is not, and it is
  empty exactly when \<open>Present\<close> holds, which is when all bytes of the range are there.\<close>

theorem FindMissing_exact:
  assumes "wf_ranges rs" "file_range r"
  shows "hi (FindMissing rs r) = hi r
    \<and> {lo r ..< lo (FindMissing rs r)} \<subseteq> rset rs
    \<and> (lo (FindMissing rs r) < hi r \<longrightarrow> lo (FindMissing rs r) \<notin> rset rs)
    \<and> (IsEmpty (FindMissing rs r) \<longleftrightarrow> Present rs r)
    \<and> (Present rs r \<longleftrightarrow> rbytes r \<subseteq> rset rs)"
  using rgs.missing_hi [OF assms] rgs.missing_skips [OF assms] rgs.missing_first [OF assms]
    rgs.present_iff_missing_empty [OF assms] rgs.present_law [OF assms]
  by blast

lemma FindMissing_exact_witness:
  "hi (FindMissing [rg 1 2, rg 5 1] (rg 2 9)) = 11 \<and> \<not> Present [rg 1 2, rg 5 1] (rg 2 9)"
proof -
  have "wf_ranges [rg 1 2, rg 5 1]" "file_range (rg 2 9)" by (simp_all add: range_eval)
  note m = FindMissing_exact [OF this]
  have "10 \<in> rbytes (rg 2 9)" "10 \<notin> rset [rg 1 2, rg 5 1]" by (simp_all add: range_eval)
  with m show ?thesis by (auto simp: hi_def)
qed

text \<open>\<open>Intersection\<close> returns, well formed, exactly the present bytes of the queried range; a
  range that sticks out of a stored one is cut, not left out.\<close>

theorem Intersection_exact:
  assumes "wf_ranges rs" "file_range r"
  shows "wf_ranges (Ranges_Intersection rs r) \<and> rset (Ranges_Intersection rs r) = rset rs \<inter> rbytes r"
  using Ranges_Intersection_spec [OF assms] by blast

lemma Intersection_exact_witness:
  "rset (Ranges_Intersection [rg 1 4, rg 7 2] (rg 3 5)) = {3, 4, 7}"
  using Intersection_exact [of "[rg 1 4, rg 7 2]" "rg 3 5"]
  by (simp add: range_eval int_interval)

text \<open>The wrapping sum computed by \<open>Size\<close> is the number of bytes in the list, and \<open>Equal\<close> decides
  whether two lists hold the same bytes.\<close>

theorem Size_exact:
  assumes "wf_ranges rs" "wf_ranges qs"
  shows "sint (Ranges_Size rs) = int (card (rset rs)) \<and> (Equal rs qs \<longleftrightarrow> rset rs = rset qs)"
  using sint_Ranges_Size [OF assms(1)] wf_ranges_unique [OF assms] by (auto simp: Equal_iff)

lemma Size_exact_witness:
  "sint (Ranges_Size [rg 1 2, rg 5 1]) = int (card {1, 2, 5 :: int})
   \<and> \<not> Equal [rg 1 2, rg 5 1] [rg 1 2]"
proof -
  have "wf_ranges [rg 1 2, rg 5 1]" "wf_ranges [rg 1 2]" by (simp_all add: range_eval)
  note s = Size_exact [OF this]
  have "rset [rg 1 2, rg 5 1] = {1, 2, 5}" "rset [rg 1 2] = {1, 2}"
    by (simp_all add: range_eval int_interval insert_commute)
  with s show ?thesis by (simp add: insert_eq_iff)
qed

text \<open>\<open>Clip\<close> keeps exactly the bytes below the offset, also where the range lies entirely behind it.\<close>

theorem Clip_exact:
  assumes "file_range r" "lo r \<le> hi r" "0 \<le> sint off"
  shows "file_range (Clip r off) \<and> rbytes (Clip r off) = rbytes r \<inter> {..< sint off}"
  using Clip_spec [OF assms] by blast

lemma Clip_exact_witness: "rbytes (Clip (rg 3 5) 6) = {3, 4, 5} \<and> rbytes (Clip (rg 3 5) 2) = {}"
  using Clip_exact [of "rg 3 5" 6] Clip_exact [of "rg 3 5" 2]
  by (simp add: range_eval int_interval)

end
