(* ===== verification/GoIO.thy ===== *)
theory GoIO
  imports Prelude
begin

text \<open>
  The parts of Go's \<open>io\<close>, \<open>errors\<close> and \<open>fmt\<close> the repository relies on (error values and wrapping,
  \<open>io.ReadFull\<close>, decimal printing), and the repository's \<open>types.RemoteObject\<close> and
  \<open>types.RangeOption\<close> (\<open>internal/types/remote.go\<close>).
\<close>

section \<open>Time\<close>

text \<open>A \<open>time.Time\<close> in nanoseconds; 0 is Go's zero time (\<open>IsZero\<close>). A \<open>time.Duration\<close> is an \<open>int64\<close>.\<close>

type_synonym time = int

section \<open>Error values\<close>

text \<open>
  Sentinel errors are constructors, so \<open>err == io.EOF\<close> is equality; \<open>Wrap c e\<close> is
  \<open>fmt.Errorf("c: %w", e)\<close>; \<open>Other s\<close> is any other error with text \<open>s\<close>. A Go result \<open>error\<close> is a
  \<open>go_err option\<close>, \<open>None\<close> for nil.
\<close>

datatype go_err =
    EOF | ErrUnexpectedEOF | ErrClosed | ErrNotExist | ErrExist | ErrPermission | ErrInvalid
  | ENOSYS | ENOSPC | ErrorFileClosed | ErrorInvalidSeek | ErrorIDNotFound | Canceled
  | Other string | Wrap string go_err

text \<open>\<open>errors.Is(err, target)\<close>: the target somewhere along the chain of wrapped errors.\<close>

fun errors_Is :: "go_err \<Rightarrow> go_err \<Rightarrow> bool" where
  "errors_Is (Wrap c e) target \<longleftrightarrow> Wrap c e = target \<or> errors_Is e target"
| "errors_Is e target \<longleftrightarrow> e = target"

section \<open>Readers\<close>

text \<open>
  An open \<open>io.ReadCloser\<close>: the bytes it still delivers, the error that follows them (\<open>EOF\<close> for a
  stream that ends), what \<open>Close\<close> returns, and, when the reader also implements \<open>RangeSeeker\<close>, its
  \<open>RangeSeek(ctx, offset, io.SeekStart, length)\<close>. How the bytes are split over calls of \<open>Read\<close> does not
  show through \<open>io.ReadFull\<close>.
\<close>

datatype reader = Reader (rdata: "byte list") (rfin: go_err) (rclose: "go_err option")
  (rseek: "(int64 \<Rightarrow> int64 \<Rightarrow> int64 \<times> go_err option \<times> reader) option")

text \<open>\<open>io.ReadFull(rd, buf)\<close> with \<open>len(buf) = n\<close>: the bytes read, the error and the reader afterwards.\<close>

definition ReadFull :: "reader \<Rightarrow> nat \<Rightarrow> byte list \<times> go_err option \<times> reader" where
  "ReadFull rd n =
     (let d = rdata rd; got = take n d; rd' = Reader (drop n d) (rfin rd) (rclose rd) (rseek rd)
      in if n \<le> length d then (got, None, rd')
         else (got, Some (if rfin rd = EOF \<and> d \<noteq> [] then ErrUnexpectedEOF else rfin rd), rd'))"

lemma ReadFull_enough:
  "n \<le> length (rdata rd) \<Longrightarrow>
   ReadFull rd n = (take n (rdata rd), None, Reader (drop n (rdata rd)) (rfin rd) (rclose rd) (rseek rd))"
  by (simp add: ReadFull_def Let_def)

lemma ReadFull_short:
  "length (rdata rd) < n \<Longrightarrow>
   ReadFull rd n = (rdata rd,
     Some (if rfin rd = EOF \<and> rdata rd \<noteq> [] then ErrUnexpectedEOF else rfin rd),
     Reader [] (rfin rd) (rclose rd) (rseek rd))"
  by (simp add: ReadFull_def Let_def)

section \<open>Decimal integers\<close>

fun show_nat :: "nat \<Rightarrow> string" where
  "show_nat n =
     (if n < 10 then [char_of (48 + n)] else show_nat (n div 10) @ [char_of (48 + n mod 10)])"

declare show_nat.simps [simp del]

text \<open>The verb \<open>%d\<close>.\<close>

definition show_int :: "int64 \<Rightarrow> string" where
  "show_int w = (if w <s 0 then CHR ''-'' # show_nat (nat (- sint w)) else show_nat (nat (sint w)))"

section \<open>types.RangeOption and types.RemoteObject\<close>

record RangeOption =
  Start :: int64
  EndOpt :: int64

definition Header :: "RangeOption \<Rightarrow> string \<times> string" where
  "Header opt =
     (if EndOpt opt <s 0 then (''Range'', ''bytes='' @ show_int (Start opt) @ ''-'')
      else (''Range'', ''bytes='' @ show_int (Start opt) @ ''-'' @ show_int (EndOpt opt)))"

text \<open>
  An object behind the interface \<open>RemoteObject\<close>. \<open>Open\<close> talks to the network, so its answer may change
  from call to call: \<open>obj_open k\<close> is the answer to the \<open>k\<close>-th call, for any function \<open>obj_open\<close>.
\<close>

record RemoteObject =
  obj_size :: int64
  obj_open :: "nat \<Rightarrow> RangeOption option \<Rightarrow> go_err + reader"

text \<open>
  The documented behaviour of a server that supports byte ranges (RFC 9110, section 14): a request for
  a range that starts inside the content is answered with the requested bytes, cut at the end.
\<close>

definition serves :: "RemoteObject \<Rightarrow> byte list \<Rightarrow> bool" where
  "serves obj content \<longleftrightarrow>
     int (length content) \<le> max_int64 \<and> obj_size obj = word_of_nat (length content)
     \<and> (\<forall>k. obj_open obj k None = Inr (Reader content EOF None None))
     \<and> (\<forall>k opt. 0 \<le> sint (Start opt) \<longrightarrow> sint (Start opt) < int (length content) \<longrightarrow>
          EndOpt opt <s 0 \<or> sint (Start opt) \<le> sint (EndOpt opt) \<longrightarrow>
          obj_open obj k (Some opt) = Inr (Reader
             (let rest = drop (nat (sint (Start opt))) content
              in if EndOpt opt <s 0 then rest
                 else take (nat (sint (EndOpt opt) - sint (Start opt) + 1)) rest) EOF None None))"

end
