(* ===== verification/Sequential.thy ===== *)
theory Sequential
  imports GoIO
begin

text \<open>
  The sequential chunked reader of \<open>internal/chunkedreader/sequential.go\<close> and the normalisation of its
  parameters in \<open>New\<close> (\<open>chunkedreader.go\<close>). A reader opens its source chunk by chunk, doubles the chunk
  size after each chunk it has read completely, and reopens after a seek. The state record has the
  fields of the Go struct; \<open>opens\<close> counts the calls of the source's \<open>Open\<close>, so that each call may be
  answered differently. A panic is the result \<open>None\<close>.
\<close>

section \<open>The model\<close>

record sequential =
  obj :: RemoteObject
  opens :: nat
  rc :: "reader option"
  offset :: int64
  chunkOffset :: int64
  chunkSize :: int64
  initialChunkSize :: int64
  maxChunkSize :: int64
  customChunkSize :: bool
  closed :: bool

datatype whence = SeekStart | SeekCurrent | SeekEnd

definition newSequential :: "RemoteObject \<Rightarrow> int64 \<Rightarrow> int64 \<Rightarrow> sequential" where
  "newSequential ob initial maxc =
     \<lparr>obj = ob, opens = 0, rc = None, offset = -1, chunkOffset = 0, chunkSize = initial,
      initialChunkSize = initial, maxChunkSize = maxc, customChunkSize = False, closed = False\<rparr>"

text \<open>
  \<open>New\<close>: the normalised \<open>(initialChunkSize, maxChunkSize, streams)\<close> and whether the sequential reader is
  chosen.
\<close>

definition New :: "int64 \<Rightarrow> int64 \<Rightarrow> int64 \<Rightarrow> int64 \<Rightarrow> int64 \<times> int64 \<times> int64 \<times> bool" where
  "New osize initial maxc streams =
     (let initial' = (if initial \<le>s 0 then -1 else initial);
          maxc' = (if maxc \<noteq> -1 \<and> maxc <s initial' then initial' else maxc);
          streams' = (if streams <s 0 then 0 else streams)
      in (initial', maxc', streams', streams' \<le>s 1 \<or> osize <s 0))"

text \<open>\<open>resetReader\<close> closes the old reader first and keeps it when that fails.\<close>

definition resetReader :: "sequential \<Rightarrow> reader option \<Rightarrow> int64 \<Rightarrow> go_err option \<times> sequential" where
  "resetReader cr r off =
     (case rc cr of
        Some old \<Rightarrow>
          (case rclose old of
             Some e \<Rightarrow> (Some e, cr)
           | None \<Rightarrow> (None, cr\<lparr>rc := r, offset := off\<rparr>))
      | None \<Rightarrow> (None, cr\<lparr>rc := r, offset := off\<rparr>))"

definition openSource :: "sequential \<Rightarrow> int64 \<Rightarrow> int64 \<Rightarrow> go_err option \<times> sequential" where
  "openSource cr off len =
     (let opt = (if len \<le>s 0
                 then (if off = 0 then None else Some \<lparr>Start = off, EndOpt = -1\<rparr>)
                 else Some \<lparr>Start = off, EndOpt = off + len - 1\<rparr>);
          cr' = cr\<lparr>opens := Suc (opens cr)\<rparr>
      in case obj_open (obj cr) (opens cr) opt of
           Inl e \<Rightarrow> (Some e, cr')
         | Inr r \<Rightarrow> resetReader cr' (Some r) off)"

definition openRange :: "sequential \<Rightarrow> go_err option \<times> sequential" where
  "openRange cr =
     (if closed cr then (Some ErrorFileClosed, cr)
      else case rc cr of
             Some (Reader d fin cl (Some seek)) \<Rightarrow>
               (case seek (chunkOffset cr) (chunkSize cr) of
                  (n, err, rd) \<Rightarrow>
                    if err = None \<and> n = chunkOffset cr
                    then (None, cr\<lparr>rc := Some rd, offset := chunkOffset cr\<rparr>)
                    else openSource (cr\<lparr>rc := Some rd\<rparr>) (chunkOffset cr) (chunkSize cr))
           | _ \<Rightarrow> openSource cr (chunkOffset cr) (chunkSize cr))"

text \<open>The bookkeeping at the end of a completely read chunk.\<close>

definition nextChunk :: "sequential \<Rightarrow> sequential" where
  "nextChunk cr =
     (let cr1 = cr\<lparr>chunkOffset := offset cr\<rparr>
      in if customChunkSize cr1
         then cr1\<lparr>customChunkSize := False, chunkSize := initialChunkSize cr1\<rparr>
         else let dbl = chunkSize cr1 * 2
              in if maxChunkSize cr1 <s dbl \<and> maxChunkSize cr1 \<noteq> -1
                 then cr1\<lparr>chunkSize := maxChunkSize cr1\<rparr> else cr1\<lparr>chunkSize := dbl\<rparr>)"

text \<open>The \<open>switch\<close> at the head of the loop of \<open>Read\<close>: its error, the state and the chunk's end.\<close>

definition switchChunk :: "sequential \<Rightarrow> go_err option \<times> sequential \<times> int64" where
  "switchChunk cr =
     (let chunkEnd = chunkOffset cr + chunkSize cr
      in if 0 <s chunkSize cr \<and> offset cr = chunkEnd
         then (let cr1 = nextChunk cr; (err, cr2) = openRange cr1
               in (err, cr2, chunkOffset cr1 + chunkSize cr1))
         else if offset cr = -1
              then (let (err, cr2) = openRange cr in (err, cr2, chunkEnd))
              else (None, cr, chunkEnd))"

text \<open>
  The loop of \<open>Read\<close>. \<open>n\<close> is what is left of \<open>len(p)\<close>, \<open>acc\<close> what has been read. Reading from a nil
  reader and slicing \<open>p\<close> with a negative bound panic (a bound of zero does not occur:
  \<open>Read_rest_nonzero\<close>).
\<close>

function Read_loop ::
  "sequential \<Rightarrow> nat \<Rightarrow> byte list \<Rightarrow> (byte list \<times> go_err option \<times> sequential) option" where
  "Read_loop cr n acc =
     (let reqSize = word_of_nat n :: int64
      in if n = 0 then Some (acc, None, cr)
      else case switchChunk cr of
                (Some e, cr2, _) \<Rightarrow> Some (acc, Some e, cr2)
              | (None, cr2, chunkEnd) \<Rightarrow>
                  let chunkRest = chunkEnd - offset cr2;
                      limit = (chunkRest <s reqSize \<and> 0 <s chunkSize cr2)
                  in if limit \<and> chunkRest \<le>s 0 then None
                     else let m = (if limit then nat (sint chunkRest) else n)
                          in case rc cr2 of
                               None \<Rightarrow> None
                             | Some rd \<Rightarrow>
                                 (case ReadFull rd m of
                                    (got, err, rd') \<Rightarrow>
                                      let cr3 = cr2\<lparr>rc := Some rd',
                                                     offset := offset cr2 + word_of_nat (length got)\<rparr>
                                      in case err of
                                           Some e \<Rightarrow>
                                             Some (acc @ got, Some (if e = ErrUnexpectedEOF then EOF else e), cr3)
                                         | None \<Rightarrow> Read_loop cr3 (n - m) (acc @ got)))"
  by pat_completeness auto
termination
  by (relation "measure (\<lambda>(cr, n, acc). n)") (auto simp: i64 split: if_splits)

declare Read_loop.simps [simp del]

definition Read :: "sequential \<Rightarrow> nat \<Rightarrow> (byte list \<times> go_err option \<times> sequential) option" where
  "Read cr n = (if closed cr then Some ([], Some ErrorFileClosed, cr) else Read_loop cr n [])"

definition RangeSeek :: "sequential \<Rightarrow> int64 \<Rightarrow> whence \<Rightarrow> int64 \<Rightarrow> (int64 \<times> go_err option) \<times> sequential" where
  "RangeSeek cr off wh len =
     (if closed cr then ((0, Some ErrorFileClosed), cr)
      else let osize = obj_size (obj cr)
           in if wh = SeekEnd \<and> osize <s 0 then ((0, Some ErrorInvalidSeek), cr)
              else let base = (case wh of SeekStart \<Rightarrow> 0 | SeekCurrent \<Rightarrow> offset cr | SeekEnd \<Rightarrow> osize);
                       cr1 = cr\<lparr>chunkOffset := base + off, offset := -1\<rparr>;
                       cr2 = (if 0 <s len then cr1\<lparr>customChunkSize := True, chunkSize := len\<rparr>
                              else cr1\<lparr>chunkSize := initialChunkSize cr1\<rparr>)
                   in if chunkOffset cr2 <s 0 \<or> osize \<le>s chunkOffset cr2
                      then ((0, Some ErrorInvalidSeek), cr2\<lparr>chunkOffset := 0\<rparr>)
                      else ((chunkOffset cr2, None), cr2))"

definition Seek :: "sequential \<Rightarrow> int64 \<Rightarrow> whence \<Rightarrow> (int64 \<times> go_err option) \<times> sequential" where
  "Seek cr off wh = RangeSeek cr off wh (-1)"

definition Open :: "sequential \<Rightarrow> go_err option \<times> sequential" where
  "Open cr = (if rc cr \<noteq> None \<and> offset cr \<noteq> -1 then (None, cr) else openRange cr)"

definition Close :: "sequential \<Rightarrow> go_err option \<times> sequential" where
  "Close cr = (if closed cr then (Some ErrorFileClosed, cr)
               else resetReader (cr\<lparr>closed := True\<rparr>) None 0)"

section \<open>Reading from an object that serves ranges\<close>

definition plain :: "reader \<Rightarrow> bool" where
  "plain rd \<longleftrightarrow> rfin rd = EOF \<and> rclose rd = None \<and> rseek rd = None"

text \<open>The logical position: where the next byte comes from.\<close>

definition pos :: "sequential \<Rightarrow> int" where
  "pos cr = (if offset cr = -1 then sint (chunkOffset cr) else sint (offset cr))"

text \<open>The open reader delivers the rest of the current chunk.\<close>

definition loaded :: "sequential \<Rightarrow> byte list \<Rightarrow> bool" where
  "loaded cr content \<longleftrightarrow>
     (\<exists>rd. rc cr = Some rd \<and> plain rd \<and> sint (chunkOffset cr) \<le> sint (offset cr)
         \<and> sint (offset cr) \<le> int (length content)
         \<and> (if 0 < sint (chunkSize cr)
            then sint (offset cr) \<le> sint (chunkOffset cr) + sint (chunkSize cr)
               \<and> rdata rd = take (nat (sint (chunkOffset cr) + sint (chunkSize cr) - sint (offset cr)))
                              (drop (nat (sint (offset cr))) content)
            else rdata rd = drop (nat (sint (offset cr))) content))"

text \<open>
  Content of at most a third of the \<open>int64\<close> range and chunk sizes that leave room for an offset behind
  them; the chunk sizes themselves are otherwise arbitrary (a size \<open>\<le> 0\<close> reads to the end).
\<close>

definition room :: "byte list \<Rightarrow> int64 \<Rightarrow> bool" where
  "room content sz \<longleftrightarrow> sint sz \<le> max_int64 - int (length content)"

definition seq_inv :: "sequential \<Rightarrow> byte list \<Rightarrow> bool" where
  "seq_inv cr content \<longleftrightarrow>
     serves (obj cr) content \<and> 3 * int (length content) \<le> max_int64 \<and> \<not> closed cr
     \<and> room content (initialChunkSize cr) \<and> room content (chunkSize cr)
     \<and> 0 \<le> sint (chunkOffset cr) \<and> sint (chunkOffset cr) \<le> int (length content)
     \<and> (case rc cr of None \<Rightarrow> True | Some rd \<Rightarrow> plain rd)
     \<and> (offset cr = -1 \<or> loaded cr content)"

lemma serves_open:
  assumes "serves ob content" "0 \<le> sint off" "sint off < int (length content)"
    and "room content len" "0 \<le> sint off"
  shows "obj_open ob k (if len \<le>s 0
                 then (if off = 0 then None else Some \<lparr>Start = off, EndOpt = -1\<rparr>)
                 else Some \<lparr>Start = off, EndOpt = off + len - 1\<rparr>)
       = Inr (Reader (if 0 < sint len then take (nat (sint len)) (drop (nat (sint off)) content)
                      else drop (nat (sint off)) content) EOF None None)"
proof (cases "0 < sint len")
  case True
  have a: "sint (off + len) = sint off + sint len"
    using assms True by (intro sint_add64) (auto simp: room_def)
  then have b: "sint (off + len - 1) = sint off + sint len - 1"
    using assms True by (subst sint_sub64) (auto simp: room_def)
  with True assms show ?thesis
    by (simp add: serves_def i64)
next
  case False
  with assms show ?thesis by (auto simp: serves_def i64)
qed

lemma openRange_serves:
  assumes "serves (obj cr) content" "\<not> closed cr" "room content (chunkSize cr)"
    and "0 \<le> sint (chunkOffset cr)" "sint (chunkOffset cr) < int (length content)"
    and "case rc cr of None \<Rightarrow> True | Some rd \<Rightarrow> plain rd"
  shows "openRange cr = (None, cr\<lparr>opens := Suc (opens cr), offset := chunkOffset cr,
     rc := Some (Reader (if 0 < sint (chunkSize cr)
                         then take (nat (sint (chunkSize cr))) (drop (nat (sint (chunkOffset cr))) content)
                         else drop (nat (sint (chunkOffset cr))) content) EOF None None)\<rparr>)"
proof -
  note so = serves_open [OF assms(1,4,5,3,4), of "opens cr"]
  show ?thesis
  proof (cases "rc cr")
    case None
    then show ?thesis using assms(2) so
      by (simp add: openRange_def openSource_def resetReader_def)
  next
    case (Some rd)
    then obtain d where "rd = Reader d EOF None None"
      using assms(6) by (cases rd) (auto simp: plain_def)
    with Some show ?thesis using assms(2) so
      by (simp add: openRange_def openSource_def resetReader_def)
  qed
qed

lemma sint_m1 [simp]: "sint (-1 :: int64) = -1"
  by simp

lemma nextChunk_fields [simp]:
  "obj (nextChunk cr) = obj cr" "rc (nextChunk cr) = rc cr" "offset (nextChunk cr) = offset cr"
  "closed (nextChunk cr) = closed cr" "chunkOffset (nextChunk cr) = offset cr"
  "initialChunkSize (nextChunk cr) = initialChunkSize cr"
  "maxChunkSize (nextChunk cr) = maxChunkSize cr" "opens (nextChunk cr) = opens cr"
  by (simp_all add: nextChunk_def Let_def)

text \<open>The next chunk never outgrows the room: it at most doubles a chunk that has been read.\<close>

lemma nextChunk_room:
  assumes "seq_inv cr content" "offset cr \<noteq> -1" "0 < sint (chunkSize cr)"
    and "sint (chunkOffset cr) + sint (chunkSize cr) = sint (offset cr)"
  shows "room content (chunkSize (nextChunk cr))"
proof -
  have len: "sint (offset cr) \<le> int (length content)" "0 \<le> sint (chunkOffset cr)"
    "3 * int (length content) \<le> max_int64" "room content (initialChunkSize cr)"
    using assms(1,2) by (auto simp: seq_inv_def loaded_def)
  have "sint (chunkSize cr * 2) = 2 * sint (chunkSize cr)"
    using len assms(3,4) by (subst sint_mult64) auto
  then have "room content (chunkSize cr * 2)"
    using len assms(3,4) by (simp add: room_def)
  then show ?thesis
    using len(4) by (auto simp: nextChunk_def Let_def room_def i64)
qed

lemma chunkEnd_eq:
  assumes "seq_inv cr content"
  shows "0 < sint (chunkSize cr) \<Longrightarrow>
    sint (chunkOffset cr + chunkSize cr) = sint (chunkOffset cr) + sint (chunkSize cr)"
  using assms by (intro sint_add64) (auto simp: seq_inv_def room_def)

text \<open>What one round of the loop works with, after a chunk has been opened if need be.\<close>

definition ready :: "sequential \<Rightarrow> byte list \<Rightarrow> bool" where
  "ready cr content \<longleftrightarrow> seq_inv cr content \<and> loaded cr content \<and> offset cr \<noteq> -1
     \<and> (0 < sint (chunkSize cr) \<longrightarrow> sint (offset cr) < sint (chunkOffset cr) + sint (chunkSize cr))"

lemma openRange_ready:
  assumes "serves (obj cr) content" "\<not> closed cr" "room content (chunkSize cr)"
    "room content (initialChunkSize cr)" "3 * int (length content) \<le> max_int64"
    "0 \<le> sint (chunkOffset cr)" "sint (chunkOffset cr) < int (length content)"
    "case rc cr of None \<Rightarrow> True | Some rd \<Rightarrow> plain rd"
  shows "\<exists>cr'. openRange cr = (None, cr') \<and> ready cr' content \<and> offset cr' = chunkOffset cr
     \<and> chunkOffset cr' = chunkOffset cr \<and> chunkSize cr' = chunkSize cr"
proof -
  note o = openRange_serves [OF assms(1-3,6-8)]
  have "chunkOffset cr \<noteq> -1" using assms(6) by auto
  then show ?thesis
    using o assms by (auto simp: ready_def seq_inv_def loaded_def plain_def)
qed

lemma switchChunk_ready:
  assumes inv: "seq_inv cr content" and lt: "pos cr < int (length content)"
  shows "\<exists>cr2. switchChunk cr = (None, cr2, chunkOffset cr2 + chunkSize cr2)
     \<and> ready cr2 content \<and> sint (offset cr2) = pos cr"
proof -
  have I: "serves (obj cr) content" "\<not> closed cr" "room content (chunkSize cr)"
    "room content (initialChunkSize cr)" "3 * int (length content) \<le> max_int64"
    "0 \<le> sint (chunkOffset cr)" "case rc cr of None \<Rightarrow> True | Some rd \<Rightarrow> plain rd"
    using inv by (auto simp: seq_inv_def)
  show ?thesis
  proof (cases "0 <s chunkSize cr \<and> offset cr = chunkOffset cr + chunkSize cr")
    case True
    then have e: "0 < sint (chunkSize cr)" "sint (offset cr) = sint (chunkOffset cr) + sint (chunkSize cr)"
      using chunkEnd_eq [OF inv] by (auto simp: i64)
    then have ne: "offset cr \<noteq> -1" using I(6) by auto
    then have p: "pos cr = sint (offset cr)" by (simp add: pos_def)
    have "room content (chunkSize (nextChunk cr))"
      using nextChunk_room [OF inv ne e(1)] e(2) by simp
    then show ?thesis
      using openRange_ready [of "nextChunk cr" content] I e lt p True
      by (auto simp: switchChunk_def Let_def)
  next
    case notEnd: False
    show ?thesis
    proof (cases "offset cr = -1")
      case True
      then show ?thesis
        using openRange_ready [of cr content] I lt notEnd
        by (auto simp: switchChunk_def Let_def pos_def)
    next
      case False
      then have l: "loaded cr content" using inv by (simp add: seq_inv_def)
      have "sint (offset cr) \<noteq> sint (chunkOffset cr) + sint (chunkSize cr)" if "0 < sint (chunkSize cr)"
        using notEnd that chunkEnd_eq [OF inv that] by (auto simp: i64 sint_inj64)
      then have "ready cr content"
        using inv l False by (auto simp: ready_def loaded_def)
      then show ?thesis using notEnd False by (auto simp: switchChunk_def Let_def pos_def)
    qed
  qed
qed

lemma consume:
  assumes "ready cr content" "sint (offset cr) + int m \<le> int (length content)"
    and lim: "0 < sint (chunkSize cr) \<Longrightarrow>
      sint (offset cr) + int m \<le> sint (chunkOffset cr) + sint (chunkSize cr)"
  shows "\<exists>rd rd'. rc cr = Some rd
     \<and> ReadFull rd m = (take m (drop (nat (sint (offset cr))) content), None, rd')
     \<and> seq_inv (cr\<lparr>rc := Some rd', offset := offset cr + word_of_nat m\<rparr>) content
     \<and> pos (cr\<lparr>rc := Some rd', offset := offset cr + word_of_nat m\<rparr>) = sint (offset cr) + int m"
proof -
  let ?o = "nat (sint (offset cr))"
  have I: "seq_inv cr content" "loaded cr content"
    "0 < sint (chunkSize cr) \<longrightarrow> sint (offset cr) < sint (chunkOffset cr) + sint (chunkSize cr)"
    using assms(1) by (auto simp: ready_def)
  from I(2) obtain rd where rd: "rc cr = Some rd" "plain rd" "sint (chunkOffset cr) \<le> sint (offset cr)"
    "sint (offset cr) \<le> int (length content)"
    "rdata rd = (if 0 < sint (chunkSize cr)
       then take (nat (sint (chunkOffset cr) + sint (chunkSize cr) - sint (offset cr))) (drop ?o content)
       else drop ?o content)"
    by (auto simp: loaded_def)
  have B: "0 \<le> sint (chunkOffset cr)" "3 * int (length content) \<le> max_int64"
    using I(1) by (auto simp: seq_inv_def)
  have ol: "?o + m \<le> length content" using assms(2) rd(3) B by linarith
  define rd' where "rd' = Reader (drop m (rdata rd)) (rfin rd) (rclose rd) (rseek rd)"
  have enough: "m \<le> length (rdata rd)"
    using ol lim rd(3) B by (auto simp: rd(5))
  have R: "ReadFull rd m = (take m (drop ?o content), None, rd')"
    using ReadFull_enough [OF enough] lim rd(3) B
    by (auto simp: rd'_def rd(5) min_def)
  have off: "sint (offset cr + word_of_nat m) = sint (offset cr) + int m"
    using assms(2) rd(3) B by (subst sint_add64) (auto simp: i64 fits64_def)
  then have ne: "offset cr + word_of_nat m \<noteq> -1"
    using rd(3) B by auto
  have no: "nat (sint (offset cr) + int m) = m + ?o" using rd(3) B by auto
  let ?cr = "cr\<lparr>rc := Some rd', offset := offset cr + word_of_nat m\<rparr>"
  have "plain rd'" using rd(2) by (simp add: plain_def rd'_def)
  moreover have ms: "nat (sint (chunkOffset cr) + sint (chunkSize cr) - sint (offset cr)) - m
      = nat (sint (chunkOffset cr) + sint (chunkSize cr) - (sint (offset cr) + int m))"
    by linarith
  have "rdata rd' = (if 0 < sint (chunkSize cr)
       then take (nat (sint (chunkOffset cr) + sint (chunkSize cr) - (sint (offset cr) + int m)))
              (drop (m + ?o) content)
       else drop (m + ?o) content)"
    using lim rd(3) B ms by (auto simp: rd'_def rd(5) drop_take)
  ultimately have "loaded ?cr content"
    using lim assms(2) rd(3) by (auto simp: loaded_def off no)
  then have "seq_inv ?cr content"
    using I(1) \<open>plain rd'\<close> by (simp add: seq_inv_def)
  moreover have "pos ?cr = sint (offset cr) + int m" using ne off by (simp add: pos_def)
  ultimately show ?thesis using R rd(1) by blast
qed

text \<open>What is left of the current chunk.\<close>

lemma chunk_rest:
  assumes rdy: "ready cr content" and cs: "0 < sint (chunkSize cr)"
  shows "sint (chunkOffset cr + chunkSize cr - offset cr)
      = sint (chunkOffset cr) + sint (chunkSize cr) - sint (offset cr)"
    "0 < sint (chunkOffset cr) + sint (chunkSize cr) - sint (offset cr)"
proof -
  have I: "seq_inv cr content" "sint (offset cr) < sint (chunkOffset cr) + sint (chunkSize cr)"
    "sint (chunkOffset cr) \<le> sint (offset cr)"
    using rdy cs by (auto simp: ready_def loaded_def)
  then have "room content (chunkSize cr)" "sint (chunkOffset cr) \<le> int (length content)" "0 \<le> sint (chunkOffset cr)"
    by (auto simp: seq_inv_def)
  then show "sint (chunkOffset cr + chunkSize cr - offset cr)
      = sint (chunkOffset cr) + sint (chunkSize cr) - sint (offset cr)"
    using I(2,3) chunkEnd_eq [OF I(1) cs] by (subst sint_sub64) (simp_all add: room_def fits64_def)
  show "0 < sint (chunkOffset cr) + sint (chunkSize cr) - sint (offset cr)" using I(2) by simp
qed

text \<open>One round of the loop that fills its buffer.\<close>

lemma Read_loop_step:
  assumes "n \<noteq> 0" "switchChunk cr = (None, cr2, chunkEnd)"
    and "limit = (chunkEnd - offset cr2 <s (word_of_nat n :: int64) \<and> 0 <s chunkSize cr2)"
    and "\<not> (limit \<and> chunkEnd - offset cr2 \<le>s 0)"
    and "m = (if limit then nat (sint (chunkEnd - offset cr2)) else n)"
    and "rc cr2 = Some rd" "ReadFull rd m = (got, None, rd')"
  shows "Read_loop cr n acc =
    Read_loop (cr2\<lparr>rc := Some rd', offset := offset cr2 + word_of_nat (length got)\<rparr>) (n - m) (acc @ got)"
proof (cases limit)
  case True
  with assms show ?thesis by (subst Read_loop.simps) (simp add: Let_def)
next
  case False
  then consider "\<not> chunkEnd - offset cr2 <s (word_of_nat n :: int64)" | "\<not> 0 <s chunkSize cr2"
    using assms(3) by blast
  with False assms show ?thesis by cases (subst Read_loop.simps; simp add: Let_def)+
qed

lemma Read_loop_correct:
  "seq_inv cr content \<Longrightarrow> pos cr + int n \<le> int (length content) \<Longrightarrow>
   \<exists>cr'. Read_loop cr n acc = Some (acc @ take n (drop (nat (pos cr)) content), None, cr')
       \<and> seq_inv cr' content \<and> pos cr' = pos cr + int n"
proof (induction n arbitrary: cr acc rule: less_induct)
  case (less n)
  note inv = less.prems(1) and fit = less.prems(2)
  show ?case
  proof (cases "n = 0")
    case True
    then show ?thesis using less by (subst Read_loop.simps) simp
  next
    case False
    have "pos cr < int (length content)" using fit False by linarith
    from switchChunk_ready [OF inv this] obtain cr2 where
      sw: "switchChunk cr = (None, cr2, chunkOffset cr2 + chunkSize cr2)"
      and rdy: "ready cr2 content" and o2: "sint (offset cr2) = pos cr"
      by blast
    define rest where "rest = chunkOffset cr2 + chunkSize cr2 - offset cr2"
    have inv2: "seq_inv cr2 content" using rdy by (simp add: ready_def)
    have p0: "0 \<le> pos cr" "pos cr \<le> int (length content)" "3 * int (length content) \<le> max_int64"
      using rdy o2 fit by (auto simp: ready_def seq_inv_def loaded_def)
    have rest: "sint rest = sint (chunkOffset cr2) + sint (chunkSize cr2) - pos cr" "0 < sint rest"
      if "0 < sint (chunkSize cr2)"
      using chunk_rest [OF rdy that] o2 by (simp_all add: rest_def)
    have req: "sint (word_of_nat n :: int64) = int n"
      using fit p0 by (simp add: i64 fits64_def)
    define limit where "limit = (rest <s (word_of_nat n :: int64) \<and> 0 <s chunkSize cr2)"
    define m where "m = (if limit then nat (sint rest) else n)"
    have m: "0 < m" "m \<le> n" "\<not> (limit \<and> rest \<le>s 0)"
      "0 < sint (chunkSize cr2) \<Longrightarrow> pos cr + int m \<le> sint (chunkOffset cr2) + sint (chunkSize cr2)"
      using rest req False by (auto simp: m_def limit_def i64)
    from consume [OF rdy, of m] obtain rd rd' where
      rd: "rc cr2 = Some rd" and R: "ReadFull rd m = (take m (drop (nat (pos cr)) content), None, rd')"
      and inv3: "seq_inv (cr2\<lparr>rc := Some rd', offset := offset cr2 + word_of_nat m\<rparr>) content"
      and p3: "pos (cr2\<lparr>rc := Some rd', offset := offset cr2 + word_of_nat m\<rparr>) = pos cr + int m"
      using m fit o2 by auto
    define cr3 where "cr3 = cr2\<lparr>rc := Some rd', offset := offset cr2 + word_of_nat m\<rparr>"
    define got where "got = take m (drop (nat (pos cr)) content)"
    have lg: "length got = m" using m(2) fit p0 by (auto simp: got_def)
    have step: "Read_loop cr n acc = Read_loop cr3 (n - m) (acc @ got)"
      using Read_loop_step [OF False sw limit_def [unfolded rest_def] m(3) [unfolded rest_def]
          m_def [unfolded rest_def] rd R] lg
      by (simp add: cr3_def got_def [symmetric])
    have p3': "pos cr3 = pos cr + int m" using p3 by (simp add: cr3_def)
    have "\<exists>cr'. Read_loop cr3 (n - m) (acc @ got)
          = Some ((acc @ got) @ take (n - m) (drop (nat (pos cr3)) content), None, cr')
        \<and> seq_inv cr' content \<and> pos cr' = pos cr3 + int (n - m)"
      using inv3 p3' m(1,2) fit by (intro less.IH) (auto simp: cr3_def)
    moreover have "got @ take (n - m) (drop (nat (pos cr3)) content)
        = take n (drop (nat (pos cr)) content)"
    proof -
      have "nat (pos cr3) = m + nat (pos cr)" using p0 p3' by linarith
      then show ?thesis
        using m(2) take_add [of m "n - m" "drop (nat (pos cr)) content"]
        by (simp add: got_def)
    qed
    ultimately show ?thesis
      using m(2) p3' by (simp add: step of_nat_diff)
  qed
qed

text \<open>
  The slice bound of \<open>p[0:chunkRest]\<close> is never zero, so no round of the loop reads into an empty buffer:
  an opened chunk has \<open>chunkRest = chunkSize\<close>, and otherwise the offset is not the chunk's end.
\<close>

lemma openSource_success:
  "openSource cr off len = (None, cr') \<Longrightarrow>
   offset cr' = off \<and> chunkOffset cr' = chunkOffset cr \<and> chunkSize cr' = chunkSize cr"
  by (auto simp: openSource_def resetReader_def Let_def split: sum.splits option.splits)

lemma openRange_success:
  "openRange cr = (None, cr') \<Longrightarrow>
   offset cr' = chunkOffset cr \<and> chunkOffset cr' = chunkOffset cr \<and> chunkSize cr' = chunkSize cr"
  by (auto simp: openRange_def dest!: openSource_success
      split: if_splits option.splits reader.splits prod.splits)

lemma Read_rest_nonzero:
  assumes "switchChunk cr = (None, cr2, chunkEnd)" and "0 <s chunkSize cr2"
  shows "chunkEnd - offset cr2 \<noteq> 0"
  using assms
  by (auto simp: switchChunk_def Let_def dest!: openRange_success split: if_splits prod.splits)

section \<open>Seeking\<close>

lemma RangeSeek_inv:
  assumes inv: "seq_inv cr content" and wh: "wh \<noteq> SeekCurrent"
    and t: "t = (if wh = SeekStart then 0 else int (length content)) + sint off"
    and range: "0 \<le> t" "t < int (length content)" and rl: "room content len"
  shows "\<exists>cr'. RangeSeek cr off wh len = ((word_of_int t, None), cr') \<and> seq_inv cr' content \<and> pos cr' = t"
proof -
  have I: "obj_size (obj cr) = word_of_nat (length content)" "3 * int (length content) \<le> max_int64"
    "\<not> closed cr"
    using inv by (auto simp: seq_inv_def serves_def)
  have size: "sint (word_of_nat (length content) :: int64) = int (length content)"
    using I(2) by (simp add: i64 fits64_def)
  have w: "word_of_int t = (if wh = SeekStart then 0 else word_of_nat (length content)) + off"
    by (simp add: t)
  have st: "sint (word_of_int t :: int64) = t"
    using range I(2) by (simp add: i64 fits64_def)
  have base: "(case wh of SeekStart \<Rightarrow> 0 | SeekCurrent \<Rightarrow> offset cr | SeekEnd \<Rightarrow> word_of_nat (length content)) + off
      = word_of_int t"
    using wh by (cases wh) (simp_all add: w)
  show ?thesis
    using inv rl range
    by (auto simp: RangeSeek_def Let_def I base st size i64 seq_inv_def pos_def)
qed

lemma RangeSeek_target:
  "\<not> closed cr \<Longrightarrow> RangeSeek cr off wh len = ((p, None), cr') \<Longrightarrow>
   offset cr' = -1 \<and> chunkOffset cr' = p \<and> 0 \<le> sint p \<and> p <s obj_size (obj cr)
   \<and> obj cr' = obj cr \<and> \<not> closed cr'"
  by (auto simp: RangeSeek_def Let_def i64 split: if_splits whence.splits)

section \<open>The interface ChunkedReader\<close>

text \<open>
  What the users of a \<open>ChunkedReader\<close> rely on: a read inside the content delivers the bytes at the
  position and advances it, and a seek inside the content moves it.
\<close>

locale chunked_reader =
  fixes cr_read :: "'s \<Rightarrow> nat \<Rightarrow> (byte list \<times> go_err option \<times> 's) option"
    and cr_seek :: "'s \<Rightarrow> int64 \<Rightarrow> whence \<Rightarrow> (int64 \<times> go_err option) \<times> 's"
    and cr_inv :: "'s \<Rightarrow> byte list \<Rightarrow> bool"
    and cr_pos :: "'s \<Rightarrow> int"
  assumes read_law: "cr_inv s content \<Longrightarrow> cr_pos s + int n \<le> int (length content) \<Longrightarrow>
      \<exists>s'. cr_read s n = Some (take n (drop (nat (cr_pos s)) content), None, s')
         \<and> cr_inv s' content \<and> cr_pos s' = cr_pos s + int n"
    and seek_law: "cr_inv s content \<Longrightarrow> 0 \<le> sint off \<Longrightarrow> sint off < int (length content) \<Longrightarrow>
      \<exists>s'. cr_seek s off SeekStart = ((off, None), s') \<and> cr_inv s' content \<and> cr_pos s' = sint off"
    and pos_law: "cr_inv s content \<Longrightarrow> 0 \<le> cr_pos s"

text \<open>A client that fills buffers of the given sizes one after the other.\<close>

fun read_all ::
  "('s \<Rightarrow> nat \<Rightarrow> (byte list \<times> go_err option \<times> 's) option) \<Rightarrow> 's \<Rightarrow> nat list \<Rightarrow> (byte list \<times> 's) option" where
  "read_all rd s [] = Some ([], s)"
| "read_all rd s (n # ns) =
     (case rd s n of
        Some (got, None, s') \<Rightarrow>
          (case read_all rd s' ns of Some (rest, s'') \<Rightarrow> Some (got @ rest, s'') | None \<Rightarrow> None)
      | _ \<Rightarrow> None)"

context chunked_reader begin

lemma read_all_law:
  "cr_inv s content \<Longrightarrow> cr_pos s + int (sum_list ns) \<le> int (length content) \<Longrightarrow>
   \<exists>s'. read_all cr_read s ns = Some (take (sum_list ns) (drop (nat (cr_pos s)) content), s')
      \<and> cr_inv s' content \<and> cr_pos s' = cr_pos s + int (sum_list ns)"
proof (induction ns arbitrary: s)
  case (Cons n ns)
  from read_law [of s content n] Cons.prems obtain s1 where
    s1: "cr_read s n = Some (take n (drop (nat (cr_pos s)) content), None, s1)"
      "cr_inv s1 content" "cr_pos s1 = cr_pos s + int n"
    by auto
  from Cons.IH [of s1] Cons.prems s1 obtain s2 where
    "read_all cr_read s1 ns = Some (take (sum_list ns) (drop (nat (cr_pos s1)) content), s2)"
    "cr_inv s2 content" "cr_pos s2 = cr_pos s1 + int (sum_list ns)"
    by auto
  moreover have "nat (cr_pos s1) = n + nat (cr_pos s)"
    using s1(3) pos_law [OF Cons.prems(1)] by linarith
  ultimately show ?case
    using s1 take_add [of n "sum_list ns" "drop (nat (cr_pos s)) content"] by simp
qed simp

lemma seek_read_all:
  assumes "cr_inv s content" "0 \<le> sint off" "sint off < int (length content)"
    and "sint off + int (sum_list ns) \<le> int (length content)"
  shows "\<exists>s' s''. cr_seek s off SeekStart = ((off, None), s')
    \<and> read_all cr_read s' ns = Some (take (sum_list ns) (drop (nat (sint off)) content), s'')
    \<and> cr_inv s'' content"
  using seek_law [OF assms(1-3)] read_all_law [of _ content ns] assms(4) by fastforce

end

lemma seq_pos_nonneg: "seq_inv cr content \<Longrightarrow> 0 \<le> pos cr"
  by (auto simp: seq_inv_def pos_def loaded_def)

lemma Read_law:
  assumes "seq_inv cr content" "pos cr + int n \<le> int (length content)"
  shows "\<exists>cr'. Read cr n = Some (take n (drop (nat (pos cr)) content), None, cr')
    \<and> seq_inv cr' content \<and> pos cr' = pos cr + int n"
proof -
  have "\<not> closed cr" using assms(1) by (simp add: seq_inv_def)
  then show ?thesis using Read_loop_correct [OF assms, of "[]"] by (simp add: Read_def)
qed

lemma Seek_law:
  assumes "seq_inv cr content" "0 \<le> sint off" "sint off < int (length content)"
  shows "\<exists>cr'. Seek cr off SeekStart = ((off, None), cr') \<and> seq_inv cr' content \<and> pos cr' = sint off"
proof -
  have "3 * int (length content) \<le> max_int64" using assms(1) by (simp add: seq_inv_def)
  then have "room content (-1)" by (simp add: room_def)
  then show ?thesis
    using RangeSeek_inv [of cr content SeekStart "sint off" off "-1"] assms by (simp add: Seek_def)
qed

interpretation seq: chunked_reader Read Seek seq_inv pos
  by unfold_locales (auto intro: Read_law Seek_law seq_pos_nonneg)

section \<open>Properties\<close>

lemma newSequential_inv:
  assumes "serves ob content" "3 * int (length content) \<le> max_int64" "room content initial"
  shows "seq_inv (newSequential ob initial maxc) content"
  using assms by (simp add: seq_inv_def newSequential_def)

text \<open>C9: A sequential reader made by \<open>New\<close> for an object that serves ranges delivers, after a
  seek to any offset inside the content, exactly the bytes from that offset on, however the client
  splits its reads and whatever the initial and maximal chunk sizes are.\<close>

theorem chunked_session:
  assumes "serves ob content" "3 * int (length content) \<le> max_int64"
    and "New (obj_size ob) initial maxc streams = (initial', maxc', streams', True)"
    and "sint initial \<le> max_int64 - int (length content)"
    and "0 \<le> sint off" "sint off < int (length content)"
    and "sint off + int (sum_list ns) \<le> int (length content)"
  shows "\<exists>cr cr'. Seek (newSequential ob initial' maxc') off SeekStart = ((off, None), cr)
    \<and> read_all Read cr ns = Some (take (sum_list ns) (drop (nat (sint off)) content), cr')"
proof -
  have "room content initial'"
    using assms(2,3,4) by (auto simp: New_def Let_def room_def split: if_splits)
  from seq.seek_read_all [OF newSequential_inv [OF assms(1,2) this] assms(5-7)]
  show ?thesis by blast
qed

definition demo_object :: "byte list \<Rightarrow> RemoteObject" where
  "demo_object content =
     \<lparr>obj_size = word_of_nat (length content),
      obj_open = (\<lambda>k opt. case opt of None \<Rightarrow> Inr (Reader content EOF None None)
        | Some opt \<Rightarrow> Inr (Reader
             (let rest = drop (nat (sint (Start opt))) content
              in if EndOpt opt <s 0 then rest
                 else take (nat (sint (EndOpt opt) - sint (Start opt) + 1)) rest) EOF None None))\<rparr>"

lemma demo_object_serves: "int (length content) \<le> max_int64 \<Longrightarrow> serves (demo_object content) content"
  by (simp add: serves_def demo_object_def)

lemma chunked_session_witness:
  "\<exists>cr cr'. Seek (newSequential (demo_object [1, 2, 3, 4, 5, 6, 7]) 2 4) 1 SeekStart = ((1, None), cr)
    \<and> read_all Read cr [1, 0, 4] = Some ([2, 3, 4, 5, 6], cr')"
proof -
  let ?c = "[1, 2, 3, 4, 5, 6, 7] :: byte list"
  have "New (obj_size (demo_object ?c)) 2 4 0 = (2, 4, 0, True)"
    by (simp add: New_def demo_object_def i64)
  from chunked_session [OF demo_object_serves _ this, of 1 "[1, 0, 4]"] show ?thesis
    by (simp del: read_all.simps)
qed

text \<open>With chunking disabled the switch of \<open>Read\<close> leaves a reader of everything from the position on.\<close>

lemma switchChunk_rest:
  assumes "seq_inv cr content" "sint (chunkSize cr) \<le> 0"
    and "offset cr \<noteq> -1 \<or> pos cr < int (length content)"
  shows "\<exists>cr2 e rd. switchChunk cr = (None, cr2, e) \<and> rc cr2 = Some rd \<and> plain rd
    \<and> rdata rd = drop (nat (pos cr)) content \<and> chunkSize cr2 = chunkSize cr
    \<and> 0 \<le> pos cr \<and> pos cr \<le> int (length content)"
proof (cases "offset cr = -1")
  case True
  then have "sint (chunkOffset cr) < int (length content)" using assms(3) by (simp add: pos_def)
  with True assms(1,2) openRange_serves [of cr content] show ?thesis
    by (auto simp: switchChunk_def i64 Let_def pos_def plain_def seq_inv_def)
next
  case False
  with assms(1,2) show ?thesis
    by (auto simp: switchChunk_def i64 Let_def pos_def loaded_def seq_inv_def)
qed

text \<open>With chunking disabled, a read that asks for more than is left returns all that is left
  together with \<open>io.EOF\<close>.\<close>

theorem Read_eof:
  assumes "seq_inv cr content" "sint (chunkSize cr) \<le> 0"
    and "offset cr \<noteq> -1 \<or> pos cr < int (length content)"
    and "int (length content) < pos cr + int n"
  shows "\<exists>cr'. Read cr n = Some (drop (nat (pos cr)) content, Some EOF, cr')"
proof -
  from switchChunk_rest [OF assms(1-3)] obtain cr2 e rd where
    rd: "switchChunk cr = (None, cr2, e)" "rc cr2 = Some rd" "plain rd"
      "rdata rd = drop (nat (pos cr)) content" "chunkSize cr2 = chunkSize cr"
      "0 \<le> pos cr" "pos cr \<le> int (length content)"
    by blast
  have "length (rdata rd) < n" using assms(4) rd(6,7) unfolding rd(4) length_drop by linarith
  moreover from this have "n \<noteq> 0" by simp
  ultimately have short: "length (rdata rd) < n" "n \<noteq> 0" by blast+
  have "\<not> closed cr" using assms(1) by (simp add: seq_inv_def)
  with ReadFull_short [OF short(1)] short(2) rd assms(2) show ?thesis
    by (auto simp: Read_def Read_loop.simps [of cr n] i64 Let_def plain_def)
qed

lemma Read_eof_witness:
  "\<exists>cr'. Read (newSequential (demo_object [1, 2, 3]) (-1) 4) 5 = Some ([1, 2, 3], Some EOF, cr')"
proof -
  let ?c = "[1, 2, 3] :: byte list"
  have "seq_inv (newSequential (demo_object ?c) (-1) 4) ?c"
    by (intro newSequential_inv demo_object_serves) (simp_all add: room_def)
  from Read_eof [OF this, of 5] show ?thesis
    by (simp add: newSequential_def pos_def)
qed

text \<open>After \<open>Close\<close>, whatever it returned, every operation answers \<open>ErrorFileClosed\<close>, except
  an \<open>Open\<close> that finds a reader it could not close.\<close>

theorem Close_final:
  "(let cr' = snd (Close cr)
    in fst (Close cr') = Some ErrorFileClosed
     \<and> Read cr' n = Some ([], Some ErrorFileClosed, cr')
     \<and> RangeSeek cr' off wh len = ((0, Some ErrorFileClosed), cr')
     \<and> (fst (Open cr') = Some ErrorFileClosed \<or> rc cr' = rc cr))"
proof -
  have c: "closed (snd (Close cr))"
    by (auto simp: Close_def resetReader_def split: option.splits)
  have "fst (Open (snd (Close cr))) = Some ErrorFileClosed \<or> rc (snd (Close cr)) = rc cr"
  proof (cases "rc (snd (Close cr)) = rc cr")
    case False
    then have "rc (snd (Close cr)) = None"
      by (auto simp: Close_def resetReader_def split: if_splits option.splits)
    with c show ?thesis by (simp add: Open_def openRange_def)
  qed simp
  with c show ?thesis
    by (simp add: Let_def Read_def RangeSeek_def Close_def [of "snd (Close cr)"])
qed

text \<open>After a successful seek the position is not known to \<open>io.SeekCurrent\<close>: a
  following relative seek by \<open>d\<close> goes to \<open>d - 1\<close>, counted from the start of the object, or fails.\<close>

theorem RangeSeek_current:
  assumes "\<not> closed cr" "RangeSeek cr off SeekStart len = ((p, None), cr')"
  shows "fst (RangeSeek cr' d SeekCurrent len') =
    (if d - 1 <s 0 \<or> obj_size (obj cr) \<le>s d - 1 then (0, Some ErrorInvalidSeek) else (d - 1, None))"
  using RangeSeek_target [OF assms]
  by (auto simp: RangeSeek_def Let_def)

lemma RangeSeek_current_witness:
  "fst (RangeSeek (snd (RangeSeek (newSequential (demo_object [1, 2, 3, 4, 5]) 2 4) 3 SeekStart (-1)))
     1 SeekCurrent (-1)) = (0, None)"
proof -
  let ?cr = "newSequential (demo_object [1, 2, 3, 4, 5]) 2 4"
  have "RangeSeek ?cr 3 SeekStart (-1) = ((3, None), snd (RangeSeek ?cr 3 SeekStart (-1)))"
    by (simp add: RangeSeek_def newSequential_def demo_object_def i64)
  moreover have "\<not> closed ?cr" "obj_size (obj ?cr) = 5"
    by (simp_all add: newSequential_def demo_object_def)
  ultimately show ?thesis
    using RangeSeek_current [of ?cr 3 "-1" 3 _ 1 "-1"] by (simp add: i64)
qed

text \<open>When opening the next chunk fails at a chunk boundary, the reader of the finished
  chunk stays in place, so the next \<open>Read\<close> reports the end of the object instead of trying again.\<close>

theorem failed_open_eof:
  assumes "\<not> closed cr" "0 < n" "rc cr = Some (Reader [] EOF None None)"
    and "0 <s chunkSize cr" "offset cr = chunkOffset cr + chunkSize cr" "offset cr \<noteq> -1"
    and "\<And>opt. obj_open (obj cr) (opens cr) opt = Inl e"
    and "0 <s chunkSize (nextChunk cr)"
  shows "\<exists>cr1 cr2. Read cr n = Some ([], Some e, cr1) \<and> Read cr1 n = Some ([], Some EOF, cr2)"
proof -
  let ?cr1 = "(nextChunk cr)\<lparr>opens := Suc (opens cr)\<rparr>"
  have o: "openRange (nextChunk cr) = (Some e, ?cr1)"
    using assms(1,3,7) by (simp add: openRange_def openSource_def Let_def)
  then have "switchChunk cr = (Some e, ?cr1, chunkOffset ?cr1 + chunkSize ?cr1)"
    using assms(4,5) by (simp add: switchChunk_def Let_def)
  then have r1: "Read cr n = Some ([], Some e, ?cr1)"
    using assms(1,2) by (simp add: Read_def Read_loop.simps [of cr n])
  have sw: "switchChunk ?cr1 = (None, ?cr1, offset cr + chunkSize ?cr1)"
    using assms(6,8) by (auto simp: switchChunk_def Let_def)
  have z: "ReadFull (Reader [] EOF None None) m = ([], Some EOF, Reader [] EOF None None)" if "0 < m" for m
    using that by (simp add: ReadFull_def)
  have pos: "0 < nat (sint (chunkSize (nextChunk cr)))" "\<not> chunkSize (nextChunk cr) \<le>s 0"
    using assms(8) by (simp_all add: i64)
  have "\<exists>cr2. Read ?cr1 n = Some ([], Some EOF, cr2)"
    using assms(1,2,3) sw z [OF pos(1)] z [OF assms(2)] pos(2)
    by (simp add: Read_def Read_loop.simps [of ?cr1 n] Let_def)
  with r1 show ?thesis by blast
qed

lemma failed_open_eof_witness:
  "let ob = \<lparr>obj_size = 4, obj_open = (\<lambda>k opt. if k = 0 then Inr (Reader [1, 2] EOF None None)
       else if k = 1 then Inl (Other ''connection reset'') else Inr (Reader [3, 4] EOF None None))\<rparr>;
       cr = \<lparr>obj = ob, opens = 1, rc = Some (Reader [] EOF None None), offset = 2, chunkOffset = 0,
             chunkSize = 2, initialChunkSize = 2, maxChunkSize = 4, customChunkSize = False, closed = False\<rparr>
   in \<exists>cr1 cr2. Read cr 2 = Some ([], Some (Other ''connection reset''), cr1)
        \<and> Read cr1 2 = Some ([], Some EOF, cr2)"
  unfolding Let_def by (rule failed_open_eof) (simp_all add: nextChunk_def i64 Let_def)

end
