(* ===== verification/GoHeap.thy ===== *)
theory GoHeap
  imports Prelude "HOL-Library.Multiset" "HOL-Library.Product_Lexorder"
begin

text \<open>
  Go's \<open>container/heap\<close>: the loops \<open>up\<close> and \<open>down\<close> and the operations built on them, over any state with the
  methods \<open>Len\<close>, \<open>Less\<close>, \<open>Swap\<close>, \<open>Push\<close> and \<open>Pop\<close> of \<open>heap.Interface\<close>. The locale \<open>heap_interface\<close> states
  what an implementation of the interface has to promise; its lemmas give what a client gets back. The
  write-back queue is the implementation of the repository.
\<close>

section \<open>The algorithms\<close>

definition par :: "nat \<Rightarrow> nat" where
  "par j = (j - 1) div 2"

function heap_up :: "('s \<Rightarrow> nat \<Rightarrow> nat \<Rightarrow> bool) \<Rightarrow> ('s \<Rightarrow> nat \<Rightarrow> nat \<Rightarrow> 's) \<Rightarrow> 's \<Rightarrow> nat \<Rightarrow> 's" where
  "heap_up lt swap h j =
     (let i = par j
      in if i = j \<or> \<not> lt h j i then h else heap_up lt swap (swap h i j) i)"
  by pat_completeness auto
termination
  by (relation "measure (\<lambda>(lt, swap, h, j). j)") (auto simp: par_def)

declare heap_up.simps [simp del]

text \<open>The child of \<open>i\<close> that \<open>down\<close> compares with: the smaller one, the left one when they are equal.\<close>

definition small_child :: "('s \<Rightarrow> nat \<Rightarrow> nat \<Rightarrow> bool) \<Rightarrow> 's \<Rightarrow> nat \<Rightarrow> nat \<Rightarrow> nat" where
  "small_child lt h i n =
     (let j1 = 2 * i + 1; j2 = j1 + 1 in if j2 < n \<and> lt h j2 j1 then j2 else j1)"

text \<open>The loop of \<open>down\<close>; it returns the state and where the element has ended.\<close>

function heap_down ::
  "('s \<Rightarrow> nat \<Rightarrow> nat \<Rightarrow> bool) \<Rightarrow> ('s \<Rightarrow> nat \<Rightarrow> nat \<Rightarrow> 's) \<Rightarrow> 's \<Rightarrow> nat \<Rightarrow> nat \<Rightarrow> 's \<times> nat" where
  "heap_down lt swap h i n =
     (if n \<le> 2 * i + 1 then (h, i)
      else let j = small_child lt h i n
           in if \<not> lt h j i then (h, i) else heap_down lt swap (swap h i j) j n)"
  by pat_completeness auto
termination
  by (relation "measure (\<lambda>(lt, swap, h, i, n). n - i)") (auto simp: small_child_def Let_def)

declare heap_down.simps [simp del]

text \<open>\<open>if !down(h, i, n) { up(h, i) }\<close>\<close>

definition heap_settle ::
  "('s \<Rightarrow> nat \<Rightarrow> nat \<Rightarrow> bool) \<Rightarrow> ('s \<Rightarrow> nat \<Rightarrow> nat \<Rightarrow> 's) \<Rightarrow> 's \<Rightarrow> nat \<Rightarrow> nat \<Rightarrow> 's" where
  "heap_settle lt swap h i n =
     (case heap_down lt swap h i n of (h', i') \<Rightarrow> if i < i' then h' else heap_up lt swap h' i)"

definition heap_Init ::
  "('s \<Rightarrow> nat) \<Rightarrow> ('s \<Rightarrow> nat \<Rightarrow> nat \<Rightarrow> bool) \<Rightarrow> ('s \<Rightarrow> nat \<Rightarrow> nat \<Rightarrow> 's) \<Rightarrow> 's \<Rightarrow> 's" where
  "heap_Init len lt swap h =
     foldl (\<lambda>h i. fst (heap_down lt swap h i (len h))) h (rev [0..<len h div 2])"

definition heap_Push ::
  "('s \<Rightarrow> nat) \<Rightarrow> ('s \<Rightarrow> nat \<Rightarrow> nat \<Rightarrow> bool) \<Rightarrow> ('s \<Rightarrow> nat \<Rightarrow> nat \<Rightarrow> 's) \<Rightarrow> ('s \<Rightarrow> 'x \<Rightarrow> 's) \<Rightarrow> 's \<Rightarrow> 'x \<Rightarrow> 's" where
  "heap_Push len lt swap push h x = (let h' = push h x in heap_up lt swap h' (len h' - 1))"

definition heap_Pop ::
  "('s \<Rightarrow> nat) \<Rightarrow> ('s \<Rightarrow> nat \<Rightarrow> nat \<Rightarrow> bool) \<Rightarrow> ('s \<Rightarrow> nat \<Rightarrow> nat \<Rightarrow> 's) \<Rightarrow> ('s \<Rightarrow> 'x \<times> 's) \<Rightarrow> 's \<Rightarrow> 'x \<times> 's" where
  "heap_Pop len lt swap pop h =
     (let n = len h - 1 in pop (fst (heap_down lt swap (swap h 0 n) 0 n)))"

definition heap_Remove ::
  "('s \<Rightarrow> nat) \<Rightarrow> ('s \<Rightarrow> nat \<Rightarrow> nat \<Rightarrow> bool) \<Rightarrow> ('s \<Rightarrow> nat \<Rightarrow> nat \<Rightarrow> 's) \<Rightarrow> ('s \<Rightarrow> 'x \<times> 's) \<Rightarrow> 's \<Rightarrow> nat \<Rightarrow> 'x \<times> 's" where
  "heap_Remove len lt swap pop h i =
     (let n = len h - 1
      in pop (if n \<noteq> i then heap_settle lt swap (swap h i n) i n else h))"

text \<open>
  \<open>Fix\<close> takes a Go \<open>int\<close>. With the index \<open>-1\<close> of an element outside the heap, \<open>down\<close> leaves its loop at
  once (\<open>2*i+1 < 0\<close>) and so does \<open>up\<close> (\<open>(j-1)/2 = j\<close>), so nothing happens.
\<close>

definition heap_Fix ::
  "('s \<Rightarrow> nat) \<Rightarrow> ('s \<Rightarrow> nat \<Rightarrow> nat \<Rightarrow> bool) \<Rightarrow> ('s \<Rightarrow> nat \<Rightarrow> nat \<Rightarrow> 's) \<Rightarrow> 's \<Rightarrow> int \<Rightarrow> 's" where
  "heap_Fix len lt swap h i = (if i = -1 then h else heap_settle lt swap h (nat i) (len h))"

text \<open>The loops change a state only through \<open>swap\<close>, so they keep whatever \<open>swap\<close> keeps.\<close>

lemma heap_up_keeps:
  "(\<And>h i j. f (swap h i j) = f h) \<Longrightarrow> f (heap_up lt swap h j) = f h"
  by (induction j arbitrary: h rule: less_induct)
    (subst heap_up.simps, auto simp: par_def Let_def)

lemma heap_down_keeps:
  "(\<And>h i j. f (swap h i j) = f h) \<Longrightarrow> f (fst (heap_down lt swap h i n)) = f h"
proof (induction "n - i" arbitrary: h i rule: less_induct)
  case less
  let ?j = "small_child lt h i n"
  have "n - ?j < n - i" if "\<not> n \<le> 2 * i + 1" using that by (auto simp: small_child_def Let_def)
  then show ?case using less by (subst heap_down.simps) (simp add: Let_def)
qed

lemma heap_settle_keeps:
  assumes "\<And>h i j. f (swap h i j) = f h"
  shows "f (heap_settle lt swap h i n) = f h"
  using heap_down_keeps [of f swap lt h i n, OF assms] heap_up_keeps [of f swap, OF assms]
  by (cases "heap_down lt swap h i n") (simp add: heap_settle_def)

lemmas heap_ops = heap_Push_def heap_Pop_def heap_Remove_def heap_Fix_def Let_def

section \<open>Heap order on lists\<close>

definition swap_at :: "'e list \<Rightarrow> nat \<Rightarrow> nat \<Rightarrow> 'e list" where
  "swap_at xs i j = xs[i := xs ! j, j := xs ! i]"

lemma length_swap_at [simp]: "length (swap_at xs i j) = length xs"
  by (simp add: swap_at_def)

lemma nth_swap_at [simp]:
  "i < length xs \<Longrightarrow> j < length xs \<Longrightarrow>
   swap_at xs i j ! k = (if k = j then xs ! i else if k = i then xs ! j else xs ! k)"
  by (cases "k < length xs") (auto simp: swap_at_def nth_list_update)

lemma mset_swap_at [simp]: "i < length xs \<Longrightarrow> j < length xs \<Longrightarrow> mset (swap_at xs i j) = mset xs"
  by (metis list_update_swap mset_swap swap_at_def list_update_id)

lemma drop_swap_at: "i < n \<Longrightarrow> j < n \<Longrightarrow> drop n (swap_at xs i j) = drop n xs"
  by (simp add: swap_at_def)

text \<open>\<open>hp n xs\<close>: the first \<open>n\<close> elements are in heap order.\<close>

definition hp :: "('e \<Rightarrow> 'k::linorder) \<Rightarrow> nat \<Rightarrow> 'e list \<Rightarrow> bool" where
  "hp key n xs \<longleftrightarrow> (\<forall>c. 0 < c \<longrightarrow> c < n \<longrightarrow> key (xs ! par c) \<le> key (xs ! c))"

text \<open>Heap order except around the element \<open>i\<close> (\<open>hx\<close>), towards its parent, or towards its children.\<close>

definition hx :: "('e \<Rightarrow> 'k::linorder) \<Rightarrow> nat \<Rightarrow> 'e list \<Rightarrow> nat \<Rightarrow> bool" where
  "hx key n xs i \<longleftrightarrow>
     (\<forall>c. 0 < c \<longrightarrow> c < n \<longrightarrow> c \<noteq> i \<longrightarrow> par c \<noteq> i \<longrightarrow> key (xs ! par c) \<le> key (xs ! c))
     \<and> (\<forall>c. 0 < c \<longrightarrow> c < n \<longrightarrow> par c = i \<longrightarrow> 0 < i \<longrightarrow> key (xs ! par i) \<le> key (xs ! c))"

definition above :: "('e \<Rightarrow> 'k::linorder) \<Rightarrow> 'e list \<Rightarrow> nat \<Rightarrow> bool" where
  "above key xs i \<longleftrightarrow> (0 < i \<longrightarrow> key (xs ! par i) \<le> key (xs ! i))"

definition below :: "('e \<Rightarrow> 'k::linorder) \<Rightarrow> nat \<Rightarrow> 'e list \<Rightarrow> nat \<Rightarrow> bool" where
  "below key n xs i \<longleftrightarrow> (\<forall>c. 0 < c \<longrightarrow> c < n \<longrightarrow> par c = i \<longrightarrow> key (xs ! i) \<le> key (xs ! c))"

lemma par_less [simp]: "0 < c \<Longrightarrow> par c < c"
  by (auto simp: par_def)

lemma par_le: "par c \<le> c"
  by (simp add: par_def)

lemma par_0 [simp]: "par 0 = 0"
  by (simp add: par_def)

lemma par_eq_iff: "0 < c \<Longrightarrow> par c = i \<longleftrightarrow> c = 2 * i + 1 \<or> c = 2 * i + 2"
  by (auto simp: par_def)

lemma hp_iff: "i < n \<Longrightarrow> hp key n xs \<longleftrightarrow> hx key n xs i \<and> above key xs i \<and> below key n xs i"
proof -
  assume i: "i < n"
  have "0 < i \<Longrightarrow> par i \<noteq> i" using par_less [of i] by linarith
  then show ?thesis
    using i unfolding hp_def hx_def above_def below_def
    by (smt (verit) par_less order_trans less_trans)
qed

lemma hp_mono: "hp key n xs \<Longrightarrow> m \<le> n \<Longrightarrow> hp key m xs"
  by (simp add: hp_def)

lemma hp_le: "hp key n xs \<Longrightarrow> i < n \<Longrightarrow> key (xs ! 0) \<le> key (xs ! i)"
proof (induction i rule: less_induct)
  case (less i)
  show ?case
  proof (cases "i = 0")
    case False
    then have "key (xs ! 0) \<le> key (xs ! par i)" using less by simp
    also have "\<dots> \<le> key (xs ! i)" using less.prems False by (simp add: hp_def)
    finally show ?thesis .
  qed simp
qed

text \<open>One exchange of \<open>up\<close>, and one of \<open>down\<close>, moves the exception to the other end of the exchange.\<close>

lemma hx_swap_up:
  assumes "hx key n xs j" "below key n xs j" "0 < j" "j < n" "n \<le> length xs"
    and "key (xs ! j) < key (xs ! par j)"
  shows "hx key n (swap_at xs (par j) j) (par j) \<and> below key n (swap_at xs (par j) j) (par j)"
proof -
  define i where "i = par j"
  have i: "i < j" "i < length xs" "j < length xs" using assms par_less [of j] by (simp_all add: i_def del: par_less)
  have lt: "key (xs ! j) < key (xs ! i)" using assms(6) by (simp add: i_def)
  have o: "key (xs ! par c) \<le> key (xs ! c)" if "0 < c" "c < n" "c \<noteq> j" "par c \<noteq> j" for c
    using assms(1) that by (simp add: hx_def)
  have g: "key (xs ! i) \<le> key (xs ! c)" if "0 < c" "c < n" "par c = j" for c
    using assms(1,3) that by (simp add: hx_def i_def)
  have ih: "key (xs ! par i) \<le> key (xs ! i)" if "0 < i"
    using o [of i] that i assms(4) par_less [OF that] by linarith
  have sib: "key (xs ! i) \<le> key (xs ! c)" if "0 < c" "c < n" "par c = i" "c \<noteq> j" for c
    using o [of c] that i by auto
  have pn: "par c \<noteq> c" if "0 < c" for c using par_less [OF that] by linarith
  have "hx key n (swap_at xs i j) i"
    unfolding hx_def using i o g ih sib pn lt
    by (auto simp: i_def [symmetric]) (meson order_trans order.strict_implies_order)+
  moreover have "below key n (swap_at xs i j) i"
    unfolding below_def using i sib lt by (auto intro: order_trans [OF order.strict_implies_order])
  ultimately show ?thesis by (simp add: i_def)
qed

lemma hx_swap_down:
  assumes "hx key n xs i" "par j = i" "0 < j" "j < n" "n \<le> length xs"
    and "key (xs ! j) < key (xs ! i)"
    and small: "\<And>c. 0 < c \<Longrightarrow> c < n \<Longrightarrow> par c = i \<Longrightarrow> key (xs ! j) \<le> key (xs ! c)"
  shows "hx key n (swap_at xs i j) j \<and> above key (swap_at xs i j) j"
proof -
  have i: "i < j" "i < length xs" "j < length xs"
    using assms(2-5) par_less [of j] by (simp_all del: par_less)
  have o: "key (xs ! par c) \<le> key (xs ! c)" if "0 < c" "c < n" "c \<noteq> i" "par c \<noteq> i" for c
    using assms(1) that by (simp add: hx_def)
  have g: "key (xs ! par i) \<le> key (xs ! c)" if "0 < c" "c < n" "par c = i" "0 < i" for c
    using assms(1) that by (simp add: hx_def)
  have pn: "par c \<noteq> c" if "0 < c" for c using par_less [OF that] by linarith
  have "hx key n (swap_at xs i j) j"
    unfolding hx_def using i o g small assms(2-6) pn by auto
  moreover have "above key (swap_at xs i j) j"
    using i assms(2,6) by (auto simp: above_def)
  ultimately show ?thesis by simp
qed

section \<open>The interface\<close>

text \<open>
  \<open>elems\<close> is the underlying slice and \<open>key\<close> the value \<open>Less\<close> compares, which may depend on the state the
  elements point to. \<open>good\<close> is what the implementation keeps of its own (the write-back queue: each
  element knows its index).
\<close>

locale heap_interface =
  fixes hlen :: "'s \<Rightarrow> nat"
    and lt :: "'s \<Rightarrow> nat \<Rightarrow> nat \<Rightarrow> bool"
    and swap :: "'s \<Rightarrow> nat \<Rightarrow> nat \<Rightarrow> 's"
    and push :: "'s \<Rightarrow> 'x \<Rightarrow> 's"
    and pop :: "'s \<Rightarrow> 'x \<times> 's"
    and elems :: "'s \<Rightarrow> 'x list"
    and key :: "'s \<Rightarrow> 'x \<Rightarrow> 'k::linorder"
    and good :: "'s \<Rightarrow> bool"
  assumes len_law: "hlen s = length (elems s)"
    and lt_law: "i < length (elems s) \<Longrightarrow> j < length (elems s) \<Longrightarrow>
      lt s i j \<longleftrightarrow> key s (elems s ! i) < key s (elems s ! j)"
    and swap_elems: "i < length (elems s) \<Longrightarrow> j < length (elems s) \<Longrightarrow>
      elems (swap s i j) = swap_at (elems s) i j"
    and swap_key: "key (swap s i j) = key s"
    and swap_good: "good s \<Longrightarrow> i < length (elems s) \<Longrightarrow> j < length (elems s) \<Longrightarrow> good (swap s i j)"
    and push_elems: "elems (push s x) = elems s @ [x]"
    and push_key: "key (push s x) = key s"
    and push_good: "good s \<Longrightarrow> x \<notin> set (elems s) \<Longrightarrow> good (push s x)"
    and pop_elems: "elems s \<noteq> [] \<Longrightarrow> elems (snd (pop s)) = butlast (elems s)"
    and pop_val: "elems s \<noteq> [] \<Longrightarrow> fst (pop s) = last (elems s)"
    and pop_key: "elems s \<noteq> [] \<Longrightarrow> key (snd (pop s)) = key s"
    and pop_good: "good s \<Longrightarrow> elems s \<noteq> [] \<Longrightarrow> good (snd (pop s))"
begin

text \<open>What all the loops keep: \<open>s'\<close> is \<open>s\<close> with its first \<open>n\<close> elements rearranged.\<close>

definition perm_of :: "nat \<Rightarrow> 's \<Rightarrow> 's \<Rightarrow> bool" where
  "perm_of n s s' \<longleftrightarrow> good s' \<and> key s' = key s \<and> mset (elems s') = mset (elems s)
     \<and> drop n (elems s') = drop n (elems s)"

lemma perm_of_refl: "good s \<Longrightarrow> perm_of n s s"
  by (simp add: perm_of_def)

lemma perm_of_trans: "perm_of n s t \<Longrightarrow> perm_of n t u \<Longrightarrow> perm_of n s u"
  by (simp add: perm_of_def)

lemma perm_of_length: "perm_of n s t \<Longrightarrow> length (elems t) = length (elems s)"
  unfolding perm_of_def by (metis size_mset)

lemma perm_of_swap:
  assumes "good s" "i < n" "j < n" "n \<le> length (elems s)"
  shows "perm_of n s (swap s i j)"
  using assms by (simp add: perm_of_def swap_good swap_key swap_elems drop_swap_at)

lemma up_spec:
  "good s \<Longrightarrow> j < n \<Longrightarrow> n \<le> length (elems s) \<Longrightarrow> hx (key s) n (elems s) j \<Longrightarrow>
   below (key s) n (elems s) j \<Longrightarrow>
   perm_of n s (heap_up lt swap s j) \<and> hp (key s) n (elems (heap_up lt swap s j))"
proof (induction j arbitrary: s rule: less_induct)
  case (less j)
  note jn = less.prems(2,3)
  show ?case
  proof (cases "par j = j \<or> \<not> lt s j (par j)")
    case True
    then have eq: "heap_up lt swap s j = s" by (simp add: heap_up.simps)
    have "above (key s) (elems s) j"
    proof (cases "j = 0")
      case False
      then have "par j < j" by simp
      then show ?thesis using True jn lt_law [of j s "par j"] by (auto simp: above_def)
    qed (simp add: above_def)
    then show ?thesis
      using less.prems eq by (simp add: hp_iff [of j n] perm_of_refl)
  next
    case False
    then have j: "0 < j" by (cases j) auto
    let ?i = "par j" and ?s = "swap s (par j) j"
    have i: "?i < j" "?i < length (elems s)" "j < length (elems s)" "?i < n"
      using j jn par_less [OF j] by linarith+
    have lt: "key s (elems s ! j) < key s (elems s ! ?i)" using False i lt_law by simp
    have p: "perm_of n s ?s" using perm_of_swap [OF less.prems(1) i(4) jn] .
    note h = hx_swap_up [OF less.prems(4,5) j jn lt]
    have "perm_of n ?s (heap_up lt swap ?s ?i) \<and> hp (key ?s) n (elems (heap_up lt swap ?s ?i))"
      using less.prems(1) i jn h
      by (intro less.IH) (simp_all add: swap_good swap_key swap_elems)
    moreover have "heap_up lt swap s j = heap_up lt swap ?s ?i"
      using False by (simp add: heap_up.simps [of lt swap s j] Let_def)
    ultimately show ?thesis using perm_of_trans [OF p] by (simp add: swap_key)
  qed
qed

lemma small_child_spec:
  assumes "2 * i + 1 < n" "n \<le> length (elems s)" "j = small_child lt s i n"
  shows "par j = i" "0 < j" "j < n" "i < j"
    "\<And>c. 0 < c \<Longrightarrow> c < n \<Longrightarrow> par c = i \<Longrightarrow> key s (elems s ! j) \<le> key s (elems s ! c)"
proof -
  have l: "lt s (2 * i + 2) (2 * i + 1) \<longleftrightarrow>
      key s (elems s ! (2 * i + 2)) < key s (elems s ! (2 * i + 1))" if "2 * i + 2 < n"
    using that assms by (intro lt_law) auto
  show "par j = i" "0 < j" "j < n" "i < j"
    using assms by (auto simp: small_child_def Let_def par_def)
  show "key s (elems s ! j) \<le> key s (elems s ! c)" if "0 < c" "c < n" "par c = i" for c
    using assms(1,3) that(2) l iffD1 [OF par_eq_iff [OF that(1)] that(3)]
    by (auto simp: small_child_def Let_def)
qed

text \<open>\<open>down\<close> from a place whose parent is not larger establishes the heap order.\<close>

lemma down_spec:
  "good s \<Longrightarrow> i < n \<Longrightarrow> n \<le> length (elems s) \<Longrightarrow> hx (key s) n (elems s) i \<Longrightarrow>
   above (key s) (elems s) i \<Longrightarrow>
   perm_of n s (fst (heap_down lt swap s i n)) \<and> hp (key s) n (elems (fst (heap_down lt swap s i n)))
   \<and> i \<le> snd (heap_down lt swap s i n)"
proof (induction "n - i" arbitrary: s i rule: less_induct)
  case less
  note I = less.prems
  show ?case
  proof (cases "n \<le> 2 * i + 1")
    case True
    then have "below (key s) n (elems s) i" by (auto simp: below_def par_eq_iff)
    with True I show ?thesis by (simp add: heap_down.simps [of lt swap s i] hp_iff [of i n] perm_of_refl)
  next
    case False
    define j where "j = small_child lt s i n"
    note j = small_child_spec [OF _ I(3) j_def]
    have j': "par j = i" "0 < j" "j < n" "i < j" using j False by auto
    have eq: "heap_down lt swap s i n
        = (if \<not> lt s j i then (s, i) else heap_down lt swap (swap s i j) j n)"
      using False by (simp add: heap_down.simps [of lt swap s i] j_def [symmetric])
    have l: "lt s j i \<longleftrightarrow> key s (elems s ! j) < key s (elems s ! i)"
      using j' I by (intro lt_law) auto
    show ?thesis
    proof (cases "lt s j i")
      case True
      have p: "perm_of n s (swap s i j)" using perm_of_swap [OF I(1,2) j'(3) I(3)] .
      note h = hx_swap_down [OF I(4) j'(1,2,3) I(3)]
      have "hx (key s) n (swap_at (elems s) i j) j \<and> above (key s) (swap_at (elems s) i j) j"
        using j False True l by (intro h) auto
      moreover have "n - j < n - i" using j' I(2) by linarith
      ultimately have "perm_of n (swap s i j) (fst (heap_down lt swap (swap s i j) j n))
          \<and> hp (key (swap s i j)) n (elems (fst (heap_down lt swap (swap s i j) j n)))
          \<and> j \<le> snd (heap_down lt swap (swap s i j) j n)"
        using I j' by (intro less.hyps) (simp_all add: swap_good swap_key swap_elems)
      then have "perm_of n s (fst (heap_down lt swap s i n))
          \<and> hp (key s) n (elems (fst (heap_down lt swap s i n))) \<and> j \<le> snd (heap_down lt swap s i n)"
        using True eq perm_of_trans [OF p] by (simp add: swap_key)
      with j'(4) show ?thesis by simp
    next
      case F: False
      then have "key s (elems s ! i) \<le> key s (elems s ! j)" using l by simp
      moreover have "2 * i + 1 < n" using False by simp
      ultimately have "below (key s) n (elems s) i"
        unfolding below_def using order_trans j(5) by blast
      with F eq I show ?thesis by (simp add: hp_iff [of i n] perm_of_refl)
    qed
  qed
qed

text \<open>
  \<open>heap_settle\<close> repairs any exception, the case of \<open>Fix\<close> and of \<open>Remove\<close>: \<open>down\<close> when the element is too
  large for its place, \<open>up\<close> when \<open>down\<close> did not move it.
\<close>

lemma settle_spec:
  assumes "good s" "i < n" "n \<le> length (elems s)" "hx (key s) n (elems s) i"
  shows "perm_of n s (heap_settle lt swap s i n) \<and> hp (key s) n (elems (heap_settle lt swap s i n))"
proof (cases "2 * i + 1 < n \<and> lt s (small_child lt s i n) i")
  case True
  define j where "j = small_child lt s i n"
  have n: "2 * i + 1 < n" "lt s j i" using True by (simp_all add: j_def)
  note j = small_child_spec [OF n(1) assms(3) j_def]
  have eq: "heap_down lt swap s i n = heap_down lt swap (swap s i j) j n"
    using n by (simp add: heap_down.simps [of lt swap s i] j_def [symmetric])
  have p: "perm_of n s (swap s i j)" using perm_of_swap [OF assms(1,2) j(3) assms(3)] .
  have len: "i < length (elems s)" "j < length (elems s)" using assms(2,3) j(3) by simp_all
  have "key s (elems s ! j) < key s (elems s ! i)" using n(2) lt_law [OF len(2,1)] by simp
  note h = hx_swap_down [OF assms(4) j(1,2,3) assms(3) this j(5)]
  have D: "perm_of n (swap s i j) (fst (heap_down lt swap (swap s i j) j n))
      \<and> hp (key (swap s i j)) n (elems (fst (heap_down lt swap (swap s i j) j n)))
      \<and> j \<le> snd (heap_down lt swap (swap s i j) j n)"
    using down_spec [of "swap s i j" j n, unfolded swap_key swap_elems [OF len] length_swap_at,
        OF swap_good [OF assms(1) len] j(3) assms(3) h [THEN conjunct1] h [THEN conjunct2]]
    by (simp only: swap_key)
  then have "i < snd (heap_down lt swap s i n)" using j(4) eq by simp
  then have "heap_settle lt swap s i n = fst (heap_down lt swap (swap s i j) j n)"
    by (cases "heap_down lt swap (swap s i j) j n") (simp add: heap_settle_def eq)
  with D show ?thesis using perm_of_trans [OF p] by (simp add: swap_key)
next
  case False
  then have stay: "heap_down lt swap s i n = (s, i)"
    by (auto simp: heap_down.simps [of lt swap s i] Let_def)
  have "below (key s) n (elems s) i"
  proof (cases "2 * i + 1 < n")
    case True
    note j = small_child_spec [OF True assms(3) refl]
    have "key s (elems s ! i) \<le> key s (elems s ! small_child lt s i n)"
      using True False lt_law [of "small_child lt s i n" s i] j(3) assms(2,3) by auto
    then show ?thesis unfolding below_def using order_trans j(5) by blast
  next
    case F: False
    then show ?thesis by (auto simp: below_def par_eq_iff)
  qed
  then show ?thesis
    using up_spec [OF assms] by (simp add: heap_settle_def stay)
qed

definition heap :: "'s \<Rightarrow> bool" where
  "heap s \<longleftrightarrow> hp (key s) (length (elems s)) (elems s)"

lemma perm_of_set: "perm_of n s t \<Longrightarrow> set (elems t) = set (elems s)"
  unfolding perm_of_def by (metis set_mset_mset)

lemma Push_spec:
  assumes "good s" "heap s" "x \<notin> set (elems s)"
  defines "s' \<equiv> heap_Push hlen lt swap push s x"
  shows "good s' \<and> heap s' \<and> key s' = key s \<and> mset (elems s') = add_mset x (mset (elems s))"
proof -
  let ?n = "length (elems s)" and ?p = "push s x"
  have b: "below (key s) (Suc ?n) (elems s @ [x]) ?n"
    by (auto simp: below_def par_def)
  have "key s ((elems s @ [x]) ! par c) \<le> key s ((elems s @ [x]) ! c)" if "0 < c" "c < ?n" for c
    using that assms(2) order.strict_trans [OF par_less [OF that(1)] that(2)]
    by (simp add: heap_def hp_def nth_append)
  moreover have "par c \<noteq> ?n" if "0 < c" "c < Suc ?n" for c using that par_less [of c] by linarith
  ultimately have "hx (key s) (Suc ?n) (elems s @ [x]) ?n" by (auto simp: hx_def)
  from up_spec [of ?p ?n "Suc ?n"] this b
  have U: "perm_of (Suc ?n) ?p (heap_up lt swap ?p ?n) \<and> hp (key s) (Suc ?n) (elems (heap_up lt swap ?p ?n))"
    using assms(1,3) by (simp add: push_good push_elems push_key)
  moreover have "s' = heap_up lt swap ?p ?n"
    by (simp add: s'_def heap_Push_def Let_def len_law push_elems)
  ultimately show ?thesis
    using perm_of_length [of "Suc ?n" ?p s'] by (simp add: perm_of_def heap_def push_key push_elems)
qed

lemma Fix_spec:
  assumes "good s" "i < length (elems s)" "hx (key s) (length (elems s)) (elems s) i"
  defines "s' \<equiv> heap_Fix hlen lt swap s (int i)"
  shows "good s' \<and> heap s' \<and> key s' = key s \<and> mset (elems s') = mset (elems s)"
proof -
  have "perm_of (length (elems s)) s s' \<and> hp (key s) (length (elems s)) (elems s')"
    using settle_spec [OF assms(1,2) order_refl assms(3)]
    by (simp add: s'_def heap_Fix_def len_law)
  then show ?thesis
    using perm_of_length unfolding heap_def perm_of_def by metis
qed

text \<open>After the element has been exchanged with the last one, \<open>Pop\<close> of the implementation takes it off.\<close>

lemma pop_last:
  assumes "good s" "i < length (elems s)" "n = length (elems s) - 1"
    and p: "perm_of n (swap s i n) t" and h: "hp (key s) n (elems t)"
  shows "fst (pop t) = elems s ! i \<and> good (snd (pop t)) \<and> heap (snd (pop t)) \<and> key (snd (pop t)) = key s
    \<and> mset (elems s) = add_mset (elems s ! i) (mset (elems (snd (pop t))))"
proof -
  let ?xs = "elems s"
  have n: "n < length ?xs" "length ?xs = Suc n" using assms(2,3) by auto
  have se: "elems (swap s i n) = swap_at ?xs i n" using swap_elems assms(2) n by simp
  have lt: "length (elems t) = Suc n" using perm_of_length [OF p] se n by simp
  then have ne: "elems t \<noteq> []" by auto
  have "elems t ! n = swap_at ?xs i n ! n"
    using p lt n(2) unfolding perm_of_def se by (metis Cons_nth_drop_Suc length_swap_at lessI list.inject)
  then have last: "last (elems t) = ?xs ! i"
    using lt assms(2) n by (simp add: last_conv_nth ne)
  have b: "butlast (elems t) = take n (elems t)" using lt by (simp add: butlast_conv_take)
  have k: "key t = key s" "good t" "mset (elems t) = mset ?xs"
    using p se assms(2) n by (auto simp: perm_of_def swap_key)
  have "mset (elems t) = mset (butlast (elems t) @ [last (elems t)])" using ne by simp
  then have m: "mset ?xs = add_mset (?xs ! i) (mset (butlast (elems t)))"
    using k(3) last by simp
  have "hp (key s) n (take n (elems t))"
    using h order.strict_trans [OF par_less] by (auto simp: hp_def)
  then have "heap (snd (pop t))"
    using lt by (simp add: heap_def pop_elems [OF ne] pop_key [OF ne] k b min_def)
  then show ?thesis
    using m last k by (simp add: pop_elems [OF ne] pop_val [OF ne] pop_key [OF ne] pop_good [OF _ ne])
qed

lemma Pop_spec:
  assumes "good s" "heap s" "elems s \<noteq> []"
  defines "r \<equiv> heap_Pop hlen lt swap pop s"
  shows "fst r = elems s ! 0 \<and> good (snd r) \<and> heap (snd r) \<and> key (snd r) = key s
    \<and> mset (elems s) = add_mset (elems s ! 0) (mset (elems (snd r)))"
proof -
  define n where "n = length (elems s) - 1"
  define s1 where "s1 = swap s 0 n"
  have n: "n < length (elems s)" "0 < length (elems s)" using assms(3) by (auto simp: n_def)
  have g: "good s1" using assms(1) n by (simp add: s1_def swap_good)
  have e: "elems s1 = swap_at (elems s) 0 n" "key s1 = key s"
    using n by (simp_all add: s1_def swap_elems swap_key)
  have o: "hx (key s) n (elems s1) 0" "above (key s) (elems s1) 0"
    using assms(2) n order.strict_trans [OF par_less]
    by (auto simp: hx_def above_def e heap_def hp_def)
  have D: "perm_of n s1 (fst (heap_down lt swap s1 0 n)) \<and> hp (key s) n (elems (fst (heap_down lt swap s1 0 n)))"
  proof (cases n)
    case 0
    then show ?thesis using g by (simp add: heap_down.simps [of lt swap s1] perm_of_refl hp_def)
  next
    case (Suc m)
    then show ?thesis using down_spec [of s1 0 n] g o n e by simp
  qed
  have "r = pop (fst (heap_down lt swap s1 0 n))"
    by (simp add: r_def heap_Pop_def Let_def len_law n_def s1_def)
  then show ?thesis
    using pop_last [OF assms(1) n(2) n_def, of "fst (heap_down lt swap s1 0 n)"] D by (simp add: s1_def)
qed

lemma Remove_spec:
  assumes "good s" "heap s" "i < length (elems s)"
  defines "r \<equiv> heap_Remove hlen lt swap pop s i"
  shows "fst r = elems s ! i \<and> good (snd r) \<and> heap (snd r) \<and> key (snd r) = key s
    \<and> mset (elems s) = add_mset (elems s ! i) (mset (elems (snd r)))"
proof -
  define n where "n = length (elems s) - 1"
  have n: "n < length (elems s)" "length (elems s) = Suc n" using assms(3) by (auto simp: n_def)
  have hp: "hp (key s) (Suc n) (elems s)" using assms(2) n(2) by (simp add: heap_def)
  have r: "r = pop (if n \<noteq> i then heap_settle lt swap (swap s i n) i n else s)"
    by (simp add: r_def heap_Remove_def Let_def len_law n_def)
  show ?thesis
  proof (cases "n = i")
    case True
    have "elems (swap s i n) = elems s" using True n by (simp add: swap_elems swap_at_def)
    then have "perm_of n (swap s i n) s"
      using perm_of_refl [OF assms(1)] by (simp add: perm_of_def swap_key)
    from pop_last [OF assms(1,3) n_def this hp_mono [OF hp]] r True show ?thesis by simp
  next
    case False
    then have i: "i < n" using assms(3) n(2) by linarith
    let ?s = "swap s i n"
    have e: "elems ?s = swap_at (elems s) i n" using assms(3) n by (simp add: swap_elems)
    have o: "key s (elems s ! par c) \<le> key s (elems s ! c)" if "0 < c" "c < n" for c
      using hp that by (simp add: hp_def)
    have "key s (elems s ! par i) \<le> key s (elems s ! c)" if "0 < c" "c < n" "par c = i" "0 < i" for c
      using o [OF that(1,2)] o [OF that(4) i] that(3) by simp
    moreover have "par c \<noteq> n" if "c < n" for c
      using that par_le [of c] by linarith
    moreover have "par i \<noteq> i" if "0 < i" using par_less [OF that] by linarith
    moreover have "par c \<noteq> c" if "0 < c" for c using par_less [OF that] by linarith
    ultimately have "hx (key ?s) n (elems ?s) i"
      using o i n unfolding hx_def e swap_key by auto
    then have "perm_of n ?s (heap_settle lt swap ?s i n) \<and> hp (key ?s) n (elems (heap_settle lt swap ?s i n))"
      using i n e assms(1,3) by (intro settle_spec) (simp_all add: swap_good)
    then show ?thesis
      using pop_last [OF assms(1,3) n_def] r False by (simp add: swap_key)
  qed
qed

lemma Init_empty: "elems s = [] \<Longrightarrow> heap_Init hlen lt swap s = s \<and> heap s"
  by (simp add: heap_Init_def len_law heap_def hp_def)

text \<open>The element at the root is the least.\<close>

lemma root_least:
  assumes "heap s" "x \<in> set (elems s)"
  shows "key s (elems s ! 0) \<le> key s x"
  using assms hp_le unfolding heap_def in_set_conv_nth by metis

end

end
