(* ===== verification/WriteBack.thy ===== *)
theory WriteBack
  imports GoHeap GoIO
begin

text \<open>
  The write-back queue of \<open>internal/cache/writeback/writeback.go\<close>. The items are Go pointers, so the
  model has a store from addresses to item records; the heap \<open>items\<close> and the map \<open>lookup\<close> (an association
  list with distinct keys) hold addresses. Every stretch of
  code between acquiring and releasing \<open>wb.mu\<close> is one function. An operation that gives up the lock in the
  middle (\<open>_cancelUpload\<close> waiting for the uploader) leaves a waiting thread with the rest of its code, so
  other operations can run in between. The goroutines and the timer are threads of the model too.
  Times are nanoseconds since Go's zero time (0 is \<open>IsZero\<close>); the clock stands still while the lock
  is held.
\<close>

section \<open>The model\<close>

type_synonym Handle = uint64

definition maxUploadDelay :: int64 where
  "maxUploadDelay = 300000000000"

record writeBackItem =
  w_name :: string
  w_size :: int64
  w_id :: Handle
  index :: int
  w_expiry :: time
  uploading :: bool
  onHeap :: bool
  w_cancel :: "nat option"
  w_done :: "nat option"
  putFn :: nat
  tries :: nat
  delay :: int64

text \<open>The rest of an operation that waits for the channel \<open>done\<close>, and the threads.\<close>

datatype cont =
    KAdd nat int64 nat
  | KRemove nat
  | KRename Handle nat string
  | KRenameRemove Handle nat string nat "Handle list"
  | KCancel nat

datatype thread = TProcess | TUpload nat | TRunning nat nat | TWait nat "nat option" cont

record wb_timer =
  fire_at :: time
  live :: bool

record WriteBack =
  last_id :: Handle
  items :: "nat list"
  lookup :: "(Handle \<times> nat) list"
  opt_WriteBack :: int64
  timer :: "wb_timer option"
  expiry :: time
  uploads :: int
  ctx_done :: bool
  store :: "nat \<Rightarrow> writeBackItem"
  nextp :: nat
  threads :: "thread list"
  nextch :: nat
  closed_chs :: "nat set"
  cancelled :: "nat set"
  clock :: time

definition newWriteBack :: "int64 \<Rightarrow> time \<Rightarrow> WriteBack" where
  "newWriteBack wbdelay now =
     \<lparr>last_id = 0, items = [], lookup = [], opt_WriteBack = wbdelay, timer = None, expiry = 0,
      uploads = 0, ctx_done = False,
      store = (\<lambda>_. \<lparr>w_name = [], w_size = 0, w_id = 0, index = 0, w_expiry = 0, uploading = False,
        onHeap = False, w_cancel = None, w_done = None, putFn = 0, tries = 0, delay = 0\<rparr>),
      nextp = 0, threads = [], nextch = 0, closed_chs = {}, cancelled = {}, clock = now\<rparr>"

subsection \<open>heap.Interface\<close>

definition item_upd :: "nat \<Rightarrow> (writeBackItem \<Rightarrow> writeBackItem) \<Rightarrow> WriteBack \<Rightarrow> WriteBack" where
  "item_upd p f wb = wb\<lparr>store := (store wb)(p := f (store wb p))\<rparr>"

definition wb_Len :: "WriteBack \<Rightarrow> nat" where
  "wb_Len wb = length (items wb)"

definition wb_Less :: "WriteBack \<Rightarrow> nat \<Rightarrow> nat \<Rightarrow> bool" where
  "wb_Less wb i j =
     (let a = store wb (items wb ! i); b = store wb (items wb ! j)
      in if w_expiry a = w_expiry b then w_id a < w_id b else w_expiry a < w_expiry b)"

definition wb_Swap :: "WriteBack \<Rightarrow> nat \<Rightarrow> nat \<Rightarrow> WriteBack" where
  "wb_Swap wb i j =
     (let ws = swap_at (items wb) i j
      in item_upd (ws ! j) (\<lambda>x. x\<lparr>index := int j\<rparr>)
           (item_upd (ws ! i) (\<lambda>x. x\<lparr>index := int i\<rparr>) (wb\<lparr>items := ws\<rparr>)))"

definition wb_Push :: "WriteBack \<Rightarrow> nat \<Rightarrow> WriteBack" where
  "wb_Push wb p =
     (item_upd p (\<lambda>x. x\<lparr>index := int (length (items wb))\<rparr>) wb)\<lparr>items := items wb @ [p]\<rparr>"

definition wb_Pop :: "WriteBack \<Rightarrow> nat \<times> WriteBack" where
  "wb_Pop wb =
     (let p = last (items wb)
      in (p, (item_upd p (\<lambda>x. x\<lparr>index := -1\<rparr>) wb)\<lparr>items := butlast (items wb)\<rparr>))"

subsection \<open>The helpers called with the lock held\<close>

definition update :: "nat \<Rightarrow> time \<Rightarrow> WriteBack \<Rightarrow> WriteBack" where
  "update p e wb =
     (let wb' = item_upd p (\<lambda>x. x\<lparr>w_expiry := e\<rparr>) wb
      in heap_Fix wb_Len wb_Less wb_Swap wb' (index (store wb' p)))"

definition newExpiry :: "time \<Rightarrow> WriteBack \<Rightarrow> time" where
  "newExpiry now wb = (if 0 <s opt_WriteBack wb then now + sint (opt_WriteBack wb) else now)"

definition lk_del :: "Handle \<Rightarrow> (Handle \<times> nat) list \<Rightarrow> (Handle \<times> nat) list" where
  "lk_del k m = filter (\<lambda>(k', _). k' \<noteq> k) m"

definition lk_put :: "Handle \<Rightarrow> nat \<Rightarrow> (Handle \<times> nat) list \<Rightarrow> (Handle \<times> nat) list" where
  "lk_put k p m = (k, p) # lk_del k m"

definition addItem :: "nat \<Rightarrow> WriteBack \<Rightarrow> WriteBack" where
  "addItem p wb = wb\<lparr>lookup := lk_put (w_id (store wb p)) p (lookup wb)\<rparr>"

definition delItem :: "nat \<Rightarrow> WriteBack \<Rightarrow> WriteBack" where
  "delItem p wb = wb\<lparr>lookup := lk_del (w_id (store wb p)) (lookup wb)\<rparr>"

definition popItem :: "WriteBack \<Rightarrow> nat \<times> WriteBack" where
  "popItem wb =
     (case heap_Pop wb_Len wb_Less wb_Swap wb_Pop wb of
        (p, wb') \<Rightarrow> (p, item_upd p (\<lambda>x. x\<lparr>onHeap := False\<rparr>) wb'))"

definition pushItem :: "nat \<Rightarrow> WriteBack \<Rightarrow> WriteBack" where
  "pushItem p wb =
     (if \<not> onHeap (store wb p)
      then item_upd p (\<lambda>x. x\<lparr>onHeap := True\<rparr>) (heap_Push wb_Len wb_Less wb_Swap wb_Push wb p)
      else wb)"

definition removeItem :: "nat \<Rightarrow> WriteBack \<Rightarrow> WriteBack" where
  "removeItem p wb =
     (if onHeap (store wb p)
      then item_upd p (\<lambda>x. x\<lparr>onHeap := False\<rparr>)
             (snd (heap_Remove wb_Len wb_Less wb_Swap wb_Pop wb (nat (index (store wb p)))))
      else wb)"

definition peekItem :: "WriteBack \<Rightarrow> nat option" where
  "peekItem wb = (if length (items wb) = 0 then None else Some (items wb ! 0))"

definition stopTimer :: "WriteBack \<Rightarrow> WriteBack" where
  "stopTimer wb = (if expiry wb = 0 then wb else wb\<lparr>expiry := 0, timer := None\<rparr>)"

definition resetTimer :: "time \<Rightarrow> WriteBack \<Rightarrow> WriteBack" where
  "resetTimer now wb =
     (case peekItem wb of
        None \<Rightarrow> stopTimer wb
      | Some p \<Rightarrow>
          let e = w_expiry (store wb p)
          in if expiry wb = e then wb
             else wb\<lparr>expiry := e, timer := Some \<lparr>fire_at = now + max (e - now) 0, live = True\<rparr>\<rparr>)"

definition SetID :: "Handle \<Rightarrow> WriteBack \<Rightarrow> Handle \<times> WriteBack" where
  "SetID pid wb = (if pid = 0 then (last_id wb + 1, wb\<lparr>last_id := last_id wb + 1\<rparr>) else (pid, wb))"

definition newItem :: "time \<Rightarrow> Handle \<Rightarrow> string \<Rightarrow> int64 \<Rightarrow> WriteBack \<Rightarrow> nat \<times> WriteBack" where
  "newItem now id0 nm sz wb =
     (let (hid, wb1) = SetID id0 wb;
          p = nextp wb1;
          it = \<lparr>w_name = nm, w_size = sz, w_id = hid, index = 0, w_expiry = newExpiry now wb1,
                uploading = False, onHeap = False, w_cancel = None, w_done = None, putFn = 0,
                tries = 0, delay = opt_WriteBack wb1\<rparr>;
          wb2 = wb1\<lparr>store := (store wb1)(p := it), nextp := Suc p\<rparr>
      in (p, pushItem p (addItem p wb2)))"

subsection \<open>The operations\<close>

text \<open>
  \<open>_cancelUpload\<close>: the flag says that the caller goes on at once. Otherwise a thread waits on the item's
  \<open>done\<close> channel, with the rest of the caller's code; when it goes on it first pushes the item back.
\<close>

definition u_cancelUpload :: "nat \<Rightarrow> cont \<Rightarrow> WriteBack \<Rightarrow> WriteBack \<times> bool" where
  "u_cancelUpload p k wb =
     (let it = store wb p
      in if \<not> uploading it then (wb, True)
         else case w_cancel it of
                None \<Rightarrow> (pushItem p wb, True)
              | Some c \<Rightarrow> (wb\<lparr>threads := threads wb @ [TWait p (w_done it) k],
                              cancelled := insert c (cancelled wb)\<rparr>, False))"

definition add_rest :: "time \<Rightarrow> nat \<Rightarrow> int64 \<Rightarrow> nat \<Rightarrow> WriteBack \<Rightarrow> WriteBack" where
  "add_rest now p sz fn wb =
     resetTimer now (item_upd p (\<lambda>x. x\<lparr>w_size := sz, putFn := fn\<rparr>) wb)"

text \<open>The returned handle is that of the item, also when the call has to wait first.\<close>

definition Add ::
  "time \<Rightarrow> Handle \<Rightarrow> string \<Rightarrow> int64 \<Rightarrow> bool \<Rightarrow> nat \<Rightarrow> WriteBack \<Rightarrow> Handle \<times> WriteBack" where
  "Add now hid nm sz modified fn wb =
     (case map_of (lookup wb) hid of
        None \<Rightarrow> (case newItem now hid nm sz wb of
                   (p, wb1) \<Rightarrow> (w_id (store wb1 p), add_rest now p sz fn wb1))
      | Some p \<Rightarrow>
          (w_id (store wb p),
           if uploading (store wb p) \<and> modified
           then (case u_cancelUpload p (KAdd p sz fn) wb of
                   (wb1, cont) \<Rightarrow> if cont then add_rest now p sz fn (update p (newExpiry now wb1) wb1) else wb1)
           else add_rest now p sz fn (update p (newExpiry now wb) wb)))"

definition remove_rest :: "time \<Rightarrow> nat \<Rightarrow> WriteBack \<Rightarrow> WriteBack" where
  "remove_rest now p wb = resetTimer now (delItem p (removeItem p wb))"

definition u_remove :: "time \<Rightarrow> Handle \<Rightarrow> (nat \<Rightarrow> cont) \<Rightarrow> WriteBack \<Rightarrow> WriteBack \<times> bool" where
  "u_remove now hid k wb =
     (case map_of (lookup wb) hid of
        None \<Rightarrow> (resetTimer now wb, True)
      | Some p \<Rightarrow>
          if uploading (store wb p)
          then (case u_cancelUpload p (k p) wb of
                  (wb1, cont) \<Rightarrow> if cont then (remove_rest now p wb1, True) else (wb1, False))
          else (remove_rest now p wb, True))"

definition Remove :: "time \<Rightarrow> Handle \<Rightarrow> WriteBack \<Rightarrow> bool \<times> WriteBack" where
  "Remove now hid wb = (map_of (lookup wb) hid \<noteq> None, fst (u_remove now hid KRemove wb))"

definition rename_rest :: "time \<Rightarrow> nat \<Rightarrow> string \<Rightarrow> WriteBack \<Rightarrow> WriteBack" where
  "rename_rest now p nm wb =
     resetTimer now (update p (newExpiry now wb) (item_upd p (\<lambda>x. x\<lparr>w_name := nm\<rparr>) wb))"

text \<open>
  The loop over the map in \<open>Rename\<close>: \<open>order\<close> is the order in which Go visits the keys; a key that is gone
  when its turn comes is skipped.
\<close>

fun rename_loop :: "time \<Rightarrow> Handle \<Rightarrow> nat \<Rightarrow> string \<Rightarrow> Handle list \<Rightarrow> WriteBack \<Rightarrow> WriteBack" where
  "rename_loop now hid p nm [] wb = rename_rest now p nm wb"
| "rename_loop now hid p nm (k # order) wb =
     (case map_of (lookup wb) k of
        None \<Rightarrow> rename_loop now hid p nm order wb
      | Some q \<Rightarrow>
          if k \<noteq> hid \<and> w_name (store wb q) = nm
          then (case u_remove now k (\<lambda>q. KRenameRemove hid p nm q order) wb of
                  (wb1, cont) \<Rightarrow> if cont then rename_loop now hid p nm order wb1 else wb1)
          else rename_loop now hid p nm order wb)"

definition Rename :: "time \<Rightarrow> Handle \<Rightarrow> string \<Rightarrow> Handle list \<Rightarrow> WriteBack \<Rightarrow> WriteBack" where
  "Rename now hid nm order wb =
     (case map_of (lookup wb) hid of
        None \<Rightarrow> wb
      | Some p \<Rightarrow>
          if uploading (store wb p)
          then (case u_cancelUpload p (KRename hid p nm) wb of
                  (wb1, cont) \<Rightarrow> if cont then rename_loop now hid p nm order wb1 else wb1)
          else rename_loop now hid p nm order wb)"

definition cancelUpload :: "Handle \<Rightarrow> WriteBack \<Rightarrow> bool \<times> WriteBack" where
  "cancelUpload hid wb =
     (case map_of (lookup wb) hid of
        None \<Rightarrow> (False, wb)
      | Some p \<Rightarrow> if \<not> uploading (store wb p) then (False, wb)
                  else (True, fst (u_cancelUpload p (KCancel p) wb)))"

definition SetExpiry :: "time \<Rightarrow> Handle \<Rightarrow> time \<Rightarrow> int64 \<Rightarrow> WriteBack \<Rightarrow> go_err option \<times> WriteBack" where
  "SetExpiry now hid e relative wb =
     (case map_of (lookup wb) hid of
        None \<Rightarrow> (Some ErrorIDNotFound, wb)
      | Some p \<Rightarrow>
          let e1 = (if e = 0 then w_expiry (store wb p) else e)
          in (None, resetTimer now (update p (e1 + sint relative) wb)))"

text \<open>
  \<open>upload\<close> in its two locked parts: before \<open>putFn\<close> is called and after it has returned \<open>err\<close>. The result
  \<open>None\<close> is a panic: a nil \<open>cancel\<close>, or closing a channel twice (or a nil channel).
\<close>

definition upload_start :: "nat \<Rightarrow> WriteBack \<Rightarrow> WriteBack" where
  "upload_start p wb = item_upd p (\<lambda>x. x\<lparr>tries := tries x + 1\<rparr>) wb"

definition upload_result :: "time \<Rightarrow> nat \<Rightarrow> go_err option \<Rightarrow> WriteBack \<Rightarrow> WriteBack" where
  "upload_result now p err wb =
     (case err of
        None \<Rightarrow> delItem p wb
      | Some e \<Rightarrow>
          let d = delay (store wb p) * 2;
              d' = (if maxUploadDelay <s d then maxUploadDelay else d);
              d'' = (if errors_Is e Canceled then opt_WriteBack wb else d')
          in update p (now + sint d'') (pushItem p (item_upd p (\<lambda>x. x\<lparr>delay := d''\<rparr>) wb)))"

definition upload_done :: "time \<Rightarrow> nat \<Rightarrow> go_err option \<Rightarrow> WriteBack \<Rightarrow> WriteBack option" where
  "upload_done now p err wb =
     (case w_cancel (store wb p) of
        None \<Rightarrow> None
      | Some c \<Rightarrow>
          let wb1 = (item_upd p (\<lambda>x. x\<lparr>uploading := False\<rparr>) wb)
                      \<lparr>cancelled := insert c (cancelled wb), uploads := uploads wb - 1\<rparr>;
              wb2 = resetTimer now (upload_result now p err wb1)
          in case w_done (store wb2 p) of
               None \<Rightarrow> None
             | Some ch \<Rightarrow> if ch \<in> closed_chs wb2 then None
                          else Some (wb2\<lparr>closed_chs := insert ch (closed_chs wb2)\<rparr>))"

definition start_upload :: "nat \<Rightarrow> WriteBack \<Rightarrow> WriteBack" where
  "start_upload p wb =
     (item_upd p (\<lambda>x. x\<lparr>uploading := True, w_cancel := Some (nextch wb), w_done := Some (nextch wb)\<rparr>) wb)
       \<lparr>uploads := uploads wb + 1, nextch := Suc (nextch wb), threads := threads wb @ [TUpload p]\<rparr>"

text \<open>
  The loop of \<open>processItems\<close>; the fuel is the length of the heap, which each round shortens, and the flag
  is \<open>resetTimer\<close>.
\<close>

fun process_loop :: "nat \<Rightarrow> time \<Rightarrow> WriteBack \<Rightarrow> WriteBack \<times> bool" where
  "process_loop 0 now wb = (wb, True)"
| "process_loop (Suc n) now wb =
     (case peekItem wb of
        None \<Rightarrow> (wb, True)
      | Some p \<Rightarrow>
          if w_expiry (store wb p) - now \<le> 0
          then if 4 \<le> uploads wb then (wb, False)
               else (case popItem wb of (q, wb1) \<Rightarrow> process_loop n now (start_upload q wb1))
          else (wb, True))"

definition processItems :: "time \<Rightarrow> WriteBack \<Rightarrow> WriteBack" where
  "processItems now wb =
     (if ctx_done wb then wb
      else case process_loop (length (items wb)) now wb of
             (wb1, reset) \<Rightarrow> if reset then resetTimer now wb1 else stopTimer wb1)"

text \<open>What a waiting thread does when its channel has been closed and it has the lock again.\<close>

definition resume :: "time \<Rightarrow> Handle list \<Rightarrow> nat \<Rightarrow> cont \<Rightarrow> WriteBack \<Rightarrow> WriteBack" where
  "resume now order q k wb =
     (let wb1 = pushItem q wb
      in case k of
           KAdd p sz fn \<Rightarrow> add_rest now p sz fn (update p (newExpiry now wb1) wb1)
         | KRemove p \<Rightarrow> remove_rest now p wb1
         | KRename hid p nm \<Rightarrow> rename_loop now hid p nm order wb1
         | KRenameRemove hid p nm r todo \<Rightarrow> rename_loop now hid p nm todo (remove_rest now r wb1)
         | KCancel p \<Rightarrow> wb1)"

subsection \<open>The steps\<close>

datatype action =
    AAdd Handle string int64 bool nat | ARemove Handle | ARename Handle string "Handle list"
  | ASetExpiry Handle time int64 | AFire | AProcess nat | AStart nat
  | ADone nat "go_err option" | AResume nat "Handle list" | AShutdown

datatype outcome = Disabled | Panic | Next WriteBack

definition remove_at :: "nat \<Rightarrow> 'a list \<Rightarrow> 'a list" where
  "remove_at i xs = take i xs @ drop (Suc i) xs"

definition thread_at :: "nat \<Rightarrow> WriteBack \<Rightarrow> thread option" where
  "thread_at i wb = (if i < length (threads wb) then Some (threads wb ! i) else None)"

definition end_thread :: "nat \<Rightarrow> WriteBack \<Rightarrow> WriteBack" where
  "end_thread i wb = wb\<lparr>threads := remove_at i (threads wb)\<rparr>"

definition valid_order :: "Handle list \<Rightarrow> WriteBack \<Rightarrow> bool" where
  "valid_order order wb \<longleftrightarrow> distinct order \<and> set order = set (map fst (lookup wb))"

text \<open>
  One step at time \<open>now\<close>: a call of an operation, the firing of the timer, or a step of a thread. A step
  is disabled when the clock would run backwards, the timer is not due, or the thread is not there or
  still blocked. (\<open>cancelUpload\<close> is private and nothing in the repository calls it, so it is no step.)
\<close>

definition wb_step :: "time \<Rightarrow> action \<Rightarrow> WriteBack \<Rightarrow> outcome" where
  "wb_step now a wb0 =
     (if now < clock wb0 then Disabled
      else let wb = wb0\<lparr>clock := now\<rparr>
      in case a of
        AAdd hid nm sz modified fn \<Rightarrow> Next (snd (Add now hid nm sz modified fn wb))
      | ARemove hid \<Rightarrow> Next (snd (Remove now hid wb))
      | ARename hid nm order \<Rightarrow>
          if valid_order order wb then Next (Rename now hid nm order wb) else Disabled
      | ASetExpiry hid e rel \<Rightarrow> Next (snd (SetExpiry now hid e rel wb))
      | AFire \<Rightarrow>
          (case timer wb of
             Some t \<Rightarrow> if live t \<and> fire_at t \<le> now
                       then Next (wb\<lparr>timer := Some (t\<lparr>live := False\<rparr>), threads := threads wb @ [TProcess]\<rparr>)
                       else Disabled
           | None \<Rightarrow> Disabled)
      | AProcess i \<Rightarrow>
          if thread_at i wb = Some TProcess then Next (processItems now (end_thread i wb)) else Disabled
      | AStart i \<Rightarrow>
          (case thread_at i wb of
             Some (TUpload p) \<Rightarrow>
               Next ((upload_start p wb)\<lparr>threads := (threads wb)[i := TRunning p (putFn (store wb p))]\<rparr>)
           | _ \<Rightarrow> Disabled)
      | ADone i err \<Rightarrow>
          (case thread_at i wb of
             Some (TRunning p fn) \<Rightarrow>
               (case upload_done now p err (end_thread i wb) of None \<Rightarrow> Panic | Some wb1 \<Rightarrow> Next wb1)
           | _ \<Rightarrow> Disabled)
      | AResume i order \<Rightarrow>
          (case thread_at i wb of
             Some (TWait q (Some ch) k) \<Rightarrow>
               if ch \<in> closed_chs wb \<and> valid_order order wb
               then Next (resume now order q k (end_thread i wb)) else Disabled
           | _ \<Rightarrow> Disabled)
      | AShutdown \<Rightarrow> Next (wb\<lparr>ctx_done := True\<rparr>))"

inductive wb_reach :: "int64 \<Rightarrow> WriteBack \<Rightarrow> bool" for d where
  reach_new: "wb_reach d (newWriteBack d now)"
| reach_step: "wb_reach d wb \<Longrightarrow> wb_step now a wb = Next wb' \<Longrightarrow> wb_reach d wb'"

section \<open>The heap of pointers\<close>

lemma store_item_upd [simp]:
  "store (item_upd p f wb) q = (if q = p then f (store wb p) else store wb q)"
  by (simp add: item_upd_def)

lemma item_upd_fields [simp]:
  "items (item_upd p f wb) = items wb" "lookup (item_upd p f wb) = lookup wb"
  "last_id (item_upd p f wb) = last_id wb" "opt_WriteBack (item_upd p f wb) = opt_WriteBack wb"
  "timer (item_upd p f wb) = timer wb" "expiry (item_upd p f wb) = expiry wb"
  "uploads (item_upd p f wb) = uploads wb" "ctx_done (item_upd p f wb) = ctx_done wb"
  "nextp (item_upd p f wb) = nextp wb" "threads (item_upd p f wb) = threads wb"
  "nextch (item_upd p f wb) = nextch wb" "closed_chs (item_upd p f wb) = closed_chs wb"
  "cancelled (item_upd p f wb) = cancelled wb" "clock (item_upd p f wb) = clock wb"
  by (simp_all add: item_upd_def)

definition wb_key :: "WriteBack \<Rightarrow> nat \<Rightarrow> time \<times> Handle" where
  "wb_key wb p = (w_expiry (store wb p), w_id (store wb p))"

text \<open>Everything but the heap and the indices is as in \<open>ref\<close>.\<close>

definition frame :: "WriteBack \<Rightarrow> WriteBack \<Rightarrow> bool" where
  "frame ref wb \<longleftrightarrow> wb\<lparr>items := items ref, store := store ref\<rparr> = ref
     \<and> (\<forall>p. (store wb p)\<lparr>index := 0\<rparr> = (store ref p)\<lparr>index := 0\<rparr>)"

definition idx_good :: "nat \<Rightarrow> WriteBack \<Rightarrow> WriteBack \<Rightarrow> bool" where
  "idx_good N ref wb \<longleftrightarrow> distinct (items wb)
     \<and> (\<forall>i<length (items wb). index (store wb (items wb ! i)) = int i)
     \<and> (\<forall>p<N. p \<notin> set (items wb) \<longrightarrow> index (store wb p) = -1)
     \<and> frame ref wb"

lemma frame_refl [simp]: "frame wb wb"
  by (simp add: frame_def)

lemma frame_upd_index: "frame ref wb \<Longrightarrow> frame ref (item_upd p (\<lambda>x. x\<lparr>index := n\<rparr>) wb)"
  by (auto simp: frame_def item_upd_def)

lemma frame_items: "frame ref wb \<Longrightarrow> frame ref (wb\<lparr>items := xs\<rparr>)"
  by (auto simp: frame_def)

lemma distinct_swap_at [simp]: "i < length xs \<Longrightarrow> j < length xs \<Longrightarrow> distinct (swap_at xs i j) = distinct xs"
  by (metis mset_swap_at mset_eq_imp_distinct_iff)

lemma set_swap_at [simp]: "i < length xs \<Longrightarrow> j < length xs \<Longrightarrow> set (swap_at xs i j) = set xs"
  by (metis mset_swap_at set_mset_mset)

lemma items_wb_Swap [simp]: "items (wb_Swap wb i j) = swap_at (items wb) i j"
  by (simp add: wb_Swap_def Let_def)

lemma store_wb_Swap:
  "i < length (items wb) \<Longrightarrow> j < length (items wb) \<Longrightarrow>
   store (wb_Swap wb i j) p =
     (if p = items wb ! i then (store wb p)\<lparr>index := int j\<rparr>
      else if p = items wb ! j then (store wb p)\<lparr>index := int i\<rparr> else store wb p)"
  by (auto simp: wb_Swap_def Let_def item_upd_def)

lemma swap_idx_good:
  assumes "idx_good N ref wb" "i < length (items wb)" "j < length (items wb)"
  shows "idx_good N ref (wb_Swap wb i j)"
proof -
  have d: "distinct (items wb)" using assms(1) by (simp add: idx_good_def)
  have "index (store (wb_Swap wb i j) (swap_at (items wb) i j ! k)) = int k"
    if "k < length (items wb)" for k
    using that assms nth_eq_iff_index_eq [OF d]
    by (auto simp: store_wb_Swap idx_good_def)
  moreover have "frame ref (wb_Swap wb i j)"
    using assms(1) unfolding wb_Swap_def Let_def
    by (intro frame_upd_index frame_items) (simp add: idx_good_def)
  moreover have "index (store (wb_Swap wb i j) p) = -1" if "p < N" "p \<notin> set (items wb)" for p
    using that assms by (auto simp: store_wb_Swap idx_good_def)
  ultimately show ?thesis using assms by (simp add: idx_good_def)
qed

lemma push_idx_good:
  assumes "idx_good N ref wb" "p \<notin> set (items wb)"
  shows "idx_good N ref (wb_Push wb p)"
proof -
  have "frame ref (wb_Push wb p)"
    using assms(1) unfolding wb_Push_def by (intro frame_upd_index frame_items) (simp add: idx_good_def)
  moreover have "index (store (wb_Push wb p) ((items wb @ [p]) ! k)) = int k"
    if "k < Suc (length (items wb))" for k
    using that assms nth_mem [of k "items wb"]
    by (cases "k = length (items wb)") (auto simp: wb_Push_def idx_good_def nth_append)
  ultimately show ?thesis
    using assms by (auto simp: idx_good_def wb_Push_def)
qed

lemma pop_idx_good:
  assumes "idx_good N ref wb" "items wb \<noteq> []"
  shows "idx_good N ref (snd (wb_Pop wb))"
proof -
  obtain xs p where xs: "items wb = xs @ [p]" using assms(2) by (metis rev_exhaust)
  have "frame ref (snd (wb_Pop wb))"
    using assms(1) unfolding wb_Pop_def Let_def snd_conv
    by (intro frame_items frame_upd_index) (simp add: idx_good_def)
  moreover have "index (store (snd (wb_Pop wb)) (xs ! k)) = int k" if "k < length xs" for k
  proof -
    have "items wb ! k = xs ! k" "xs ! k \<noteq> p" "k < length (items wb)"
      using that assms(1) nth_mem [OF that] by (auto simp: xs nth_append idx_good_def)
    moreover from this have "index (store wb (xs ! k)) = int k"
      using assms(1) unfolding idx_good_def by metis
    ultimately show ?thesis by (simp add: wb_Pop_def Let_def xs)
  qed
  ultimately show ?thesis
    using assms by (auto simp: idx_good_def wb_Pop_def Let_def xs)
qed

text \<open>The methods of \<open>writeBackItems\<close> implement \<open>heap.Interface\<close>.\<close>

interpretation wbh: heap_interface wb_Len wb_Less wb_Swap wb_Push wb_Pop items wb_key "idx_good N ref"
  for N ref
proof unfold_locales
  fix wb i j p
  show "wb_Len wb = length (items wb)" by (simp add: wb_Len_def)
  show "wb_Less wb i j \<longleftrightarrow> wb_key wb (items wb ! i) < wb_key wb (items wb ! j)"
    if "i < length (items wb)" "j < length (items wb)"
    by (auto simp: wb_Less_def wb_key_def Let_def)
  show "items (wb_Swap wb i j) = swap_at (items wb) i j"
    if "i < length (items wb)" "j < length (items wb)" by simp
  show "wb_key (wb_Swap wb i j) = wb_key wb"
    by (rule ext) (simp add: wb_key_def wb_Swap_def Let_def)
  show "items (wb_Push wb p) = items wb @ [p]" "wb_key (wb_Push wb p) = wb_key wb"
    by (simp_all add: wb_Push_def wb_key_def fun_eq_iff)
  show "idx_good N ref wb \<Longrightarrow> i < length (items wb) \<Longrightarrow> j < length (items wb) \<Longrightarrow>
      idx_good N ref (wb_Swap wb i j)" by (rule swap_idx_good)
  show "idx_good N ref wb \<Longrightarrow> p \<notin> set (items wb) \<Longrightarrow> idx_good N ref (wb_Push wb p)"
    by (rule push_idx_good)
  show "items wb \<noteq> [] \<Longrightarrow> items (snd (wb_Pop wb)) = butlast (items wb)"
    "items wb \<noteq> [] \<Longrightarrow> fst (wb_Pop wb) = last (items wb)"
    "items wb \<noteq> [] \<Longrightarrow> wb_key (snd (wb_Pop wb)) = wb_key wb"
    by (simp_all add: wb_Pop_def Let_def wb_key_def fun_eq_iff)
  show "idx_good N ref wb \<Longrightarrow> items wb \<noteq> [] \<Longrightarrow> idx_good N ref (snd (wb_Pop wb))"
    by (rule pop_idx_good)
qed

section \<open>The queue helpers\<close>

text \<open>The heap part of the invariant; \<open>N\<close> is \<open>nextp\<close> except while an item is being made.\<close>

definition wq :: "nat \<Rightarrow> WriteBack \<Rightarrow> bool" where
  "wq N wb \<longleftrightarrow> idx_good N wb wb \<and> wbh.heap wb
     \<and> (\<forall>p. onHeap (store wb p) \<longleftrightarrow> p \<in> set (items wb)) \<and> (\<forall>p. p \<in> set (items wb) \<longrightarrow> p < nextp wb)"

definition core :: "writeBackItem \<Rightarrow> writeBackItem" where
  "core x = x\<lparr>index := 0, onHeap := False\<rparr>"

text \<open>Nothing but the heap, the indices and \<open>onHeap\<close> differs.\<close>

definition qframe :: "WriteBack \<Rightarrow> WriteBack \<Rightarrow> bool" where
  "qframe ref wb \<longleftrightarrow> wb\<lparr>items := items ref, store := store ref\<rparr> = ref
     \<and> (\<forall>p. core (store wb p) = core (store ref p))"

lemma core_fields:
  assumes "core x = core y"
  shows "w_name x = w_name y" "w_size x = w_size y" "w_id x = w_id y" "w_expiry x = w_expiry y"
    "uploading x = uploading y" "w_cancel x = w_cancel y" "w_done x = w_done y" "putFn x = putFn y"
    "tries x = tries y" "delay x = delay y"
  using assms by (cases x; cases y; simp add: core_def)+

lemma qframeD:
  assumes "qframe ref wb"
  shows "lookup wb = lookup ref" "last_id wb = last_id ref" "opt_WriteBack wb = opt_WriteBack ref"
    "timer wb = timer ref" "expiry wb = expiry ref" "uploads wb = uploads ref" "ctx_done wb = ctx_done ref"
    "nextp wb = nextp ref" "threads wb = threads ref" "nextch wb = nextch ref"
    "closed_chs wb = closed_chs ref" "cancelled wb = cancelled ref" "clock wb = clock ref"
    "core (store wb p) = core (store ref p)"
  using assms by (cases ref; cases wb; simp add: qframe_def)+

lemma qframe_refl [simp]: "qframe wb wb"
  by (simp add: qframe_def)

lemma qframe_trans: "qframe a b \<Longrightarrow> qframe b c \<Longrightarrow> qframe a c"
  by (cases a; cases b; cases c; simp add: qframe_def)

lemma core_index: "x\<lparr>index := 0\<rparr> = y\<lparr>index := 0\<rparr> \<Longrightarrow> core x = core y \<and> onHeap x = onHeap y"
  by (cases x; cases y; simp add: core_def)

lemma frame_qframe: "frame ref wb \<Longrightarrow> qframe ref wb"
  using core_index unfolding frame_def qframe_def by blast

lemma qframe_onHeap [simp]: "qframe ref wb \<Longrightarrow> qframe ref (item_upd p (\<lambda>x. x\<lparr>onHeap := b\<rparr>) wb)"
  by (auto simp: qframe_def item_upd_def core_def)

text \<open>The flag is the only thing \<open>frame\<close> does not leave free, so it holds its old value.\<close>

lemma frame_onHeap: "frame ref wb \<Longrightarrow> onHeap (store wb p) = onHeap (store ref p)"
  using core_index unfolding frame_def by blast

lemma idx_good_self: "idx_good N ref wb \<Longrightarrow> idx_good N wb wb"
  by (simp add: idx_good_def)

lemma heap_same: "items wb' = items wb \<Longrightarrow> wb_key wb' = wb_key wb \<Longrightarrow> wbh.heap wb' = wbh.heap wb"
  by (simp add: wbh.heap_def)

text \<open>Setting \<open>onHeap\<close> to what it should be restores the invariant after an operation on the heap.\<close>

lemma wq_set_onHeap:
  assumes "idx_good N ref wb" "wbh.heap wb" "set (items wb) \<subseteq> {..<nextp wb}"
    and "\<And>q. q \<noteq> p \<Longrightarrow> onHeap (store wb q) \<longleftrightarrow> q \<in> set (items wb)"
    and "b \<longleftrightarrow> p \<in> set (items wb)"
  shows "wq N (item_upd p (\<lambda>x. x\<lparr>onHeap := b\<rparr>) wb)"
proof -
  let ?w = "item_upd p (\<lambda>x. x\<lparr>onHeap := b\<rparr>) wb"
  have "wbh.heap ?w" using assms(2) by (simp add: heap_same [of ?w wb] wb_key_def fun_eq_iff)
  moreover have "idx_good N ?w ?w" using assms(1) by (auto simp: idx_good_def)
  ultimately show ?thesis using assms(3-5) by (auto simp: wq_def)
qed

lemma mset_Suc_set:
  "mset xs = add_mset p (mset ys) \<Longrightarrow> distinct xs \<Longrightarrow> set ys = set xs - {p} \<and> p \<in> set xs \<and> p \<notin> set ys"
proof -
  assume m: "mset xs = add_mset p (mset ys)" and d: "distinct xs"
  from m have e: "mset xs = mset (p # ys)" by simp
  have "distinct (p # ys)" using d mset_eq_imp_distinct_iff [OF e] by blast
  moreover have "set xs = set (p # ys)" using mset_eq_setD [OF e] .
  ultimately show ?thesis by auto
qed

lemma pushItem_spec:
  assumes "wq N wb" "p < nextp wb"
  shows "wq N (pushItem p wb) \<and> qframe wb (pushItem p wb)
    \<and> set (items (pushItem p wb)) = insert p (set (items wb))"
proof (cases "onHeap (store wb p)")
  case True
  with assms show ?thesis by (auto simp: pushItem_def wq_def)
next
  case False
  let ?w = "heap_Push wb_Len wb_Less wb_Swap wb_Push wb p"
  have I: "idx_good N wb wb" "wbh.heap wb" "p \<notin> set (items wb)"
    using assms False by (auto simp: wq_def)
  note P = wbh.Push_spec [OF I]
  have f: "frame wb ?w" using P by (simp add: idx_good_def)
  have s: "set (items ?w) = insert p (set (items wb))"
    using P by (metis set_mset_add_mset_insert set_mset_mset)
  have "wq N (item_upd p (\<lambda>x. x\<lparr>onHeap := True\<rparr>) ?w)"
    using P s assms qframeD(8) [OF frame_qframe [OF f]] frame_onHeap [OF f]
    by (intro wq_set_onHeap [of N wb]) (auto simp: wq_def)
  then show ?thesis using False s frame_qframe [OF f] by (simp add: pushItem_def)
qed

lemma popItem_spec:
  assumes "wq N wb" "items wb \<noteq> []"
  shows "fst (popItem wb) = items wb ! 0 \<and> wq N (snd (popItem wb)) \<and> qframe wb (snd (popItem wb))
    \<and> set (items (snd (popItem wb))) = set (items wb) - {items wb ! 0}"
proof -
  obtain p w where r: "heap_Pop wb_Len wb_Less wb_Swap wb_Pop wb = (p, w)" by fastforce
  have I: "idx_good N wb wb" "wbh.heap wb" using assms by (auto simp: wq_def)
  note P = wbh.Pop_spec [OF I assms(2), unfolded r fst_conv snd_conv]
  have f: "frame wb w" and p: "p = items wb ! 0" using P by (simp_all add: idx_good_def)
  have s: "set (items w) = set (items wb) - {p} \<and> p \<notin> set (items w)"
    using P mset_Suc_set I(1) by (metis idx_good_def)
  have "wq N (item_upd p (\<lambda>x. x\<lparr>onHeap := False\<rparr>) w)"
    using P s assms qframeD(8) [OF frame_qframe [OF f]] frame_onHeap [OF f]
    by (intro wq_set_onHeap [of N wb]) (auto simp: wq_def)
  then show ?thesis using s p frame_qframe [OF f] by (simp add: popItem_def r)
qed

lemma removeItem_spec:
  assumes "wq N wb"
  shows "wq N (removeItem p wb) \<and> qframe wb (removeItem p wb)
    \<and> set (items (removeItem p wb)) = set (items wb) - {p}"
proof (cases "onHeap (store wb p)")
  case False
  with assms show ?thesis by (auto simp: removeItem_def wq_def)
next
  case True
  then have "p \<in> set (items wb)" using assms by (simp add: wq_def)
  then obtain i where i: "i < length (items wb)" "items wb ! i = p" by (auto simp: in_set_conv_nth)
  have I: "idx_good N wb wb" "wbh.heap wb" using assms by (auto simp: wq_def)
  have ix: "nat (index (store wb p)) = i" using I(1) i by (auto simp: idx_good_def)
  obtain q w where r: "heap_Remove wb_Len wb_Less wb_Swap wb_Pop wb i = (q, w)" by fastforce
  note P = wbh.Remove_spec [OF I i(1), unfolded r fst_conv snd_conv i(2)]
  have f: "frame wb w" using P by (simp add: idx_good_def)
  have s: "set (items w) = set (items wb) - {p} \<and> p \<notin> set (items w)"
    using P mset_Suc_set I(1) by (metis idx_good_def)
  have "wq N (item_upd p (\<lambda>x. x\<lparr>onHeap := False\<rparr>) w)"
    using P s assms qframeD(8) [OF frame_qframe [OF f]] frame_onHeap [OF f]
    by (intro wq_set_onHeap [of N wb]) (auto simp: wq_def)
  then show ?thesis using s True ix frame_qframe [OF f] by (simp add: removeItem_def r)
qed

text \<open>Changing the key of one element leaves an exception around its index, which \<open>Fix\<close> repairs.\<close>

lemma hx_change_key:
  assumes "hp k n xs" "i < n" "n \<le> length xs" "distinct xs"
    and "\<And>x. x \<noteq> xs ! i \<Longrightarrow> k' x = k x"
  shows "hx k' n xs i"
proof -
  have ne: "xs ! c \<noteq> xs ! i" if "c < n" "c \<noteq> i" for c
    using that assms(2-4) by (simp add: nth_eq_iff_index_eq)
  have h: "hx k n xs i" using assms(1,2) by (simp add: hp_iff [of i])
  have "k' (xs ! par c) \<le> k' (xs ! c)" if "0 < c" "c < n" "c \<noteq> i" "par c \<noteq> i" for c
    using h that ne par_le [of c] assms(5) by (simp add: hx_def)
  moreover have "k' (xs ! par i) \<le> k' (xs ! c)" if "0 < c" "c < n" "par c = i" "0 < i" for c
  proof -
    have "c \<noteq> i" "par i \<noteq> i" "par i < n"
      using that assms(2) par_less [of c] par_less [of i] by linarith+
    then show ?thesis using h that ne assms(5) by (simp add: hx_def)
  qed
  ultimately show ?thesis by (simp add: hx_def)
qed

lemma update_spec:
  assumes "wq (nextp wb) wb" "p < nextp wb"
  shows "wq (nextp wb) (update p e wb) \<and> qframe (item_upd p (\<lambda>x. x\<lparr>w_expiry := e\<rparr>) wb) (update p e wb)
    \<and> set (items (update p e wb)) = set (items wb)"
proof -
  let ?w = "item_upd p (\<lambda>x. x\<lparr>w_expiry := e\<rparr>) wb" and ?N = "nextp wb"
  have I: "idx_good ?N wb wb" "wbh.heap wb" "distinct (items wb)"
    using assms(1) by (auto simp: wq_def idx_good_def)
  have g: "idx_good ?N ?w ?w" using I(1) by (auto simp: idx_good_def)
  have k: "wb_key ?w x = wb_key wb x" if "x \<noteq> p" for x using that by (simp add: wb_key_def)
  have oh: "onHeap (store ?w q) \<longleftrightarrow> q \<in> set (items wb)" for q
    using assms(1) by (simp add: wq_def)
  show ?thesis
  proof (cases "p \<in> set (items wb)")
    case False
    then have "index (store ?w p) = -1" using I(1) assms(2) by (simp add: idx_good_def)
    then have u: "update p e wb = ?w" by (simp add: update_def heap_Fix_def)
    have "items wb ! c \<noteq> p" if "c < length (items wb)" for c using False that nth_mem by metis
    then have "wbh.heap ?w"
      using I(2) k le_less_trans [OF par_le] by (simp add: wbh.heap_def hp_def)
    then show ?thesis using g oh u assms(1) by (simp add: wq_def)
  next
    case True
    then obtain i where i: "i < length (items wb)" "items wb ! i = p" by (auto simp: in_set_conv_nth)
    have ix: "index (store ?w p) = int i" using I(1) i by (auto simp: idx_good_def)
    have "hx (wb_key ?w) (length (items ?w)) (items ?w) i"
      using I(2,3) i k by (intro hx_change_key [of "wb_key wb"]) (simp_all add: wbh.heap_def)
    note F = wbh.Fix_spec [OF g _ this]
    define w where "w = heap_Fix wb_Len wb_Less wb_Swap ?w (int i)"
    have P: "idx_good ?N ?w w" "wbh.heap w" "set (items w) = set (items wb)"
      using F i by (auto simp: w_def dest: mset_eq_setD)
    have f: "frame ?w w" using P(1) by (simp add: idx_good_def)
    have "wq ?N w"
      using P idx_good_self [OF P(1)] oh frame_onHeap [OF f] qframeD(8) [OF frame_qframe [OF f]] assms(1)
      by (auto simp: wq_def)
    moreover have "update p e wb = w" by (simp add: update_def w_def ix [simplified])
    ultimately show ?thesis using P(3) frame_qframe [OF f] by simp
  qed
qed

section \<open>The invariant\<close>

fun up_ptr :: "thread \<Rightarrow> nat option" where
  "up_ptr (TUpload p) = Some p"
| "up_ptr (TRunning p fn) = Some p"
| "up_ptr _ = None"

fun cont_ptrs :: "cont \<Rightarrow> nat set" where
  "cont_ptrs (KAdd p _ _) = {p}"
| "cont_ptrs (KRemove p) = {p}"
| "cont_ptrs (KRename _ p _) = {p}"
| "cont_ptrs (KRenameRemove _ p _ q _) = {p, q}"
| "cont_ptrs (KCancel p) = {p}"

fun thread_ptrs :: "thread \<Rightarrow> nat set" where
  "thread_ptrs TProcess = {}"
| "thread_ptrs (TUpload p) = {p}"
| "thread_ptrs (TRunning p _) = {p}"
| "thread_ptrs (TWait p _ k) = insert p (cont_ptrs k)"

definition n_up :: "thread list \<Rightarrow> nat" where
  "n_up ts = length (filter (\<lambda>t. up_ptr t \<noteq> None) ts)"

definition uploaders :: "thread list \<Rightarrow> nat set" where
  "uploaders ts = {p. Some p \<in> up_ptr ` set ts}"

text \<open>
  The heap is in order and knows its indices; the map has distinct keys, each that of its item; the
  counter of uploads is the number of upload goroutines and never exceeds four. \<open>held E\<close>: every item in
  the map is queued or being uploaded, except those in \<open>E\<close>.
\<close>

definition wbase :: "WriteBack \<Rightarrow> bool" where
  "wbase wb \<longleftrightarrow> wq (nextp wb) wb
     \<and> distinct (map fst (lookup wb))
     \<and> (\<forall>k p. (k, p) \<in> set (lookup wb) \<longrightarrow> p < nextp wb \<and> w_id (store wb p) = k)
     \<and> (\<forall>t p. t \<in> set (threads wb) \<longrightarrow> p \<in> thread_ptrs t \<longrightarrow> p < nextp wb)"

definition held :: "nat set \<Rightarrow> WriteBack \<Rightarrow> bool" where
  "held E wb \<longleftrightarrow> (\<forall>k p. (k, p) \<in> set (lookup wb) \<longrightarrow>
     p \<in> E \<or> p \<in> set (items wb) \<or> p \<in> uploaders (threads wb))"

definition counted :: "WriteBack \<Rightarrow> bool" where
  "counted wb \<longleftrightarrow> uploads wb = int (n_up (threads wb)) \<and> uploads wb \<le> 4"

definition winv :: "nat set \<Rightarrow> WriteBack \<Rightarrow> bool" where
  "winv E wb \<longleftrightarrow> wbase wb \<and> held E wb \<and> counted wb"

lemma winv_mono: "winv E wb \<Longrightarrow> E \<subseteq> F \<Longrightarrow> winv F wb"
  by (auto simp: winv_def held_def)

lemma winv_lookup: "winv E wb \<Longrightarrow> map_of (lookup wb) k = Some p \<Longrightarrow> p < nextp wb \<and> w_id (store wb p) = k"
  by (auto simp: winv_def wbase_def dest: map_of_SomeD)

text \<open>Operations that touch only the queue.\<close>

lemma winv_queue:
  assumes "winv E wb" "wq (nextp wb) wb' \<and> qframe wb wb' \<and> set (items wb') = Q"
    and "E \<union> set (items wb) \<subseteq> F \<union> Q"
  shows "winv F wb'"
proof -
  note q = qframeD [OF assms(2) [THEN conjunct2, THEN conjunct1]]
  have id: "w_id (store wb' p) = w_id (store wb p)" for p using core_fields(3) [OF q(14)] .
  have "wbase wb'" using assms(1,2) by (simp add: winv_def wbase_def q id)
  moreover have "held F wb'"
    using assms by (simp add: winv_def held_def q) blast
  moreover have "counted wb'" using assms(1) by (simp add: winv_def counted_def q)
  ultimately show ?thesis by (simp add: winv_def)
qed

lemma winv_wq: "winv E wb \<Longrightarrow> wq (nextp wb) wb"
  by (simp add: winv_def wbase_def)

text \<open>Fields of an item the heap does not read.\<close>

definition inert :: "(writeBackItem \<Rightarrow> writeBackItem) \<Rightarrow> bool" where
  "inert f \<longleftrightarrow> (\<forall>x. index (f x) = index x \<and> onHeap (f x) = onHeap x \<and> w_id (f x) = w_id x
     \<and> w_expiry (f x) = w_expiry x)"

lemma inertI:
  "(\<And>x. index (f x) = index x \<and> onHeap (f x) = onHeap x \<and> w_id (f x) = w_id x \<and> w_expiry (f x) = w_expiry x)
   \<Longrightarrow> inert f"
  by (simp add: inert_def)

lemma wq_inert: "wq N wb \<Longrightarrow> inert f \<Longrightarrow> wq N (item_upd p f wb)"
proof -
  assume w: "wq N wb" and i: "inert f"
  have "wb_key (item_upd p f wb) = wb_key wb" using i by (simp add: wb_key_def fun_eq_iff inert_def)
  then have "wbh.heap (item_upd p f wb) = wbh.heap wb" by (intro heap_same) simp_all
  then show ?thesis using w i by (auto simp: wq_def idx_good_def inert_def)
qed

lemma winv_item_upd:
  assumes "winv E wb" "inert f"
  shows "winv E (item_upd p f wb)"
proof -
  have "wq (nextp wb) (item_upd p f wb)" using wq_inert [OF winv_wq [OF assms(1)] assms(2)] .
  then show ?thesis using assms by (simp add: winv_def wbase_def held_def counted_def inert_def)
qed

lemma winv_pushItem:
  assumes "winv E wb" "p < nextp wb"
  shows "winv (E - {p}) (pushItem p wb)"
  by (rule winv_queue [OF assms(1) pushItem_spec [OF winv_wq [OF assms(1)] assms(2)]]) blast

lemma winv_removeItem:
  assumes "winv E wb"
  shows "winv (insert p E) (removeItem p wb)"
  by (rule winv_queue [OF assms removeItem_spec [OF winv_wq [OF assms]]]) blast

lemma winv_popItem:
  assumes "winv E wb" "items wb \<noteq> []"
  shows "winv (insert (items wb ! 0) E) (snd (popItem wb))"
  by (rule winv_queue [OF assms(1) popItem_spec [OF winv_wq [OF assms(1)] assms(2), THEN conjunct2]]) blast

lemma winv_update:
  assumes "winv E wb" "p < nextp wb"
  shows "winv E (update p e wb)"
proof -
  note u = update_spec [OF winv_wq [OF assms(1)] assms(2), of e]
  note q = qframeD [OF u [THEN conjunct2, THEN conjunct1]]
  have id: "w_id (store (update p e wb) r) = w_id (store wb r)" for r
    using core_fields(3) [OF q(14), of r] by (simp split: if_splits)
  have "wbase (update p e wb)" using assms(1) u by (simp add: winv_def wbase_def q id)
  moreover have "held E (update p e wb)" using assms(1) u by (simp add: winv_def held_def q)
  moreover have "counted (update p e wb)" using assms(1) by (simp add: winv_def counted_def q)
  ultimately show ?thesis by (simp add: winv_def)
qed

lemma wq_fields:
  assumes "items wb' = items wb" "store wb' = store wb" "nextp wb' = nextp wb"
  shows "wq N wb' = wq N wb"
proof -
  have "wbh.heap wb' = wbh.heap wb" using assms by (intro heap_same) (simp_all add: wb_key_def fun_eq_iff)
  then show ?thesis using assms by (simp add: wq_def idx_good_def)
qed

lemma resetTimer_fields [simp]:
  "items (resetTimer now wb) = items wb" "store (resetTimer now wb) = store wb"
  "nextp (resetTimer now wb) = nextp wb" "lookup (resetTimer now wb) = lookup wb"
  "threads (resetTimer now wb) = threads wb" "uploads (resetTimer now wb) = uploads wb"
  "opt_WriteBack (resetTimer now wb) = opt_WriteBack wb" "closed_chs (resetTimer now wb) = closed_chs wb"
  "ctx_done (resetTimer now wb) = ctx_done wb" "clock (resetTimer now wb) = clock wb"
  "nextch (resetTimer now wb) = nextch wb"
  by (simp_all add: resetTimer_def stopTimer_def Let_def split: option.splits)

lemma stopTimer_fields [simp]:
  "items (stopTimer wb) = items wb" "store (stopTimer wb) = store wb"
  "nextp (stopTimer wb) = nextp wb" "lookup (stopTimer wb) = lookup wb"
  "threads (stopTimer wb) = threads wb" "uploads (stopTimer wb) = uploads wb"
  "ctx_done (stopTimer wb) = ctx_done wb" "clock (stopTimer wb) = clock wb"
  by (simp_all add: stopTimer_def)

text \<open>All the fields outside the heap; the heap operations keep them on every state.\<close>

definition rest ::
  "WriteBack \<Rightarrow> (Handle \<times> (Handle \<times> nat) list \<times> int64 \<times> wb_timer option \<times> time) \<times> int \<times> bool \<times> nat
     \<times> thread list \<times> nat \<times> nat set \<times> nat set \<times> time" where
  "rest wb = ((last_id wb, lookup wb, opt_WriteBack wb, timer wb, expiry wb), uploads wb, ctx_done wb,
     nextp wb, threads wb, nextch wb, closed_chs wb, cancelled wb, clock wb)"

lemma rest_item_upd [simp]: "rest (item_upd p f wb) = rest wb"
  by (simp add: rest_def)

lemma rest_items [simp]: "rest (wb\<lparr>items := xs\<rparr>) = rest wb"
  by (simp add: rest_def)

lemma rest_Swap: "rest (wb_Swap wb i j) = rest wb"
  by (simp add: wb_Swap_def Let_def)

lemma rest_Push: "rest (wb_Push wb p) = rest wb"
  by (simp add: wb_Push_def)

lemma rest_Pop: "rest (snd (wb_Pop wb)) = rest wb"
  by (simp add: wb_Pop_def Let_def)

lemmas rest_keeps = heap_up_keeps [of rest wb_Swap, OF rest_Swap]
  heap_down_keeps [of rest wb_Swap, OF rest_Swap] heap_settle_keeps [of rest wb_Swap, OF rest_Swap]

lemma rest_pushItem: "rest (pushItem p wb) = rest wb"
  by (simp add: pushItem_def heap_ops rest_keeps rest_Push)

lemma rest_removeItem: "rest (removeItem p wb) = rest wb"
  by (simp add: removeItem_def heap_ops rest_keeps rest_Pop rest_Swap)

lemma rest_update: "rest (update p e wb) = rest wb"
  by (simp add: update_def heap_ops rest_keeps)

lemma rest_popItem: "rest (snd (popItem wb)) = rest wb"
proof -
  have "rest (snd (heap_Pop wb_Len wb_Less wb_Swap wb_Pop wb)) = rest wb"
    by (simp add: heap_ops rest_keeps rest_Pop rest_Swap)
  then show ?thesis
    by (cases "heap_Pop wb_Len wb_Less wb_Swap wb_Pop wb") (simp add: popItem_def)
qed

lemma rest_eqD:
  assumes "rest a = rest b"
  shows "lookup a = lookup b" "last_id a = last_id b" "opt_WriteBack a = opt_WriteBack b"
    "timer a = timer b" "expiry a = expiry b" "uploads a = uploads b" "ctx_done a = ctx_done b"
    "nextp a = nextp b" "threads a = threads b" "nextch a = nextch b" "closed_chs a = closed_chs b"
    "cancelled a = cancelled b" "clock a = clock b"
  using assms by (simp_all add: rest_def)

lemmas helper_fields [simp] = rest_eqD [OF rest_pushItem] rest_eqD [OF rest_removeItem]
  rest_eqD [OF rest_update] rest_eqD [OF rest_popItem]

lemma winv_resetTimer [simp]: "winv E (resetTimer now wb) = winv E wb"
  by (simp add: winv_def wbase_def held_def counted_def wq_fields [of "resetTimer now wb" wb])

lemma winv_stopTimer [simp]: "winv E (stopTimer wb) = winv E wb"
  by (simp add: winv_def wbase_def held_def counted_def wq_fields [of "stopTimer wb" wb])

lemma set_lk_del: "(k, p) \<in> set (lk_del j m) \<longleftrightarrow> (k, p) \<in> set m \<and> k \<noteq> j"
  by (auto simp: lk_del_def)

lemma distinct_lk_del: "distinct (map fst m) \<Longrightarrow> distinct (map fst (lk_del j m))"
  unfolding lk_del_def by (rule distinct_map_filter)

lemma winv_delItem:
  assumes "winv E wb"
  shows "winv (E - {p}) (delItem p wb)"
proof -
  have "wq (nextp wb) (delItem p wb)"
    using winv_wq [OF assms] wq_fields [of "delItem p wb" wb] by (simp add: delItem_def)
  then show ?thesis
    using assms by (auto simp: winv_def wbase_def held_def counted_def delItem_def set_lk_del distinct_lk_del)
qed

lemma winv_newItem:
  assumes "winv {} wb"
  shows "winv {} (snd (newItem now hid nm sz wb)) \<and> fst (newItem now hid nm sz wb) = nextp wb
    \<and> nextp (snd (newItem now hid nm sz wb)) = Suc (nextp wb)"
proof -
  obtain hid' wb1 where S: "SetID hid wb = (hid', wb1)" by fastforce
  have F: "items wb1 = items wb" "store wb1 = store wb" "nextp wb1 = nextp wb" "lookup wb1 = lookup wb"
    "threads wb1 = threads wb" "uploads wb1 = uploads wb"
    using S by (auto simp: SetID_def split: if_splits)
  let ?p = "nextp wb"
  define it where "it = \<lparr>w_name = nm, w_size = sz, w_id = hid', index = 0, w_expiry = newExpiry now wb1,
    uploading = False, onHeap = False, w_cancel = None, w_done = None, putFn = 0, tries = 0,
    delay = opt_WriteBack wb1\<rparr>"
  define wb2 where "wb2 = addItem ?p (wb1\<lparr>store := (store wb1)(?p := it), nextp := Suc ?p\<rparr>)"
  have W: "store wb2 = (store wb)(?p := it)" "items wb2 = items wb" "nextp wb2 = Suc ?p"
    "threads wb2 = threads wb" "uploads wb2 = uploads wb" "lookup wb2 = lk_put hid' ?p (lookup wb)"
    by (simp_all add: wb2_def addItem_def F it_def)
  have I: "winv {} wb" "wq ?p wb" "?p \<notin> set (items wb)"
    using assms by (auto simp: winv_def wbase_def wq_def)
  have key: "wb_key wb2 x = wb_key wb x" if "x \<noteq> ?p" for x using that by (simp add: wb_key_def W)
  have np: "items wb ! c \<noteq> ?p" if "c < length (items wb)" for c using I(3) nth_mem [OF that] by metis
  then have "wbh.heap wb2"
    using I(2) key le_less_trans [OF par_le] by (simp add: wq_def wbh.heap_def hp_def W(2))
  then have q: "wq ?p wb2"
    using I(2,3) np by (auto simp: wq_def idx_good_def W it_def)
  have p: "?p < nextp wb2" by (simp add: W)
  note P = pushItem_spec [OF q p]
  have q': "wq (Suc ?p) (pushItem ?p wb2)"
    using P by (auto simp: wq_def idx_good_def less_Suc_eq)
  note fr = qframeD [OF P [THEN conjunct2, THEN conjunct1]]
  have id: "w_id (store (pushItem ?p wb2) r) = w_id (store wb2 r)" for r using core_fields(3) [OF fr(14)] .
  have "wbase (pushItem ?p wb2)"
    using I(1) q' by (auto simp: winv_def wbase_def fr W id it_def lk_put_def set_lk_del distinct_lk_del
        less_SucI image_iff dest: less_SucI)
  moreover have "held {} (pushItem ?p wb2)"
    using I(1) P by (auto simp: winv_def held_def fr W lk_put_def set_lk_del)
  moreover have "counted (pushItem ?p wb2)" using I(1) by (simp add: winv_def counted_def fr W)
  moreover have "newItem now hid nm sz wb = (?p, pushItem ?p wb2)"
    by (simp add: newItem_def S Let_def F it_def wb2_def)
  ultimately show ?thesis by (simp add: winv_def W)
qed

lemma uploaders_append [simp]: "uploaders (xs @ ys) = uploaders xs \<union> uploaders ys"
  by (auto simp: uploaders_def)

lemma n_up_append [simp]: "n_up (xs @ ys) = n_up xs + n_up ys"
  by (simp add: n_up_def)

lemma threads_same_wq: "wq N (wb\<lparr>threads := ts, cancelled := cs\<rparr>) = wq N wb"
  by (rule wq_fields) simp_all

lemma winv_cancelUpload:
  assumes "winv E wb" "p < nextp wb" "cont_ptrs k \<subseteq> {..< nextp wb}"
  shows "winv E (fst (u_cancelUpload p k wb)) \<and> nextp (fst (u_cancelUpload p k wb)) = nextp wb"
proof -
  have "winv E (wb\<lparr>threads := threads wb @ [TWait p ch k], cancelled := cs\<rparr>)" for ch cs
    using assms by (auto simp: winv_def wbase_def held_def counted_def threads_same_wq n_up_def uploaders_def)
  then show ?thesis
    using assms winv_mono [OF winv_pushItem [OF assms(1,2)], of E]
    by (auto simp: u_cancelUpload_def Let_def split: option.splits)
qed

lemma winv_add_rest:
  "winv E wb \<Longrightarrow> winv E (add_rest now p sz fn wb)"
  by (simp add: add_rest_def winv_item_upd inert_def)

lemma winv_remove_rest:
  assumes "winv E wb"
  shows "winv E (remove_rest now p wb) \<and> nextp (remove_rest now p wb) = nextp wb"
  using winv_mono [OF winv_delItem [OF winv_removeItem [OF assms, of p], of p], of E]
  by (auto simp: remove_rest_def delItem_def)

lemma winv_rename_rest:
  assumes "winv E wb" "p < nextp wb"
  shows "winv E (rename_rest now p nm wb)"
  using assms by (simp add: rename_rest_def winv_update winv_item_upd inert_def)

lemma winv_u_remove:
  assumes "winv E wb" "\<And>p. p < nextp wb \<Longrightarrow> cont_ptrs (k p) \<subseteq> {..< nextp wb}"
  shows "winv E (fst (u_remove now hid k wb)) \<and> nextp (fst (u_remove now hid k wb)) = nextp wb"
proof (cases "map_of (lookup wb) hid")
  case None
  then show ?thesis using assms(1) by (simp add: u_remove_def)
next
  case (Some p)
  have p: "p < nextp wb" using winv_lookup [OF assms(1) Some] by simp
  note c = winv_cancelUpload [OF assms(1) p assms(2) [OF p]]
  show ?thesis
    using Some c winv_remove_rest [OF assms(1)] winv_remove_rest [of E "fst (u_cancelUpload p (k p) wb)"]
    by (cases "u_cancelUpload p (k p) wb") (auto simp: u_remove_def)
qed

lemma winv_rename_loop:
  "winv E wb \<Longrightarrow> p < nextp wb \<Longrightarrow> winv E (rename_loop now hid p nm order wb)"
proof (induction order arbitrary: wb)
  case Nil
  then show ?case by (simp add: winv_rename_rest)
next
  case (Cons k order)
  let ?r = "u_remove now k (\<lambda>q. KRenameRemove hid p nm q order) wb"
  have "winv E (fst ?r) \<and> nextp (fst ?r) = nextp wb"
    using Cons.prems by (intro winv_u_remove) auto
  then show ?case
    using Cons by (cases ?r) (auto split: option.splits)
qed

lemma winv_Add:
  assumes "winv {} wb"
  shows "winv {} (snd (Add now hid nm sz modified fn wb))"
proof (cases "map_of (lookup wb) hid")
  case None
  then show ?thesis
    using winv_newItem [OF assms, of now hid nm sz]
    by (cases "newItem now hid nm sz wb") (simp add: Add_def winv_add_rest)
next
  case (Some p)
  have p: "p < nextp wb" using winv_lookup [OF assms Some] by simp
  have "cont_ptrs (KAdd p sz fn) \<subseteq> {..< nextp wb}" using p by simp
  note c = winv_cancelUpload [OF assms p this]
  show ?thesis
    using Some assms p c
    by (cases "u_cancelUpload p (KAdd p sz fn) wb") (auto simp: Add_def winv_add_rest winv_update)
qed

lemma winv_Rename:
  assumes "winv {} wb"
  shows "winv {} (Rename now hid nm order wb)"
proof (cases "map_of (lookup wb) hid")
  case None
  then show ?thesis using assms by (simp add: Rename_def)
next
  case (Some p)
  have p: "p < nextp wb" using winv_lookup [OF assms Some] by simp
  have "cont_ptrs (KRename hid p nm) \<subseteq> {..< nextp wb}" using p by simp
  note c = winv_cancelUpload [OF assms p this]
  show ?thesis
    using Some assms p c
    by (cases "u_cancelUpload p (KRename hid p nm) wb") (auto simp: Rename_def winv_rename_loop)
qed

lemma winv_cancel:
  assumes "winv {} wb"
  shows "winv {} (snd (cancelUpload hid wb))"
proof (cases "map_of (lookup wb) hid")
  case (Some p)
  have p: "p < nextp wb" using winv_lookup [OF assms Some] by simp
  have "cont_ptrs (KCancel p) \<subseteq> {..< nextp wb}" using p by simp
  note c = winv_cancelUpload [OF assms p this]
  show ?thesis using Some assms c by (auto simp: cancelUpload_def)
qed (use assms in \<open>simp add: cancelUpload_def\<close>)

lemma winv_SetExpiry:
  assumes "winv {} wb"
  shows "winv {} (snd (SetExpiry now hid e rel wb))"
  using assms winv_lookup [OF assms, of hid] winv_update [OF assms]
  by (auto simp: SetExpiry_def Let_def split: option.splits)

lemma winv_Remove:
  assumes "winv {} wb"
  shows "winv {} (snd (Remove now hid wb))"
  using winv_u_remove [OF assms, of KRemove now hid] by (simp add: Remove_def)

lemma winv_resume:
  assumes "winv {} wb" "q < nextp wb" "cont_ptrs k \<subseteq> {..< nextp wb}"
  shows "winv {} (resume now order q k wb)"
proof -
  have w: "winv {} (pushItem q wb)" using winv_pushItem [OF assms(1,2)] by simp
  show ?thesis
    using w assms(3) winv_remove_rest [OF w]
    by (cases k) (simp_all add: resume_def Let_def winv_add_rest winv_update winv_rename_loop)
qed

lemma winv_start_upload:
  assumes "winv E wb" "p < nextp wb" "uploads wb < 4"
  shows "winv (E - {p}) (start_upload p wb)"
proof -
  let ?f = "\<lambda>x. x\<lparr>uploading := True, w_cancel := Some (nextch wb), w_done := Some (nextch wb)\<rparr>"
  have w: "winv E (item_upd p ?f wb)" using assms(1) by (rule winv_item_upd) (simp add: inert_def)
  have "wq N (start_upload p wb) = wq N (item_upd p ?f wb)" for N
    by (rule wq_fields) (simp_all add: start_upload_def)
  with w assms(2,3) show ?thesis
    by (auto simp: winv_def wbase_def held_def counted_def start_upload_def n_up_def uploaders_def)
qed

lemma start_upload_fields [simp]:
  "nextp (start_upload p wb) = nextp wb" "uploads (start_upload p wb) = uploads wb + 1"
  "items (start_upload p wb) = items wb" "clock (start_upload p wb) = clock wb"
  "ctx_done (start_upload p wb) = ctx_done wb" "lookup (start_upload p wb) = lookup wb"
  "timer (start_upload p wb) = timer wb" "expiry (start_upload p wb) = expiry wb"
  by (simp_all add: start_upload_def)

lemma winv_process_loop: "winv {} wb \<Longrightarrow> winv {} (fst (process_loop n now wb))"
proof (induction n arbitrary: wb)
  case (Suc n)
  show ?case
  proof (cases "items wb = [] \<or> \<not> w_expiry (store wb (items wb ! 0)) - now \<le> 0 \<or> 4 \<le> uploads wb")
    case True
    then show ?thesis using Suc.prems by (auto simp: peekItem_def)
  next
    case False
    let ?p = "items wb ! 0"
    have ne: "items wb \<noteq> []" using False by blast
    have p: "fst (popItem wb) = ?p" using popItem_spec [OF winv_wq [OF Suc.prems] ne] by blast
    have lt: "?p < nextp wb" using winv_wq [OF Suc.prems] ne by (auto simp: wq_def)
    have "winv {} (start_upload ?p (snd (popItem wb)))"
      using winv_start_upload [OF winv_popItem [OF Suc.prems ne], of ?p] lt False by simp
    from Suc.IH [OF this] show ?thesis
      using False p by (cases "popItem wb") (simp add: peekItem_def)
  qed
qed simp

lemma winv_processItems: "winv {} wb \<Longrightarrow> winv {} (processItems now wb)"
  using winv_process_loop [of wb "length (items wb)" now]
  by (cases "process_loop (length (items wb)) now wb") (auto simp: processItems_def)

text \<open>The end of an upload: its goroutine is gone already, so the counter is one ahead and the item unheld.\<close>

lemma winv_upload_done:
  assumes "wbase wb" "held {p} wb" "uploads wb = int (n_up (threads wb)) + 1" "uploads wb \<le> 4"
    and "p < nextp wb" "upload_done now p err wb = Some wb'"
  shows "winv {} wb'"
proof -
  obtain c where c: "w_cancel (store wb p) = Some c"
    using assms(6) by (auto simp: upload_done_def split: option.splits)
  define wb1 where "wb1 = (item_upd p (\<lambda>x. x\<lparr>uploading := False\<rparr>) wb)
      \<lparr>cancelled := insert c (cancelled wb), uploads := uploads wb - 1\<rparr>"
  have "wq N wb1 = wq N (item_upd p (\<lambda>x. x\<lparr>uploading := False\<rparr>) wb)" for N
    by (rule wq_fields) (simp_all add: wb1_def)
  then have w1: "winv {p} wb1"
    using assms(1-4) wq_inert [of "nextp wb" wb "\<lambda>x. x\<lparr>uploading := False\<rparr>" p]
    by (auto simp: winv_def wbase_def held_def counted_def wb1_def inert_def)
  have n1: "nextp wb1 = nextp wb" by (simp add: wb1_def)
  define wb2 where "wb2 = upload_result now p err wb1"
  have "winv {} wb2"
  proof (cases err)
    case None
    then show ?thesis using winv_delItem [OF w1, of p] by (simp add: wb2_def upload_result_def)
  next
    case (Some e)
    have "winv {p} (item_upd p (\<lambda>x. x\<lparr>delay := d\<rparr>) wb1)" for d
      using w1 by (rule winv_item_upd) (simp add: inert_def)
    from winv_pushItem [OF this, of p] have "winv {} (pushItem p (item_upd p (\<lambda>x. x\<lparr>delay := d\<rparr>) wb1))" for d
      using assms(5) n1 by simp
    then show ?thesis using Some assms(5) n1 by (simp add: wb2_def upload_result_def Let_def winv_update)
  qed
  then have w3: "winv {} (resetTimer now wb2)" by simp
  have "winv {} (x\<lparr>closed_chs := s\<rparr>) = winv {} x" for x s
    using wq_fields [of "x\<lparr>closed_chs := s\<rparr>" x] by (simp add: winv_def wbase_def held_def counted_def)
  with w3 assms(6) show ?thesis
    by (auto simp: upload_done_def c wb1_def [symmetric] wb2_def [symmetric] Let_def
        split: option.splits if_splits)
qed

lemma remove_at_split:
  "i < length xs \<Longrightarrow> xs = take i xs @ xs ! i # drop (Suc i) xs"
  by (rule id_take_nth_drop)

lemma end_thread_facts:
  assumes "thread_at i wb = Some t"
  shows "set (threads wb) = insert t (set (threads (end_thread i wb)))"
    and "n_up (threads wb) = n_up (threads (end_thread i wb)) + (if up_ptr t \<noteq> None then 1 else 0)"
proof -
  have i: "i < length (threads wb)" "threads wb ! i = t"
    using assms by (auto simp: thread_at_def split: if_splits)
  note s = remove_at_split [OF i(1), unfolded i(2)]
  show "set (threads wb) = insert t (set (threads (end_thread i wb)))"
    by (subst s) (auto simp: end_thread_def remove_at_def)
  show "n_up (threads wb) = n_up (threads (end_thread i wb)) + (if up_ptr t \<noteq> None then 1 else 0)"
    by (subst s) (auto simp: end_thread_def remove_at_def n_up_def)
qed

lemma end_thread_fields [simp]:
  "items (end_thread i wb) = items wb" "store (end_thread i wb) = store wb"
  "nextp (end_thread i wb) = nextp wb" "lookup (end_thread i wb) = lookup wb"
  "uploads (end_thread i wb) = uploads wb" "timer (end_thread i wb) = timer wb"
  "expiry (end_thread i wb) = expiry wb" "clock (end_thread i wb) = clock wb"
  "ctx_done (end_thread i wb) = ctx_done wb" "closed_chs (end_thread i wb) = closed_chs wb"
  by (simp_all add: end_thread_def)

lemma end_thread_winv:
  assumes "winv {} wb" "thread_at i wb = Some t"
  shows "wbase (end_thread i wb)" "\<And>p. p \<in> thread_ptrs t \<Longrightarrow> p < nextp wb"
    and "up_ptr t = None \<Longrightarrow> winv {} (end_thread i wb)"
    and "up_ptr t = Some p \<Longrightarrow> held {p} (end_thread i wb)
      \<and> uploads wb = int (n_up (threads (end_thread i wb))) + 1"
proof -
  note f = end_thread_facts [OF assms(2)]
  have wq: "wq N (end_thread i wb) = wq N wb" for N by (rule wq_fields) simp_all
  show b: "wbase (end_thread i wb)"
    using assms(1) f(1) by (auto simp: winv_def wbase_def wq)
  show "\<And>p. p \<in> thread_ptrs t \<Longrightarrow> p < nextp wb"
    using assms(1) f(1) by (auto simp: winv_def wbase_def)
  have u: "uploaders (threads wb) = uploaders (threads (end_thread i wb)) \<union> set_option (up_ptr t)"
    using f(1) by (auto simp: uploaders_def)
  show "up_ptr t = None \<Longrightarrow> winv {} (end_thread i wb)"
    using assms(1) b u f(2) by (auto simp: winv_def held_def counted_def)
  show "up_ptr t = Some p \<Longrightarrow> held {p} (end_thread i wb)
      \<and> uploads wb = int (n_up (threads (end_thread i wb))) + 1"
    using assms(1) u f(2) by (auto simp: winv_def held_def counted_def)
qed

lemma winv_fields:
  assumes "items wb' = items wb" "store wb' = store wb" "nextp wb' = nextp wb" "lookup wb' = lookup wb"
    and "threads wb' = threads wb" "uploads wb' = uploads wb"
  shows "winv E wb' = winv E wb"
  using wq_fields [OF assms(1-3)] assms by (simp add: winv_def wbase_def held_def counted_def)

lemma same_threads:
  assumes "up_ptr t' = up_ptr (ts ! i)" "thread_ptrs t' = thread_ptrs (ts ! i)"
  shows "n_up (ts[i := t']) = n_up ts" "uploaders (ts[i := t']) = uploaders ts"
    "\<Union> (thread_ptrs ` set (ts[i := t'])) = \<Union> (thread_ptrs ` set ts)"
proof -
  have u: "map up_ptr (ts[i := t']) = map up_ptr ts"
    using assms(1) by (cases "i < length ts") (simp_all add: map_update list_update_same_conv list_update_beyond)
  have p: "map thread_ptrs (ts[i := t']) = map thread_ptrs ts"
    using assms(2) by (cases "i < length ts") (simp_all add: map_update list_update_same_conv list_update_beyond)
  have n: "n_up xs = length (filter (\<lambda>m. m \<noteq> None) (map up_ptr xs))" for xs
    by (simp add: n_up_def filter_map o_def)
  show "n_up (ts[i := t']) = n_up ts" unfolding n u ..
  show "uploaders (ts[i := t']) = uploaders ts"
    unfolding uploaders_def by (metis list.set_map u)
  show "\<Union> (thread_ptrs ` set (ts[i := t'])) = \<Union> (thread_ptrs ` set ts)"
    by (metis list.set_map p)
qed

lemma step_winv:
  assumes "winv {} wb0" "wb_step now a wb0 = Next wb'"
  shows "winv {} wb'"
proof -
  define wb where "wb = wb0\<lparr>clock := now\<rparr>"
  have w: "winv {} wb" using assms(1) winv_fields [of wb wb0] by (simp add: wb_def)
  have s: "now \<ge> clock wb0" using assms(2) by (auto simp: wb_step_def split: if_splits)
  note st = assms(2) [unfolded wb_step_def, folded wb_def]
  have threads: "winv {} (wb\<lparr>threads := ts\<rparr>)"
    if "n_up ts = n_up (threads wb)" "uploaders ts = uploaders (threads wb)"
      "\<And>t p. t \<in> set ts \<Longrightarrow> p \<in> thread_ptrs t \<Longrightarrow> p < nextp wb" for ts
    using w that wq_fields [of "wb\<lparr>threads := ts\<rparr>" wb]
    by (auto simp: winv_def wbase_def held_def counted_def)
  show ?thesis
  proof (cases a)
    case AFire
    have "p < nextp wb" if "t \<in> set (threads wb @ [TProcess])" "p \<in> thread_ptrs t" for t p
      using that w by (auto simp: winv_def wbase_def)
    then have "winv {} (wb\<lparr>threads := threads wb @ [TProcess]\<rparr>)"
      by (intro threads) (simp_all add: n_up_def uploaders_def)
    then have "winv {} (wb\<lparr>timer := t, threads := threads wb @ [TProcess]\<rparr>)" for t
      using winv_fields [of "wb\<lparr>timer := t, threads := threads wb @ [TProcess]\<rparr>"
          "wb\<lparr>threads := threads wb @ [TProcess]\<rparr>"] by simp
    then show ?thesis using st s AFire by (auto simp: Let_def split: option.splits if_splits)
  next
    case (AStart i)
    then obtain p where t: "thread_at i wb = Some (TUpload p)"
      and w': "wb' = (upload_start p wb)\<lparr>threads := (threads wb)[i := TRunning p (putFn (store wb p))]\<rparr>"
      using st s by (auto simp: Let_def split: option.splits thread.splits)
    have i: "i < length (threads wb)" "threads wb ! i = TUpload p"
      using t by (auto simp: thread_at_def split: if_splits)
    let ?ts = "(threads wb)[i := TRunning p (putFn (store wb p))]"
    note same = same_threads [of "TRunning p (putFn (store wb p))" "threads wb" i, simplified i(2)]
    have "n_up ?ts = n_up (threads wb)" "uploaders ?ts = uploaders (threads wb)" using same by simp_all
    moreover have "q < nextp wb" if "t \<in> set ?ts" "q \<in> thread_ptrs t" for t q
    proof -
      have "q \<in> \<Union> (thread_ptrs ` set (threads wb))" using same that by auto
      then show ?thesis using w by (auto simp: winv_def wbase_def)
    qed
    ultimately have "winv {} (wb\<lparr>threads := ?ts\<rparr>)" by (rule threads)
    then have "winv {} (item_upd p (\<lambda>x. x\<lparr>tries := tries x + 1\<rparr>) (wb\<lparr>threads := ?ts\<rparr>))"
      by (rule winv_item_upd) (simp add: inert_def)
    moreover have "winv {} wb'
        = winv {} (item_upd p (\<lambda>x. x\<lparr>tries := tries x + 1\<rparr>) (wb\<lparr>threads := ?ts\<rparr>))"
      by (rule winv_fields) (simp_all add: w' upload_start_def fun_eq_iff)
    ultimately show ?thesis by blast
  next
    case (AProcess i)
    then show ?thesis
      using st s end_thread_winv(3) [OF w, of i TProcess]
      by (auto simp: Let_def winv_processItems split: if_splits)
  next
    case (ADone i err)
    then obtain p fn where t: "thread_at i wb = Some (TRunning p fn)"
      and d: "upload_done now p err (end_thread i wb) = Some wb'"
      using st s by (auto simp: Let_def split: option.splits thread.splits)
    note e = end_thread_winv [OF w t]
    show ?thesis
      using w e(1) e(2) [of p] e(4) [of p] d
      by (intro winv_upload_done [of "end_thread i wb" p now err wb']) (auto simp: winv_def counted_def)
  next
    case (AResume i order)
    then obtain q ch k where t: "thread_at i wb = Some (TWait q (Some ch) k)"
      and d: "wb' = resume now order q k (end_thread i wb)"
      using st s by (auto simp: Let_def split: option.splits thread.splits if_splits)
    note e = end_thread_winv [OF w t]
    show ?thesis unfolding d using e(2,3) by (intro winv_resume) auto
  next
    case AShutdown
    then show ?thesis using st s w winv_fields [of "wb\<lparr>ctx_done := True\<rparr>" wb] by (auto simp: Let_def)
  qed (use st s w in \<open>auto simp: Let_def winv_Add winv_Remove winv_Rename winv_SetExpiry
        split: if_splits\<close>)
qed

lemma reach_winv: "wb_reach d wb \<Longrightarrow> winv {} wb"
proof (induction rule: wb_reach.induct)
  case (reach_new now)
  then show ?case
    by (simp add: newWriteBack_def winv_def wbase_def wq_def idx_good_def wbh.heap_def hp_def
        held_def counted_def n_up_def)
qed (rule step_winv)

section \<open>The timer\<close>

text \<open>
  Why the queue does not stall. \<open>armed\<close>: a non-zero \<open>wb.expiry\<close> has a running timer that fires when it is
  due, or the timer has fired and its goroutine is waiting for the lock. \<open>watched\<close>: the first item is the
  one the timer is set for, unless an upload is in progress (whose end sets the timer again).
\<close>

definition flags :: "WriteBack \<Rightarrow> nat \<Rightarrow> bool \<times> nat option" where
  "flags wb p = (uploading (store wb p), w_cancel (store wb p))"

definition flags_ok :: "WriteBack \<Rightarrow> bool" where
  "flags_ok wb \<longleftrightarrow>
     (\<forall>p. fst (flags wb p) \<longrightarrow> p \<in> uploaders (threads wb) \<and> snd (flags wb p) \<noteq> None)
     \<and> (\<forall>q ch p. TWait q ch (KCancel p) \<notin> set (threads wb))"

definition ticking :: "WriteBack \<Rightarrow> bool" where
  "ticking wb \<longleftrightarrow> (\<exists>t. timer wb = Some t \<and> live t \<and> expiry wb \<le> fire_at t
     \<and> fire_at t \<le> max (expiry wb) (clock wb))"

definition armed :: "WriteBack \<Rightarrow> bool" where
  "armed wb \<longleftrightarrow> (expiry wb \<noteq> 0 \<longrightarrow>
     ticking wb \<or> expiry wb \<le> clock wb \<and> TProcess \<in> set (threads wb))"

definition watched :: "WriteBack \<Rightarrow> bool" where
  "watched wb \<longleftrightarrow> (items wb \<noteq> [] \<longrightarrow> expiry wb = w_expiry (store wb (items wb ! 0)) \<or> 0 < uploads wb)"

definition tinv_a :: "WriteBack \<Rightarrow> bool" where
  "tinv_a wb \<longleftrightarrow> flags_ok wb \<and> (\<not> ctx_done wb \<longrightarrow> armed wb)"

definition tinv :: "WriteBack \<Rightarrow> bool" where
  "tinv wb \<longleftrightarrow> tinv_a wb \<and> (\<not> ctx_done wb \<longrightarrow> watched wb)"

lemma flags_item_upd:
  "(\<And>x. uploading (f x) = uploading x \<and> w_cancel (f x) = w_cancel x) \<Longrightarrow> flags (item_upd p f wb) = flags wb"
  by (simp add: flags_def fun_eq_iff)

lemma flags_items [simp]: "flags (wb\<lparr>items := xs\<rparr>) = flags wb"
  by (simp add: flags_def fun_eq_iff)

lemma flags_Swap: "flags (wb_Swap wb i j) = flags wb"
  by (simp add: wb_Swap_def Let_def flags_item_upd)

lemma flags_Push: "flags (wb_Push wb p) = flags wb"
  by (simp add: wb_Push_def flags_item_upd)

lemma flags_Pop: "flags (snd (wb_Pop wb)) = flags wb"
  by (simp add: wb_Pop_def Let_def flags_item_upd)

lemmas flags_keeps = heap_up_keeps [of flags wb_Swap, OF flags_Swap]
  heap_down_keeps [of flags wb_Swap, OF flags_Swap] heap_settle_keeps [of flags wb_Swap, OF flags_Swap]

lemma flags_helpers [simp]:
  "flags (pushItem p wb) = flags wb" "flags (removeItem p wb) = flags wb"
  "flags (update p e wb) = flags wb" "flags (snd (popItem wb)) = flags wb"
proof -
  show "flags (pushItem p wb) = flags wb" "flags (removeItem p wb) = flags wb"
    "flags (update p e wb) = flags wb"
    by (simp_all add: pushItem_def removeItem_def update_def heap_ops flags_keeps flags_Push flags_Pop
        flags_Swap flags_item_upd)
  have "flags (snd (heap_Pop wb_Len wb_Less wb_Swap wb_Pop wb)) = flags wb"
    by (simp add: heap_ops flags_keeps flags_Pop flags_Swap)
  then show "flags (snd (popItem wb)) = flags wb"
    by (cases "heap_Pop wb_Len wb_Less wb_Swap wb_Pop wb") (simp add: popItem_def flags_item_upd)
qed

lemma flags_delItem [simp]: "flags (delItem p wb) = flags wb"
  by (simp add: flags_def delItem_def fun_eq_iff)

lemma flags_timers [simp]: "flags (resetTimer now wb) = flags wb" "flags (stopTimer wb) = flags wb"
  by (simp_all add: flags_def fun_eq_iff)

lemma delItem_fields [simp]:
  "threads (delItem p wb) = threads wb" "timer (delItem p wb) = timer wb" "expiry (delItem p wb) = expiry wb"
  "clock (delItem p wb) = clock wb" "ctx_done (delItem p wb) = ctx_done wb" "uploads (delItem p wb) = uploads wb"
  "store (delItem p wb) = store wb" "items (delItem p wb) = items wb" "nextp (delItem p wb) = nextp wb"
  by (simp_all add: delItem_def)

lemma tinv_a_cong:
  assumes "flags wb' = flags wb" "threads wb' = threads wb" "timer wb' = timer wb" "expiry wb' = expiry wb"
    "clock wb' = clock wb" "ctx_done wb' = ctx_done wb"
  shows "tinv_a wb' = tinv_a wb"
  using assms by (simp add: tinv_a_def flags_ok_def armed_def ticking_def)

text \<open>\<open>_resetTimer\<close> at the end of an operation establishes what a step may have broken.\<close>

lemma tinv_resetTimer:
  assumes "tinv_a wb" "clock wb = now"
  shows "tinv (resetTimer now wb)"
proof -
  have "watched (resetTimer now wb)"
    by (auto simp: watched_def resetTimer_def peekItem_def stopTimer_def Let_def)
  moreover have "armed (resetTimer now wb)" if "armed wb"
    using that assms(2)
    by (auto simp: armed_def ticking_def resetTimer_def peekItem_def stopTimer_def Let_def)
  ultimately show ?thesis
    using assms(1) by (auto simp: tinv_def tinv_a_def flags_ok_def)
qed

lemma n_up_pos: "p \<in> uploaders ts \<Longrightarrow> 0 < n_up ts"
  by (auto simp: uploaders_def n_up_def image_iff filter_empty_conv) (metis option.distinct(1))

text \<open>Queue helpers and item fields do not touch what \<open>tinv_a\<close> reads.\<close>

lemma tinv_a_helpers [simp]:
  "tinv_a (pushItem p wb) = tinv_a wb" "tinv_a (removeItem p wb) = tinv_a wb"
  "tinv_a (update p e wb) = tinv_a wb" "tinv_a (delItem p wb) = tinv_a wb"
  by (rule tinv_a_cong; simp)+

lemma tinv_a_item_upd:
  "(\<And>x. uploading (f x) = uploading x \<and> w_cancel (f x) = w_cancel x) \<Longrightarrow>
   tinv_a (item_upd p f wb) = tinv_a wb"
  by (rule tinv_a_cong) (simp_all add: flags_item_upd)

lemma tinv_D: "tinv wb \<Longrightarrow> tinv_a wb"
  by (simp add: tinv_def)

lemma tinv_add_rest: "tinv_a wb \<Longrightarrow> clock wb = now \<Longrightarrow> tinv (add_rest now p sz fn wb)"
  unfolding add_rest_def by (rule tinv_resetTimer) (simp_all add: tinv_a_item_upd)

lemma tinv_remove_rest: "tinv_a wb \<Longrightarrow> clock wb = now \<Longrightarrow> tinv (remove_rest now p wb)"
  unfolding remove_rest_def by (rule tinv_resetTimer) simp_all

lemma tinv_rename_rest: "tinv_a wb \<Longrightarrow> clock wb = now \<Longrightarrow> tinv (rename_rest now p nm wb)"
  unfolding rename_rest_def by (rule tinv_resetTimer) (simp_all add: tinv_a_item_upd)

text \<open>An operation that has to wait leaves an upload in progress behind.\<close>

lemma tinv_cancelUpload:
  assumes "tinv_a wb" "counted wb" "uploading (store wb p)" "\<And>q. k \<noteq> KCancel q"
  shows "\<not> snd (u_cancelUpload p k wb) \<and> tinv (fst (u_cancelUpload p k wb))
    \<and> clock (fst (u_cancelUpload p k wb)) = clock wb"
proof -
  obtain c where c: "w_cancel (store wb p) = Some c" and u: "p \<in> uploaders (threads wb)"
    using assms(1,3) by (auto simp: tinv_a_def flags_ok_def flags_def)
  let ?w = "wb\<lparr>threads := threads wb @ [TWait p (w_done (store wb p)) k], cancelled := insert c (cancelled wb)\<rparr>"
  have e: "u_cancelUpload p k wb = (?w, False)"
    using assms(3) c by (simp add: u_cancelUpload_def Let_def)
  have "0 < uploads wb" using n_up_pos [OF u] assms(2) by (simp add: counted_def)
  then have "tinv ?w"
    using assms(1,4)
    by (auto simp: tinv_def tinv_a_def flags_ok_def flags_def armed_def ticking_def watched_def)
  then show ?thesis by (simp add: e)
qed

lemma tinv_u_remove:
  assumes "tinv_a wb" "counted wb" "clock wb = now" "\<And>p q. k p \<noteq> KCancel q"
  shows "tinv (fst (u_remove now hid k wb)) \<and> clock (fst (u_remove now hid k wb)) = now"
proof (cases "map_of (lookup wb) hid")
  case None
  then show ?thesis using tinv_resetTimer [OF assms(1,3)] assms(3) by (simp add: u_remove_def)
next
  case (Some p)
  show ?thesis
  proof (cases "uploading (store wb p)")
    case True
    note c = tinv_cancelUpload [OF assms(1,2) True assms(4) [of p]]
    then show ?thesis
      using Some True assms(3) by (cases "u_cancelUpload p (k p) wb") (simp add: u_remove_def)
  next
    case False
    then show ?thesis
      using Some tinv_remove_rest [OF assms(1,3)] assms(3) by (simp add: u_remove_def remove_rest_def)
  qed
qed

lemma tinv_rename_loop:
  "tinv_a wb \<Longrightarrow> winv E wb \<Longrightarrow> p < nextp wb \<Longrightarrow> clock wb = now \<Longrightarrow>
   tinv (rename_loop now hid p nm order wb)"
proof (induction order arbitrary: wb)
  case Nil
  then show ?case by (simp add: tinv_rename_rest)
next
  case (Cons k order)
  let ?r = "u_remove now k (\<lambda>q. KRenameRemove hid p nm q order) wb"
  have c: "counted wb" using Cons.prems(2) by (simp add: winv_def)
  have "winv E (fst ?r) \<and> nextp (fst ?r) = nextp wb"
    using Cons.prems by (intro winv_u_remove) auto
  moreover have "tinv (fst ?r) \<and> clock (fst ?r) = now"
    using Cons.prems by (intro tinv_u_remove c) auto
  ultimately show ?case
    using Cons by (cases ?r) (auto simp: tinv_D split: option.splits)
qed

lemma tinv_newItem:
  assumes "tinv_a wb"
  shows "tinv_a (snd (newItem now hid nm sz wb)) \<and> clock (snd (newItem now hid nm sz wb)) = clock wb"
proof -
  obtain hid' wb1 where S: "SetID hid wb = (hid', wb1)" by fastforce
  have F: "store wb1 = store wb" "nextp wb1 = nextp wb" "threads wb1 = threads wb" "timer wb1 = timer wb"
    "expiry wb1 = expiry wb" "clock wb1 = clock wb" "ctx_done wb1 = ctx_done wb"
    using S by (auto simp: SetID_def split: if_splits)
  have "tinv_a (wb1\<lparr>store := (store wb)(nextp wb := it), nextp := n, lookup := l\<rparr>)"
    if "\<not> uploading it" for it n l
    using assms(1) that
    by (simp add: tinv_a_def flags_ok_def flags_def armed_def ticking_def F)
  then show ?thesis by (simp add: newItem_def S Let_def F addItem_def)
qed

lemma tinv_Add:
  assumes "tinv wb" "winv {} wb" "clock wb = now"
  shows "tinv (snd (Add now hid nm sz modified fn wb))"
proof (cases "map_of (lookup wb) hid")
  case None
  then show ?thesis
    using tinv_newItem [OF tinv_D [OF assms(1)], of now hid nm sz] assms(3)
    by (cases "newItem now hid nm sz wb") (simp add: Add_def tinv_add_rest)
next
  case (Some p)
  have c: "counted wb" using assms(2) by (simp add: winv_def)
  show ?thesis
    using Some tinv_cancelUpload [OF tinv_D [OF assms(1)] c, of p "KAdd p sz fn"] assms(1,3)
    by (cases "u_cancelUpload p (KAdd p sz fn) wb") (auto simp: Add_def tinv_add_rest tinv_D)
qed

lemma tinv_Rename:
  assumes "tinv wb" "winv {} wb" "clock wb = now"
  shows "tinv (Rename now hid nm order wb)"
proof (cases "map_of (lookup wb) hid")
  case None
  then show ?thesis using assms by (simp add: Rename_def)
next
  case (Some p)
  have c: "counted wb" using assms(2) by (simp add: winv_def)
  show ?thesis
    using Some tinv_cancelUpload [OF tinv_D [OF assms(1)] c, of p "KRename hid p nm"] assms
      winv_lookup [OF assms(2) Some]
    by (cases "u_cancelUpload p (KRename hid p nm) wb")
      (auto simp: Rename_def tinv_D intro: tinv_rename_loop)
qed

lemma tinv_SetExpiry:
  assumes "tinv wb" "clock wb = now"
  shows "tinv (snd (SetExpiry now hid e rel wb))"
  using assms by (auto simp: SetExpiry_def Let_def tinv_D intro!: tinv_resetTimer split: option.splits)

lemma tinv_resume:
  assumes "tinv_a wb" "winv {} wb" "q < nextp wb" "cont_ptrs k \<subseteq> {..< nextp wb}" "clock wb = now"
    and "\<And>p. k \<noteq> KCancel p"
  shows "tinv (resume now order q k wb)"
proof -
  have w: "winv {} (pushItem q wb)" using winv_pushItem [OF assms(2,3)] by simp
  show ?thesis
  proof (cases k)
    case (KRenameRemove hid p nm r todo)
    have "tinv (remove_rest now r (pushItem q wb))"
      using assms(1,5) by (intro tinv_remove_rest) simp_all
    moreover have "clock (remove_rest now r (pushItem q wb)) = now"
      using assms(5) by (simp add: remove_rest_def)
    ultimately have "tinv (rename_loop now hid p nm todo (remove_rest now r (pushItem q wb)))"
      using winv_remove_rest [OF w, of now r] assms(4) KRenameRemove
      by (intro tinv_rename_loop [of _ "{}"]) (auto simp: tinv_D)
    then show ?thesis by (simp add: resume_def KRenameRemove)
  next
    case (KRename hid p nm)
    have "tinv (rename_loop now hid p nm order (pushItem q wb))"
      using assms w KRename by (intro tinv_rename_loop [of _ "{}"]) auto
    then show ?thesis by (simp add: resume_def KRename)
  qed (use assms in \<open>simp_all add: resume_def Let_def tinv_add_rest tinv_remove_rest\<close>)
qed

lemma tinv_upload_done:
  assumes "tinv_a (wb\<lparr>threads := TRunning p fn # threads wb\<rparr>)"
    and "clock wb = now" "upload_done now p err wb = Some wb'"
  shows "tinv wb'"
proof -
  obtain c where c: "w_cancel (store wb p) = Some c"
    using assms(3) by (auto simp: upload_done_def split: option.splits)
  define wb1 where "wb1 = (item_upd p (\<lambda>x. x\<lparr>uploading := False\<rparr>) wb)
      \<lparr>cancelled := insert c (cancelled wb), uploads := uploads wb - 1\<rparr>"
  have "tinv_a wb1"
    using assms(1) by (auto simp: tinv_a_def flags_ok_def flags_def armed_def ticking_def wb1_def
        uploaders_def split: if_splits)
  then have r: "tinv_a (upload_result now p err wb1)"
    by (auto simp: upload_result_def Let_def tinv_a_item_upd split: option.splits)
  have "clock (upload_result now p err wb1) = now"
    using assms(2) by (auto simp: upload_result_def Let_def wb1_def split: option.splits)
  from tinv_resetTimer [OF r this] have t: "tinv (resetTimer now (upload_result now p err wb1))" .
  have "tinv (x\<lparr>closed_chs := s\<rparr>) = tinv x" for x s
    by (simp add: tinv_def tinv_a_def flags_ok_def flags_def armed_def ticking_def watched_def)
  with t assms(3) show ?thesis
    by (auto simp: upload_done_def c wb1_def [symmetric] Let_def split: option.splits if_splits)
qed

text \<open>The loop of \<open>processItems\<close> ends with nothing due, or at the limit of four uploads.\<close>

lemma length_popItem:
  assumes "wq N wb" "items wb \<noteq> []"
  shows "length (items (snd (popItem wb))) = length (items wb) - 1"
proof -
  note P = popItem_spec [OF assms]
  have "distinct (items wb)" "distinct (items (snd (popItem wb)))"
    using assms(1) P by (auto simp: wq_def idx_good_def)
  then show ?thesis
    using P assms(2) by (metis distinct_card card_Diff_singleton nth_mem length_greater_0_conv)
qed

lemma process_loop_step:
  assumes "winv {} wb" "items wb \<noteq> []" "w_expiry (store wb (items wb ! 0)) - now \<le> 0" "uploads wb < 4"
  defines "wb1 \<equiv> start_upload (items wb ! 0) (snd (popItem wb))"
  shows "process_loop (Suc n) now wb = process_loop n now wb1" "winv {} wb1"
    "length (items wb1) = length (items wb) - 1"
proof -
  note wq = winv_wq [OF assms(1)]
  have p: "fst (popItem wb) = items wb ! 0" using popItem_spec [OF wq assms(2)] by blast
  show "process_loop (Suc n) now wb = process_loop n now wb1"
    using assms(2-4) p by (cases "popItem wb") (simp add: peekItem_def wb1_def)
  have "items wb ! 0 < nextp wb" using wq assms(2) by (auto simp: wq_def)
  then show "winv {} wb1"
    using winv_start_upload [OF winv_popItem [OF assms(1,2)], of "items wb ! 0"] assms(4)
    by (simp add: wb1_def)
  show "length (items wb1) = length (items wb) - 1"
    using length_popItem [OF wq assms(2)] by (simp add: wb1_def)
qed

lemma process_loop_ends:
  "winv {} wb \<Longrightarrow> length (items wb) \<le> n \<Longrightarrow>
   (if snd (process_loop n now wb)
    then items (fst (process_loop n now wb)) = []
      \<or> now < w_expiry (store (fst (process_loop n now wb)) (items (fst (process_loop n now wb)) ! 0))
    else 4 \<le> uploads (fst (process_loop n now wb)))"
proof (induction n arbitrary: wb)
  case (Suc n)
  show ?case
  proof (cases "items wb = [] \<or> \<not> w_expiry (store wb (items wb ! 0)) - now \<le> 0 \<or> 4 \<le> uploads wb")
    case True
    then show ?thesis by (auto simp: peekItem_def)
  next
    case False
    then have "items wb \<noteq> []" "w_expiry (store wb (items wb ! 0)) - now \<le> 0" "uploads wb < 4" by auto
    note st = process_loop_step [OF Suc.prems(1) this]
    show ?thesis using Suc.IH [OF st(2)] st(1,3) False Suc.prems(2) by simp
  qed
qed simp

definition weakly_armed :: "WriteBack \<Rightarrow> bool" where
  "weakly_armed wb \<longleftrightarrow> (expiry wb \<noteq> 0 \<longrightarrow> ticking wb \<or> expiry wb \<le> clock wb)"

lemma process_loop_keeps:
  "winv {} wb \<Longrightarrow> flags_ok wb \<Longrightarrow>
   flags_ok (fst (process_loop n now wb)) \<and> clock (fst (process_loop n now wb)) = clock wb
   \<and> timer (fst (process_loop n now wb)) = timer wb \<and> expiry (fst (process_loop n now wb)) = expiry wb
   \<and> ctx_done (fst (process_loop n now wb)) = ctx_done wb"
proof (induction n arbitrary: wb)
  case (Suc n)
  show ?case
  proof (cases "items wb = [] \<or> \<not> w_expiry (store wb (items wb ! 0)) - now \<le> 0 \<or> 4 \<le> uploads wb")
    case True
    then show ?thesis using Suc.prems(2) by (auto simp: peekItem_def)
  next
    case False
    then have "items wb \<noteq> []" "w_expiry (store wb (items wb ! 0)) - now \<le> 0" "uploads wb < 4" by auto
    note st = process_loop_step [OF Suc.prems(1) this]
    have "flags (start_upload q w) r = (if r = q then (True, Some (nextch w)) else flags w r)" for q w r
      by (simp add: flags_def start_upload_def)
    moreover have "threads (start_upload q w) = threads w @ [TUpload q]" for q w
      by (simp add: start_upload_def)
    ultimately have "flags_ok (start_upload (items wb ! 0) (snd (popItem wb)))"
      using Suc.prems(2) by (auto simp: flags_ok_def uploaders_def)
    from Suc.IH [OF st(2) this] show ?thesis using st(1) False by simp
  qed
qed simp

lemma tinv_processItems:
  assumes "winv {} wb" "flags_ok wb" "\<not> ctx_done wb \<Longrightarrow> weakly_armed wb" "clock wb = now"
  shows "tinv (processItems now wb)"
proof (cases "ctx_done wb")
  case True
  then show ?thesis using assms(2) by (simp add: processItems_def tinv_def tinv_a_def)
next
  case False
  obtain w r where l: "process_loop (length (items wb)) now wb = (w, r)" by fastforce
  note k = process_loop_keeps [OF assms(1,2), of "length (items wb)" now, unfolded l fst_conv]
  note e = process_loop_ends [OF assms(1) order_refl, of now, unfolded l fst_conv snd_conv]
  have wa: "weakly_armed w" using assms(3) False k by (simp add: weakly_armed_def ticking_def)
  have cl: "clock w = now" using assms(4) k by simp
  show ?thesis
  proof (cases r)
    case True
    have "armed (resetTimer now w)"
      using wa e True cl
      by (auto simp: armed_def weakly_armed_def ticking_def resetTimer_def peekItem_def stopTimer_def Let_def)
    moreover have "watched (resetTimer now w)"
      by (auto simp: watched_def resetTimer_def peekItem_def stopTimer_def Let_def)
    ultimately show ?thesis
      using l True False k by (simp add: processItems_def tinv_def tinv_a_def flags_ok_def)
  next
    case F: False
    have "armed (stopTimer w)" "watched (stopTimer w)"
      using e F by (auto simp: armed_def watched_def stopTimer_def)
    then show ?thesis
      using l F False k
      by (simp add: processItems_def tinv_def tinv_a_def flags_ok_def)
  qed
qed

lemma armed_clock: "armed wb \<Longrightarrow> clock wb \<le> now \<Longrightarrow> armed (wb\<lparr>clock := now\<rparr>)"
  by (auto simp: armed_def ticking_def max_def split: if_splits)

lemma tinv_clock: "tinv wb \<Longrightarrow> clock wb \<le> now \<Longrightarrow> tinv (wb\<lparr>clock := now\<rparr>)"
  using armed_clock by (auto simp: tinv_def tinv_a_def flags_ok_def flags_def watched_def)

lemma flags_end_thread [simp]: "flags (end_thread i wb) = flags wb"
  by (simp add: flags_def fun_eq_iff)

lemma end_thread_tinv:
  assumes "tinv wb" "thread_at i wb = Some t" "up_ptr t = None"
  shows "flags_ok (end_thread i wb)"
    and "\<not> ctx_done wb \<Longrightarrow> weakly_armed (end_thread i wb)"
    and "t \<noteq> TProcess \<Longrightarrow> tinv_a (end_thread i wb)"
proof -
  note f = end_thread_facts(1) [OF assms(2)]
  have u: "uploaders (threads wb) = uploaders (threads (end_thread i wb))"
    using f assms(3) by (auto simp: uploaders_def)
  show fo: "flags_ok (end_thread i wb)"
    using assms(1) f u by (simp add: tinv_def tinv_a_def flags_ok_def)
  show "\<not> ctx_done wb \<Longrightarrow> weakly_armed (end_thread i wb)"
    using assms(1) by (auto simp: tinv_def tinv_a_def armed_def weakly_armed_def ticking_def)
  show "t \<noteq> TProcess \<Longrightarrow> tinv_a (end_thread i wb)"
    using assms(1) f fo by (auto simp: tinv_def tinv_a_def armed_def ticking_def)
qed

lemma step_tinv:
  assumes "winv {} wb0" "tinv wb0" "wb_step now a wb0 = Next wb'"
  shows "tinv wb'"
proof -
  define wb where "wb = wb0\<lparr>clock := now\<rparr>"
  have s: "clock wb0 \<le> now" using assms(3) by (auto simp: wb_step_def split: if_splits)
  have w: "winv {} wb" using assms(1) winv_fields [of wb wb0] by (simp add: wb_def)
  have t: "tinv wb" using tinv_clock [OF assms(2) s] by (simp add: wb_def)
  have c: "clock wb = now" by (simp add: wb_def)
  note st = assms(3) [unfolded wb_step_def, folded wb_def]
  show ?thesis
  proof (cases a)
    case (ARemove hid)
    have "tinv (fst (u_remove now hid KRemove wb))"
      using tinv_u_remove [OF tinv_D [OF t] _ c, of KRemove hid] w by (simp add: winv_def)
    then show ?thesis using st s ARemove by (auto simp: Let_def Remove_def)
  next
    case AFire
    then obtain tm where tm: "timer wb = Some tm" "live tm" "fire_at tm \<le> now"
      and w': "wb' = wb\<lparr>timer := Some (tm\<lparr>live := False\<rparr>), threads := threads wb @ [TProcess]\<rparr>"
      using st s by (auto simp: Let_def split: option.splits if_splits)
    have "armed wb'" if "armed wb"
      using that tm c by (auto simp: w' armed_def ticking_def)
    then show ?thesis
      using t by (auto simp: w' tinv_def tinv_a_def flags_ok_def flags_def watched_def)
  next
    case (AProcess i)
    then have th: "thread_at i wb = Some TProcess" and w': "wb' = processItems now (end_thread i wb)"
      using st s by (auto simp: Let_def split: if_splits)
    show ?thesis
      unfolding w' using end_thread_winv(3) [OF w th] end_thread_tinv [OF t th] c
      by (intro tinv_processItems) simp_all
  next
    case (AStart i)
    then obtain p where th: "thread_at i wb = Some (TUpload p)"
      and w': "wb' = (upload_start p wb)\<lparr>threads := (threads wb)[i := TRunning p (putFn (store wb p))]\<rparr>"
      using st s by (auto simp: Let_def split: option.splits thread.splits)
    have i: "i < length (threads wb)" "threads wb ! i = TUpload p"
      using th by (auto simp: thread_at_def split: if_splits)
    let ?ts = "(threads wb)[i := TRunning p (putFn (store wb p))]"
    have "uploaders ?ts = uploaders (threads wb)"
      by (rule same_threads) (simp_all add: i(2))
    moreover have "TProcess \<in> set ?ts" if tp: "TProcess \<in> set (threads wb)"
    proof -
      obtain j where "j < length (threads wb)" "threads wb ! j = TProcess"
        using tp by (auto simp: in_set_conv_nth)
      then have "j < length ?ts" "?ts ! j = TProcess" using i by (auto simp: nth_list_update)
      then show ?thesis using nth_mem by metis
    qed
    moreover have "TWait q ch (KCancel r) \<notin> set ?ts" for q ch r
      using t set_update_subset_insert [of "threads wb" i] by (fastforce simp: tinv_def tinv_a_def flags_ok_def)
    moreover have "flags wb' = flags wb" "ctx_done wb' = ctx_done wb" "watched wb' = watched wb"
      by (auto simp: w' upload_start_def flags_def watched_def)
    ultimately show ?thesis
      using t by (auto simp: w' upload_start_def tinv_def tinv_a_def flags_ok_def armed_def ticking_def)
  next
    case (ADone i err)
    then obtain p fn where th: "thread_at i wb = Some (TRunning p fn)"
      and d: "upload_done now p err (end_thread i wb) = Some wb'"
      using st s by (auto simp: Let_def split: option.splits thread.splits)
    note f = end_thread_facts(1) [OF th]
    have "tinv_a ((end_thread i wb)\<lparr>threads := TRunning p fn # threads (end_thread i wb)\<rparr>)"
      using t f by (auto simp: tinv_def tinv_a_def flags_ok_def flags_def armed_def ticking_def uploaders_def)
    from tinv_upload_done [OF this _ d] c show ?thesis by simp
  next
    case (AResume i order)
    then obtain q ch k where th: "thread_at i wb = Some (TWait q (Some ch) k)"
      and d: "wb' = resume now order q k (end_thread i wb)"
      using st s by (auto simp: Let_def split: option.splits thread.splits if_splits)
    note e = end_thread_winv [OF w th]
    have "TWait q (Some ch) k \<in> set (threads wb)" using end_thread_facts(1) [OF th] by blast
    then have "k \<noteq> KCancel p" for p using t by (auto simp: tinv_def tinv_a_def flags_ok_def)
    then show ?thesis
      unfolding d using e(2,3) c end_thread_tinv(3) [OF t th] by (intro tinv_resume) auto
  next
    case AShutdown
    then show ?thesis using st s t by (auto simp: Let_def tinv_def tinv_a_def flags_ok_def flags_def)
  qed (use st s t w c in \<open>auto simp: Let_def tinv_Add tinv_Rename tinv_SetExpiry split: if_splits\<close>)
qed

lemma reach_tinv: "wb_reach d wb \<Longrightarrow> tinv wb"
proof (induction rule: wb_reach.induct)
  case (reach_new now)
  then show ?case
    by (simp add: newWriteBack_def tinv_def tinv_a_def flags_ok_def flags_def armed_def watched_def)
next
  case (reach_step wb now a wb')
  then show ?case using reach_winv step_tinv by blast
qed

end
