(* ===== verification/WriteBackQueue.thy ===== *)
theory WriteBackQueue
  imports WriteBack
begin

text \<open>
  The reports of the write-back queue (\<open>Stats\<close>, \<open>Queue\<close>) and the properties of the queue: order and
  indices of the heap, the bound on uploads, that no item is lost and the queue does not stall, what a
  failed upload does, and two schedules in which giving up the lock in \<open>_cancelUpload\<close> goes wrong.
\<close>

section \<open>Reports\<close>

definition Stats :: "WriteBack \<Rightarrow> int \<times> nat" where
  "Stats wb = (uploads wb, length (items wb))"

record QueueInfo =
  q_name :: string
  q_ID :: Handle
  q_size :: int64
  q_expiry :: int
  q_tries :: nat
  q_delay :: int64
  q_uploading :: bool

definition queue_info :: "time \<Rightarrow> WriteBack \<Rightarrow> nat \<Rightarrow> QueueInfo" where
  "queue_info now wb p =
     (let it = store wb p
      in \<lparr>q_name = w_name it, q_ID = w_id it, q_size = w_size it, q_expiry = w_expiry it - now,
          q_tries = tries it, q_delay = delay it, q_uploading = uploading it\<rparr>)"

text \<open>
  \<open>sort.Slice\<close> with the comparison of \<open>Queue\<close>: uploading items first, then by time to expiry (in
  nanoseconds here, in seconds as a float in the source). Go leaves the order of equal elements open; the
  model keeps the order of the map.
\<close>

definition Queue :: "time \<Rightarrow> WriteBack \<Rightarrow> QueueInfo list" where
  "Queue now wb =
     sort_key (\<lambda>q. (\<not> q_uploading q, q_expiry q)) (map (\<lambda>(k, p). queue_info now wb p) (lookup wb))"

section \<open>Runs\<close>

fun run :: "(time \<times> action) list \<Rightarrow> WriteBack \<Rightarrow> outcome" where
  "run [] wb = Next wb"
| "run ((now, a) # as) wb = (case wb_step now a wb of Next wb' \<Rightarrow> run as wb' | r \<Rightarrow> r)"

lemma run_reach: "wb_reach d wb \<Longrightarrow> run as wb = Next wb' \<Longrightarrow> wb_reach d wb'"
  by (induction as wb rule: run.induct) (auto intro: reach_step split: outcome.splits)

definition reaches :: "outcome \<Rightarrow> (WriteBack \<Rightarrow> bool) \<Rightarrow> bool" where
  "reaches r P = (case r of Next wb \<Rightarrow> P wb | _ \<Rightarrow> False)"

lemma reaches_state:
  assumes "reaches (run as (newWriteBack d now)) P"
  obtains wb where "wb_reach d wb" "P wb"
  using assms run_reach [OF reach_new] by (fastforce simp: reaches_def split: outcome.splits)

text \<open>What it takes to evaluate a run.\<close>

lemmas wb_eval = newWriteBack_def wb_step_def Let_def Add_def newItem_def SetID_def newExpiry_def
  word_sless_alt addItem_def lk_put_def lk_del_def pushItem_def heap_ops wb_Len_def wb_Push_def
  item_upd_def heap_up.simps heap_down.simps heap_settle_def small_child_def par_def wb_Less_def
  wb_Swap_def swap_at_def wb_Pop_def popItem_def update_def add_rest_def resetTimer_def peekItem_def
  stopTimer_def thread_at_def processItems_def end_thread_def remove_at_def start_upload_def
  upload_start_def u_cancelUpload_def upload_done_def upload_result_def delItem_def removeItem_def
  maxUploadDelay_def resume_def remove_rest_def valid_order_def Remove_def u_remove_def

section \<open>Properties\<close>

text \<open>C15: In every reachable state the heap holds each queued item once, every item knows its index and
  whether it is queued, and the item at the root, which is uploaded next, expires first; of those
  that expire together it has the smallest handle.\<close>

theorem queue_order:
  assumes "wb_reach d wb"
  shows "distinct (items wb)
    \<and> (\<forall>i. i < length (items wb) \<longrightarrow> index (store wb (items wb ! i)) = int i)
    \<and> (\<forall>p. onHeap (store wb p) \<longleftrightarrow> p \<in> set (items wb))
    \<and> (\<forall>p. p \<in> set (items wb) \<longrightarrow>
         (w_expiry (store wb (items wb ! 0)), w_id (store wb (items wb ! 0)))
           \<le> (w_expiry (store wb p), w_id (store wb p)))"
proof -
  have w: "idx_good (nextp wb) wb wb" "wbh.heap wb" "\<forall>p. onHeap (store wb p) \<longleftrightarrow> p \<in> set (items wb)"
    using reach_winv [OF assms] by (auto simp: winv_def wbase_def wq_def)
  show ?thesis
    using w wbh.root_least [OF w(2)] by (auto simp: idx_good_def wb_key_def)
qed

lemma queue_order_witness:
  "\<exists>wb. wb_reach 0 wb \<and> items wb = [1, 0] \<and> distinct (items wb)"
proof -
  have "reaches (run [(9, AAdd 0 ''a'' 10 True 1), (9, AAdd 0 ''b'' 3 True 2), (9, ASetExpiry 2 5 0)]
      (newWriteBack 0 9)) (\<lambda>wb. items wb = [1, 0])"
    by (simp add: wb_eval SetExpiry_def reaches_def)
  then obtain wb where w: "wb_reach 0 wb" "items wb = [1, 0]" by (rule reaches_state)
  from queue_order [OF w(1)] w show ?thesis by blast
qed

text \<open>C14: The counter of uploads is the number of upload goroutines in flight, and it never exceeds
  four, whatever operations, timers and uploads interleave.\<close>

theorem uploads_bounded:
  assumes "wb_reach d wb"
  shows "fst (Stats wb) = int (n_up (threads wb)) \<and> n_up (threads wb) \<le> 4"
  using reach_winv [OF assms] by (simp add: winv_def counted_def Stats_def)

lemma uploads_bounded_witness:
  "\<exists>wb. wb_reach 0 wb \<and> threads wb = [TUpload 0] \<and> fst (Stats wb) = 1"
proof -
  have "reaches (run [(9, AAdd 0 ''a'' 10 True 1), (9, AFire), (9, AProcess 0)] (newWriteBack 0 9))
      (\<lambda>wb. threads wb = [TUpload 0])"
    by (simp add: wb_eval reaches_def)
  then obtain wb where w: "wb_reach 0 wb" "threads wb = [TUpload 0]" by (rule reaches_state)
  from uploads_bounded [OF w(1)] w show ?thesis by (auto simp: n_up_def)
qed

text \<open>C16: An item that is still known to the queue (it was added, and neither removed nor uploaded) is
  on the heap or in the hands of an upload goroutine; it is stored under its own handle.\<close>

theorem no_item_lost:
  assumes "wb_reach d wb" "map_of (lookup wb) hid = Some p"
  shows "(p \<in> set (items wb) \<or> p \<in> uploaders (threads wb)) \<and> w_id (store wb p) = hid"
  using reach_winv [OF assms(1)] assms(2)
  by (auto simp: winv_def wbase_def held_def dest!: map_of_SomeD)

lemma no_item_lost_witness:
  "\<exists>wb. wb_reach 0 wb \<and> (0 \<in> set (items wb) \<or> 0 \<in> uploaders (threads wb))"
proof -
  have "reaches (run [(9, AAdd 0 ''a'' 10 True 1), (9, AFire), (9, AProcess 0), (9, AStart 0),
      (9, ADone 0 (Some ENOSPC))] (newWriteBack 0 9)) (\<lambda>wb. map_of (lookup wb) 1 = Some 0)"
    by (simp add: wb_eval reaches_def)
  then obtain wb where w: "wb_reach 0 wb" "map_of (lookup wb) 1 = Some 0" by (rule reaches_state)
  from no_item_lost [OF w] w show ?thesis by blast
qed

text \<open>C17: As long as the context lives, a non-empty queue is never forgotten: an upload is in progress
  (its end sets the timer), or the timer runs and fires no later than the first item is due (at once
  if it is due), or the timer's goroutine is waiting for the lock.\<close>

theorem no_stall:
  assumes "wb_reach d wb" "\<not> ctx_done wb" "items wb \<noteq> []" "w_expiry (store wb (items wb ! 0)) \<noteq> 0"
  shows "0 < uploads wb \<or> TProcess \<in> set (threads wb)
    \<or> (\<exists>t. timer wb = Some t \<and> live t
         \<and> fire_at t \<le> max (w_expiry (store wb (items wb ! 0))) (clock wb))"
  using reach_tinv [OF assms(1)] assms(2-4)
  by (auto simp: tinv_def tinv_a_def armed_def ticking_def watched_def)

lemma no_stall_witness:
  "\<exists>wb. wb_reach 5 wb \<and> uploads wb = 0 \<and> (\<exists>t. timer wb = Some t \<and> fire_at t \<le> 14)"
proof -
  have "reaches (run [(9, AAdd 0 ''a'' 10 True 1)] (newWriteBack 5 9))
      (\<lambda>wb. items wb = [0] \<and> \<not> ctx_done wb \<and> w_expiry (store wb 0) = 14 \<and> uploads wb = 0
        \<and> threads wb = [] \<and> clock wb = 9)"
    by (simp add: wb_eval reaches_def)
  then obtain wb where w: "wb_reach 5 wb" "items wb = [0] \<and> \<not> ctx_done wb \<and> w_expiry (store wb 0) = 14
      \<and> uploads wb = 0 \<and> threads wb = [] \<and> clock wb = 9"
    by (rule reaches_state)
  from no_stall [OF w(1)] w show ?thesis by auto
qed

text \<open>What the branch for an error leaves of the item and the heap.\<close>

lemma requeue_spec:
  fixes d :: int64 and e :: time
  assumes "wq (nextp wb) wb" "p < nextp wb"
  defines "r \<equiv> update p e (pushItem p (item_upd p (\<lambda>x. x\<lparr>delay := d\<rparr>) wb))"
  shows "p \<in> set (items r) \<and> delay (store r p) = d \<and> w_expiry (store r p) = e
    \<and> uploading (store r p) = uploading (store wb p) \<and> lookup r = lookup wb"
proof -
  let ?x = "item_upd p (\<lambda>x. x\<lparr>delay := d\<rparr>) wb"
  have "wq (nextp ?x) ?x" using wq_inert [OF assms(1), of "\<lambda>x. x\<lparr>delay := d\<rparr>" p] by (simp add: inert_def)
  note P = pushItem_spec [OF this, of p, simplified, OF assms(2)]
  have "wq (nextp (pushItem p ?x)) (pushItem p ?x)" using P by simp
  note U = update_spec [OF this, of p e, simplified, OF assms(2)]
  note pf = core_fields [OF qframeD(14) [OF P [THEN conjunct2, THEN conjunct1], of p]]
  note uf = core_fields [OF qframeD(14) [OF U [THEN conjunct2, THEN conjunct1], of p]]
  show ?thesis
    using P U pf(5,10) uf(4,5,10) by (simp add: r_def)
qed

text \<open>A failed upload puts its item back on the heap, due after the doubled delay, which is capped
  at five minutes, or after the configured delay when it was cancelled; a successful one takes the
  item out of the map. Either way the item is no longer marked as uploading.\<close>

theorem failed_upload:
  assumes "wb_reach d wb" "thread_at i wb = Some (TRunning p fn)"
    and "wb_step now (ADone i err) wb = Next wb'"
  shows "\<not> uploading (store wb' p)
    \<and> (case err of
         None \<Rightarrow> map_of (lookup wb') (w_id (store wb p)) = None
       | Some e \<Rightarrow> p \<in> set (items wb') \<and> lookup wb' = lookup wb
           \<and> (let d = (if errors_Is e Canceled then opt_WriteBack wb
                       else if maxUploadDelay <s delay (store wb p) * 2 then maxUploadDelay
                       else delay (store wb p) * 2)
              in delay (store wb' p) = d \<and> w_expiry (store wb' p) = now + sint d))"
proof -
  define W where "W = end_thread i (wb\<lparr>clock := now\<rparr>)"
  have th: "thread_at i (wb\<lparr>clock := now\<rparr>) = Some (TRunning p fn)"
    using assms(2) by (simp add: thread_at_def split: if_splits)
  have d: "upload_done now p err W = Some wb'"
    using assms(3) th by (auto simp: wb_step_def Let_def W_def split: if_splits option.splits)
  have w: "winv {} (wb\<lparr>clock := now\<rparr>)"
    using reach_winv [OF assms(1)] winv_fields [of "wb\<lparr>clock := now\<rparr>" wb] by simp
  note e = end_thread_winv [OF w th, folded W_def]
  have p: "p < nextp W" using e(2) by (simp add: W_def)
  have same: "store W = store wb" "lookup W = lookup wb" "opt_WriteBack W = opt_WriteBack wb"
    by (simp_all add: W_def end_thread_def)
  obtain c where c: "w_cancel (store W p) = Some c"
    using d by (auto simp: upload_done_def split: option.splits)
  define wb1 where "wb1 = (item_upd p (\<lambda>x. x\<lparr>uploading := False\<rparr>) W)
      \<lparr>cancelled := insert c (cancelled W), uploads := uploads W - 1\<rparr>"
  have r: "store wb' = store (upload_result now p err wb1)" "items wb' = items (upload_result now p err wb1)"
    "lookup wb' = lookup (upload_result now p err wb1)"
    using d by (auto simp: upload_done_def c wb1_def [symmetric] Let_def split: option.splits if_splits)
  have "wq (nextp wb1) (item_upd p (\<lambda>x. x\<lparr>uploading := False\<rparr>) W)"
    using e(1) by (intro wq_inert) (simp_all add: wbase_def wb1_def inert_def)
  then have q: "wq (nextp wb1) wb1"
    using wq_fields [of wb1 "item_upd p (\<lambda>x. x\<lparr>uploading := False\<rparr>) W"] by (simp add: wb1_def)
  have f: "store wb1 p = (store wb p)\<lparr>uploading := False\<rparr>" "lookup wb1 = lookup wb"
    "opt_WriteBack wb1 = opt_WriteBack wb" "nextp wb1 = nextp W"
    by (simp_all add: wb1_def same)
  show ?thesis
  proof (cases err)
    case None
    have "map_of (lk_del k m) k = None" for k and m :: "(Handle \<times> nat) list"
      by (auto simp: map_of_eq_None_iff lk_del_def)
    then show ?thesis using None r f by (simp add: upload_result_def delItem_def)
  next
    case (Some x)
    then show ?thesis
      using r f requeue_spec [OF q, of p] p by (simp add: upload_result_def Let_def)
  qed
qed

lemma failed_upload_witness:
  "\<exists>wb wb'. wb_step 9 (ADone 0 (Some ENOSPC)) wb = Next wb' \<and> w_expiry (store wb' 0) = 17"
proof -
  have "reaches (run [(5, AAdd 0 ''a'' 10 True 1), (9, AFire), (9, AProcess 0), (9, AStart 0)] (newWriteBack 4 5))
      (\<lambda>wb. thread_at 0 wb = Some (TRunning 0 1) \<and> delay (store wb 0) = 4
         \<and> reaches (wb_step 9 (ADone 0 (Some ENOSPC)) wb) (\<lambda>wb'. True))"
    by (simp add: wb_eval reaches_def)
  then obtain wb where r: "wb_reach 4 wb" "thread_at 0 wb = Some (TRunning 0 1) \<and> delay (store wb 0) = 4
      \<and> reaches (wb_step 9 (ADone 0 (Some ENOSPC)) wb) (\<lambda>wb'. True)"
    by (rule reaches_state)
  then have w: "wb_reach 4 wb" "thread_at 0 wb = Some (TRunning 0 1)" "delay (store wb 0) = 4"
    and n: "reaches (wb_step 9 (ADone 0 (Some ENOSPC)) wb) (\<lambda>wb'. True)"
    by simp_all
  from n obtain wb' where s: "wb_step 9 (ADone 0 (Some ENOSPC)) wb = Next wb'"
    by (auto simp: reaches_def split: outcome.splits)
  from failed_upload [OF w(1,2) s] w(3) s show ?thesis by (auto simp: maxUploadDelay_def i64 Let_def)
qed


text \<open>When the upload that \<open>Add\<close> tries to cancel succeeds all the same, the item is pushed
  back on the heap although it has left the map: the handle returned by \<open>Add\<close> is unknown, and
  \<open>Remove\<close> cannot take the pending upload back.\<close>

theorem cancel_after_success:
  "\<exists>wb. wb_reach 7 wb \<and> items wb = [0] \<and> w_id (store wb 0) = 1
     \<and> map_of (lookup wb) 1 = None \<and> (\<forall>now. items (snd (Remove now 1 wb)) = [0])"
proof -
  have "reaches (run [(5, AAdd 0 ''a'' 10 True 1), (12, AFire), (12, AProcess 0), (12, AStart 0),
      (13, AAdd 1 ''a'' 11 True 2), (13, ADone 0 None), (13, AResume 0 [])] (newWriteBack 7 5))
      (\<lambda>wb. items wb = [0] \<and> w_id (store wb 0) = 1 \<and> map_of (lookup wb) 1 = None)"
    by (simp add: wb_eval reaches_def)
  then obtain wb where w: "wb_reach 7 wb" "items wb = [0] \<and> w_id (store wb 0) = 1 \<and> map_of (lookup wb) 1 = None"
    by (rule reaches_state)
  have "items (snd (Remove now 1 wb)) = [0]" for now
    using w(2) by (simp add: Remove_def u_remove_def)
  with w show ?thesis by blast
qed

end
