(* ===== verification/CacheFs.thy ===== *)
theory CacheFs
  imports RangesFind GoIO
begin

text \<open>
  The file system below the cache: the part of Go's \<open>os\<close> package that \<open>internal/cache\<close> uses. Data files and
  metadata files are keyed by the item's name in the cache (\<open>Cache.toOSPath\<close> and \<open>toOSPathMeta\<close> give each
  name its own two paths). A data file is a directory entry for an inode, so an open handle keeps its
  content when the entry is removed. Every system call may fail: \<open>fault k\<close> is the error of the \<open>k\<close>-th
  call, with the number of bytes a write stores before it fails. The theorems hold for every \<open>fault\<close>.
\<close>

section \<open>State\<close>

text \<open>\<open>Info\<close> of \<open>item.go\<close>, which a metadata file stores as JSON.\<close>

record Info =
  ModTime :: time
  ATime :: time
  InfoSize :: int64
  Rs :: Ranges
  Fingerprint :: string
  Dirty :: bool

definition zero_Info :: Info where
  "zero_Info = \<lparr>ModTime = 0, ATime = 0, InfoSize = 0, Rs = [], Fingerprint = [], Dirty = False\<rparr>"

record Fs =
  files :: "string \<Rightarrow> nat option"
  metas :: "string \<Rightarrow> Info option option"
  inodes :: "nat \<Rightarrow> byte list"
  mtimes :: "nat \<Rightarrow> time"
  next_ino :: nat
  fault :: "nat \<Rightarrow> (go_err \<times> nat) option"
  calls :: nat

definition call :: "Fs \<Rightarrow> (go_err \<times> nat) option \<times> Fs" where
  "call fs = (fault fs (calls fs), fs\<lparr>calls := Suc (calls fs)\<rparr>)"

section \<open>System calls\<close>

text \<open>\<open>os.OpenFile\<close> for writing, with or without \<open>O_CREATE\<close>.\<close>

definition fs_open :: "string \<Rightarrow> bool \<Rightarrow> Fs \<Rightarrow> (go_err + nat) \<times> Fs" where
  "fs_open name create fs =
     (case call fs of
        (Some (e, _), fs1) \<Rightarrow> (Inl e, fs1)
      | (None, fs1) \<Rightarrow>
          (case files fs1 name of
             Some ino \<Rightarrow> (Inr ino, fs1)
           | None \<Rightarrow>
               if create
               then let ino = next_ino fs1
                    in (Inr ino, fs1\<lparr>files := (files fs1)(name := Some ino), next_ino := Suc ino,
                                     inodes := (inodes fs1)(ino := [])\<rparr>)
               else (Inl ErrNotExist, fs1)))"

definition fs_stat :: "string \<Rightarrow> Fs \<Rightarrow> (go_err + (int64 \<times> time)) \<times> Fs" where
  "fs_stat name fs =
     (case call fs of
        (Some (e, _), fs1) \<Rightarrow> (Inl e, fs1)
      | (None, fs1) \<Rightarrow>
          (case files fs1 name of
             Some ino \<Rightarrow> (Inr (word_of_nat (length (inodes fs1 ino)), mtimes fs1 ino), fs1)
           | None \<Rightarrow> (Inl ErrNotExist, fs1)))"

definition fs_fstat :: "nat \<Rightarrow> Fs \<Rightarrow> (go_err + (int64 \<times> time)) \<times> Fs" where
  "fs_fstat ino fs =
     (case call fs of
        (Some (e, _), fs1) \<Rightarrow> (Inl e, fs1)
      | (None, fs1) \<Rightarrow> (Inr (word_of_nat (length (inodes fs1 ino)), mtimes fs1 ino), fs1))"

text \<open>Truncating cuts a file or fills it up with zeros.\<close>

definition resize :: "nat \<Rightarrow> byte list \<Rightarrow> byte list" where
  "resize n c = take n c @ replicate (n - length c) 0"

definition fs_truncate :: "nat \<Rightarrow> int64 \<Rightarrow> Fs \<Rightarrow> go_err option \<times> Fs" where
  "fs_truncate ino sz fs =
     (case call fs of
        (Some (e, _), fs1) \<Rightarrow> (Some e, fs1)
      | (None, fs1) \<Rightarrow>
          if sz <s 0 then (Some ErrInvalid, fs1)
          else (None, fs1\<lparr>inodes := (inodes fs1)(ino := resize (nat (sint sz)) (inodes fs1 ino))\<rparr>))"

text \<open>Writing behind the end leaves zeros in between.\<close>

definition overwrite :: "byte list \<Rightarrow> nat \<Rightarrow> byte list \<Rightarrow> byte list" where
  "overwrite c off b =
     (if b = [] then c else resize off (take off c) @ b @ drop (off + length b) c)"

text \<open>
  \<open>File.WriteAt\<close>: an error whenever fewer than \<open>len(b)\<close> bytes are written. Offsets a file cannot have are
  refused.
\<close>

definition fs_WriteAt :: "nat \<Rightarrow> byte list \<Rightarrow> int64 \<Rightarrow> Fs \<Rightarrow> (nat \<times> go_err option) \<times> Fs" where
  "fs_WriteAt ino b off fs =
     (if off <s 0 then ((0, Some (Other ''negative offset'')), fs)
      else case call fs of
        (r, fs1) \<Rightarrow>
          let (n, err) = (case r of None \<Rightarrow> (length b, None) | Some (e, k) \<Rightarrow> (min k (length b), Some e))
          in if max_int64 < sint off + int (length b) then ((0, Some (Other ''file too large'')), fs1)
             else ((n, err), fs1\<lparr>inodes := (inodes fs1)
                    (ino := overwrite (inodes fs1 ino) (nat (sint off)) (take n b))\<rparr>))"

text \<open>\<open>File.ReadAt\<close> with a buffer of \<open>n\<close> bytes: \<open>io.EOF\<close> when the file ends before the buffer is full.\<close>

definition fs_ReadAt :: "nat \<Rightarrow> nat \<Rightarrow> int64 \<Rightarrow> Fs \<Rightarrow> (byte list \<times> go_err option) \<times> Fs" where
  "fs_ReadAt ino n off fs =
     (if off <s 0 then (([], Some (Other ''negative offset'')), fs)
      else case call fs of
        (Some (e, k), fs1) \<Rightarrow> ((take (min k n) (drop (nat (sint off)) (inodes fs1 ino)), Some e), fs1)
      | (None, fs1) \<Rightarrow>
          let got = take n (drop (nat (sint off)) (inodes fs1 ino))
          in ((got, if length got < n then Some EOF else None), fs1))"

text \<open>Calls that only may fail: \<open>Close\<close>, \<open>Sync\<close>, \<open>SetSparse\<close>.\<close>

definition fs_call :: "Fs \<Rightarrow> go_err option \<times> Fs" where
  "fs_call fs = (case call fs of (r, fs1) \<Rightarrow> (map_option fst r, fs1))"

definition fs_remove :: "string \<Rightarrow> Fs \<Rightarrow> go_err option \<times> Fs" where
  "fs_remove name fs =
     (case call fs of
        (Some (e, _), fs1) \<Rightarrow> (Some e, fs1)
      | (None, fs1) \<Rightarrow>
          if files fs1 name = None then (Some ErrNotExist, fs1)
          else (None, fs1\<lparr>files := (files fs1)(name := None)\<rparr>))"

definition fs_remove_meta :: "string \<Rightarrow> Fs \<Rightarrow> go_err option \<times> Fs" where
  "fs_remove_meta name fs =
     (case call fs of
        (Some (e, _), fs1) \<Rightarrow> (Some e, fs1)
      | (None, fs1) \<Rightarrow>
          if metas fs1 name = None then (Some ErrNotExist, fs1)
          else (None, fs1\<lparr>metas := (metas fs1)(name := None)\<rparr>))"

definition fs_chtimes :: "string \<Rightarrow> time \<Rightarrow> Fs \<Rightarrow> go_err option \<times> Fs" where
  "fs_chtimes name t fs =
     (case call fs of
        (Some (e, _), fs1) \<Rightarrow> (Some e, fs1)
      | (None, fs1) \<Rightarrow>
          (case files fs1 name of
             None \<Rightarrow> (Some ErrNotExist, fs1)
           | Some ino \<Rightarrow> (None, fs1\<lparr>mtimes := (mtimes fs1)(ino := t)\<rparr>)))"

text \<open>
  Reading and writing a metadata file as a whole; \<open>encoding/json\<close> gives back the \<open>Info\<close> it was given. A
  write that fails after the file has been created leaves a file that cannot be decoded (\<open>Some None\<close>).
\<close>

definition fs_load_meta :: "string \<Rightarrow> Fs \<Rightarrow> (go_err + Info) \<times> Fs" where
  "fs_load_meta name fs =
     (case call fs of
        (Some (e, _), fs1) \<Rightarrow> (Inl e, fs1)
      | (None, fs1) \<Rightarrow>
          (case metas fs1 name of
             None \<Rightarrow> (Inl ErrNotExist, fs1)
           | Some None \<Rightarrow> (Inl (Other ''corrupt JSON''), fs1)
           | Some (Some info) \<Rightarrow> (Inr info, fs1)))"

definition fs_save_meta :: "string \<Rightarrow> Info \<Rightarrow> Fs \<Rightarrow> go_err option \<times> Fs" where
  "fs_save_meta name info fs =
     (case call fs of
        (Some (e, k), fs1) \<Rightarrow>
          (Some e, if k = 0 then fs1 else fs1\<lparr>metas := (metas fs1)(name := Some None)\<rparr>)
      | (None, fs1) \<Rightarrow> (None, fs1\<lparr>metas := (metas fs1)(name := Some (Some info))\<rparr>))"

section \<open>Facts\<close>

lemma call_fields:
  "call fs = (r, fs1) \<Longrightarrow> files fs1 = files fs \<and> metas fs1 = metas fs \<and> inodes fs1 = inodes fs
     \<and> next_ino fs1 = next_ino fs \<and> mtimes fs1 = mtimes fs \<and> fault fs1 = fault fs"
  by (auto simp: call_def)

lemma length_resize [simp]: "length (resize n c) = n"
  by (simp add: resize_def)

lemma nth_resize: "i < n \<Longrightarrow> resize n c ! i = (if i < length c then c ! i else 0)"
  by (simp add: resize_def nth_append)

lemma length_overwrite:
  "length (overwrite c off b) = (if b = [] then length c else max (length c) (off + length b))"
  by (auto simp: overwrite_def)

text \<open>What a byte of a file is after a write.\<close>

lemma nth_overwrite:
  assumes "i < length (overwrite c off b)"
  shows "overwrite c off b ! i =
    (if off \<le> i \<and> i < off + length b then b ! (i - off) else if i < length c then c ! i else 0)"
  using assms by (auto simp: overwrite_def nth_append nth_resize min_def split: if_splits)

end
