(* ===== verification/CacheItem.thy ===== *)
theory CacheItem
  imports CacheFs
begin

text \<open>
  \<open>Item\<close> of \<open>internal/cache/item.go\<close>: one file of the disk cache. The state \<open>world\<close> is the item, the file
  system, the clock, and what the write-back queue knows (which handles, with name and size); the
  queue itself is in theory \<open>WriteBack\<close>. What an item asks of its downloaders, of \<open>Cache.put\<close> and of the
  cleaner is a parameter (\<open>env\<close>): each is a function on the world, since they call back into the item
  while its lock is released. An operation is otherwise one step. This theory holds the model; the
  theorems are in \<open>ItemData\<close> and \<open>ItemLife\<close>.
\<close>

section \<open>State\<close>

text \<open>What an item reads of a \<open>RemoteObject\<close>: its size, and the optional fingerprint and time methods.\<close>

record remote =
  ro_Size :: int64
  ro_Fingerprint :: "string option"
  ro_ModTime :: "time option"

record Item =
  i_name :: string
  opens :: int
  downloaders :: bool
  i_o :: "remote option"
  fd :: "nat option"
  info :: Info
  writeBackID :: uint64
  pendingAccesses :: int
  modified :: bool
  beingReset :: bool
  graceTimer :: bool

datatype ResetResult =
    SkippedDirty | SkippedPendingAccess | SkippedEmpty | SkippedGrace | RemovedNotInUse
  | ResetFailed | ResetComplete

record world =
  it :: Item
  fs :: Fs
  now :: time
  wb_items :: "uint64 \<Rightarrow> (string \<times> int64) option"
  wb_last :: uint64
  o_WriteBack :: int64
  o_HandleCaching :: int64

text \<open>
  The environment: \<open>Downloaders.Download\<close>, \<open>EnsureDownloader\<close> and \<open>Close\<close>, whether \<open>Cache.put\<close> finds
  another open item of this name, the result of \<open>createItemDir\<close>, and a run of the cleaner.
\<close>

record env =
  e_Download :: "Range \<Rightarrow> world \<Rightarrow> go_err option \<times> world"
  e_EnsureDownloader :: "Range \<Rightarrow> world \<Rightarrow> go_err option \<times> world"
  e_CloseDownloaders :: "world \<Rightarrow> go_err option \<times> world"
  e_put_conflict :: "world \<Rightarrow> bool"
  e_createItemDir :: "world \<Rightarrow> go_err option \<times> world"
  e_KickCleaner :: "world \<Rightarrow> world"

definition upd_it :: "(Item \<Rightarrow> Item) \<Rightarrow> world \<Rightarrow> world" where
  "upd_it f w = w\<lparr>it := f (it w)\<rparr>"

definition upd_info :: "(Info \<Rightarrow> Info) \<Rightarrow> world \<Rightarrow> world" where
  "upd_info f w = upd_it (\<lambda>i. i\<lparr>info := f (info i)\<rparr>) w"

definition sys :: "(Fs \<Rightarrow> 'a \<times> Fs) \<Rightarrow> world \<Rightarrow> 'a \<times> world" where
  "sys f w = (case f (fs w) of (r, fs') \<Rightarrow> (r, w\<lparr>fs := fs'\<rparr>))"

abbreviation inf :: "world \<Rightarrow> Info" where
  "inf w \<equiv> info (it w)"

section \<open>Errors\<close>

fun Error :: "go_err \<Rightarrow> string" where
  "Error EOF = ''EOF''"
| "Error ErrUnexpectedEOF = ''unexpected EOF''"
| "Error ErrClosed = ''file already closed''"
| "Error ErrNotExist = ''file does not exist''"
| "Error ErrExist = ''file already exists''"
| "Error ErrPermission = ''permission denied''"
| "Error ErrInvalid = ''invalid argument''"
| "Error ENOSYS = ''function not implemented''"
| "Error ENOSPC = ''no space left on device''"
| "Error ErrorFileClosed = ''file already closed''"
| "Error ErrorInvalidSeek = ''invalid seek position''"
| "Error ErrorIDNotFound = ''id not found in queue''"
| "Error Canceled = ''context canceled''"
| "Error (Other s) = s"
| "Error (Wrap c e) = c @ '': '' @ Error e"

definition contains :: "string \<Rightarrow> string \<Rightarrow> bool" where
  "contains s sub \<longleftrightarrow> list_ex (\<lambda>i. take (length sub) (drop i s) = sub) [0..<Suc (length s)]"

definition isErrNoSpace :: "go_err option \<Rightarrow> bool" where
  "isErrNoSpace err = (case err of None \<Rightarrow> False
     | Some e \<Rightarrow> contains (Error e) ''no space'' \<or> errors_Is e ENOSPC)"

text \<open>The condition under which \<open>Open\<close> and \<open>ReadAt\<close> give up after an error.\<close>

definition gives_up :: "go_err \<Rightarrow> bool" where
  "gives_up e \<longleftrightarrow> \<not> isErrNoSpace (Some e) \<and> Error e \<noteq> ''no space left on device''"

definition wrap_err :: "string \<Rightarrow> go_err option \<Rightarrow> go_err option" where
  "wrap_err c err = map_option (Wrap c) err"

text \<open>\<open>checkErr\<close>, \<open>checkCloseErr\<close> and \<open>orErr\<close>: the first error is kept.\<close>

definition or_err :: "go_err option \<Rightarrow> go_err option \<Rightarrow> go_err option" where
  "or_err err e = (if err = None then e else err)"

section \<open>The helpers called with the lock held\<close>

definition Info_clean :: "time \<Rightarrow> Info" where
  "Info_clean t = zero_Info\<lparr>ModTime := t, ATime := t\<rparr>"

definition wb_Remove :: "world \<Rightarrow> bool \<times> world" where
  "wb_Remove w =
     (let k = writeBackID (it w)
      in (wb_items w k \<noteq> None, w\<lparr>wb_items := (wb_items w)(k := None)\<rparr>))"

definition removeFile :: "world \<Rightarrow> world" where
  "removeFile w = snd (sys (fs_remove (i_name (it w))) w)"

definition removeMeta :: "world \<Rightarrow> world" where
  "removeMeta w = snd (sys (fs_remove_meta (i_name (it w))) w)"

definition remove :: "world \<Rightarrow> bool \<times> world" where
  "remove w =
     (case wb_Remove w of (wasWriting, w1) \<Rightarrow>
        (wasWriting, removeMeta (removeFile (upd_info (\<lambda>_. Info_clean (now w1)) w1))))"

definition save :: "world \<Rightarrow> go_err option \<times> world" where
  "save w = (case sys (fs_save_meta (i_name (it w)) (inf w)) w of
     (err, w1) \<Rightarrow> (wrap_err ''cache item: failed to write metadata'' err, w1))"

text \<open>\<open>load\<close>: whether the metadata exists, and the error.\<close>

definition load :: "world \<Rightarrow> (bool \<times> go_err option) \<times> world" where
  "load w =
     (case sys (fs_load_meta (i_name (it w))) w of
        (Inl e, w1) \<Rightarrow>
          if e = ErrNotExist then ((False, Some e), w1)
          else ((True, Some (Wrap ''cache item: failed to read metadata'' e)), w1)
      | (Inr i, w1) \<Rightarrow> ((True, None), upd_info (\<lambda>_. i) w1))"

definition stat :: "world \<Rightarrow> (go_err + (int64 \<times> time)) \<times> world" where
  "stat w = (case fd (it w) of
     Some ino \<Rightarrow> sys (fs_fstat ino) w | None \<Rightarrow> sys (fs_stat (i_name (it w))) w)"

definition getSize :: "world \<Rightarrow> (int64 \<times> go_err option) \<times> world" where
  "getSize w =
     (case stat w of
        (Inr (sz, _), w1) \<Rightarrow> ((sz, None), upd_info (\<lambda>i. i\<lparr>InfoSize := sz\<rparr>) w1)
      | (Inl e, w1) \<Rightarrow>
          (case i_o (it w1) of
             Some ob \<Rightarrow>
               if e = ErrNotExist
               then ((ro_Size ob, None), upd_info (\<lambda>i. i\<lparr>InfoSize := ro_Size ob\<rparr>) w1)
               else ((0, Some e), w1)
           | None \<Rightarrow> ((0, Some e), w1)))"

text \<open>The end of \<open>_truncate\<close>, on an open file.\<close>

definition truncate_fd :: "nat \<Rightarrow> int64 \<Rightarrow> world \<Rightarrow> go_err option \<times> world" where
  "truncate_fd ino sz w =
     (case sys (fs_fstat ino) w of (r, w1) \<Rightarrow>
        (case (if (case r of Inr (s, _) \<Rightarrow> s = sz | Inl _ \<Rightarrow> False) then (None, w1)
               else sys (fs_truncate ino sz) w1) of
           (Some e, w2) \<Rightarrow> (Some (Wrap ''cache: truncate'' e), w2)
         | (None, w2) \<Rightarrow> (None, upd_info (\<lambda>i. i\<lparr>InfoSize := sz\<rparr>) w2)))"

definition truncate :: "int64 \<Rightarrow> world \<Rightarrow> go_err option \<times> world" where
  "truncate sz w =
     (if sz <s 0 then (None, w)
      else case fd (it w) of
        Some ino \<Rightarrow> truncate_fd ino sz w
      | None \<Rightarrow>
          (case (case sys (fs_open (i_name (it w)) (Ranges_Size (Rs (inf w)) = 0)) w of
                   (Inl e, w1) \<Rightarrow>
                     if e = ErrNotExist
                     then let w2 = removeMeta (upd_info (\<lambda>i. i\<lparr>Rs := [], Dirty := False\<rparr>) w1)
                          in sys (fs_open (i_name (it w2)) True) w2
                     else (Inl e, w1)
                 | (Inr ino, w1) \<Rightarrow> (Inr ino, w1)) of
             (Inl e, w3) \<Rightarrow> (Some (Wrap ''cache: truncate: failed to open cache file'' e), w3)
           | (Inr ino, w3) \<Rightarrow>
               (case truncate_fd ino sz (snd (sys fs_call w3)) of
                  (err, w4) \<Rightarrow>
                    (case sys fs_call w4 of (cerr, w5) \<Rightarrow> (or_err err cerr, w5)))))"

definition truncateToCurrentSize :: "world \<Rightarrow> go_err option \<times> world" where
  "truncateToCurrentSize w =
     (case getSize w of
        ((sz, err), w1) \<Rightarrow>
          if err \<noteq> None \<and> \<not> errors_Is (the err) ErrNotExist
          then (wrap_err ''truncate to current size'' err, w1)
          else if sz <s 0 then (None, w1) else truncate sz w1)"

definition dirty :: "world \<Rightarrow> world" where
  "dirty w =
     (let w1 = upd_info (\<lambda>i. i\<lparr>ModTime := now w, ATime := now w\<rparr>) w;
          w2 = (if \<not> modified (it w1) then snd (wb_Remove (upd_it (\<lambda>i. i\<lparr>modified := True\<rparr>) w1)) else w1)
      in if \<not> Dirty (inf w2) then snd (save (upd_info (\<lambda>i. i\<lparr>Dirty := True\<rparr>) w2)) else w2)"

definition written :: "int64 \<Rightarrow> int64 \<Rightarrow> world \<Rightarrow> world" where
  "written off sz w = upd_info (\<lambda>i. i\<lparr>Rs := Insert (Rs i) \<lparr>Pos = off, Size = sz\<rparr>\<rparr>) w"

definition exists_file :: "world \<Rightarrow> bool \<times> world" where
  "exists_file w = (case sys (fs_stat (i_name (it w))) w of
     (Inr _, w1) \<Rightarrow> (True, w1) | (Inl _, w1) \<Rightarrow> (False, w1))"

definition fingerprint :: "remote \<Rightarrow> string" where
  "fingerprint ob = (case ro_Fingerprint ob of Some fp \<Rightarrow> fp | None \<Rightarrow> [])"

definition updateFingerprint :: "world \<Rightarrow> world" where
  "updateFingerprint w = (case i_o (it w) of
     None \<Rightarrow> w | Some ob \<Rightarrow> upd_info (\<lambda>i. i\<lparr>Fingerprint := fingerprint ob\<rparr>) w)"

definition set_mtime :: "time \<Rightarrow> world \<Rightarrow> world" where
  "set_mtime t w = snd (sys (fs_chtimes (i_name (it w)) t) w)"

definition createFile :: "world \<Rightarrow> go_err option \<times> world" where
  "createFile w =
     (if fd (it w) \<noteq> None then (Some (Other ''cache item: internal error: didn't Close file''), w)
      else case sys (fs_open (i_name (it w)) False) (upd_it (\<lambda>i. i\<lparr>modified := False\<rparr>) w) of
             (Inl e, w1) \<Rightarrow> (Some (Wrap ''cache item: open failed'' e), w1)
           | (Inr ino, w1) \<Rightarrow>
               (case save (upd_it (\<lambda>i. i\<lparr>fd := Some ino\<rparr>) (snd (sys fs_call w1))) of
                  (None, w2) \<Rightarrow> (None, w2)
                | (Some e, w2) \<Rightarrow>
                    (Some (Wrap ''cache item: _save failed'' e),
                     upd_it (\<lambda>i. i\<lparr>fd := None\<rparr>) (snd (sys fs_call w2)))))"

definition checkObject :: "remote option \<Rightarrow> world \<Rightarrow> go_err option \<times> world" where
  "checkObject ob w =
     (let w1 = (case ob of
            None \<Rightarrow>
              if Fingerprint (inf w) \<noteq> [] \<and> \<not> Dirty (inf w) then snd (remove w) else w
          | Some r \<Rightarrow>
              let rf = fingerprint r;
                  wa = (if Fingerprint (inf w) \<noteq> []
                        then if rf \<noteq> Fingerprint (inf w) \<and> \<not> Dirty (inf w)
                             then upd_info (\<lambda>i. i\<lparr>Fingerprint := rf\<rparr>) (snd (remove w))
                             else w
                        else upd_info (\<lambda>i. i\<lparr>Fingerprint := rf\<rparr>) w)
              in upd_info (\<lambda>i. i\<lparr>InfoSize := ro_Size r\<rparr>) wa)
      in case truncateToCurrentSize (upd_it (\<lambda>i. i\<lparr>i_o := ob\<rparr>) w1) of
           (err, w2) \<Rightarrow> (wrap_err ''cache item: open truncate failed'' err, w2))"

definition ensure :: "env \<Rightarrow> int64 \<Rightarrow> int64 \<Rightarrow> world \<Rightarrow> go_err option \<times> world" where
  "ensure env off sz w =
     (let sz' = (if InfoSize (inf w) <s off + sz then InfoSize (inf w) - off else sz);
          r = \<lparr>Pos = off, Size = sz'\<rparr>
      in if Present (Rs (inf w)) r
         then if \<not> downloaders (it w) then (None, w) else e_EnsureDownloader env r w
         else if downloaders (it w) then e_Download env r w
         else if i_o (it w) = None
         then (Some (Other ''cache: no remote object available for download''), w)
         else e_Download env r (upd_it (\<lambda>i. i\<lparr>downloaders := True\<rparr>) w))"

definition store :: "world \<Rightarrow> go_err option \<times> world" where
  "store w =
     (if \<not> Dirty (inf w) then (None, w)
      else (None, snd (save (upd_info (\<lambda>i. i\<lparr>Dirty := False\<rparr>) w))))"

text \<open>Closing the downloaders, with the lock released meanwhile.\<close>

definition close_downloaders :: "env \<Rightarrow> world \<Rightarrow> go_err option \<times> world" where
  "close_downloaders env w =
     (if downloaders (it w) then e_CloseDownloaders env (upd_it (\<lambda>i. i\<lparr>downloaders := False\<rparr>) w)
      else (None, w))"

section \<open>Open and Close\<close>

text \<open>The part of \<open>open\<close> before the call of \<open>Cache.put\<close>: the error, and whether it goes on to that call.\<close>

definition open_create :: "env \<Rightarrow> remote option \<Rightarrow> world \<Rightarrow> (go_err option \<times> bool) \<times> world" where
  "open_create env ob w0 =
     (let w = upd_info (\<lambda>i. i\<lparr>ATime := now w0\<rparr>) w0
      in case e_createItemDir env w of
           (Some e, w1) \<Rightarrow> ((Some (Wrap ''cache item: createItemDir failed'' e), False), w1)
         | (None, w1) \<Rightarrow>
      (case checkObject ob w1 of
           (Some e, w2) \<Rightarrow> ((Some (Wrap ''cache item: check object failed'' e), False), w2)
         | (None, w2) \<Rightarrow>
      (let w3 = upd_it (\<lambda>i. i\<lparr>opens := opens i + 1\<rparr>) w2
       in if opens (it w3) \<noteq> 1 then ((None, False), w3)
          else let grace = graceTimer (it w3);
                   (ex, w4) = (if grace then exists_file (upd_it (\<lambda>i. i\<lparr>graceTimer := False\<rparr>) w3)
                               else (False, w3))
               in if grace \<and> ex then ((None, False), w4)
                  else let w5 = (if grace \<and> fd (it w4) \<noteq> None
                                 then upd_it (\<lambda>i. i\<lparr>fd := None\<rparr>) (snd (sys fs_call w4)) else w4);
                           w6 = (if grace then snd (close_downloaders env w5) else w5)
                       in case createFile w6 of
                            (Some e, w7) \<Rightarrow>
                              ((Some (Wrap ''cache item: create cache file failed'' e), False),
                               upd_it (\<lambda>i. i\<lparr>fd := None, opens := opens i - 1\<rparr>) (snd (remove w7)))
                          | (None, w7) \<Rightarrow> ((None, True), w7))))"

definition open_locked :: "env \<Rightarrow> remote option \<Rightarrow> world \<Rightarrow> go_err option \<times> world" where
  "open_locked env ob w0 =
     (case open_create env ob w0 of
        ((err, created), w) \<Rightarrow>
          if created
          then (if e_put_conflict env w
                then Some (Other ''internal error: item already open in the cache'') else None,
                if i_o (it w) \<noteq> None then upd_it (\<lambda>i. i\<lparr>downloaders := True\<rparr>) w else w)
          else (err, w))"

text \<open>
  \<open>preAccess\<close> waits while the item is being reset: \<open>None\<close>. \<open>guarded\<close> is an operation between
  \<open>preAccess\<close> and \<open>postAccess\<close>.
\<close>

definition preAccess :: "world \<Rightarrow> world option" where
  "preAccess w =
     (if beingReset (it w) then None
      else Some (upd_it (\<lambda>i. i\<lparr>pendingAccesses := pendingAccesses i + 1\<rparr>) w))"

definition postAccess :: "world \<Rightarrow> world" where
  "postAccess w = upd_it (\<lambda>i. i\<lparr>pendingAccesses := pendingAccesses i - 1\<rparr>) w"

definition guarded :: "(world \<Rightarrow> 'a \<times> world) \<Rightarrow> world \<Rightarrow> ('a \<times> world) option" where
  "guarded f w =
     (case preAccess w of
        None \<Rightarrow> None
      | Some w1 \<Rightarrow> (case f w1 of (r, w2) \<Rightarrow> Some (r, postAccess w2)))"

text \<open>\<open>Open\<close>: up to three attempts, with a run of the cleaner after each that ran out of space.\<close>

fun Open_loop :: "env \<Rightarrow> remote option \<Rightarrow> nat \<Rightarrow> world \<Rightarrow> (go_err option \<times> world) option" where
  "Open_loop env ob 0 w = Some (None, w)"
| "Open_loop env ob (Suc n) w =
     (case guarded (open_locked env ob) w of
        None \<Rightarrow> None
      | Some (None, w1) \<Rightarrow> Some (None, w1)
      | Some (Some e, w1) \<Rightarrow>
          if gives_up e then Some (Some e, w1)
          else let w2 = e_KickCleaner env w1
               in if n = 0 then Some (Some e, w2) else Open_loop env ob n w2)"

definition Open :: "env \<Rightarrow> remote option \<Rightarrow> world \<Rightarrow> (go_err option \<times> world) option" where
  "Open env ob w = Open_loop env ob 3 w"

definition close_fd :: "world \<Rightarrow> go_err option \<times> world" where
  "close_fd w =
     (if fd (it w) = None then (Some (Other ''cache item: internal error: didn't Open file''), w)
      else case sys fs_call w of (e, w1) \<Rightarrow> (e, upd_it (\<lambda>i. i\<lparr>fd := None\<rparr>) w1))"

definition queue_upload :: "world \<Rightarrow> world" where
  "queue_upload w =
     (let w1 = (if writeBackID (it w) = 0
                then upd_it (\<lambda>i. i\<lparr>writeBackID := wb_last w + 1\<rparr>) (w\<lparr>wb_last := wb_last w + 1\<rparr>) else w)
      in w1\<lparr>wb_items := (wb_items w1)(writeBackID (it w1) := Some (i_name (it w1), InfoSize (inf w1)))\<rparr>)"

definition actualClose :: "env \<Rightarrow> bool \<Rightarrow> world \<Rightarrow> go_err option \<times> world" where
  "actualClose env syncWriteBack w =
     (let w1 = snd (getSize w);
          (eerr, w2) = (if Dirty (inf w1) \<and> i_o (it w1) \<noteq> None
                        then ensure env 0 (InfoSize (inf w1)) w1 else (None, w1))
      in if eerr \<noteq> None
         then (wrap_err ''cache: failed to download missing parts of cache file'' eerr, w2)
         else let (e1, w3) = close_downloaders env w2;
                  (e2, w4) = close_fd w3;
                  (e3, w5) = save w4;
                  (ex, w6) = exists_file w5;
                  w7 = (if ex
                        then if \<not> Dirty (inf w6) \<and> i_o (it w6) \<noteq> None
                             then set_mtime (case ro_ModTime (the (i_o (it w6))) of Some t \<Rightarrow> t | None \<Rightarrow> 0) w6
                             else set_mtime (ModTime (inf w6)) w6
                        else w6);
                  (e4, w8) = (if Dirty (inf w7)
                              then if syncWriteBack then store w7 else (None, queue_upload w7)
                              else (None, w7))
              in (or_err (or_err (or_err e1 e2) e3) e4, upd_it (\<lambda>i. i\<lparr>modified := False\<rparr>) w8))"

definition close_locked :: "env \<Rightarrow> world \<Rightarrow> go_err option \<times> world" where
  "close_locked env w =
     (let syncWriteBack = (o_WriteBack w \<le>s 0);
          w1 = upd_it (\<lambda>i. i\<lparr>opens := opens i - 1\<rparr>) (upd_info (\<lambda>i. i\<lparr>ATime := now w\<rparr>) w)
      in if opens (it w1) < 0 then (Some ErrClosed, w1)
         else if 0 < opens (it w1) then (None, w1)
         else if 0 <s o_HandleCaching w1 \<and> \<not> Dirty (inf w1)
         then (None, upd_it (\<lambda>i. i\<lparr>graceTimer := True\<rparr>) w1)
         else actualClose env syncWriteBack w1)"

definition Close :: "env \<Rightarrow> world \<Rightarrow> (go_err option \<times> world) option" where
  "Close env w = guarded (close_locked env) w"

definition closeAfterGrace :: "env \<Rightarrow> world \<Rightarrow> world" where
  "closeAfterGrace env w =
     (if 0 < opens (it w) \<or> \<not> graceTimer (it w) then w
      else snd (actualClose env False (upd_it (\<lambda>i. i\<lparr>graceTimer := False\<rparr>) w)))"

section \<open>Reading and writing\<close>

definition no_fd :: "string \<Rightarrow> go_err" where
  "no_fd c = Other (c @ '': internal error: didn't Open file'')"

definition file_WriteAt :: "byte list \<Rightarrow> int64 \<Rightarrow> world \<Rightarrow> (nat \<times> go_err option) \<times> world" where
  "file_WriteAt b off w = (case fd (it w) of
     None \<Rightarrow> ((0, Some ErrInvalid), w) | Some ino \<Rightarrow> sys (fs_WriteAt ino b off) w)"

definition file_ReadAt :: "nat \<Rightarrow> int64 \<Rightarrow> world \<Rightarrow> (byte list \<times> go_err option) \<times> world" where
  "file_ReadAt n off w = (case fd (it w) of
     None \<Rightarrow> (([], Some ErrInvalid), w) | Some ino \<Rightarrow> sys (fs_ReadAt ino n off) w)"

text \<open>\<open>readAt\<close> with a buffer of \<open>n\<close> bytes.\<close>

definition readAt :: "env \<Rightarrow> nat \<Rightarrow> int64 \<Rightarrow> world \<Rightarrow> (byte list \<times> go_err option) \<times> world" where
  "readAt env n off w =
     (if fd (it w) = None then (([], Some (no_fd ''cache item ReadAt'')), w)
      else if off <s 0 then (([], Some EOF), w)
      else case ensure env off (word_of_nat n) w of
             (Some e, w1) \<Rightarrow> (([], Some e), w1)
           | (None, w1) \<Rightarrow>
               (case (case i_o (it w1) of
                        Some ob \<Rightarrow> if \<not> Dirty (inf w1) \<and> ro_Size ob \<noteq> InfoSize (inf w1)
                                   then truncate (ro_Size ob) w1 else (None, w1)
                      | None \<Rightarrow> (None, w1)) of
                  (Some e, w2) \<Rightarrow> (([], Some e), w2)
                | (None, w2) \<Rightarrow> file_ReadAt n off (upd_info (\<lambda>i. i\<lparr>ATime := now w2\<rparr>) w2)))"

text \<open>\<open>ReadAt\<close>: up to three attempts, with a run of the cleaner and a pause after each that ran out of space.\<close>

fun ReadAt_loop ::
  "env \<Rightarrow> nat \<Rightarrow> int64 \<Rightarrow> nat \<Rightarrow> nat \<Rightarrow> world \<Rightarrow> ((byte list \<times> go_err option) \<times> world) option" where
  "ReadAt_loop env n off retries 0 w = Some (([], None), w)"
| "ReadAt_loop env n off retries (Suc k) w =
     (case guarded (readAt env n off) w of
        None \<Rightarrow> None
      | Some ((b, None), w1) \<Rightarrow> Some ((b, None), w1)
      | Some ((b, Some e), w1) \<Rightarrow>
          if e = EOF \<or> gives_up e then Some ((b, Some e), w1)
          else let w2 = e_KickCleaner env w1;
                   w3 = w2\<lparr>now := now w2 + 2 * 2 ^ retries * 1000000\<rparr>
               in if k = 0 then Some ((b, Some e), w3) else ReadAt_loop env n off (Suc retries) k w3)"

definition ReadAt :: "env \<Rightarrow> nat \<Rightarrow> int64 \<Rightarrow> world \<Rightarrow> ((byte list \<times> go_err option) \<times> world) option" where
  "ReadAt env n off w = ReadAt_loop env n off 0 3 w"

text \<open>
  \<open>WriteAt\<close> stores the bytes without the item's lock and then books them with the lock; \<open>writeAt\<close> is both
  in one step.
\<close>

definition write_mark :: "byte list \<Rightarrow> int64 \<Rightarrow> nat \<Rightarrow> go_err option \<Rightarrow> world \<Rightarrow> (nat \<times> go_err option) \<times> world" where
  "write_mark b off n err0 w =
     (let err = (if err0 = None \<and> n \<noteq> length b then Some (Other ''short write'') else err0);
          w2 = written off (word_of_nat n) w;
          w3 = (if 0 < n then dirty w2 else w2);
          end = off + word_of_nat n;
          w4 = (if InfoSize (inf w3) <s off
                then dirty (written (InfoSize (inf w3)) (off - InfoSize (inf w3)) w3) else w3);
          w5 = (if InfoSize (inf w4) <s end then upd_info (\<lambda>i. i\<lparr>InfoSize := end\<rparr>) w4 else w4)
      in ((n, err), w5))"

definition writeAt :: "byte list \<Rightarrow> int64 \<Rightarrow> world \<Rightarrow> (nat \<times> go_err option) \<times> world" where
  "writeAt b off w =
     (if fd (it w) = None then ((0, Some (no_fd ''cache item WriteAt'')), w)
      else case file_WriteAt b off w of ((n, err), w1) \<Rightarrow> write_mark b off n err w1)"

definition WriteAt :: "byte list \<Rightarrow> int64 \<Rightarrow> world \<Rightarrow> ((nat \<times> go_err option) \<times> world) option" where
  "WriteAt b off w = guarded (writeAt b off) w"

text \<open>
  \<open>WriteAtNoOverwrite\<close>: the loop over what \<open>FindAll\<close> returned, with \<open>off\<close>, \<open>b\<close> and the two counters as
  they change.
\<close>

fun no_overwrite ::
  "FoundRange list \<Rightarrow> byte list \<Rightarrow> int64 \<Rightarrow> nat \<Rightarrow> nat \<Rightarrow> world \<Rightarrow> (nat \<times> nat \<times> go_err option) \<times> world" where
  "no_overwrite [] b off n skipped w = ((n, skipped, None), w)"
| "no_overwrite ((r, present) # frs) b off n skipped w =
     (if Pos r \<noteq> off then ((n, skipped, Some (Other ''internal error: offset of range is wrong'')), w)
      else let sz = nat (sint (Size r))
           in if present then no_overwrite frs (drop sz b) (off + word_of_nat sz) (n + sz) (skipped + sz) w
              else case file_WriteAt (take sz b) off w of
                     ((nn, err0), w1) \<Rightarrow>
                       let err = (if err0 = None \<and> nn \<noteq> sz then Some (Other ''downloader: short write'') else err0);
                           w2 = written off (word_of_nat nn) w1
                       in if err \<noteq> None then ((n + nn, skipped, err), w2)
                          else no_overwrite frs (drop nn b) (off + word_of_nat nn) (n + nn) skipped w2)"

definition WriteAtNoOverwrite :: "byte list \<Rightarrow> int64 \<Rightarrow> world \<Rightarrow> (nat \<times> nat \<times> go_err option) \<times> world" where
  "WriteAtNoOverwrite b off w =
     no_overwrite (FindAll (Rs (inf w)) \<lparr>Pos = off, Size = word_of_nat (length b)\<rparr>) b off 0 0 w"

definition truncate_locked :: "int64 \<Rightarrow> world \<Rightarrow> go_err option \<times> world" where
  "truncate_locked sz w =
     (if fd (it w) = None then (Some (no_fd ''cache item truncate''), w)
      else case getSize w of
        ((size0, err), w1) \<Rightarrow>
          if err \<noteq> None \<and> \<not> errors_Is (the err) ErrNotExist
          then (wrap_err ''truncate failed to read size'' err, w1)
          else let oldSize = (if err \<noteq> None then 0 else size0)
               in case truncate sz w1 of
                    (Some e, w2) \<Rightarrow> (Some e, w2)
                  | (None, w2) \<Rightarrow>
                      (None,
                       if oldSize <s sz then dirty (written oldSize sz w2)
                       else if sz <s oldSize
                       then dirty (upd_info (\<lambda>i. i\<lparr>Rs := Ranges_Intersection (Rs i) \<lparr>Pos = 0, Size = sz\<rparr>\<rparr>) w2)
                       else if i_o (it w2) = None then dirty w2 else w2))"

definition Truncate :: "int64 \<Rightarrow> world \<Rightarrow> (go_err option \<times> world) option" where
  "Truncate sz w = guarded (truncate_locked sz) w"

definition Sync :: "world \<Rightarrow> (go_err option \<times> world) option" where
  "Sync w = guarded (\<lambda>w.
     if fd (it w) = None then (Some (no_fd ''cache item sync''), w)
     else case sys fs_call w of
            (Some e, w1) \<Rightarrow> (Some (Wrap ''cache item sync: failed to sync file'' e), w1)
          | (None, w1) \<Rightarrow>
              (case save w1 of (err, w2) \<Rightarrow>
                 (wrap_err ''cache item sync: failed to sync metadata'' err, w2))) w"

section \<open>Queries\<close>

definition inUse :: "world \<Rightarrow> bool" where
  "inUse w \<longleftrightarrow> opens (it w) \<noteq> 0 \<or> Dirty (inf w)"

definition getDiskSize :: "world \<Rightarrow> int64" where
  "getDiskSize w = Ranges_Size (Rs (inf w))"

definition present :: "world \<Rightarrow> bool" where
  "present w = Present (Rs (inf w)) \<lparr>Pos = 0, Size = InfoSize (inf w)\<rparr>"

definition HasRange :: "Range \<Rightarrow> world \<Rightarrow> bool" where
  "HasRange r w = Present (Rs (inf w)) r"

definition Item_FindMissing :: "Range \<Rightarrow> world \<Rightarrow> Range" where
  "Item_FindMissing r w = Clip (FindMissing (Rs (inf w)) r) (InfoSize (inf w))"

definition WrittenBack :: "world \<Rightarrow> bool" where
  "WrittenBack w \<longleftrightarrow> Fingerprint (inf w) \<noteq> []"

definition Dirty_op :: "world \<Rightarrow> (unit \<times> world) option" where
  "Dirty_op w = guarded (\<lambda>w. ((), dirty w)) w"

definition setModTime :: "time \<Rightarrow> world \<Rightarrow> world" where
  "setModTime t w =
     snd (save (upd_info (\<lambda>i. i\<lparr>ModTime := t\<rparr>) (set_mtime t (updateFingerprint w))))"

text \<open>\<open>GetModTime\<close> drops the error of the stat.\<close>

definition GetModTime :: "world \<Rightarrow> (time \<times> go_err option) \<times> world" where
  "GetModTime w = (case stat w of (Inr (_, t), w1) \<Rightarrow> ((t, None), w1) | (Inl _, w1) \<Rightarrow> ((0, None), w1))"

section \<open>Removal and reset\<close>

definition RemoveNotInUse :: "int64 \<Rightarrow> bool \<Rightarrow> world \<Rightarrow> (bool \<times> int64) \<times> world" where
  "RemoveNotInUse maxAge emptyOnly w =
     (if opens (it w) \<noteq> 0 \<or> Dirty (inf w) \<or> graceTimer (it w) then ((False, 0), w)
      else let removeIt = (maxAge = 0 \<or> ATime (inf w) - (now w - sint maxAge) \<le> 0);
               spaceUsed = Ranges_Size (Rs (inf w))
           in if removeIt \<and> (\<not> emptyOnly \<or> spaceUsed = 0) then ((True, spaceUsed), snd (remove w))
              else ((False, 0), w))"

text \<open>\<open>Reset\<close> from where it closes the downloaders.\<close>

definition reset_rest :: "env \<Rightarrow> world \<Rightarrow> (ResetResult \<times> int64 \<times> go_err option) \<times> world" where
  "reset_rest env w0 =
     (case close_downloaders env w0 of
        (e1, w1) \<Rightarrow>
          let (e2, w2) = (if fd (it w1) \<noteq> None
                          then (case sys fs_call w1 of (e, w) \<Rightarrow> (or_err e1 e, w)) else (e1, w1))
          in if fd (it w1) \<noteq> None \<and> e2 \<noteq> None
             then ((ResetFailed, 0, e2), upd_it (\<lambda>i. i\<lparr>beingReset := False\<rparr>) w2)
             else let w3 = upd_it (\<lambda>i. i\<lparr>fd := None\<rparr>) w2;
                      spaceFreed = Ranges_Size (Rs (inf w3));
                      w4 = snd (remove w3);
                      (e5, w5) = (case checkObject (i_o (it w4)) w4 of (e, w) \<Rightarrow> (or_err e2 e, w))
                  in if e5 \<noteq> None
                     then ((ResetFailed, spaceFreed, e5), upd_it (\<lambda>i. i\<lparr>beingReset := False\<rparr>) w5)
                     else case createFile w5 of
                            (Some e, w6) \<Rightarrow>
                              let w7 = upd_it (\<lambda>i. i\<lparr>fd := None\<rparr>) (snd (remove w6))
                              in ((ResetFailed, spaceFreed, Some e),
                                  if \<not> isErrNoSpace (Some e)
                                  then upd_it (\<lambda>i. i\<lparr>beingReset := False\<rparr>) w7 else w7)
                          | (None, w6) \<Rightarrow>
                              ((ResetComplete, spaceFreed, None),
                               upd_it (\<lambda>i. i\<lparr>beingReset := False,
                                 downloaders := downloaders i \<or> i_o i \<noteq> None\<rparr>) w6))"

definition Reset :: "env \<Rightarrow> world \<Rightarrow> (ResetResult \<times> int64 \<times> go_err option) \<times> world" where
  "Reset env w =
     (if opens (it w) = 0 \<and> \<not> Dirty (inf w) \<and> \<not> graceTimer (it w)
      then ((RemovedNotInUse, Ranges_Size (Rs (inf w)), None), snd (remove w))
      else if Dirty (inf w) then ((SkippedDirty, 0, None), w)
      else if graceTimer (it w) then ((SkippedGrace, 0, None), w)
      else if 0 < pendingAccesses (it w) then ((SkippedPendingAccess, 0, None), w)
      else if Ranges_Size (Rs (inf w)) = 0 \<and> \<not> beingReset (it w) then ((SkippedEmpty, 0, None), w)
      else reset_rest env (upd_it (\<lambda>i. i\<lparr>beingReset := True\<rparr>) w))"

section \<open>Renaming and loading\<close>

text \<open>
  \<open>rename\<close> of \<open>cache.go\<close> on data files, and on metadata files. All files of the cache are regular, so the
  checks for other kinds do not show.
\<close>

definition rename_file :: "string \<Rightarrow> string \<Rightarrow> Fs \<Rightarrow> go_err option \<times> Fs" where
  "rename_file old new f0 =
     (case fs_stat old f0 of
        (Inl e, f1) \<Rightarrow>
          if e = ErrNotExist then (None, f1) else (Some (Wrap ''failed to stat source'' e), f1)
      | (Inr _, f1) \<Rightarrow>
          (case (case fs_stat new f1 of
                   (Inl e, f2) \<Rightarrow>
                     if e \<noteq> ErrNotExist then (Some (Wrap ''failed to stat destination'' e), False, f2)
                     else (case fs_call f2 of (e', f3) \<Rightarrow>
                             (wrap_err ''failed to create parent dir'' e', False, f3))
                 | (Inr _, f2) \<Rightarrow> (None, files f2 old = files f2 new, f2)) of
             (Some e, _, f3) \<Rightarrow> (Some e, f3)
           | (None, same, f3) \<Rightarrow>
               if same then (None, f3)
               else case call f3 of
                      (Some (e, _), f4) \<Rightarrow> (Some (Wrap ''failed to rename in cache'' e), f4)
                    | (None, f4) \<Rightarrow>
                        (None, f4\<lparr>files := (files f4)(new := files f4 old, old := None)\<rparr>)))"

definition rename_meta :: "string \<Rightarrow> string \<Rightarrow> Fs \<Rightarrow> go_err option \<times> Fs" where
  "rename_meta old new f0 =
     (case call f0 of
        (Some (e, _), f1) \<Rightarrow>
          if e = ErrNotExist then (None, f1) else (Some (Wrap ''failed to stat source'' e), f1)
      | (None, f1) \<Rightarrow>
          if metas f1 old = None then (None, f1)
          else case call f1 of
                 (Some (e, _), f2) \<Rightarrow> (Some (Wrap ''failed to stat destination'' e), f2)
               | (None, f2) \<Rightarrow>
                   (case (if metas f2 new = None then fs_call f2 else (None, f2)) of
                      (Some e, f3) \<Rightarrow> (Some (Wrap ''failed to create parent dir'' e), f3)
                    | (None, f3) \<Rightarrow>
                        if old = new then (None, f3)
                        else case call f3 of
                               (Some (e, _), f4) \<Rightarrow> (Some (Wrap ''failed to rename in cache'' e), f4)
                             | (None, f4) \<Rightarrow>
                                 (None, f4\<lparr>metas := (metas f4)(new := metas f4 old, old := None)\<rparr>)))"

definition rename_locked :: "env \<Rightarrow> string \<Rightarrow> string \<Rightarrow> remote option \<Rightarrow> world \<Rightarrow> go_err option \<times> world" where
  "rename_locked env name newName newObj w =
     (let dls = downloaders (it w);
          id = writeBackID (it w);
          w1 = updateFingerprint (upd_it (\<lambda>i. i\<lparr>downloaders := False, i_name := newName, i_o := newObj\<rparr>) w);
          (err, w2) = sys (rename_file name newName) w1;
          (err2, w3) = sys (rename_meta name newName) w2;
          w4 = (if dls then snd (e_CloseDownloaders env w3) else w3);
          w5 = w4\<lparr>wb_items := (wb_items w4)(id := map_option (\<lambda>(_, s). (newName, s)) (wb_items w4 id))\<rparr>
      in (if err2 \<noteq> None then err2 else err, w5))"

definition rename_item :: "env \<Rightarrow> string \<Rightarrow> string \<Rightarrow> remote option \<Rightarrow> world \<Rightarrow> (go_err option \<times> world) option" where
  "rename_item env name newName newObj w = guarded (rename_locked env name newName newObj) w"

definition fresh_Item :: "string \<Rightarrow> time \<Rightarrow> Item" where
  "fresh_Item name t =
     \<lparr>i_name = name, opens = 0, downloaders = False, i_o = None, fd = None, info = Info_clean t,
      writeBackID = 0, pendingAccesses = 0, modified = False, beingReset = False, graceTimer = False\<rparr>"

text \<open>\<open>newItem\<close>: an item for a name, with what the disk says of it.\<close>

definition newItem :: "string \<Rightarrow> world \<Rightarrow> world" where
  "newItem name w0 =
     (let w = upd_it (\<lambda>_. fresh_Item name (now w0)) w0
      in case sys (fs_stat name) w of
           (st, w1) \<Rightarrow>
             let w2 = (case st of
                    Inl e \<Rightarrow> if e = ErrNotExist then removeMeta w1 else snd (remove w1)
                  | Inr _ \<Rightarrow> w1);
                 ((ex, err), w3) = load w2;
                 w4 = (if \<not> ex then removeFile w3 else if err \<noteq> None then snd (remove w3) else w3)
             in (case st of Inr (sz, _) \<Rightarrow> upd_info (\<lambda>i. i\<lparr>InfoSize := sz\<rparr>) w4 | Inl _ \<Rightarrow> w4))"

text \<open>
  \<open>reload\<close>: a dirty item found on disk is opened and closed, which queues it for upload; \<open>addv\<close> is
  \<open>Cache.AddVirtual\<close>.
\<close>

definition reload :: "env \<Rightarrow> (string \<Rightarrow> int64 \<Rightarrow> go_err option) \<Rightarrow> world \<Rightarrow> (go_err option \<times> world) option" where
  "reload env addv w =
     (if \<not> Dirty (inf w) then Some (None, w)
      else case Open env None w of
             None \<Rightarrow> None
           | Some (Some e, w1) \<Rightarrow> Some (Some e, w1)
           | Some (None, w1) \<Rightarrow>
               (case Close env w1 of
                  None \<Rightarrow> None
                | Some (Some e, w2) \<Rightarrow> Some (Some e, w2)
                | Some (None, w2) \<Rightarrow>
                    (case getSize w2 of
                       ((_, Some e), w3) \<Rightarrow> Some (Some (Wrap ''reload: failed to read size'' e), w3)
                     | ((sz, None), w3) \<Rightarrow>
                         Some (wrap_err ''reload: failed to add virtual dir entry'' (addv (i_name (it w3)) sz), w3))))"

end
