(* ===== verification/ItemData.thy ===== *)
theory ItemData
  imports CacheItem
begin

text \<open>
  The data of a cache item: what \<open>WriteAtNoOverwrite\<close>, \<open>WriteAt\<close>, \<open>Truncate\<close> and \<open>ReadAt\<close> do to the bytes of
  the cache file and to the ranges \<open>Rs\<close> that say which of them are there. All statements hold for
  every pattern of failing system calls.
\<close>

section \<open>The world\<close>

definition file_data :: "world \<Rightarrow> byte list" where
  "file_data w = (case fd (it w) of Some ino \<Rightarrow> inodes (fs w) ino | None \<Rightarrow> [])"

lemma upd_fields [simp]:
  "it (upd_it f w) = f (it w)" "fs (upd_it f w) = fs w" "now (upd_it f w) = now w"
  "it (upd_info g w) = (it w)\<lparr>info := g (info (it w))\<rparr>" "fs (upd_info g w) = fs w"
  "now (upd_info g w) = now w"
  by (simp_all add: upd_it_def upd_info_def)

lemma file_data_eq: "fd (it w') = fd (it w) \<Longrightarrow> inodes (fs w') = inodes (fs w) \<Longrightarrow> file_data w' = file_data w"
  by (simp add: file_data_def split: option.split)

lemma written_fields [simp]:
  "it (written off n w) =
     (it w)\<lparr>info := (inf w)\<lparr>Rs := Insert (Rs (inf w)) \<lparr>Pos = off, Size = n\<rparr>\<rparr>\<rparr>"
  "fs (written off n w) = fs w" "now (written off n w) = now w"
  "file_data (written off n w) = file_data w"
  by (simp_all add: written_def) (rule file_data_eq, simp_all)

lemma fs_WriteAt_spec:
  assumes "fs_WriteAt ino b off f = ((n, err), f')" "0 \<le> sint off" "sint off + int (length b) \<le> max_int64"
  shows "n \<le> length b" "err = None \<Longrightarrow> n = length b"
    "inodes f' = (inodes f)(ino := overwrite (inodes f ino) (nat (sint off)) (take n b))"
    "files f' = files f" "metas f' = metas f" "fault f' = fault f"
    "(\<And>k. fault f k = None) \<Longrightarrow> err = None"
proof -
  have "\<not> off <s 0" "\<not> max_int64 < sint off + int (length b)"
    using assms(2,3) by (simp_all add: word_sless_alt)
  then have "n \<le> length b \<and> (err = None \<longrightarrow> n = length b) \<and>
      inodes f' = (inodes f)(ino := overwrite (inodes f ino) (nat (sint off)) (take n b)) \<and>
      files f' = files f \<and> metas f' = metas f \<and> fault f' = fault f \<and>
      ((\<forall>k. fault f k = None) \<longrightarrow> err = None)"
    using assms(1)
    by (cases "fault f (calls f)") (simp_all add: fs_WriteAt_def call_def split_beta, auto)
  then show "n \<le> length b" "err = None \<Longrightarrow> n = length b"
    "inodes f' = (inodes f)(ino := overwrite (inodes f ino) (nat (sint off)) (take n b))"
    "files f' = files f" "metas f' = metas f" "fault f' = fault f"
    "(\<And>k. fault f k = None) \<Longrightarrow> err = None" by blast+
qed

text \<open>Writing to the open file: what changes and what does not.\<close>

lemma file_WriteAt_spec:
  assumes "file_WriteAt b off w = ((n, err), w')" "fd (it w) = Some ino"
    and "0 \<le> sint off" "sint off + int (length b) \<le> max_int64"
  shows "n \<le> length b" "err = None \<Longrightarrow> n = length b" "it w' = it w"
    "fault (fs w') = fault (fs w)" "(\<And>k. fault (fs w) k = None) \<Longrightarrow> err = None"
    "file_data w' = overwrite (file_data w) (nat (sint off)) (take n b)"
    "length (file_data w) \<le> length (file_data w')"
    "\<And>p. 0 \<le> p \<Longrightarrow> p < int (length (file_data w)) \<Longrightarrow> p \<notin> {sint off ..< sint off + int n} \<Longrightarrow>
       file_data w' ! nat p = file_data w ! nat p"
    "\<And>p. p \<in> {sint off ..< sint off + int n} \<Longrightarrow>
       p < int (length (file_data w')) \<and> file_data w' ! nat p = b ! nat (p - sint off)"
proof -
  obtain f' where f: "fs_WriteAt ino b off (fs w) = ((n, err), f')" and w': "w' = w\<lparr>fs := f'\<rparr>"
    using assms(1,2) by (auto simp: file_WriteAt_def sys_def split: prod.splits)
  note s = fs_WriteAt_spec [OF f assms(3,4)]
  show n: "n \<le> length b" "err = None \<Longrightarrow> n = length b" "it w' = it w" using s w' by auto
  show "fault (fs w') = fault (fs w)" "(\<And>k. fault (fs w) k = None) \<Longrightarrow> err = None" using s w' by auto
  show d: "file_data w' = overwrite (file_data w) (nat (sint off)) (take n b)"
    using s(3) w' assms(2) by (simp add: file_data_def)
  have tn: "length (take n b) = n" using n(1) by simp
  show "length (file_data w) \<le> length (file_data w')" by (simp add: d length_overwrite)
  show "file_data w' ! nat p = file_data w ! nat p"
    if "0 \<le> p" "p < int (length (file_data w))" "p \<notin> {sint off ..< sint off + int n}" for p
  proof -
    have l: "nat p < length (overwrite (file_data w) (nat (sint off)) (take n b))"
      using that(1,2) unfolding length_overwrite by (auto simp: less_max_iff_disj)
    have "\<not> (nat (sint off) \<le> nat p \<and> nat p < nat (sint off) + n)" "nat p < length (file_data w)"
      using that assms(3) by auto
    then show ?thesis using nth_overwrite [OF l] tn by (auto simp: d)
  qed
  show "p < int (length (file_data w')) \<and> file_data w' ! nat p = b ! nat (p - sint off)"
    if "p \<in> {sint off ..< sint off + int n}" for p
  proof -
    have i: "nat (sint off) \<le> nat p" "nat p < nat (sint off) + n" "nat p - nat (sint off) = nat (p - sint off)"
      using that assms(3) by auto
    then have l: "nat p < length (file_data w')" using tn by (auto simp: d length_overwrite less_max_iff_disj)
    have "nat p - nat (sint off) < n" using i by linarith
    then have "file_data w' ! nat p = b ! (nat p - nat (sint off))"
      using nth_overwrite [OF l [unfolded d]] i tn by (simp add: d)
    then show ?thesis using i l that assms(3) by auto
  qed
qed

section \<open>WriteAtNoOverwrite\<close>

text \<open>
  \<open>filled rs0 w w' off b k\<close>: from \<open>w\<close> to \<open>w'\<close> the first \<open>k\<close> bytes of \<open>b\<close> have been stored at \<open>off\<close>, except
  where \<open>rs0\<close> has bytes already, and are marked as present; nothing else has changed.
\<close>

definition filled :: "Ranges \<Rightarrow> world \<Rightarrow> world \<Rightarrow> int \<Rightarrow> byte list \<Rightarrow> nat \<Rightarrow> bool" where
  "filled rs0 w w' off b k \<longleftrightarrow>
     wf_ranges (Rs (inf w')) \<and> rset (Rs (inf w')) = rset (Rs (inf w)) \<union> {off ..< off + int k}
     \<and> it w' = (it w)\<lparr>info := (inf w)\<lparr>Rs := Rs (inf w')\<rparr>\<rparr>
     \<and> fault (fs w') = fault (fs w)
     \<and> length (file_data w) \<le> length (file_data w')
     \<and> length (file_data w') \<le> max (length (file_data w)) (nat (off + int k))
     \<and> (\<forall>p. 0 \<le> p \<longrightarrow> p < int (length (file_data w)) \<longrightarrow> p \<in> rset rs0 \<or> p \<notin> {off ..< off + int k} \<longrightarrow>
          file_data w' ! nat p = file_data w ! nat p)
     \<and> (\<forall>p. p \<in> {off ..< off + int k} \<longrightarrow> p \<notin> rset rs0 \<longrightarrow>
          p < int (length (file_data w')) \<and> file_data w' ! nat p = b ! nat (p - off))"

lemma filled_refl: "wf_ranges (Rs (inf w)) \<Longrightarrow> filled rs0 w w off b 0"
  by (simp add: filled_def)

lemma filled_fields:
  assumes "filled rs0 w w' off b k"
  shows "fd (it w') = fd (it w)" "i_o (it w') = i_o (it w)" "InfoSize (inf w') = InfoSize (inf w)"
    "Dirty (inf w') = Dirty (inf w)" "opens (it w') = opens (it w)" "downloaders (it w') = downloaders (it w)"
proof -
  obtain r where "it w' = (it w)\<lparr>info := (inf w)\<lparr>Rs := r\<rparr>\<rparr>" using assms unfolding filled_def by blast
  then show "fd (it w') = fd (it w)" "i_o (it w') = i_o (it w)" "InfoSize (inf w') = InfoSize (inf w)"
    "Dirty (inf w') = Dirty (inf w)" "opens (it w') = opens (it w)" "downloaders (it w') = downloaders (it w)"
    by simp_all
qed

text \<open>A step over \<open>j\<close> bytes followed by the rest.\<close>

lemma filled_step:
  assumes "filled rs0 w w1 off b j" "filled rs0 w1 w2 (off + int j) (drop j b) k" "0 \<le> off" "j \<le> length b"
    and "j + k \<le> length b"
  shows "filled rs0 w w2 off b (j + k)"
proof -
  have iv: "{off ..< off + int (j + k)} = {off ..< off + int j} \<union> {off + int j ..< off + int j + int k}"
    by auto
  have A: "it w1 = (it w)\<lparr>info := (inf w)\<lparr>Rs := Rs (inf w1)\<rparr>\<rparr>"
    "it w2 = (it w1)\<lparr>info := (inf w1)\<lparr>Rs := Rs (inf w2)\<rparr>\<rparr>"
    "length (file_data w) \<le> length (file_data w1)" "length (file_data w1) \<le> length (file_data w2)"
    using assms(1,2) unfolding filled_def by blast+
  have K1: "file_data w1 ! nat p = file_data w ! nat p"
    if "0 \<le> p" "p < int (length (file_data w))" "p \<in> rset rs0 \<or> p \<notin> {off ..< off + int j}" for p
    using that assms(1) unfolding filled_def by blast
  have K2: "file_data w2 ! nat p = file_data w1 ! nat p"
    if "0 \<le> p" "p < int (length (file_data w1))" "p \<in> rset rs0 \<or> p \<notin> {off + int j ..< off + int j + int k}" for p
    using that assms(2) unfolding filled_def by blast
  have N1: "p < int (length (file_data w1)) \<and> file_data w1 ! nat p = b ! nat (p - off)"
    if "p \<in> {off ..< off + int j}" "p \<notin> rset rs0" for p
    using that assms(1) unfolding filled_def by blast
  have N2: "p < int (length (file_data w2)) \<and> file_data w2 ! nat p = drop j b ! nat (p - (off + int j))"
    if "p \<in> {off + int j ..< off + int j + int k}" "p \<notin> rset rs0" for p
    using that assms(2) unfolding filled_def by blast
  have old: "file_data w2 ! nat p = file_data w ! nat p"
    if "0 \<le> p" "p < int (length (file_data w))" "p \<in> rset rs0 \<or> p \<notin> {off ..< off + int (j + k)}" for p
    using that K1 [of p] K2 [of p] A(3) unfolding iv by fastforce
  have new: "p < int (length (file_data w2)) \<and> file_data w2 ! nat p = b ! nat (p - off)"
    if p: "p \<in> {off ..< off + int (j + k)}" "p \<notin> rset rs0" for p
  proof (cases "p < off + int j")
    case True
    then show ?thesis using N1 [of p] K2 [of p] p A(4) assms(3) by fastforce
  next
    case False
    then have "nat (p - off) = j + nat (p - (off + int j))" by linarith
    then show ?thesis using N2 [of p] p False assms(4) by (simp add: nth_drop)
  qed
  have "rset (Rs (inf w2)) = rset (Rs (inf w)) \<union> {off ..< off + int (j + k)}"
    using assms(1,2) unfolding filled_def iv by blast
  moreover have "wf_ranges (Rs (inf w2))" using assms(2) by (simp add: filled_def)
  moreover have "it w2 = (it w)\<lparr>info := (inf w)\<lparr>Rs := Rs (inf w2)\<rparr>\<rparr>"
  proof -
    obtain r1 where r1: "it w1 = (it w)\<lparr>info := (inf w)\<lparr>Rs := r1\<rparr>\<rparr>" using A(1) by blast
    obtain r2 where r2: "it w2 = (it w1)\<lparr>info := (inf w1)\<lparr>Rs := r2\<rparr>\<rparr>" using A(2) by blast
    show ?thesis by (simp add: r2 r1)
  qed
  moreover have "length (file_data w) \<le> length (file_data w2)" using A(3,4) by linarith
  moreover have "fault (fs w2) = fault (fs w)" using assms(1,2) by (simp add: filled_def)
  moreover have "length (file_data w2) \<le> max (length (file_data w)) (nat (off + int (j + k)))"
  proof -
    have "length (file_data w1) \<le> max (length (file_data w)) (nat (off + int j))"
      "length (file_data w2) \<le> max (length (file_data w1)) (nat (off + int j + int k))"
      using assms(1,2) by (simp_all add: filled_def)
    moreover have "nat (off + int j) \<le> nat (off + int (j + k))" "off + int j + int k = off + int (j + k)" by simp_all
    ultimately show ?thesis by linarith
  qed
  ultimately show ?thesis
    using old new unfolding filled_def by blast
qed

lemma written_filled:
  assumes "file_WriteAt b off w = ((n, err), w1)" "fd (it w) = Some ino" "wf_ranges (Rs (inf w))"
    and "0 \<le> sint off" "sint off + int (length b) \<le> max_int64"
    and "{sint off ..< sint off + int (length b)} \<inter> rset rs0 = {}"
  shows "filled rs0 w (written off (word_of_nat n) w1) (sint off) b n"
proof -
  note s = file_WriteAt_spec [OF assms(1,2,4,5)]
  have n: "sint (word_of_nat n :: int64) = int n"
    using s(1) assms(4,5) by (intro sint_of_nat64 fits64I) linarith+
  have r: "rbytes (rg off (word_of_nat n)) = {sint off ..< sint off + int n}"
    "file_range (rg off (word_of_nat n))"
    using s(1) assms(4,5) n by (simp_all add: rbytes_def file_range_def lo_def hi_def)
  note ins = Insert_spec [OF assms(3) r(2)]
  have "p \<notin> rset rs0" if "p \<in> {sint off ..< sint off + int n}" for p
  proof -
    have "p \<in> {sint off ..< sint off + int (length b)}" using that s(1) by simp
    then show ?thesis using assms(6) by blast
  qed
  moreover have "length (file_data w1) \<le> max (length (file_data w)) (nat (sint off + int n))"
    using assms(4) s(1) by (auto simp: s(6) length_overwrite nat_add_distrib)
  ultimately show ?thesis
    using ins r(1) s(3,4,7,8,9) unfolding filled_def by auto
qed

lemma filled_skip:
  assumes "wf_ranges (Rs (inf w))" "rset rs0 \<subseteq> rset (Rs (inf w))" "{off ..< off + int k} \<subseteq> rset rs0"
  shows "filled rs0 w w off b k"
  using assms unfolding filled_def by auto

lemma filled_take:
  assumes "filled rs0 w w' off (take m b) k" "k \<le> m" "m \<le> length b"
  shows "filled rs0 w w' off b k"
proof -
  have "take m b ! nat (p - off) = b ! nat (p - off)" if "p \<in> {off ..< off + int k}" for p
    using that assms(2) by (auto intro!: nth_take)
  then show ?thesis using assms(1) unfolding filled_def by metis
qed

text \<open>What the loop of \<open>WriteAtNoOverwrite\<close> has done when it stops after \<open>k\<close> bytes.\<close>

lemma card_tiles: "card (S \<inter> {a ..< a + int (j + k)}) =
    card (S \<inter> {a ..< a + int j}) + card (S \<inter> {a + int j ..< a + int j + int k})"
proof -
  have "S \<inter> {a ..< a + int (j + k)} = (S \<inter> {a ..< a + int j}) \<union> (S \<inter> {a + int j ..< a + int j + int k})"
    by auto
  then show ?thesis by (simp add: card_Un_disjoint disjoint_iff)
qed

lemma no_overwrite_filled:
  assumes "no_overwrite frs b off n0 s0 w = ((n, skipped, err), w')"
    and "tiles rs0 (sint off) (sint off + int (length b)) frs"
    and "0 \<le> sint off" "sint off + int (length b) \<le> max_int64"
    and "wf_ranges (Rs (inf w))" "rset rs0 \<subseteq> rset (Rs (inf w))" "fd (it w) = Some ino"
  shows "\<exists>k \<le> length b. filled rs0 w w' (sint off) b k \<and> n = n0 + k \<and> (err = None \<longrightarrow> k = length b)
    \<and> ((\<forall>j. fault (fs w) j = None) \<longrightarrow> err = None)
    \<and> skipped = s0 + card (rset rs0 \<inter> {sint off ..< sint off + int k})"
  using assms
proof (induction frs arbitrary: b off n0 s0 w)
  case Nil
  then show ?case by (auto intro: filled_refl)
next
  case (Cons fr frs)
  obtain r p where fr: "fr = (r, p)" by (cases fr)
  note 2 = Cons.IH Cons.prems [unfolded fr]
  define sz where "sz = nat (sint (Size r))"
  from 2(3) have t: "lo r = sint off" "ok_range r" "hi r \<le> sint off + int (length b)"
    "if p then rbytes r \<subseteq> rset rs0 else rbytes r \<inter> rset rs0 = {}"
    "tiles rs0 (hi r) (sint off + int (length b)) frs" by simp_all
  have pos: "Pos r = off" using t(1) by (simp add: lo_def sint_inj64)
  have sz: "sint (Size r) = int sz" "hi r = sint off + int sz" "sz \<le> length b" "0 < sz"
    using t(1-3) by (simp_all add: sz_def ok_range_def lo_def hi_def)
  have rb: "rbytes r = {sint off ..< sint off + int sz}" using t(1) sz(2) by (simp add: rbytes_def)
  have adv: "sint (off + word_of_nat j) = sint off + int j" if "j \<le> length b" for j
  proof -
    have "sint (word_of_nat j :: int64) = int j"
      using that 2(4,5) by (intro sint_of_nat64 fits64I) linarith+
    then show ?thesis using that 2(4,5) by (subst sint_add64) (auto intro!: fits64I)
  qed
  have tl: "tiles rs0 (sint (off + word_of_nat sz)) (sint (off + word_of_nat sz) + int (length (drop sz b))) frs"
    using t(5) sz(2,3) adv [OF sz(3)] by (simp add: of_nat_diff)
  have off': "0 \<le> sint (off + word_of_nat sz)"
    "sint (off + word_of_nat sz) + int (length (drop sz b)) \<le> max_int64"
    using 2(4,5) sz(3) adv [OF sz(3)] by (simp_all add: of_nat_diff)
  show ?case
  proof (cases p)
    case True
    have c: "card (rset rs0 \<inter> {sint off ..< sint off + int sz}) = sz"
      using t(4) True rb by (simp add: Int_absorb1)
    have "no_overwrite frs (drop sz b) (off + word_of_nat sz) (n0 + sz) (s0 + sz) w = ((n, skipped, err), w')"
      using 2(2) True pos by (simp add: sz_def Let_def)
    from 2(1) [OF this tl off' 2(6-8)]
    obtain k where k: "k \<le> length (drop sz b)" "filled rs0 w w' (sint off + int sz) (drop sz b) k"
      "n = n0 + sz + k" "err = None \<longrightarrow> k = length (drop sz b)"
      "(\<forall>j. fault (fs w) j = None) \<longrightarrow> err = None"
      "skipped = s0 + sz + card (rset rs0 \<inter> {sint off + int sz ..< sint off + int sz + int k})"
      unfolding adv [OF sz(3)] by blast
    have "filled rs0 w w (sint off) b sz"
      using filled_skip [OF 2(6,7)] t(4) True rb by simp
    from filled_step [OF this k(2)] k(1) sz(3) 2(4) have "filled rs0 w w' (sint off) b (sz + k)" by simp
    moreover have "skipped = s0 + card (rset rs0 \<inter> {sint off ..< sint off + int (sz + k)})"
      unfolding card_tiles c k(6) by simp
    ultimately show ?thesis
      using k(1,3-5) sz(3) by (intro exI [of _ "sz + k"] conjI impI) simp_all
  next
    case False
    obtain nn err0 w1 where W: "file_WriteAt (take sz b) off w = ((nn, err0), w1)" by (metis prod_cases3 surj_pair)
    define e1 where "e1 = (if err0 = None \<and> nn \<noteq> sz then Some (Other ''downloader: short write'') else err0)"
    define w2 where "w2 = written off (word_of_nat nn) w1"
    have lt: "sint off + int (length (take sz b)) \<le> max_int64" using 2(5) by simp
    note s = file_WriteAt_spec [OF W 2(8) 2(4) lt]
    have nn: "nn \<le> sz" "err0 = None \<Longrightarrow> nn = sz" using s(1,2) sz(3) by auto
    have e1: "e1 = err0" using nn(2) by (cases err0) (simp_all add: e1_def)
    have dis: "{sint off ..< sint off + int (length (take sz b))} \<inter> rset rs0 = {}"
      using t(4) False rb sz(3) by (simp add: min_absorb2)
    have c: "card (rset rs0 \<inter> {sint off ..< sint off + int nn}) = 0"
    proof -
      have "rset rs0 \<inter> {sint off ..< sint off + int nn} \<subseteq> rset rs0 \<inter> rbytes r"
        unfolding rb using nn(1) by (intro Int_mono order_refl) simp
      also have "\<dots> = {}" using t(4) False by (simp add: Int_commute)
      finally show ?thesis by simp
    qed
    have f: "filled rs0 w w2 (sint off) b nn"
      using written_filled [OF W 2(8,6,4) lt dis] filled_take nn(1) sz(3) unfolding w2_def by blast
    have rest: "(if e1 \<noteq> None then ((n0 + nn, s0, e1), w2)
        else no_overwrite frs (drop nn b) (off + word_of_nat nn) (n0 + nn) s0 w2) = ((n, skipped, err), w')"
      using 2(2) False pos W unfolding e1_def w2_def sz_def by (simp add: Let_def fr)
    show ?thesis
    proof (cases "err0 = None")
      case None: False
      then have "w' = w2" "n = n0 + nn" "skipped = s0" "err = err0" using rest e1 by simp_all
      moreover have "(\<forall>j. fault (fs w) j = None) \<longrightarrow> err0 = None" using s(5) by blast
      ultimately show ?thesis
        using f nn(1) sz(3) None c by (intro exI [of _ nn] conjI impI) (simp_all del: split_paired_All)
    next
      case ok: True
      then have j: "nn = sz" using nn(2) by simp
      have "no_overwrite frs (drop nn b) (off + word_of_nat nn) (n0 + nn) s0 w2 = ((n, skipped, err), w')"
        using rest e1 ok by simp
      moreover have "wf_ranges (Rs (inf w2))" "rset rs0 \<subseteq> rset (Rs (inf w2))" "fd (it w2) = Some ino"
        "fault (fs w2) = fault (fs w)"
        using f 2(7,8) s(3,4) by (auto simp: filled_def w2_def)
      ultimately obtain k where k: "k \<le> length (drop sz b)" "filled rs0 w2 w' (sint off + int sz) (drop sz b) k"
        "n = n0 + sz + k" "err = None \<longrightarrow> k = length (drop sz b)"
        "(\<forall>j. fault (fs w) j = None) \<longrightarrow> err = None"
        "skipped = s0 + card (rset rs0 \<inter> {sint off + int sz ..< sint off + int sz + int k})"
        using 2(1) [OF _ tl off'] unfolding j adv [OF sz(3)] by metis
      from filled_step [OF f [unfolded j] k(2)] k(1) sz(3) 2(4) have "filled rs0 w w' (sint off) b (sz + k)" by simp
      moreover have "skipped = s0 + card (rset rs0 \<inter> {sint off ..< sint off + int (sz + k)})"
        unfolding card_tiles c [unfolded j] k(6) by simp
      ultimately show ?thesis
        using k(1,3-5) sz(3) by (intro exI [of _ "sz + k"] conjI impI) simp_all
    qed
  qed
qed

lemma WriteAtNoOverwrite_filled:
  assumes "WriteAtNoOverwrite b off w = ((n, skipped, err), w')" "fd (it w) = Some ino"
    and "wf_ranges (Rs (inf w))" "0 \<le> sint off" "sint off + int (length b) \<le> max_int64"
  shows "n \<le> length b \<and> (err = None \<longrightarrow> n = length b) \<and> ((\<forall>j. fault (fs w) j = None) \<longrightarrow> err = None)
    \<and> skipped = card (rset (Rs (inf w)) \<inter> {sint off ..< sint off + int n})
    \<and> filled (Rs (inf w)) w w' (sint off) b n"
proof -
  have n: "sint (word_of_nat (length b) :: int64) = int (length b)"
    using assms(4,5) by (intro sint_of_nat64 fits64I) linarith+
  let ?r = "rg off (word_of_nat (length b))"
  have r: "file_range ?r" "lo ?r = sint off" "hi ?r = sint off + int (length b)"
    using assms(4,5) n by (simp_all add: file_range_def lo_def hi_def)
  have "tiles (Rs (inf w)) (sint off) (sint off + int (length b)) (FindAll (Rs (inf w)) ?r)"
    using FindAll_tiles [OF assms(3) r(1)] r(2,3) by simp
  from no_overwrite_filled [OF assms(1) [unfolded WriteAtNoOverwrite_def] this assms(4,5,3) subset_refl assms(2)]
  show ?thesis by auto
qed

text \<open>C3: a downloader's write never overwrites what the cache file already has: the
  first \<open>n\<close> bytes of \<open>b\<close> are stored exactly where no byte was present, every present byte of the file
  keeps its value, the present bytes afterwards are exactly the old ones and the \<open>n\<close> written ones,
  \<open>skipped\<close> counts the bytes that were present, no other field of the item changes, and \<open>n\<close> is all
  of \<open>b\<close> unless a system call fails.\<close>

theorem WriteAtNoOverwrite_safe:
  assumes "WriteAtNoOverwrite b off w = ((n, skipped, err), w')" "fd (it w) = Some ino"
    and "wf_ranges (Rs (inf w))" "0 \<le> sint off" "sint off + int (length b) \<le> max_int64"
  shows "n \<le> length b \<and> (err = None \<longrightarrow> n = length b) \<and> ((\<forall>j. fault (fs w) j = None) \<longrightarrow> err = None)
    \<and> skipped = card (rset (Rs (inf w)) \<inter> {sint off ..< sint off + int n})
    \<and> filled (Rs (inf w)) w w' (sint off) b n"
  using assms by (rule WriteAtNoOverwrite_filled)

text \<open>A cache file of five zeros of which bytes 1 and 2 are present, and no system call fails.\<close>

definition sample_fs :: Fs where
  "sample_fs = \<lparr>files = [''a'' \<mapsto> 0], metas = Map.empty, inodes = (\<lambda>_. [0, 7, 8, 0, 0]), mtimes = (\<lambda>_. 0),
     next_ino = 1, fault = (\<lambda>_. None), calls = 0\<rparr>"

definition sample :: world where
  "sample = \<lparr>it = (fresh_Item ''a'' 0)\<lparr>opens := 1, fd := Some 0,
       info := (Info_clean 0)\<lparr>InfoSize := 5, Rs := [rg 1 2]\<rparr>\<rparr>,
     fs = sample_fs, now = 0, wb_items = Map.empty, wb_last = 0, o_WriteBack = 5, o_HandleCaching = 0\<rparr>"

lemmas item_eval = sample_def sample_fs_def fresh_Item_def Info_clean_def zero_Info_def sys_def call_def
  upd_it_def upd_info_def

lemma WriteAtNoOverwrite_safe_witness:
  "\<exists>w'. WriteAtNoOverwrite [1, 2, 3, 4] 0 sample = ((4, 2, None), w')
     \<and> (file_data w' ! 0 = 1 \<and> file_data w' ! 1 = 7 \<and> file_data w' ! 2 = 8 \<and> file_data w' ! 3 = 4)
     \<and> filled [rg 1 2] sample w' 0 [1, 2, 3, 4] 4"
proof -
  obtain n skipped err w' where W: "WriteAtNoOverwrite [1, 2, 3, 4] 0 sample = ((n, skipped, err), w')"
    by (metis prod_cases3 surj_pair)
  have s: "Rs (inf sample) = [rg 1 2]" "\<forall>j. fault (fs sample) j = None" "fd (it sample) = Some 0"
    by (simp_all add: item_eval)
  have c: "rset [rg 1 2] \<inter> {0 ..< 4} = {1, 2}" by (auto simp: range_eval)
  have "n = 4 \<and> err = None" "skipped = card (rset [rg 1 2] \<inter> {0 ..< int n})"
    "filled [rg 1 2] sample w' 0 [1, 2, 3, 4] n"
    using WriteAtNoOverwrite_safe [OF W s(3)] s by (auto simp: range_eval)
  then have "n = 4 \<and> skipped = 2 \<and> err = None \<and> filled [rg 1 2] sample w' 0 [1, 2, 3, 4] 4"
    using c by simp
  moreover have "file_data w' ! 0 = 1 \<and> file_data w' ! 1 = 7 \<and> file_data w' ! 2 = 8 \<and> file_data w' ! 3 = 4"
  proof -
    have d: "file_data sample = [0, 7, 8, 0, 0]" by (simp add: file_data_def item_eval)
    have r: "p \<in> rset [rg 1 2] \<longleftrightarrow> p = 1 \<or> p = 2" for p by (auto simp: range_eval)
    have "\<forall>p. 0 \<le> p \<longrightarrow> p < 5 \<longrightarrow> p = 1 \<or> p = 2 \<longrightarrow> file_data w' ! nat p = [0, 7, 8, 0, 0] ! nat p"
      "\<forall>p. 0 \<le> p \<longrightarrow> p < 4 \<longrightarrow> p \<noteq> 1 \<longrightarrow> p \<noteq> 2 \<longrightarrow> file_data w' ! nat p = [1, 2, 3, 4] ! nat p"
      using calculation unfolding filled_def r d by auto
    from this(1) [rule_format, of 1] this(1) [rule_format, of 2] this(2) [rule_format, of 0] this(2) [rule_format, of 3]
    show ?thesis by simp
  qed
  ultimately show ?thesis using W by blast
qed

end
