(* ===== verification/ItemRead.thy ===== *)
theory ItemRead
  imports ItemData
begin

text \<open>
  \<open>Item.ReadAt\<close> over an interface: whatever the downloaders and the cleaner do while the item's lock is
  released, a read returns the bytes of the file's content \<open>C\<close> as long as they keep the contract of the
  locale \<open>item_env\<close>. Theory \<open>Downloaders\<close> interprets the locale on the model of
  \<open>internal/cache/downloaders\<close>.
\<close>

section \<open>A cache file that agrees with a content\<close>

text \<open>
  \<open>mirrors C w\<close>: every byte the ranges call present is stored in the cache file and is the byte of \<open>C\<close>.
  \<open>readable\<close> adds what an open item satisfies between operations (and that no system call's error is
  \<open>io.EOF\<close>).
\<close>

definition mirrors :: "byte list \<Rightarrow> world \<Rightarrow> bool" where
  "mirrors C w \<longleftrightarrow>
     wf_ranges (Rs (inf w)) \<and> length (file_data w) \<le> length C
     \<and> (\<forall>p \<in> rset (Rs (inf w)). nat p < length (file_data w) \<and> file_data w ! nat p = C ! nat p)"

definition readable :: "byte list \<Rightarrow> world \<Rightarrow> bool" where
  "readable C w \<longleftrightarrow>
     mirrors C w \<and> fd (it w) \<noteq> None \<and> sint (InfoSize (inf w)) = int (length C)
     \<and> (case i_o (it w) of Some ob \<Rightarrow> Dirty (inf w) \<or> ro_Size ob = InfoSize (inf w) | None \<Rightarrow> True)
     \<and> (\<forall>j k. fault (fs w) j \<noteq> Some (EOF, k))"

text \<open>Two worlds that agree on everything a read depends on.\<close>

definition same_item :: "world \<Rightarrow> world \<Rightarrow> bool" where
  "same_item w w' \<longleftrightarrow>
     file_data w' = file_data w \<and> Rs (inf w') = Rs (inf w) \<and> fd (it w') = fd (it w)
     \<and> i_o (it w') = i_o (it w) \<and> InfoSize (inf w') = InfoSize (inf w) \<and> Dirty (inf w') = Dirty (inf w)
     \<and> fault (fs w') = fault (fs w)"

lemma mirrors_same: "same_item w w' \<Longrightarrow> mirrors C w \<Longrightarrow> mirrors C w'"
  by (simp add: mirrors_def same_item_def)

lemma readable_same: "same_item w w' \<Longrightarrow> readable C w \<Longrightarrow> readable C w'"
  unfolding readable_def using mirrors_same by (auto simp: same_item_def split: option.splits)

lemma same_bookkeeping [simp]:
  "same_item w (upd_it (\<lambda>i. i\<lparr>pendingAccesses := f i\<rparr>) w)"
  "same_item w (upd_it (\<lambda>i. i\<lparr>downloaders := b\<rparr>) w)"
  "same_item w (upd_info (\<lambda>i. i\<lparr>ATime := t\<rparr>) w)"
  "same_item w (w\<lparr>now := t\<rparr>)"
  by (auto simp: same_item_def file_data_def split: option.split)

lemmas readable_bookkeeping = readable_same [OF same_bookkeeping(1)] readable_same [OF same_bookkeeping(2)]
  readable_same [OF same_bookkeeping(3)] readable_same [OF same_bookkeeping(4)]

lemma fs_ReadAt_spec:
  assumes "fs_ReadAt ino n off f = ((b, err), f')" "0 \<le> sint off" "\<And>j k. fault f j \<noteq> Some (EOF, k)"
  shows "inodes f' = inodes f" "fault f' = fault f"
    "err = None \<or> err = Some EOF \<Longrightarrow>
       b = take n (drop (nat (sint off)) (inodes f ino)) \<and> (err = None \<longleftrightarrow> length b = n)"
proof -
  have "\<not> off <s 0" using assms(2) by (simp add: i64)
  then have "inodes f' = inodes f \<and> fault f' = fault f \<and> (err = None \<or> err = Some EOF \<longrightarrow>
       b = take n (drop (nat (sint off)) (inodes f ino)) \<and> (err = None \<longleftrightarrow> length b = n))"
    using assms(1) assms(3) [of "calls f"]
    by (cases "fault f (calls f)") (auto simp: fs_ReadAt_def call_def Let_def split: if_splits)
  then show "inodes f' = inodes f" "fault f' = fault f"
    "err = None \<or> err = Some EOF \<Longrightarrow>
       b = take n (drop (nat (sint off)) (inodes f ino)) \<and> (err = None \<longleftrightarrow> length b = n)" by blast+
qed

text \<open>Reading a part of the cache file that is present up to the end of the content.\<close>

lemma file_ReadAt_spec:
  assumes "file_ReadAt n off w = ((b, err), w')" "readable C w" "0 \<le> sint off"
    and "{sint off ..< min (sint off + int n) (int (length C))} \<subseteq> rset (Rs (inf w))"
  shows "same_item w w'"
    "err = None \<or> err = Some EOF \<Longrightarrow>
       b = take n (drop (nat (sint off)) C) \<and> (err = None \<longleftrightarrow> length b = n)"
proof -
  obtain ino where ino: "fd (it w) = Some ino" using assms(2) by (auto simp: readable_def)
  then obtain f' where f: "fs_ReadAt ino n off (fs w) = ((b, err), f')" and w': "w' = w\<lparr>fs := f'\<rparr>"
    using assms(1) by (auto simp: file_ReadAt_def sys_def split: prod.splits)
  have d: "file_data w = inodes (fs w) ino" using ino by (simp add: file_data_def)
  have M: "length (file_data w) \<le> length C"
    "\<And>p. p \<in> rset (Rs (inf w)) \<Longrightarrow> nat p < length (file_data w) \<and> file_data w ! nat p = C ! nat p"
    and nf: "\<And>j k. fault (fs w) j \<noteq> Some (EOF, k)"
    using assms(2) by (auto simp: readable_def mirrors_def)
  note s = fs_ReadAt_spec [OF f assms(3) nf]
  show "same_item w w'" using s(1,2) w' ino by (simp add: same_item_def file_data_def)
  have P: "i < length (file_data w) \<and> file_data w ! i = C ! i"
    if "nat (sint off) \<le> i" "i < nat (sint off) + n" "i < length C" for i
  proof -
    have "int i \<in> {sint off ..< min (sint off + int n) (int (length C))}" using that assms(3) by auto
    then have "int i \<in> rset (Rs (inf w))" by (rule subsetD [OF assms(4)])
    from M(2) [OF this] show ?thesis by simp
  qed
  have "take n (drop (nat (sint off)) (file_data w)) = take n (drop (nat (sint off)) C)"
  proof (rule nth_equalityI)
    have "min n (length (file_data w) - nat (sint off)) = min n (length C - nat (sint off))"
    proof (rule ccontr)
      assume ne: "\<not> ?thesis"
      let ?i = "length (file_data w)"
      have "nat (sint off) \<le> max ?i (nat (sint off))" "max ?i (nat (sint off)) < nat (sint off) + n"
        "max ?i (nat (sint off)) < length C" "\<not> max ?i (nat (sint off)) < ?i"
        using ne M(1) by arith+
      then show False using P by blast
    qed
    then show "length (take n (drop (nat (sint off)) (file_data w))) = length (take n (drop (nat (sint off)) C))"
      by (simp add: min.commute)
  next
    fix i assume i: "i < length (take n (drop (nat (sint off)) (file_data w)))"
    then have q: "nat (sint off) + i < length (file_data w)" "i < n"
      unfolding length_take length_drop by linarith+
    then have "nat (sint off) \<le> length (file_data w)" "nat (sint off) \<le> length C" "nat (sint off) + i < length C"
      using M(1) by linarith+
    then show "take n (drop (nat (sint off)) (file_data w)) ! i = take n (drop (nat (sint off)) C) ! i"
      using P [of "nat (sint off) + i"] q by simp
  qed
  then show "b = take n (drop (nat (sint off)) C) \<and> (err = None \<longleftrightarrow> length b = n)"
    if "err = None \<or> err = Some EOF" using s(3) [OF that] by (simp add: d)
qed

section \<open>The contract of the environment\<close>

text \<open>The range \<open>ensure\<close> asks for: the request clipped to the size of the file.\<close>

definition clipped :: "int64 \<Rightarrow> int64 \<Rightarrow> world \<Rightarrow> Range" where
  "clipped off sz w = \<lparr>Pos = off, Size = (if InfoSize (inf w) <s off + sz then InfoSize (inf w) - off else sz)\<rparr>"

lemma clipped_spec:
  assumes "sint (InfoSize (inf w)) = int (length C)" "0 \<le> sint off" "0 \<le> sint sz" "sint off + sint sz \<le> max_int64"
    and "int (length C) \<le> max_int64"
  shows "file_range (clipped off sz w)" "hi (clipped off sz w) \<le> int (length C)"
    "rbytes (clipped off sz w) = {sint off ..< min (sint off + sint sz) (int (length C))}"
proof -
  have "sint (off + sz) = sint off + sint sz" using assms by (intro sint_add64) auto
  moreover have "sint (InfoSize (inf w) - off) = int (length C) - sint off"
    using assms by (subst sint_sub64) auto
  ultimately have "lo (clipped off sz w) = sint off"
    "hi (clipped off sz w) = min (sint off + sint sz) (int (length C))"
    using assms(1) by (simp_all add: clipped_def lo_def hi_def i64 min_def)
  then show "file_range (clipped off sz w)" "hi (clipped off sz w) \<le> int (length C)"
    "rbytes (clipped off sz w) = {sint off ..< min (sint off + sint sz) (int (length C))}"
    using assms by (simp_all add: file_range_def rbytes_def)
qed

text \<open>
  What a read relies on while the lock is released: a successful \<open>Download\<close> leaves the range present, a
  range that is present stays so while a downloader is looked for, and neither reports \<open>io.EOF\<close>. A run
  of the cleaner may reset the item and even leave it without a file.
\<close>

definition usable :: "byte list \<Rightarrow> world \<Rightarrow> bool" where
  "usable C w \<longleftrightarrow> readable C w \<or> fd (it w) = None"

locale item_env =
  fixes E :: env and C :: "byte list"
  assumes C_fits: "int (length C) \<le> max_int64"
    and download: "readable C w \<Longrightarrow> file_range r \<Longrightarrow> hi r \<le> int (length C) \<Longrightarrow> e_Download E r w = (err, w') \<Longrightarrow>
      readable C w' \<and> err \<noteq> Some EOF \<and> (err = None \<longrightarrow> rbytes r \<subseteq> rset (Rs (inf w')))"
    and ensure_downloader: "readable C w \<Longrightarrow> file_range r \<Longrightarrow> hi r \<le> int (length C) \<Longrightarrow>
      rbytes r \<subseteq> rset (Rs (inf w)) \<Longrightarrow> e_EnsureDownloader E r w = (err, w') \<Longrightarrow>
      readable C w' \<and> err \<noteq> Some EOF \<and> rbytes r \<subseteq> rset (Rs (inf w'))"
    and kick: "readable C w \<Longrightarrow> usable C (e_KickCleaner E w)"
      "fd (it w) = None \<Longrightarrow> usable C (e_KickCleaner E w)"
begin

lemma ensure_correct:
  assumes "ensure E off sz w = (err, w')" "readable C w" "0 \<le> sint off" "0 \<le> sint sz"
    and "sint off + sint sz \<le> max_int64"
  shows "readable C w' \<and> err \<noteq> Some EOF
    \<and> (err = None \<longrightarrow> {sint off ..< min (sint off + sint sz) (int (length C))} \<subseteq> rset (Rs (inf w')))"
proof -
  let ?r = "clipped off sz w"
  have I: "sint (InfoSize (inf w)) = int (length C)" "wf_ranges (Rs (inf w))"
    using assms(2) by (auto simp: readable_def mirrors_def)
  note r = clipped_spec [OF I(1) assms(3-5) C_fits]
  have e: "ensure E off sz w = (if Present (Rs (inf w)) ?r
         then if \<not> downloaders (it w) then (None, w) else e_EnsureDownloader E ?r w
         else if downloaders (it w) then e_Download E ?r w
         else if i_o (it w) = None
         then (Some (Other ''cache: no remote object available for download''), w)
         else e_Download E ?r (upd_it (\<lambda>i. i\<lparr>downloaders := True\<rparr>) w))"
    by (simp add: ensure_def clipped_def Let_def)
  have D: "readable C w1 \<Longrightarrow> e_Download E ?r w1 = (err, w') \<Longrightarrow> ?thesis" for w1
    using download [of w1 ?r err w'] r by auto
  show ?thesis
  proof (cases "Present (Rs (inf w)) ?r")
    case True
    then have p: "rbytes ?r \<subseteq> rset (Rs (inf w))" using Present_iff [OF I(2) r(1)] by simp
    then show ?thesis
      using assms(1,2) e True r ensure_downloader [OF assms(2) r(1,2) p, of err w'] by (auto split: if_splits)
  next
    case False
    then show ?thesis
      using assms(1,2) e D [of w] D [of "upd_it (\<lambda>i. i\<lparr>downloaders := True\<rparr>) w"]
        readable_bookkeeping(2) by (auto split: if_splits)
  qed
qed

text \<open>The answer of a read is right: the bytes of the content, cut at its end, which is reported.\<close>

definition right_bytes :: "nat \<Rightarrow> int64 \<Rightarrow> byte list \<Rightarrow> go_err option \<Rightarrow> bool" where
  "right_bytes n off b err \<longleftrightarrow> (err = None \<or> err = Some EOF \<longrightarrow>
     b = take n (drop (nat (sint off)) C) \<and> (err = None \<longleftrightarrow> length b = n))"

lemma readAt_correct:
  assumes "readAt E n off w = ((b, err), w')" "usable C w" "0 \<le> sint off" "sint off + int n \<le> max_int64"
  shows "usable C w' \<and> right_bytes n off b err"
proof (cases "fd (it w) = None")
  case True
  then show ?thesis using assms(1,2) by (auto simp: readAt_def no_fd_def right_bytes_def)
next
  case False
  then have R: "readable C w" using assms(2) unfolding usable_def by metis
  have n: "sint (word_of_nat n :: int64) = int n" using assms(3,4) by (intro sint_of_nat64 fits64I) linarith+
  have off: "\<not> off <s 0" using assms(3) by (simp add: i64)
  obtain e1 w1 where E: "ensure E off (word_of_nat n) w = (e1, w1)" by (cases "ensure E off (word_of_nat n) w")
  from ensure_correct [OF E R assms(3)] n assms(4)
  have c: "readable C w1" "e1 \<noteq> Some EOF"
    "e1 = None \<Longrightarrow> {sint off ..< min (sint off + int n) (int (length C))} \<subseteq> rset (Rs (inf w1))" by auto
  show ?thesis
  proof (cases e1)
    case (Some e)
    then show ?thesis using assms(1) False off E c by (auto simp: readAt_def usable_def right_bytes_def)
  next
    case None
    let ?w2 = "upd_info (\<lambda>i. i\<lparr>ATime := now w1\<rparr>) w1"
    have F: "file_ReadAt n off ?w2 = ((b, err), w')"
      using assms(1) False off E None c(1) by (auto simp: readAt_def readable_def split: option.splits)
    have R2: "readable C ?w2" using c(1) by (rule readable_bookkeeping)
    note s = file_ReadAt_spec [OF F R2 assms(3)]
    show ?thesis
      using s c(3) None readable_same R2 by (auto simp: usable_def right_bytes_def)
  qed
qed

lemma guarded_readAt:
  assumes "guarded (readAt E n off) w = Some ((b, err), w')" "usable C w" "0 \<le> sint off"
    and "sint off + int n \<le> max_int64"
  shows "usable C w' \<and> right_bytes n off b err"
proof -
  let ?w1 = "upd_it (\<lambda>i. i\<lparr>pendingAccesses := pendingAccesses i + 1\<rparr>) w"
  obtain w2 where r: "readAt E n off ?w1 = ((b, err), w2)"
    and w': "w' = upd_it (\<lambda>i. i\<lparr>pendingAccesses := pendingAccesses i - 1\<rparr>) w2"
    using assms(1) by (auto simp: guarded_def preAccess_def postAccess_def split: if_splits prod.splits)
  have "usable C ?w1" using assms(2) readable_bookkeeping(1) by (auto simp: usable_def)
  from readAt_correct [OF r this assms(3,4)] show ?thesis
    using readable_bookkeeping(1) by (auto simp: usable_def w')
qed

lemma ReadAt_loop_correct:
  assumes "ReadAt_loop E n off k m w = Some ((b, err), w')" "0 < m" "usable C w" "0 \<le> sint off"
    and "sint off + int n \<le> max_int64"
  shows "usable C w' \<and> right_bytes n off b err"
  using assms(1-3)
proof (induction m arbitrary: k w)
  case (Suc m)
  obtain b1 e1 w1 where g: "guarded (readAt E n off) w = Some ((b1, e1), w1)"
    using Suc.prems(1) by (auto split: option.splits)
  note c = guarded_readAt [OF g Suc.prems(3) assms(4,5)]
  show ?case
  proof (cases "e1 = None \<or> e1 = Some EOF \<or> gives_up (the e1)")
    case True
    then show ?thesis using Suc.prems(1) g c by (cases e1) auto
  next
    case False
    then obtain e where e: "e1 = Some e" "e \<noteq> EOF" "\<not> gives_up e" by (cases e1) simp_all
    let ?w2 = "e_KickCleaner E w1"
    let ?w3 = "?w2\<lparr>now := now ?w2 + 2 * 2 ^ k * 1000000\<rparr>"
    have "usable C ?w2" using c kick by (auto simp: usable_def [of C w1])
    then have u: "usable C ?w3" using readable_bookkeeping(4) by (auto simp: usable_def)
    show ?thesis
    proof (cases m)
      case 0
      then show ?thesis using Suc.prems(1) g e c u by (auto simp: right_bytes_def Let_def)
    next
      case m: (Suc m')
      then have "ReadAt_loop E n off (Suc k) m ?w3 = Some ((b, err), w')"
        using Suc.prems(1) g e by (simp add: Let_def)
      from Suc.IH [OF this _ u] m show ?thesis by simp
    qed
  qed
qed simp

lemma ReadAt_correct:
  assumes "ReadAt E n off w = Some ((b, err), w')" "usable C w" "0 \<le> sint off" "sint off + int n \<le> max_int64"
  shows "usable C w' \<and> right_bytes n off b err"
  using ReadAt_loop_correct [OF assms(1) [unfolded ReadAt_def] _ assms(2-4)] by simp

end

end
