(* ===== verification/ItemWrite.thy ===== *)
theory ItemWrite
  imports ItemRead
begin

text \<open>
  \<open>Item.WriteAt\<close> and \<open>Item.Truncate\<close> refine writing to and resizing the content the item stands for,
  with the two cases in which they do not: a write of no bytes behind the end of the file, and a
  truncation that extends a file of which not all bytes are present.
\<close>

section \<open>What the helpers leave alone\<close>

lemma call_fs [simp]:
  "inodes (snd (call f)) = inodes f" "fault (snd (call f)) = fault f" "files (snd (call f)) = files f"
  "metas (snd (call f)) = metas f" "next_ino (snd (call f)) = next_ino f"
  by (simp_all add: call_def)

lemma fs_save_meta_fs [simp]:
  "inodes (snd (fs_save_meta name i f)) = inodes f" "fault (snd (fs_save_meta name i f)) = fault f"
  "files (snd (fs_save_meta name i f)) = files f"
  by (auto simp: fs_save_meta_def call_def split: option.splits)

lemma sys_fields [simp]: "it (snd (sys f w)) = it w" "now (snd (sys f w)) = now w" "fs (snd (sys f w)) = snd (f (fs w))"
  by (simp_all add: sys_def split_beta)

lemma save_fields [simp]:
  "it (snd (save w)) = it w" "inodes (fs (snd (save w))) = inodes (fs w)" "fault (fs (snd (save w))) = fault (fs w)"
  "files (fs (snd (save w))) = files (fs w)" "now (snd (save w)) = now w"
  by (simp_all add: save_def split_beta)

lemma wb_Remove_fields [simp]: "it (snd (wb_Remove w)) = it w" "fs (snd (wb_Remove w)) = fs w"
  "now (snd (wb_Remove w)) = now w"
  by (simp_all add: wb_Remove_def Let_def)

text \<open>\<open>dirty\<close> marks the item and leaves the data alone.\<close>

lemma dirty_fields [simp]:
  "Dirty (inf (dirty w))" "Rs (inf (dirty w)) = Rs (inf w)" "InfoSize (inf (dirty w)) = InfoSize (inf w)"
  "fd (it (dirty w)) = fd (it w)" "i_o (it (dirty w)) = i_o (it w)" "inodes (fs (dirty w)) = inodes (fs w)"
  "fault (fs (dirty w)) = fault (fs w)"
  "opens (it (dirty w)) = opens (it w)" "pendingAccesses (it (dirty w)) = pendingAccesses (it w)"
  by (simp_all add: dirty_def Let_def)

lemma file_data_dirty [simp]: "file_data (dirty w) = file_data w"
  by (rule file_data_eq) simp_all

section \<open>WriteAt\<close>

lemma mirrors_overwrite:
  assumes M: "mirrors C w" and off: "0 \<le> off" and sz: "length (file_data w) \<le> length C"
    and d: "file_data w' = overwrite (file_data w) (nat off) b" "b \<noteq> []"
    and r: "wf_ranges (Rs (inf w'))"
      "rset (Rs (inf w')) \<subseteq> rset (Rs (inf w)) \<union> {off ..< off + int (length b)} \<union> {int (length C) ..< off}"
  shows "mirrors (overwrite C (nat off) b) w'"
proof -
  have l: "length (file_data w') = max (length (file_data w)) (nat off + length b)"
    "length (overwrite C (nat off) b) = max (length C) (nat off + length b)"
    using d by (simp_all add: length_overwrite)
  have "nat p < length (file_data w') \<and> file_data w' ! nat p = overwrite C (nat off) b ! nat p"
    if p: "p \<in> rset (Rs (inf w'))" for p
  proof -
    have p0: "0 \<le> p" using rset_bounds [OF r(1) p] by simp
    consider "p \<in> rset (Rs (inf w))" | "off \<le> p" "p < off + int (length b)" | "int (length C) \<le> p" "p < off"
      using p r(2) by auto
    then show ?thesis
    proof cases
      case 1
      then have q: "nat p < length (file_data w)" "file_data w ! nat p = C ! nat p"
        using M by (auto simp: mirrors_def)
      then have "nat p < length (file_data w')" "nat p < length (overwrite C (nat off) b)"
        using l sz by auto
      then show ?thesis using q sz by (simp add: d(1) nth_overwrite)
    next
      case 2
      then have q: "nat off \<le> nat p" "nat p < nat off + length b" using off by linarith+
      then have "nat p < length (file_data w')" "nat p < length (overwrite C (nat off) b)"
        unfolding l less_max_iff_disj by blast+
      then show ?thesis using q by (simp add: d(1) nth_overwrite)
    next
      case 3
      then have q: "length C \<le> nat p" "nat p < nat off" using p0 by linarith+
      then have "nat p < length (file_data w')" "nat p < length (overwrite C (nat off) b)" using l by auto
      then show ?thesis using q sz by (simp add: d(1) nth_overwrite)
    qed
  qed
  then show ?thesis using r(1) l sz by (auto simp: mirrors_def max_def)
qed

text \<open>What \<open>writeAt\<close> makes of the ranges and the size when at least one byte has been stored.\<close>

lemma writeAt_spec:
  assumes W: "writeAt b off w = ((n, err), w')" and fd: "fd (it w) = Some ino"
    and wf: "wf_ranges (Rs (inf w))" and off: "0 \<le> sint off" "sint off + int (length b) \<le> max_int64"
    and sz: "0 \<le> sint (InfoSize (inf w))" and n: "0 < n"
  shows "n \<le> length b" "err = None \<Longrightarrow> n = length b"
    "(\<And>k. fault (fs w) k = None) \<Longrightarrow> err = None"
    "fd (it w') = fd (it w)" "i_o (it w') = i_o (it w)" "fault (fs w') = fault (fs w)" "Dirty (inf w')"
    "file_data w' = overwrite (file_data w) (nat (sint off)) (take n b)"
    "wf_ranges (Rs (inf w'))"
    "rset (Rs (inf w')) = rset (Rs (inf w)) \<union> {sint off ..< sint off + int n}
       \<union> {sint (InfoSize (inf w)) ..< sint off}"
    "sint (InfoSize (inf w')) = max (sint (InfoSize (inf w))) (sint off + int n)"
proof -
  obtain nn err0 w1 where F: "file_WriteAt b off w = ((nn, err0), w1)" by (metis prod_cases3 surj_pair)
  note s = file_WriteAt_spec [OF F fd off]
  define w2 where "w2 = written off (word_of_nat nn) w1"
  define w3 where "w3 = (if 0 < nn then dirty w2 else w2)"
  define w4 where "w4 = (if InfoSize (inf w3) <s off
                    then dirty (written (InfoSize (inf w3)) (off - InfoSize (inf w3)) w3) else w3)"
  define e where "e = off + word_of_nat nn"
  have "writeAt b off w =
      ((nn, if err0 = None \<and> nn \<noteq> length b then Some (Other ''short write'') else err0),
       if InfoSize (inf w4) <s e then upd_info (\<lambda>i. i\<lparr>InfoSize := e\<rparr>) w4 else w4)"
    unfolding w4_def w3_def w2_def e_def using fd F by (simp add: writeAt_def write_mark_def Let_def)
  then have ww: "n = nn" "err = (if err0 = None \<and> nn \<noteq> length b then Some (Other ''short write'') else err0)"
    "w' = (if InfoSize (inf w4) <s e then upd_info (\<lambda>i. i\<lparr>InfoSize := e\<rparr>) w4 else w4)"
    using W by simp_all
  have nn: "sint (word_of_nat nn :: int64) = int nn"
    using s(1) off by (intro sint_of_nat64 fits64I) linarith+
  have e: "sint e = sint off + int nn"
    unfolding e_def using nn s(1) off by (subst sint_add64) (auto intro!: fits64I)
  have r: "rbytes (rg off (word_of_nat nn)) = {sint off ..< sint off + int nn}"
    "file_range (rg off (word_of_nat nn))"
    using s(1) off nn by (simp_all add: rbytes_def file_range_def lo_def hi_def)
  have "wf_ranges (Rs (inf w1))" using wf s(3) by simp
  note ins = Insert_spec [OF this r(2)]
  have w3: "w3 = dirty w2" using n ww(1) by (simp add: w3_def)
  have R3: "wf_ranges (Rs (inf w3))" "rset (Rs (inf w3)) = rset (Rs (inf w)) \<union> {sint off ..< sint off + int nn}"
    using ins r(1) s(3) by (simp_all add: w3 w2_def)
  have I3: "InfoSize (inf w3) = InfoSize (inf w)" "file_data w3 = file_data w1"
    "fd (it w3) = fd (it w)" "i_o (it w3) = i_o (it w)" "fault (fs w3) = fault (fs w)" "Dirty (inf w3)"
    using s(3,4) by (simp_all add: w3 w2_def)
  have "sint (off - InfoSize (inf w)) = sint off - sint (InfoSize (inf w))" if "sint (InfoSize (inf w)) < sint off"
    using that sz off sint_range64 by (intro sint_sub64 fits64I) linarith+
  then have r4: "rbytes (rg (InfoSize (inf w)) (off - InfoSize (inf w))) = {sint (InfoSize (inf w)) ..< sint off}"
    "file_range (rg (InfoSize (inf w)) (off - InfoSize (inf w)))" if "sint (InfoSize (inf w)) < sint off"
    using that sz off by (simp_all add: rbytes_def file_range_def lo_def hi_def)
  note ins4 = Insert_spec [OF R3(1) r4(2)]
  have R4: "wf_ranges (Rs (inf w4)) \<and> rset (Rs (inf w4)) = rset (Rs (inf w)) \<union> {sint off ..< sint off + int nn}
       \<union> {sint (InfoSize (inf w)) ..< sint off}"
    using R3 ins4 r4(1) by (cases "sint (InfoSize (inf w)) < sint off") (simp_all add: w4_def i64 I3)
  have I4: "InfoSize (inf w4) = InfoSize (inf w)" "file_data w4 = file_data w1"
    "fd (it w4) = fd (it w)" "i_o (it w4) = i_o (it w)" "fault (fs w4) = fault (fs w)" "Dirty (inf w4)"
    using I3 by (simp_all add: w4_def)
  show "n \<le> length b" "err = None \<Longrightarrow> n = length b" using s(1,2) ww(1,2) by (auto split: if_splits)
  show "err = None" if "\<And>k. fault (fs w) k = None" using s(2,5,6) that ww(2) by auto
  have fdw: "file_data (upd_info (\<lambda>i. i\<lparr>InfoSize := e\<rparr>) w4) = file_data w4" by (rule file_data_eq) simp_all
  show "fd (it w') = fd (it w)" "i_o (it w') = i_o (it w)" "fault (fs w') = fault (fs w)" "Dirty (inf w')"
    using I4 by (simp_all add: ww(3))
  show "file_data w' = overwrite (file_data w) (nat (sint off)) (take n b)"
    using I4 s(6) ww(1) fdw by (simp add: ww(3))
  show "wf_ranges (Rs (inf w'))" "rset (Rs (inf w')) = rset (Rs (inf w)) \<union> {sint off ..< sint off + int n}
       \<union> {sint (InfoSize (inf w)) ..< sint off}"
    using R4 ww(1) by (simp_all add: ww(3))
  show "sint (InfoSize (inf w')) = max (sint (InfoSize (inf w))) (sint off + int n)"
    using I4 e ww(1) by (auto simp: ww(3) i64 max_def)
qed

text \<open>\<open>guarded\<close> only moves the counter of pending accesses.\<close>

lemma guardedD:
  assumes "guarded f w = Some (r, w')"
  obtains w1 w2 where "\<not> beingReset (it w)" "f w1 = (r, w2)"
    "w1 = upd_it (\<lambda>i. i\<lparr>pendingAccesses := pendingAccesses i + 1\<rparr>) w" "w' = postAccess w2"
    "same_item w w1" "same_item w2 w'" "mirrors C w \<longleftrightarrow> mirrors C w1" "mirrors C w2 \<longleftrightarrow> mirrors C w'"
proof -
  let ?w1 = "upd_it (\<lambda>i. i\<lparr>pendingAccesses := pendingAccesses i + 1\<rparr>) w"
  obtain w2 where f: "f ?w1 = (r, w2)" "w' = postAccess w2" "\<not> beingReset (it w)"
    using assms by (auto simp: guarded_def preAccess_def split: if_splits prod.splits)
  have s: "same_item w ?w1" "same_item w2 w'" using f(2) by (simp_all add: postAccess_def)
  then have "same_item ?w1 w" "same_item w' w2" by (auto simp: same_item_def)
  then show ?thesis using that [OF f(3,1) refl f(2) s] s mirrors_same by blast
qed

text \<open>C18: a client's write of at least one byte refines overwriting the content \<open>C\<close> the item
  stands for, filling up a gap behind its end with zeros: afterwards the item mirrors the new content,
  has its size, has exactly the old ranges, the written bytes and the gap, and is dirty; all bytes are
  written unless a system call fails.\<close>

theorem WriteAt_refines:
  assumes "WriteAt b off w = Some ((n, err), w')" "mirrors C w" "fd (it w) = Some ino"
    and "sint (InfoSize (inf w)) = int (length C)" "0 \<le> sint off" "sint off + int (length b) \<le> max_int64" "0 < n"
  shows "n \<le> length b \<and> (err = None \<longrightarrow> n = length b) \<and> ((\<forall>j. fault (fs w) j = None) \<longrightarrow> err = None)
    \<and> mirrors (overwrite C (nat (sint off)) (take n b)) w'
    \<and> sint (InfoSize (inf w')) = int (length (overwrite C (nat (sint off)) (take n b)))
    \<and> rset (Rs (inf w')) = rset (Rs (inf w)) \<union> {sint off ..< sint off + int n} \<union> {int (length C) ..< sint off}
    \<and> Dirty (inf w')"
proof -
  obtain w1 w2 where g: "writeAt b off w1 = ((n, err), w2)" "same_item w w1" "same_item w2 w'"
    "mirrors C w \<longleftrightarrow> mirrors C w1"
    using assms(1) unfolding WriteAt_def by (rule guardedD)
  have W: "fd (it w1) = Some ino" "sint (InfoSize (inf w1)) = int (length C)" "mirrors C w1" "wf_ranges (Rs (inf w1))"
    "length (file_data w1) \<le> length C"
    using g(2,4) assms(2-4) by (simp_all add: same_item_def mirrors_def)
  have z: "0 \<le> sint (InfoSize (inf w1))" using W(2) by simp
  note s = writeAt_spec [OF g(1) W(1,4) assms(5,6) z assms(7)]
  have t: "take n b \<noteq> []" "length (take n b) = n" using s(1) assms(7) by auto
  have M: "mirrors (overwrite C (nat (sint off)) (take n b)) w2"
    by (rule mirrors_overwrite [OF W(3) assms(5) W(5) s(8) t(1) s(9)]) (simp add: s(1,10) W(2) min_absorb2)
  then have "mirrors (overwrite C (nat (sint off)) (take n b)) w'" using mirrors_same g(3) by blast
  moreover have "sint (InfoSize (inf w2)) = int (length (overwrite C (nat (sint off)) (take n b)))"
    using s(11) W(2) t assms(5) by (simp add: length_overwrite)
  ultimately show ?thesis
    using s(1-3,7,10) g(2,3) W(2) by (simp add: same_item_def)
qed

lemma WriteAt_refines_witness:
  "\<exists>w'. WriteAt [1, 2] 6 sample = Some ((2, None), w') \<and> mirrors [9, 7, 8, 9, 9, 0, 1, 2] w'
     \<and> rset (Rs (inf w')) = {1, 2, 5, 6, 7} \<and> InfoSize (inf w') = 8"
proof -
  have w: "beingReset (it sample) = False" "fd (it sample) = Some 0" "InfoSize (inf sample) = 5"
    "Rs (inf sample) = [rg 1 2]" "fs sample = sample_fs" "file_data sample = [0, 7, 8, 0, 0]"
    by (simp_all add: item_eval file_data_def)
  have "\<exists>w'. WriteAt [1, 2] 6 sample = Some ((2, None), w')"
    using w by (simp add: WriteAt_def guarded_def preAccess_def writeAt_def write_mark_def file_WriteAt_def fs_WriteAt_def
      call_def sys_def Let_def upd_it_def sample_fs_def i64)
  then obtain w' where W: "WriteAt [1, 2] 6 sample = Some ((2, None), w')" by blast
  have "rset [rg 1 2] = {1, 2}" "wf_ranges [rg 1 2]" by (auto simp: range_eval)
  then have M: "mirrors [9, 7, 8, 9, 9] sample" using w by (simp add: mirrors_def)
  have o: "overwrite [9, 7, 8, 9, 9] 6 [1, 2] = [9, 7, 8, 9, 9, 0, 1, 2]"
    by (simp add: overwrite_def resize_def)
  have r: "{sint (6::int64) ..< sint (6::int64) + int 2} = {6, 7}" "{int (length [9, 7, 8, 9, 9]) ..< sint (6::int64)} = {5}"
    "rset [rg 1 2] = {1, 2}"
    by (auto simp: range_eval)
  show ?thesis
    using WriteAt_refines [OF W M w(2)] W w(3,4) o r by (auto simp: sint_inj64)
qed

text \<open>a write that stores nothing behind the end of the file (an empty slice, or a
  write that fails at once) nevertheless marks the gap up to its offset as present and moves the size to
  that offset, while the cache file keeps its length.\<close>

theorem WriteAt_hole_not_stored:
  assumes "WriteAt b off w = Some ((0, err), w')" "fd (it w) = Some ino" "wf_ranges (Rs (inf w))"
    and "0 \<le> sint off" "sint off + int (length b) \<le> max_int64"
    and "0 \<le> sint (InfoSize (inf w))" "sint (InfoSize (inf w)) < sint off"
  shows "file_data w' = file_data w \<and> InfoSize (inf w') = off
    \<and> rset (Rs (inf w')) = rset (Rs (inf w)) \<union> {sint (InfoSize (inf w)) ..< sint off}"
proof -
  obtain w1 w2 where g: "writeAt b off w1 = ((0, err), w2)" "same_item w w1" "same_item w2 w'"
    using assms(1) unfolding WriteAt_def by (rule guardedD)
  have W: "fd (it w1) = Some ino" "wf_ranges (Rs (inf w1))" "InfoSize (inf w1) = InfoSize (inf w)"
    "Rs (inf w1) = Rs (inf w)" "file_data w1 = file_data w"
    using g(2) assms(2,3) by (simp_all add: same_item_def)
  obtain nn err0 w3 where F: "file_WriteAt b off w1 = ((nn, err0), w3)" by (metis prod_cases3 surj_pair)
  note s = file_WriteAt_spec [OF F W(1) assms(4,5)]
  let ?h = "rg (InfoSize (inf w)) (off - InfoSize (inf w))"
  have lt: "InfoSize (inf w) <s off" using assms(7) by (simp add: i64)
  have nn: "nn = 0" using g(1) F W(1) by (simp add: writeAt_def write_mark_def Let_def)
  then have w2: "w2 = upd_info (\<lambda>i. i\<lparr>InfoSize := off\<rparr>)
      (dirty (written (InfoSize (inf w)) (off - InfoSize (inf w)) (written off 0 w3)))"
    using g(1) F W(1,3) lt s(3) by (simp add: writeAt_def write_mark_def Let_def)
  have e: "rbytes (rg off 0) = {}" "file_range (rg off 0)"
    using assms(4,5) by (simp_all add: rbytes_def file_range_def lo_def hi_def)
  have "sint (off - InfoSize (inf w)) = sint off - sint (InfoSize (inf w))"
    using assms(5-7) by (intro sint_sub64 fits64I) linarith+
  then have h: "rbytes ?h = {sint (InfoSize (inf w)) ..< sint off}" "file_range ?h"
    using assms(5,6) by (simp_all add: rbytes_def file_range_def lo_def hi_def)
  note i1 = Insert_spec [OF W(2) e(2)]
  have "rset (Insert (Insert (Rs (inf w1)) (rg off 0)) ?h) = rset (Rs (inf w1)) \<union> rbytes ?h"
    using i1 e(1) Insert_spec [OF conjunct1 [OF i1] h(2)] by simp
  then have "rset (Rs (inf w2)) = rset (Rs (inf w)) \<union> {sint (InfoSize (inf w)) ..< sint off}"
    using s(3) W(4) h(1) by (simp add: w2)
  moreover have "file_data w2 = file_data w1"
  proof -
    have "file_data w2 = file_data w3" unfolding w2 by (subst file_data_eq [of _ "dirty (written (InfoSize (inf w)) (off - InfoSize (inf w)) (written off 0 w3))"]) simp_all
    then show ?thesis using s(6) nn by (simp add: overwrite_def)
  qed
  ultimately show ?thesis using g(3) W(5) by (simp add: same_item_def w2)
qed

lemma WriteAt_hole_not_stored_witness:
  "\<exists>w'. WriteAt [] 9 sample = Some ((0, None), w') \<and> length (file_data w') = 5 \<and> InfoSize (inf w') = 9
     \<and> rset (Rs (inf w')) = {1, 2, 5, 6, 7, 8}"
proof -
  have w: "beingReset (it sample) = False" "fd (it sample) = Some 0" "InfoSize (inf sample) = 5"
    "Rs (inf sample) = [rg 1 2]" "fs sample = sample_fs" "file_data sample = [0, 7, 8, 0, 0]"
    by (simp_all add: item_eval file_data_def)
  have "\<exists>w'. WriteAt [] 9 sample = Some ((0, None), w')"
    using w by (simp add: WriteAt_def guarded_def preAccess_def writeAt_def write_mark_def file_WriteAt_def fs_WriteAt_def
      call_def sys_def Let_def upd_it_def sample_fs_def i64)
  then obtain w' where W: "WriteAt [] 9 sample = Some ((0, None), w')" by blast
  have r: "{sint (5::int64) ..< sint (9::int64)} = {5, 6, 7, 8}" "rset [rg 1 2] = {1, 2}" "wf_ranges [rg 1 2]"
    by (auto simp: range_eval)
  show ?thesis
    using WriteAt_hole_not_stored [OF W w(2)] W w(3,4,6) r by auto
qed

section \<open>Truncate\<close>

lemma fs_ok:
  assumes "fault f (calls f) = None"
  shows "fst (fs_fstat ino f) = Inr (word_of_nat (length (inodes f ino)), mtimes f ino)"
    "snd (fs_fstat ino f) = f\<lparr>calls := Suc (calls f)\<rparr>"
    "0 \<le> sint sz \<Longrightarrow> fs_truncate ino sz f =
       (None, f\<lparr>calls := Suc (calls f), inodes := (inodes f)(ino := resize (nat (sint sz)) (inodes f ino))\<rparr>)"
  using assms by (simp_all add: fs_fstat_def fs_truncate_def call_def i64)

text \<open>Resizing a file keeps it, when it already has the size.\<close>

lemma resize_same: "resize (length c) c = c"
  by (simp add: resize_def)

lemma truncate_fd_ok:
  assumes "\<And>k. fault (fs w) k = None" "fd (it w) = Some ino" "0 \<le> sint sz" "int (length (file_data w)) \<le> max_int64"
  shows "\<exists>w'. truncate_fd ino sz w = (None, w') \<and> file_data w' = resize (nat (sint sz)) (file_data w)
    \<and> fault (fs w') = fault (fs w) \<and> it w' = (it w)\<lparr>info := (inf w)\<lparr>InfoSize := sz\<rparr>\<rparr>"
proof -
  have d: "file_data w = inodes (fs w) ino" using assms(2) by (simp add: file_data_def)
  let ?f1 = "(fs w)\<lparr>calls := Suc (calls (fs w))\<rparr>"
  have 1: "sys (fs_fstat ino) w = (Inr (word_of_nat (length (file_data w)), mtimes (fs w) ino), w\<lparr>fs := ?f1\<rparr>)"
    using fs_ok(1,2) [OF assms(1)] d by (simp add: sys_def split_beta)
  show ?thesis
  proof (cases "(word_of_nat (length (file_data w)) :: int64) = sz")
    case True
    have "fits64 (int (length (file_data w)))" using assms(4) by (intro fits64I) simp_all
    then have "sint sz = int (length (file_data w))"
      using sint_of_nat64 [of "length (file_data w)"] True by simp
    then have "resize (nat (sint sz)) (file_data w) = file_data w" by (simp add: resize_same)
    then show ?thesis using 1 True assms(2) d by (simp add: truncate_fd_def file_data_def upd_info_def upd_it_def)
  next
    case False
    have 2: "fs_truncate ino sz ?f1 = (None, ?f1\<lparr>calls := Suc (calls ?f1),
        inodes := (inodes ?f1)(ino := resize (nat (sint sz)) (inodes ?f1 ino))\<rparr>)"
      by (rule fs_ok(3)) (simp_all add: assms)
    show ?thesis
      using 1 2 False assms(2) d by (simp add: truncate_fd_def sys_def file_data_def upd_info_def upd_it_def)
  qed
qed

text \<open>What \<open>Truncate\<close> makes of an open item when no system call fails.\<close>

lemma truncate_locked_ok:
  assumes "\<And>k. fault (fs w) k = None" "fd (it w) = Some ino" "0 \<le> sint sz" "int (length (file_data w)) \<le> max_int64"
    and "old = word_of_nat (length (file_data w))" "truncate_locked sz w = (err, w')"
  shows "err = None \<and> file_data w' = resize (nat (sint sz)) (file_data w) \<and> InfoSize (inf w') = sz
    \<and> Rs (inf w') = (if old <s sz then Insert (Rs (inf w)) (rg old sz)
                     else if sz <s old then Ranges_Intersection (Rs (inf w)) (rg 0 sz) else Rs (inf w))
    \<and> fd (it w') = fd (it w) \<and> fault (fs w') = fault (fs w)
    \<and> (old \<noteq> sz \<or> i_o (it w) = None \<longrightarrow> Dirty (inf w'))"
proof -
  let ?w1 = "upd_info (\<lambda>i. i\<lparr>InfoSize := old\<rparr>) (w\<lparr>fs := (fs w)\<lparr>calls := Suc (calls (fs w))\<rparr>\<rparr>)"
  have d: "file_data w = inodes (fs w) ino" "file_data ?w1 = file_data w"
    using assms(2) by (simp_all add: file_data_def)
  have 1: "getSize w = ((old, None), ?w1)"
    using fs_ok(1,2) [OF assms(1)] d assms(2,5)
    by (simp add: getSize_def stat_def sys_def split_beta)
  have p1: "\<And>k. fault (fs ?w1) k = None" "fd (it ?w1) = Some ino" "int (length (file_data ?w1)) \<le> max_int64"
    using assms(1,2,4) d(2) by simp_all
  obtain w2 where w2: "truncate_fd ino sz ?w1 = (None, w2)" "file_data w2 = resize (nat (sint sz)) (file_data w)"
    "fault (fs w2) = fault (fs w)" "it w2 = (it ?w1)\<lparr>info := (inf ?w1)\<lparr>InfoSize := sz\<rparr>\<rparr>"
    using truncate_fd_ok [OF p1(1,2) assms(3) p1(3)] d(2) by auto
  have 2: "truncate sz ?w1 = (None, w2)" using w2(1) assms(2,3) by (simp add: truncate_def i64)
  have i: "file_data (upd_info (\<lambda>i. i\<lparr>Rs := Ranges_Intersection (Rs i) (rg 0 sz)\<rparr>) w2) = file_data w2"
    by (rule file_data_eq) simp_all
  have w': "err = None" "w' = (if old <s sz then dirty (written old sz w2)
                       else if sz <s old
                       then dirty (upd_info (\<lambda>i. i\<lparr>Rs := Ranges_Intersection (Rs i) (rg 0 sz)\<rparr>) w2)
                       else if i_o (it w2) = None then dirty w2 else w2)"
    using assms(6,2) 1 2 by (simp_all add: truncate_locked_def)
  have "\<not> old <s sz \<Longrightarrow> \<not> sz <s old \<Longrightarrow> old = sz" by (simp add: i64 sint_inj64)
  then show ?thesis using w' w2(2-4) i by auto
qed

text \<open>C19: truncating an open item to a size up to its own refines cutting its content: the file,
  the size and the ranges are cut at the new size, and the item still mirrors the content.\<close>

theorem Truncate_shrinks:
  assumes "Truncate sz w = Some (err, w')" "\<And>k. fault (fs w) k = None" "fd (it w) = Some ino" "mirrors C w"
    and "length (file_data w) = length C" "int (length C) \<le> max_int64"
    and "0 \<le> sint sz" "sint sz \<le> int (length C)"
  shows "err = None \<and> mirrors (take (nat (sint sz)) C) w' \<and> InfoSize (inf w') = sz
    \<and> rset (Rs (inf w')) = rset (Rs (inf w)) \<inter> {0 ..< sint sz} \<and> file_data w' = take (nat (sint sz)) (file_data w)"
proof -
  obtain w1 w2 where g: "truncate_locked sz w1 = (err, w2)" "same_item w w1" "same_item w2 w'"
    "mirrors C w \<longleftrightarrow> mirrors C w1" "w1 = upd_it (\<lambda>i. i\<lparr>pendingAccesses := pendingAccesses i + 1\<rparr>) w"
    using assms(1) unfolding Truncate_def by (rule guardedD)
  define old :: int64 where "old = word_of_nat (length (file_data w1))"
  have W: "\<And>k. fault (fs w1) k = None" "fd (it w1) = Some ino" "length (file_data w1) = length C"
    "int (length (file_data w1)) \<le> max_int64" "mirrors C w1" "Rs (inf w1) = Rs (inf w)" "file_data w1 = file_data w"
    using g(2,4) assms(2-6) by (simp_all add: same_item_def)
  note s = truncate_locked_ok [OF W(1,2) assms(7) W(4) old_def g(1)]
  have "fits64 (int (length C))" using assms(6) by (intro fits64I) simp_all
  then have old: "sint old = int (length C)" using sint_of_nat64 W(3) by (simp add: old_def)
  have wf: "wf_ranges (Rs (inf w))" and M: "\<And>p. p \<in> rset (Rs (inf w)) \<Longrightarrow>
      nat p < length C \<and> file_data w ! nat p = C ! nat p \<and> 0 \<le> p"
    using W(5-7) assms(5) rset_bounds by (auto simp: mirrors_def)
  have d: "file_data w2 = take (nat (sint sz)) (file_data w)"
    using s W(7) assms(5,8) by (simp add: resize_def)
  have "rset (Rs (inf w)) \<inter> {0 ..< sint sz} = rset (Rs (inf w))" if "sint sz = int (length C)"
    using M that by fastforce
  then have r: "rset (Rs (inf w2)) = rset (Rs (inf w)) \<inter> {0 ..< sint sz} \<and> wf_ranges (Rs (inf w2))"
    using s W(6) old assms(7,8) wf sint_range64(2) [of sz] Ranges_Intersection_spec [OF wf, of "rg 0 sz"]
    by (simp add: i64 rbytes_def file_range_def lo_def hi_def)
  have "mirrors (take (nat (sint sz)) C) w2"
    using r d M assms(5) by (auto simp: mirrors_def zless_nat_conj)
  then have "mirrors (take (nat (sint sz)) C) w'" using g(3) mirrors_same by blast
  then show ?thesis using s d r g(3) by (simp add: same_item_def)
qed

text \<open>a truncation that extends a file of \<open>old\<close> bytes to \<open>sz\<close> calls \<open>_written(oldSize, size)\<close>,
  a range of \<open>sz\<close> bytes rather than of \<open>sz - old\<close>: the file gets the right length, but unless it was empty
  bytes behind its new end are marked as present (and counted in the disk usage).\<close>

theorem Truncate_overmarks:
  assumes "Truncate sz w = Some (err, w')" "\<And>k. fault (fs w) k = None" "fd (it w) = Some ino"
    and "wf_ranges (Rs (inf w))" "old = int (length (file_data w))" "old < sint sz" "old + sint sz \<le> max_int64"
  shows "err = None \<and> file_data w' = file_data w @ replicate (nat (sint sz - old)) 0 \<and> InfoSize (inf w') = sz
    \<and> rset (Rs (inf w')) = rset (Rs (inf w)) \<union> {old ..< old + sint sz}
    \<and> (0 < old \<longrightarrow> sint sz \<in> rset (Rs (inf w')) \<and> sint sz = int (length (file_data w')))"
proof -
  obtain w1 w2 where g: "truncate_locked sz w1 = (err, w2)" "same_item w w1" "same_item w2 w'"
    using assms(1) unfolding Truncate_def by (rule guardedD)
  have W: "\<And>k. fault (fs w1) k = None" "fd (it w1) = Some ino"
    "int (length (file_data w1)) \<le> max_int64" "Rs (inf w1) = Rs (inf w)" "file_data w1 = file_data w"
    using g(2) assms(2-7) by (simp_all add: same_item_def)
  have sz: "0 \<le> sint sz" using assms(5,6) by linarith
  define o' :: int64 where "o' = word_of_nat (length (file_data w1))"
  note s = truncate_locked_ok [OF W(1,2) sz W(3) o'_def g(1)]
  have "fits64 old" using assms(5-7) by (intro fits64I) linarith+
  then have o': "sint o' = old" using sint_of_nat64 assms(5) by (simp add: o'_def W(5))
  have R: "file_range (rg o' sz)" "rbytes (rg o' sz) = {old ..< old + sint sz}"
    using o' assms(5,7) sz by (simp_all add: file_range_def rbytes_def lo_def hi_def)
  have "length (file_data w) \<le> nat (sint sz)" "nat (sint sz) - length (file_data w) = nat (sint sz - old)"
    using assms(5,6) by linarith+
  then have d: "file_data w2 = file_data w @ replicate (nat (sint sz - old)) 0"
    using s W(5) by (simp add: resize_def)
  have "rset (Rs (inf w2)) = rset (Rs (inf w)) \<union> {old ..< old + sint sz}"
    using s W(4) o' assms(6) Insert_spec [OF assms(4) R(1)] R(2) by (simp add: i64)
  then show ?thesis using s d g(3) assms(5,6) by (auto simp: same_item_def)
qed

text \<open>An item without a gap: three present bytes.\<close>

definition sample3 :: world where
  "sample3 = sample\<lparr>it := (it sample)\<lparr>info := (inf sample)\<lparr>InfoSize := 3, Rs := [rg 0 3]\<rparr>\<rparr>,
     fs := sample_fs\<lparr>inodes := (\<lambda>_. [1, 2, 3])\<rparr>\<rparr>"

lemma sample3_fields:
  "beingReset (it sample3) = False" "fd (it sample3) = Some 0" "Rs (inf sample3) = [rg 0 3]"
  "fault (fs sample3) k = None" "file_data sample3 = [1, 2, 3]"
  by (simp_all add: sample3_def item_eval file_data_def)

lemma Truncate_runs: "\<not> beingReset (it w) \<Longrightarrow> \<exists>err w'. Truncate sz w = Some (err, w')"
  by (simp add: Truncate_def guarded_def preAccess_def split_beta)

lemma Truncate_shrinks_witness:
  "\<exists>w'. Truncate 2 sample3 = Some (None, w') \<and> mirrors [1, 2] w' \<and> file_data w' = [1, 2]"
proof -
  obtain err w' where T: "Truncate 2 sample3 = Some (err, w')" using Truncate_runs sample3_fields(1) by blast
  have r: "rset [rg 0 3] = {0, 1, 2}" "wf_ranges [rg 0 3]" by (auto simp: range_eval)
  have M: "mirrors [1, 2, 3] sample3" unfolding mirrors_def sample3_fields r(1) using r(2) by simp
  show ?thesis
    using Truncate_shrinks [OF T sample3_fields(4,2) M] T
    by (simp add: sample3_fields)
qed

lemma Truncate_overmarks_witness:
  "\<exists>w'. Truncate 4 sample3 = Some (None, w') \<and> file_data w' = [1, 2, 3, 0] \<and> 4 \<in> rset (Rs (inf w'))"
proof -
  obtain err w' where T: "Truncate 4 sample3 = Some (err, w')" using Truncate_runs sample3_fields(1) by blast
  have r: "wf_ranges [rg 0 3]" by (auto simp: range_eval)
  show ?thesis
    using Truncate_overmarks [OF T sample3_fields(4,2)] T
    by (simp add: sample3_fields r)
qed

section \<open>A write and a download of the same range\<close>

text \<open>C20: a client's write stores its bytes while the item is unlocked and books them afterwards. A
  downloader that writes the same range in between finds it absent and overwrites the client's bytes with
  the remote ones; the write then books the range as written and dirty and reports success. So the write
  is lost, and the remote bytes are queued for upload as if they were the client's.\<close>

theorem lost_write:
  assumes "file_WriteAt b off w = ((length b, None), w1)"
    and "WriteAtNoOverwrite d off w1 = ((nd, skipped, None), w2)"
    and "write_mark b off (length b) None w2 = ((n, err), w3)"
    and "fd (it w) = Some ino" "wf_ranges (Rs (inf w))" "0 \<le> sint off" "sint off + int (length b) \<le> max_int64"
    and "length d = length b" "b \<noteq> []" "rset (Rs (inf w)) \<inter> {sint off ..< sint off + int (length b)} = {}"
    and "sint off + int (length b) \<le> sint (InfoSize (inf w))"
  shows "n = length b \<and> err = None \<and> Dirty (inf w3)
    \<and> {sint off ..< sint off + int (length b)} \<subseteq> rset (Rs (inf w3))
    \<and> (\<forall>p \<in> {sint off ..< sint off + int (length b)}. file_data w3 ! nat p = d ! nat (p - sint off))"
proof -
  have i1: "it w1 = it w" using file_WriteAt_spec(3) [OF assms(1,4,6,7)] .
  have "nd = length d \<and> filled (Rs (inf w1)) w1 w2 (sint off) d nd"
    using WriteAtNoOverwrite_filled [OF assms(2)] assms(4-8) i1 by auto
  then have f: "filled (Rs (inf w)) w1 w2 (sint off) d (length b)" using assms(8) i1 by metis
  have i2: "InfoSize (inf w2) = InfoSize (inf w)" "fd (it w2) = fd (it w)"
    using filled_fields [OF f] i1 by simp_all
  have nn: "sint (word_of_nat (length b) :: int64) = int (length b)"
    using assms(6,7) by (intro sint_of_nat64 fits64I) linarith+
  have e: "sint (off + word_of_nat (length b)) = sint off + int (length b)"
    using nn assms(6,7) by (subst sint_add64) (auto intro!: fits64I)
  have "write_mark b off (length b) None w2 = ((length b, None), dirty (written off (word_of_nat (length b)) w2))"
    using assms(9,11) i2 e by (simp add: write_mark_def Let_def i64)
  then have w3: "w3 = dirty (written off (word_of_nat (length b)) w2)" "n = length b" "err = None"
    using assms(3) by simp_all
  have r: "rbytes (rg off (word_of_nat (length b))) = {sint off ..< sint off + int (length b)}"
    "file_range (rg off (word_of_nat (length b)))"
    using assms(6,7) nn by (simp_all add: rbytes_def file_range_def lo_def hi_def)
  have wf: "wf_ranges (Rs (inf w2))" using f by (simp add: filled_def)
  have "file_data w2 ! nat p = d ! nat (p - sint off)" if "p \<in> {sint off ..< sint off + int (length b)}" for p
    using f assms(10) that unfolding filled_def by blast
  then show ?thesis using w3 Insert_spec [OF wf r(2)] r(1) by simp
qed

lemma lost_write_witness:
  "\<exists>w1 w2 w3. file_WriteAt [9, 9] 3 sample = ((2, None), w1)
     \<and> WriteAtNoOverwrite [4, 5] 3 w1 = ((2, 0, None), w2) \<and> write_mark [9, 9] 3 2 None w2 = ((2, None), w3)
     \<and> Dirty (inf w3) \<and> file_data w3 ! 3 = 4 \<and> file_data w3 ! 4 = 5"
proof -
  have w: "fd (it sample) = Some 0" "InfoSize (inf sample) = 5" "Rs (inf sample) = [rg 1 2]"
    "\<And>k. fault (fs sample) k = None"
    by (simp_all add: item_eval)
  have r: "wf_ranges [rg 1 2]" by (simp add: range_eval)
  have d: "rset [rg 1 2] \<inter> {3 ..< 5} = {}" by (auto simp: range_eval)
  have s: "sint (3 :: int64) = 3" by simp
  obtain n1 e1 w1 where W1: "file_WriteAt [9, 9] 3 sample = ((n1, e1), w1)" by (metis prod_cases3 surj_pair)
  note f1 = file_WriteAt_spec [OF W1 w(1)]
  have e1: "e1 = None" "n1 = 2" "it w1 = it sample" "\<And>k. fault (fs w1) k = None" using f1(2-5) w(4) by auto
  obtain nd sk e2 w2 where W2: "WriteAtNoOverwrite [4, 5] 3 w1 = ((nd, sk, e2), w2)" by (metis prod_cases3 surj_pair)
  have e2: "e2 = None" "nd = 2" "sk = 0"
    using WriteAtNoOverwrite_filled [OF W2] e1 w r d by auto
  obtain n3 e3 w3 where W3: "write_mark [9, 9] 3 2 None w2 = ((n3, e3), w3)" by (metis prod_cases3 surj_pair)
  have "n3 = 2 \<and> e3 = None \<and> Dirty (inf w3)
    \<and> (\<forall>p \<in> {3 ..< 5}. file_data w3 ! nat p = [4, 5] ! nat (p - 3))"
    using lost_write [of "[9, 9]" 3 sample w1 "[4, 5]" nd sk w2 n3 e3 w3 0] W1 W2 W3 e1 e2 w r d
    by (simp add: numeral_2_eq_2)
  then show ?thesis using W1 W2 W3 e1 e2 by (auto simp: int_interval)
qed

end
