(* ===== verification/Downloaders.thy ===== *)
theory Downloaders
  imports ItemWrite Sequential
begin

text \<open>
  \<open>internal/cache/downloaders\<close>: the goroutines that copy parts of a remote object into a cache item, and
  the callers of \<open>Download\<close> that wait for a range. Each part that runs under one lock is one step; \<open>dstep\<close>
  gives the effect of a step, \<open>None\<close> when the goroutine is not there or has to wait. The readers are
  sequential (\<open>ChunkStreams \<le> 1\<close>). Logging has no counterpart.
\<close>

section \<open>State\<close>

definition maxSkipBytes :: int64 where "maxSkipBytes = 1024 * 1024"

definition maxErrorCount :: nat where "maxErrorCount = 10"

definition minWindow :: int64 where "minWindow = 1024 * 1024"

text \<open>
  Where a downloader's goroutine is: before a \<open>Read\<close> of \<open>io.Copy\<close>; in \<open>Write\<close> with the bytes and the error
  that \<open>Read\<close> returned with them; at the deferred \<open>kickWaiters\<close> of \<open>Write\<close>; and at the three calls that
  follow \<open>download\<close>.
\<close>

datatype phase =
    Reading
  | Writing "byte list" "go_err option"
  | Kicking nat "go_err option" "byte list" "go_err option"
  | Closing "go_err option" | Counting "go_err option" | LastKick | Done

record downloader =
  dl_start :: int64
  dl_offset :: int64
  maxOffset :: int64
  dl_in :: sequential
  skipped :: int64
  dl_closed :: bool
  stop :: bool
  kick :: bool
  copied :: int64
  phase :: phase

text \<open>
  \<open>Downloaders\<close>. A waiter's channel is its number; \<open>answers\<close> lists what has been sent on them. \<open>closing\<close> is
  the rest of the list \<open>Close\<close> ranges over and its argument. \<open>panicked\<close>: a read has crashed.
\<close>

record Downloaders =
  item :: world
  src :: RemoteObject
  ReadAhead :: int64
  ChunkSize :: int64
  ChunkSizeLimit :: int64
  ChunkStreams :: int64
  dls :: "nat list"
  dl :: "nat \<Rightarrow> downloader"
  next_dl :: nat
  waiters :: "(nat \<times> Range) list"
  next_waiter :: nat
  answers :: "(nat \<times> Range \<times> go_err option) list"
  errorCount :: nat
  lastErr :: "go_err option"
  closing :: "(nat list \<times> go_err option) option"
  cancelled :: bool
  panicked :: bool

definition upd_dl :: "nat \<Rightarrow> (downloader \<Rightarrow> downloader) \<Rightarrow> Downloaders \<Rightarrow> Downloaders" where
  "upd_dl i f d = d\<lparr>dl := (dl d)(i := f (dl d i))\<rparr>"

definition newDownloaders :: "world \<Rightarrow> RemoteObject \<Rightarrow> int64 \<Rightarrow> int64 \<Rightarrow> int64 \<Rightarrow> int64 \<Rightarrow> (nat \<Rightarrow> downloader) \<Rightarrow> Downloaders" where
  "newDownloaders w ob ra cs csl streams dl0 =
     \<lparr>item = w, src = ob, ReadAhead = ra, ChunkSize = cs, ChunkSizeLimit = csl, ChunkStreams = streams,
      dls = [], dl = dl0, next_dl = 0, waiters = [], next_waiter = 0, answers = [], errorCount = 0,
      lastErr = None, closing = None, cancelled = False, panicked = False\<rparr>"

section \<open>One downloader\<close>

text \<open>\<open>_stop\<close> closes the channel \<open>quit\<close> and the reader.\<close>

definition stop_dl :: "downloader \<Rightarrow> downloader" where
  "stop_dl x = (if stop x then x else x\<lparr>stop := True, dl_in := snd (Sequential.Close (dl_in x))\<rparr>)"

text \<open>\<open>close\<close>: \<open>in\<close> is set to nil; the reader is not used after that.\<close>

definition close_dl :: "downloader \<Rightarrow> go_err option \<times> downloader" where
  "close_dl x = (case Sequential.Close (dl_in x) of (err, cr) \<Rightarrow>
     (if dl_closed x then None else err, x\<lparr>dl_in := (if dl_closed x then dl_in x else cr), dl_closed := True\<rparr>))"

definition setRange :: "Range \<Rightarrow> downloader \<Rightarrow> downloader" where
  "setRange r x = (if maxOffset x <s End r then x\<lparr>maxOffset := End r, kick := True\<rparr> else x\<lparr>kick := True\<rparr>)"

text \<open>The part of \<open>Write\<close> behind the wait: the item, the downloader, \<open>n\<close> and the error.\<close>

definition dl_write :: "byte list \<Rightarrow> world \<Rightarrow> downloader \<Rightarrow> (nat \<times> go_err option) \<times> world \<times> downloader" where
  "dl_write p w x =
     (case WriteAtNoOverwrite p (dl_offset x) w of
        ((n, sk, err0), w') \<Rightarrow>
          let x1 = (if sk = n then x\<lparr>skipped := skipped x + word_of_nat sk\<rparr> else x\<lparr>skipped := 0\<rparr>);
              x2 = x1\<lparr>dl_offset := dl_offset x1 + word_of_nat n\<rparr>;
              x3 = (if \<not> stop x2 \<and> maxSkipBytes <s skipped x2 then stop_dl x2 else x2);
              err = (if stop x3 \<and> err0 = None then Some EOF else err0)
          in ((n, err), w', x3))"

text \<open>
  The loop of \<open>io.Copy\<close> after a \<open>Write\<close> of \<open>p\<close> that returned \<open>(n, err)\<close>, when \<open>Read\<close> had returned \<open>er\<close> with \<open>p\<close>;
  \<open>finish\<close> is the end of \<open>download\<close>.
\<close>

definition finish :: "go_err option \<Rightarrow> phase" where
  "finish err = Closing (case err of None \<Rightarrow> None
     | Some e \<Rightarrow> if e = EOF then None else Some (Wrap ''cache reader: failed to write to cache file'' e))"

definition copy_next :: "nat \<Rightarrow> go_err option \<Rightarrow> byte list \<Rightarrow> go_err option \<Rightarrow> downloader \<Rightarrow> downloader" where
  "copy_next n err p er x =
     (let x1 = x\<lparr>copied := copied x + word_of_nat n\<rparr>
      in if err \<noteq> None then x1\<lparr>phase := finish err\<rparr>
         else if n \<noteq> length p then x1\<lparr>phase := finish (Some (Other ''short write''))\<rparr>
         else case er of Some e \<Rightarrow> x1\<lparr>phase := finish (if e = EOF then None else Some e)\<rparr>
              | None \<Rightarrow> x1\<lparr>phase := Reading\<rparr>)"

text \<open>\<open>open\<close>: a reader at the offset.\<close>

definition open_dl :: "Downloaders \<Rightarrow> int64 \<Rightarrow> go_err + sequential" where
  "open_dl d off =
     (if obj_size (src d) <s 0 then Inl (Other ''can't open unknown sized file'')
      else case New (obj_size (src d)) (ChunkSize d) (ChunkSizeLimit d) (ChunkStreams d) of
             (initial, limit, _, _) \<Rightarrow>
               (case Seek (newSequential (src d) initial limit) off SeekStart of
                  ((_, Some e), _) \<Rightarrow> Inl (Wrap ''cache reader: failed to open source file'' e)
                | ((_, None), cr) \<Rightarrow> Inr cr))"

section \<open>The set of downloaders\<close>

definition countErrors :: "int64 \<Rightarrow> go_err option \<Rightarrow> Downloaders \<Rightarrow> Downloaders" where
  "countErrors n err d =
     (if err = None \<and> n \<noteq> 0 then (if errorCount d \<noteq> 0 then d\<lparr>errorCount := 0, lastErr := None\<rparr> else d)
      else if err \<noteq> None then d\<lparr>errorCount := Suc (errorCount d), lastErr := err\<rparr>
      else d)"

definition removeClosed :: "Downloaders \<Rightarrow> Downloaders" where
  "removeClosed d = d\<lparr>dls := filter (\<lambda>i. \<not> dl_closed (dl d i)) (dls d)\<rparr>"

definition newDownloader :: "Range \<Rightarrow> Downloaders \<Rightarrow> go_err option \<times> Downloaders" where
  "newDownloader r d =
     (case open_dl d (Pos r) of
        Inl e \<Rightarrow> (Some (Wrap ''failed to open downloader'' e), d)
      | Inr cr \<Rightarrow>
          let i = next_dl d
          in (None, d\<lparr>dls := dls d @ [i], next_dl := Suc i,
               dl := (dl d)(i := \<lparr>dl_start = Pos r, dl_offset = Pos r, maxOffset = End r, dl_in = cr, skipped = 0,
                 dl_closed = False, stop = False, kick = False, copied = 0, phase = Reading\<rparr>)\<rparr>))"

text \<open>The range \<open>_ensureDownloader\<close> looks for and whether it may start a downloader for it.\<close>

definition wanted :: "Range \<Rightarrow> Downloaders \<Rightarrow> Range \<times> bool" where
  "wanted r d =
     (let r1 = (if 0 <s ReadAhead d then r\<lparr>Size := Size r + ReadAhead d\<rparr> else r);
          r2 = Item_FindMissing r1 (item d)
      in if IsEmpty r2
         then let rWindow = r2\<lparr>Size := Size r2 + minWindow\<rparr>;
                  clipped = Item_FindMissing rWindow (item d)
              in if IsEmpty clipped then (\<lparr>Pos = End rWindow, Size = 0\<rparr>, False)
                 else (\<lparr>Pos = Pos clipped, Size = 0\<rparr>, True)
         else (r2, True))"

definition in_window :: "Range \<Rightarrow> downloader \<Rightarrow> bool" where
  "in_window r x \<longleftrightarrow> dl_start x \<le>s Pos r \<and> Pos r <s dl_offset x + minWindow"

definition ensureDownloader :: "Range \<Rightarrow> Downloaders \<Rightarrow> go_err option \<times> Downloaders" where
  "ensureDownloader r0 d0 =
     (case wanted r0 d0 of (r, startNew) \<Rightarrow>
        let d = removeClosed d0
        in case find (\<lambda>i. in_window r (dl d i)) (dls d) of
             Some i \<Rightarrow> (None, upd_dl i (setRange r) d)
           | None \<Rightarrow>
               if \<not> startNew \<or> Size r = 0 then (None, d)
               else case newDownloader r d of
                      (Some e, d1) \<Rightarrow>
                        (Some (Wrap ''failed to start downloader'' e), countErrors 0 (Some e) d1)
                    | (None, d1) \<Rightarrow> (None, d1))"

definition has_range :: "Range \<Rightarrow> Downloaders \<Rightarrow> bool" where
  "has_range r d = HasRange (Clip r (obj_size (src d))) (item d)"

definition dispatchWaiters :: "Downloaders \<Rightarrow> Downloaders" where
  "dispatchWaiters d =
     d\<lparr>waiters := filter (\<lambda>(_, r). \<not> has_range r d) (waiters d),
       answers := answers d @ map (\<lambda>(i, r). (i, r, None)) (filter (\<lambda>(_, r). has_range r d) (waiters d))\<rparr>"

definition closeWaiters :: "go_err option \<Rightarrow> Downloaders \<Rightarrow> Downloaders" where
  "closeWaiters err d = d\<lparr>waiters := [], answers := answers d @ map (\<lambda>(i, r). (i, r, err)) (waiters d)\<rparr>"

definition ensure_all :: "(nat \<times> Range) list \<Rightarrow> Downloaders \<Rightarrow> Downloaders" where
  "ensure_all ws d = fold (\<lambda>(_, r) d. snd (ensureDownloader r d)) ws d"

definition kickWaiters :: "Downloaders \<Rightarrow> go_err option \<times> Downloaders" where
  "kickWaiters d0 =
     (let d1 = dispatchWaiters d0
      in if waiters d1 = [] then (None, d1)
         else let d2 = ensure_all (waiters d1) d1
              in if (case lastErr d2 of Some e \<Rightarrow> contains (Error e) ''no space'' | None \<Rightarrow> False)
                    \<or> maxErrorCount < errorCount d2
                 then (lastErr d2, closeWaiters (lastErr d2) d2) else (None, d2))"

section \<open>Steps\<close>

datatype event =
    EvDownload Range          \<comment> \<open>\<open>Download\<close> up to where it waits\<close>
  | EvEnsure Range            \<comment> \<open>\<open>EnsureDownloader\<close>\<close>
  | EvRead nat                \<comment> \<open>a \<open>Read\<close> of \<open>io.Copy\<close>\<close>
  | EvWrite nat               \<comment> \<open>\<open>Write\<close>, not waiting or no longer\<close>
  | EvKicked nat              \<comment> \<open>a waiting \<open>Write\<close> receives a kick\<close>
  | EvIdle nat                \<comment> \<open>a waiting \<open>Write\<close> times out\<close>
  | EvKick nat                \<comment> \<open>the deferred call of \<open>Write\<close>, and back in \<open>io.Copy\<close>\<close>
  | EvClose nat | EvCount nat | EvLastKick nat   \<comment> \<open>the end of the goroutine\<close>
  | EvTick                    \<comment> \<open>the background kicker\<close>
  | EvCloseAll "go_err option" | EvStopNext | EvWaitNext | EvCloseEnd   \<comment> \<open>\<open>Downloaders.Close\<close>\<close>

definition Download :: "Range \<Rightarrow> Downloaders \<Rightarrow> Downloaders" where
  "Download r d =
     (let k = next_waiter d
      in case ensureDownloader r (d\<lparr>next_waiter := Suc k\<rparr>) of
           (Some e, d1) \<Rightarrow> d1\<lparr>answers := answers d1 @ [(k, r, Some e)]\<rparr>
         | (None, d1) \<Rightarrow> d1\<lparr>waiters := waiters d1 @ [(k, r)]\<rparr>)"

definition EnsureDownloader :: "Range \<Rightarrow> Downloaders \<Rightarrow> go_err option \<times> Downloaders" where
  "EnsureDownloader r d = ensureDownloader r d"

text \<open>The buffer of \<open>io.Copy\<close> has 32 KiB. A read of no bytes and no error is repeated.\<close>

definition read_step :: "nat \<Rightarrow> Downloaders \<Rightarrow> Downloaders" where
  "read_step i d =
     (case Read (dl_in (dl d i)) 32768 of
        None \<Rightarrow> d\<lparr>panicked := True\<rparr>
      | Some (got, er, cr) \<Rightarrow>
          upd_dl i (\<lambda>x. x\<lparr>dl_in := cr, phase :=
            (if got \<noteq> [] then Writing got er
             else case er of Some e \<Rightarrow> finish (if e = EOF then None else Some e) | None \<Rightarrow> Reading)\<rparr>) d)"

definition write_step :: "nat \<Rightarrow> byte list \<Rightarrow> go_err option \<Rightarrow> Downloaders \<Rightarrow> Downloaders" where
  "write_step i p er d =
     (case dl_write p (item d) (dl d i) of
        ((n, err), w, x) \<Rightarrow>
          upd_dl i (\<lambda>_. if n = 0 then copy_next n err p er x else x\<lparr>phase := Kicking n err p er\<rparr>) (d\<lparr>item := w\<rparr>))"

definition kick_step :: "nat \<Rightarrow> nat \<Rightarrow> go_err option \<Rightarrow> byte list \<Rightarrow> go_err option \<Rightarrow> Downloaders \<Rightarrow> Downloaders" where
  "kick_step i n err p er d =
     (case kickWaiters d of
        (waitErr, d1) \<Rightarrow> upd_dl i (copy_next n (if err = None then waitErr else err) p er) d1)"

text \<open>\<open>Close\<close>. It never returns an error: the condition under which it would is never true.\<close>

definition close_end :: "go_err option \<Rightarrow> Downloaders \<Rightarrow> Downloaders" where
  "close_end inErr d = closeWaiters inErr (dispatchWaiters (d\<lparr>cancelled := True, dls := [], closing := None\<rparr>))"

definition waiting_dl :: "downloader \<Rightarrow> bool" where
  "waiting_dl x \<longleftrightarrow> \<not> dl_offset x <s maxOffset x"

fun dstep :: "event \<Rightarrow> Downloaders \<Rightarrow> Downloaders option" where
  "dstep (EvDownload r) d = Some (Download r d)"
| "dstep (EvEnsure r) d = Some (snd (EnsureDownloader r d))"
| "dstep (EvRead i) d =
     (if i < next_dl d \<and> phase (dl d i) = Reading then Some (read_step i d) else None)"
| "dstep (EvWrite i) d =
     (if i < next_dl d \<and> (\<not> waiting_dl (dl d i) \<or> stop (dl d i))
      then case phase (dl d i) of Writing p er \<Rightarrow> Some (write_step i p er d) | _ \<Rightarrow> None else None)"
| "dstep (EvKicked i) d =
     (if i < next_dl d \<and> waiting_dl (dl d i) \<and> kick (dl d i)
      then case phase (dl d i) of Writing p er \<Rightarrow> Some (upd_dl i (\<lambda>x. x\<lparr>kick := False\<rparr>) d) | _ \<Rightarrow> None else None)"
| "dstep (EvIdle i) d =
     (if i < next_dl d \<and> waiting_dl (dl d i)
      then case phase (dl d i) of Writing p er \<Rightarrow> Some (write_step i p er (upd_dl i stop_dl d)) | _ \<Rightarrow> None else None)"
| "dstep (EvKick i) d =
     (if i < next_dl d
      then case phase (dl d i) of Kicking n err p er \<Rightarrow> Some (kick_step i n err p er d) | _ \<Rightarrow> None else None)"
| "dstep (EvClose i) d =
     (if i < next_dl d
      then case phase (dl d i) of
             Closing err \<Rightarrow> Some (upd_dl i (\<lambda>x. (snd (close_dl x))\<lparr>phase := Counting err\<rparr>) d) | _ \<Rightarrow> None else None)"
| "dstep (EvCount i) d =
     (if i < next_dl d
      then case phase (dl d i) of
             Counting err \<Rightarrow> Some (countErrors (copied (dl d i)) err (upd_dl i (\<lambda>x. x\<lparr>phase := LastKick\<rparr>) d))
           | _ \<Rightarrow> None else None)"
| "dstep (EvLastKick i) d =
     (if i < next_dl d \<and> phase (dl d i) = LastKick
      then Some (upd_dl i (\<lambda>x. x\<lparr>phase := Done\<rparr>) (snd (kickWaiters d))) else None)"
| "dstep EvTick d = (if cancelled d then None else Some (snd (kickWaiters d)))"
| "dstep (EvCloseAll err) d =
     (if closing d = None then Some (let d1 = removeClosed d in d1\<lparr>closing := Some (dls d1, err)\<rparr>) else None)"
| "dstep EvStopNext d =
     (case closing d of Some (i # _, _) \<Rightarrow> Some (upd_dl i stop_dl d) | _ \<Rightarrow> None)"
| "dstep EvWaitNext d =
     (case closing d of
        Some (i # is, err) \<Rightarrow>
          if stop (dl d i) \<and> phase (dl d i) = Done
          then Some (upd_dl i (\<lambda>x. snd (close_dl x)) (d\<lparr>closing := Some (is, err)\<rparr>)) else None
      | _ \<Rightarrow> None)"
| "dstep EvCloseEnd d =
     (case closing d of Some ([], err) \<Rightarrow> Some (close_end err d) | _ \<Rightarrow> None)"

text \<open>A schedule: steps that are not possible are skipped.\<close>

definition dsched :: "event list \<Rightarrow> Downloaders \<Rightarrow> Downloaders" where
  "dsched es d = fold (\<lambda>e d. case dstep e d of Some d' \<Rightarrow> d' | None \<Rightarrow> d) es d"

end
