(* ===== verification/DownloadersData.thy ===== *)
theory DownloadersData
  imports Downloaders "HOL-Library.Multiset"
begin

text \<open>
  What the downloaders do to the data: in every reachable state of their goroutines the cache item mirrors
  the remote object, a waiter is told that its range is there only when it is, and no waiter is lost.
  The theory interprets \<open>item_env\<close> on this model, which gives the correctness of \<open>Item.ReadAt\<close>.
\<close>

section \<open>Reading up to the end of the object\<close>

text \<open>A range that starts at or behind the end is not satisfiable (RFC 9110, section 15.5.17).\<close>

definition refuses_end :: "RemoteObject \<Rightarrow> byte list \<Rightarrow> bool" where
  "refuses_end ob content \<longleftrightarrow>
     (\<forall>k opt. int (length content) \<le> sint (Start opt) \<longrightarrow> (\<exists>e. obj_open ob k (Some opt) = Inl e))"

text \<open>The data a reader delivers are a part of the content.\<close>

definition delivers :: "reader \<Rightarrow> nat \<Rightarrow> byte list \<Rightarrow> bool" where
  "delivers rd p content \<longleftrightarrow> rfin rd = EOF \<and> rdata rd = take (length (rdata rd)) (drop p content)"

lemma take_length_take: "xs = take (length xs) ys \<Longrightarrow> take n xs = take (length (take n xs)) ys"
  by (metis length_take min.commute take_take)

lemma ReadFull_delivers:
  assumes "delivers rd p content" "ReadFull rd m = (got, err, rd')"
  shows "got = take (length got) (drop p content)" "err = None \<Longrightarrow> length got = m"
  using assms take_length_take [of "rdata rd" "drop p content" m]
  by (auto simp: ReadFull_def delivers_def Let_def min_def split: if_splits)

lemma take_prefix: "take m xs = take (length (take m xs)) xs"
  by (simp add: min_def)

lemma ready_delivers:
  assumes "ready cr content"
  shows "\<exists>rd. rc cr = Some rd \<and> delivers rd (nat (sint (offset cr))) content"
proof -
  obtain rd where rd: "rc cr = Some rd" "plain rd"
    "rdata rd = take (nat (sint (chunkOffset cr) + sint (chunkSize cr) - sint (offset cr))) (drop (nat (sint (offset cr))) content)
      \<or> rdata rd = drop (nat (sint (offset cr))) content"
    using assms by (auto simp: ready_def loaded_def split: if_splits)
  have "rdata rd = take (length (rdata rd)) (drop (nat (sint (offset cr))) content)"
    using rd(3) take_prefix by (metis take_all order_refl)
  then show ?thesis using rd by (simp add: delivers_def plain_def)
qed

lemma openRange_end:
  assumes "seq_inv cr content" "refuses_end (obj cr) content" "sint (chunkOffset cr) = int (length content)"
    and "openRange cr = (None, cr')"
  shows "\<exists>rd. rc cr' = Some rd \<and> rdata rd = [] \<and> rfin rd = EOF"
proof -
  have I: "\<not> closed cr" "serves (obj cr) content" "case rc cr of None \<Rightarrow> True | Some rd \<Rightarrow> plain rd"
    using assms(1) by (auto simp: seq_inv_def)
  have o: "openRange cr = openSource cr (chunkOffset cr) (chunkSize cr)"
    using I by (auto simp: openRange_def plain_def split: option.splits reader.splits)
  let ?opt = "if chunkSize cr \<le>s 0
       then (if chunkOffset cr = 0 then None else Some \<lparr>Start = chunkOffset cr, EndOpt = -1\<rparr>)
       else Some \<lparr>Start = chunkOffset cr, EndOpt = chunkOffset cr + chunkSize cr - 1\<rparr>"
  show ?thesis
  proof (cases ?opt)
    case None
    then have "chunkOffset cr = 0" by (auto split: if_splits)
    then have "content = []" using assms(3) by simp
    then have "obj_open (obj cr) (Sequential.opens cr) ?opt = Inr (Reader [] EOF None None)"
      using I(2) None by (simp add: serves_def)
    then show ?thesis
      using assms(4) I(3) unfolding o
      by (auto simp: openSource_def resetReader_def Let_def plain_def split: option.splits)
  next
    case (Some opt)
    then have "Start opt = chunkOffset cr" by (auto split: if_splits)
    then have "int (length content) \<le> sint (Start opt)" using assms(3) by simp
    then obtain e where "obj_open (obj cr) (Sequential.opens cr) (Some opt) = Inl e"
      using assms(2) unfolding refuses_end_def by blast
    with Some have "obj_open (obj cr) (Sequential.opens cr) ?opt = Inl e" by (simp only:)
    then show ?thesis using assms(4) unfolding o by (simp add: openSource_def Let_def)
  qed
qed

lemma switchChunk_end:
  assumes "seq_inv cr content" "refuses_end (obj cr) content" "pos cr = int (length content)"
    and "switchChunk cr = (None, cr2, e)" "rc cr2 = Some rd"
  shows "rdata rd = [] \<and> rfin rd = EOF"
proof -
  have off: "sint (offset cr) = int (length content)" if "offset cr \<noteq> -1"
    using that assms(3) by (simp add: pos_def)
  consider (next_chunk) "0 <s chunkSize cr" "offset cr = chunkOffset cr + chunkSize cr"
    | (first) "\<not> (0 <s chunkSize cr \<and> offset cr = chunkOffset cr + chunkSize cr)" "offset cr = -1"
    | (same) "\<not> (0 <s chunkSize cr \<and> offset cr = chunkOffset cr + chunkSize cr)" "offset cr \<noteq> -1"
    by blast
  then show ?thesis
  proof cases
    case next_chunk
    then have e: "0 < sint (chunkSize cr)" "sint (offset cr) = sint (chunkOffset cr) + sint (chunkSize cr)"
      using chunkEnd_eq [OF assms(1)] by (auto simp: i64)
    have ne: "offset cr \<noteq> -1" using e assms(1) by (auto simp: seq_inv_def)
    have n: "seq_inv (nextChunk cr\<lparr>offset := -1\<rparr>) content"
      using assms(1) nextChunk_room [OF assms(1) ne e(1)] e(2) off [OF ne] by (simp add: seq_inv_def)
    have "openRange (nextChunk cr) = (None, cr2)" using assms(4) next_chunk
      by (auto simp: switchChunk_def Let_def split: prod.splits)
    then have "openRange (nextChunk cr\<lparr>offset := -1\<rparr>) = (None, cr2)"
      using n by (auto simp: openRange_def openSource_def resetReader_def seq_inv_def plain_def Let_def
          split: option.splits reader.splits sum.splits if_splits)
    from openRange_end [OF n _ _ this] show ?thesis using assms(2,5) off [OF ne] by simp
  next
    case first
    then have "openRange cr = (None, cr2)" "sint (chunkOffset cr) = int (length content)"
      using assms(3,4) by (auto simp: switchChunk_def Let_def pos_def split: prod.splits)
    from openRange_end [OF assms(1,2) this(2,1)] show ?thesis using assms(5) by simp
  next
    case same
    then have "cr2 = cr" using assms(4) by (auto simp: switchChunk_def Let_def)
    then have l: "loaded cr content" "rc cr = Some rd"
      using assms(1,5) same by (auto simp: seq_inv_def)
    then have "plain rd" "\<exists>m. rdata rd = take m (drop (nat (sint (offset cr))) content)"
      unfolding loaded_def by (auto split: if_splits) (metis take_all order_refl)+
    then show ?thesis using off same(2) by (auto simp: plain_def)
  qed
qed

text \<open>Any read, also one that reaches the end: what it returns are the bytes at the position.\<close>

lemma take_next:
  assumes "got = take (length got) (drop p xs)" "rest = take (length rest) (drop (p + length got) xs)"
  shows "got @ rest = take (length (got @ rest)) (drop p xs)"
proof -
  have "take (length got + length rest) (drop p xs)
      = take (length got) (drop p xs) @ take (length rest) (drop (p + length got) xs)"
    by (simp add: take_add add.commute)
  then show ?thesis using assms by simp
qed

lemma switchChunk_obj: "switchChunk cr = (err, cr', e) \<Longrightarrow> obj cr' = obj cr"
  by (auto simp: switchChunk_def openRange_def openSource_def resetReader_def nextChunk_def Let_def
      split: if_splits option.splits reader.splits prod.splits sum.splits)

lemma Read_loop_data:
  "Read_loop cr n acc = Some (out, err, cr') \<Longrightarrow> seq_inv cr content \<Longrightarrow> refuses_end (obj cr) content \<Longrightarrow>
   pos cr \<le> int (length content) \<Longrightarrow> int n \<le> max_int64 \<Longrightarrow>
   \<exists>got. out = acc @ got \<and> got = take (length got) (drop (nat (pos cr)) content)
     \<and> (err = None \<longrightarrow> length got = n \<and> seq_inv cr' content \<and> pos cr' = pos cr + int n
          \<and> obj cr' = obj cr \<and> pos cr' \<le> int (length content))"
proof (induction n arbitrary: cr acc rule: less_induct)
  case (less n)
  note inv = less.prems(2) and le = less.prems(4)
  show ?case
  proof (cases "n = 0")
    case True
    then have "Read_loop cr n acc = Some (acc, None, cr)" by (subst Read_loop.simps) simp
    then show ?thesis using less.prems True by simp
  next
    case False
    obtain e0 cr2 chunkEnd where sw: "switchChunk cr = (e0, cr2, chunkEnd)" by (metis prod_cases3)
    show ?thesis
    proof (cases e0)
      case (Some e)
      then show ?thesis using less.prems(1) False sw by (auto simp: Read_loop.simps [of cr n] Let_def)
    next
      case None
      note sw = sw [unfolded None]
      define limit where "limit = (chunkEnd - offset cr2 <s (word_of_nat n :: int64) \<and> 0 <s chunkSize cr2)"
      define m where "m = (if limit then nat (sint (chunkEnd - offset cr2)) else n)"
      have np: "\<not> (limit \<and> chunkEnd - offset cr2 \<le>s 0)"
        using less.prems(1) False sw by (auto simp: Read_loop.simps [of cr n] Let_def limit_def)
      obtain rd where rd: "rc cr2 = Some rd"
        using less.prems(1) False sw np by (cases "rc cr2") (auto simp: Read_loop.simps [of cr n] Let_def limit_def)
      obtain got1 err1 rd' where R: "ReadFull rd m = (got1, err1, rd')" by (metis prod_cases3)
      let ?cr3 = "cr2\<lparr>rc := Some rd', offset := offset cr2 + word_of_nat (length got1)\<rparr>"
      have eq: "Read_loop cr n acc = (case err1 of
          Some e \<Rightarrow> Some (acc @ got1, Some (if e = ErrUnexpectedEOF then EOF else e), ?cr3)
        | None \<Rightarrow> Read_loop ?cr3 (n - m) (acc @ got1))"
        using False sw np rd R unfolding limit_def m_def
        by (cases "chunkEnd - offset cr2 <s (word_of_nat n :: int64)"; cases "0 <s chunkSize cr2";
            subst Read_loop.simps; simp add: Let_def split: option.split)
      have m0: "0 < m" using np False by (auto simp: m_def i64)
      have nn: "sint (word_of_nat n :: int64) = int n"
        using less.prems(5) by (intro sint_of_nat64 fits64I) simp_all
      then have mn: "m \<le> n" by (auto simp: m_def limit_def i64)
      show ?thesis
      proof (cases "pos cr < int (length content)")
        case True
        from switchChunk_ready [OF inv True] obtain cr2' where
          "switchChunk cr = (None, cr2', chunkOffset cr2' + chunkSize cr2')"
          "ready cr2' content" "sint (offset cr2') = pos cr" by blast
        then have rdy: "ready cr2 content" "sint (offset cr2) = pos cr" "chunkEnd = chunkOffset cr2 + chunkSize cr2"
          using sw by auto
        have p0: "0 \<le> pos cr" using inv by (rule seq_pos_nonneg)
        have del: "delivers rd (nat (pos cr)) content" using ready_delivers [OF rdy(1)] rd rdy(2) by auto
        note g = ReadFull_delivers [OF del R]
        show ?thesis
        proof (cases err1)
          case (Some e)
          then show ?thesis using eq less.prems(1) g(1) by auto
        next
          case ok: None
          then have l: "length got1 = m" using g(2) by simp
          have "length got1 \<le> length content - nat (pos cr)" using g(1) by (metis length_drop length_take min.cobounded1)
          then have fit: "sint (offset cr2) + int m \<le> int (length content)"
            using l p0 True rdy(2) by linarith
          have lim: "sint (offset cr2) + int m \<le> sint (chunkOffset cr2) + sint (chunkSize cr2)"
            if "0 < sint (chunkSize cr2)"
            using chunk_rest [OF rdy(1) that] that nn by (simp add: m_def limit_def i64 rdy(3) split: if_splits)
          from consume [OF rdy(1) fit lim] rd R l
          have c: "seq_inv ?cr3 content" "pos ?cr3 = pos cr + int m" using rdy(2) by auto
          have "Read_loop ?cr3 (n - m) (acc @ got1) = Some (out, err, cr')" using eq less.prems(1) ok by simp
          from less.IH [OF _ this c(1)] m0 mn c(2) fit rdy(2) less.prems(3,5) switchChunk_obj [OF sw]
          obtain got2 where g2: "out = (acc @ got1) @ got2" "got2 = take (length got2) (drop (nat (pos cr + int m)) content)"
            "err = None \<longrightarrow> length got2 = n - m \<and> seq_inv cr' content \<and> pos cr' = pos cr + int m + int (n - m)
              \<and> obj cr' = obj cr \<and> pos cr' \<le> int (length content)"
            by auto
          have "nat (pos cr + int m) = nat (pos cr) + length got1" using p0 l by simp
          then have "got1 @ got2 = take (length (got1 @ got2)) (drop (nat (pos cr)) content)"
            using take_next g(1) g2(2) by metis
          moreover have "out = acc @ (got1 @ got2)" using g2(1) by simp
          moreover have "err = None \<longrightarrow> length (got1 @ got2) = n \<and> seq_inv cr' content \<and> pos cr' = pos cr + int n
              \<and> obj cr' = obj cr \<and> pos cr' \<le> int (length content)"
            using g2(3) l mn unfolding length_append by auto
          ultimately show ?thesis by blast
        qed
      next
        case False
        then have "pos cr = int (length content)" using le by simp
        from switchChunk_end [OF inv less.prems(3) this sw rd]
        have "got1 = []" "err1 = Some EOF" using R m0 by (auto simp: ReadFull_def Let_def)
        then show ?thesis using eq less.prems(1) by auto
      qed
    qed
  qed
qed

lemma Read_data:
  assumes "Read cr n = Some (got, err, cr')" "seq_inv cr content" "refuses_end (obj cr) content"
    and "pos cr \<le> int (length content)" "int n \<le> max_int64"
  shows "got = take (length got) (drop (nat (pos cr)) content)
     \<and> (err = None \<longrightarrow> length got = n \<and> seq_inv cr' content \<and> pos cr' = pos cr + int n
          \<and> obj cr' = obj cr \<and> pos cr' \<le> int (length content))"
proof -
  have "\<not> closed cr" using assms(2) by (simp add: seq_inv_def)
  then have "Read_loop cr n [] = Some (got, err, cr')" using assms(1) by (simp add: Read_def)
  from Read_loop_data [OF this assms(2-5)] show ?thesis by auto
qed

section \<open>The data invariant\<close>

lemma filled_readable:
  assumes R: "readable C w" and F: "filled (Rs (inf w)) w w' off p k"
    and p: "p = take (length p) (drop (nat off) C)" "0 \<le> off" "k \<le> length p" "off + int k \<le> int (length C)"
  shows "readable C w'"
proof -
  have M: "length (file_data w) \<le> length C"
    "\<And>q. q \<in> rset (Rs (inf w)) \<Longrightarrow> nat q < length (file_data w) \<and> file_data w ! nat q = C ! nat q"
    and wf: "wf_ranges (Rs (inf w))"
    using R by (auto simp: readable_def mirrors_def)
  have F1: "wf_ranges (Rs (inf w'))" "rset (Rs (inf w')) = rset (Rs (inf w)) \<union> {off ..< off + int k}"
    "fault (fs w') = fault (fs w)" "length (file_data w) \<le> length (file_data w')"
    "length (file_data w') \<le> max (length (file_data w)) (nat (off + int k))"
    using F unfolding filled_def by blast+
  have old: "file_data w' ! nat q = file_data w ! nat q" if "q \<in> rset (Rs (inf w))" for q
    using F that rset_bounds [OF wf that] M(2) [OF that] unfolding filled_def by (metis nat_less_iff)
  have new: "nat q < length (file_data w') \<and> file_data w' ! nat q = C ! nat q"
    if q: "q \<in> {off ..< off + int k}" "q \<notin> rset (Rs (inf w))" for q
  proof -
    have "q < int (length (file_data w')) \<and> file_data w' ! nat q = p ! nat (q - off)"
      using F q unfolding filled_def by blast
    moreover have "nat (q - off) < length p" "nat off + nat (q - off) = nat q" "nat off \<le> length C"
      using q(1) p(2-4) unfolding atLeastLessThan_iff by linarith+
    then have "p ! nat (q - off) = C ! nat q" using p(1) by (metis nth_take nth_drop)
    ultimately show ?thesis using q(1) p(2) by auto
  qed
  have "nat q < length (file_data w') \<and> file_data w' ! nat q = C ! nat q" if "q \<in> rset (Rs (inf w'))" for q
    using that F1(2,4) old M(2) new by (metis UnE order.strict_trans2)
  moreover have "length (file_data w') \<le> length C" using F1(5) M(1) p(4) by linarith
  ultimately have "mirrors C w'" using F1(1) by (simp add: mirrors_def)
  then show ?thesis using R F1(3) filled_fields [OF F] by (simp add: readable_def split: option.splits)
qed

text \<open>A downloader's reader stands at a position of the object, or it has been closed for good.\<close>

definition at_source :: "byte list \<Rightarrow> downloader \<Rightarrow> int \<Rightarrow> bool" where
  "at_source C x p \<longleftrightarrow> stop x \<and> Sequential.closed (dl_in x)
     \<or> seq_inv (dl_in x) C \<and> pos (dl_in x) = p \<and> refuses_end (obj (dl_in x)) C"

definition dl_ok :: "byte list \<Rightarrow> downloader \<Rightarrow> bool" where
  "dl_ok C x \<longleftrightarrow>
     0 \<le> sint (dl_offset x) \<and> sint (dl_offset x) \<le> int (length C) \<and> (stop x \<longrightarrow> Sequential.closed (dl_in x))
     \<and> (case phase x of
          Reading \<Rightarrow> at_source C x (sint (dl_offset x))
        | Writing p er \<Rightarrow>
            p \<noteq> [] \<and> p = take (length p) (drop (nat (sint (dl_offset x))) C)
            \<and> (er = None \<longrightarrow> at_source C x (sint (dl_offset x) + int (length p)))
        | Kicking n err p er \<Rightarrow>
            err = None \<and> n = length p \<and> er = None \<longrightarrow> at_source C x (sint (dl_offset x))
        | Closing err \<Rightarrow> err \<noteq> Some EOF
        | Counting err \<Rightarrow> err \<noteq> Some EOF
        | _ \<Rightarrow> True)"

definition src_ok :: "byte list \<Rightarrow> Downloaders \<Rightarrow> bool" where
  "src_ok C d \<longleftrightarrow> serves (src d) C \<and> refuses_end (src d) C \<and> 3 * int (length C) \<le> max_int64
     \<and> sint (ChunkSize d) \<le> max_int64 - int (length C)"

definition dinv :: "byte list \<Rightarrow> Downloaders \<Rightarrow> bool" where
  "dinv C d \<longleftrightarrow> src_ok C d \<and> readable C (item d) \<and> (\<forall>i < next_dl d. dl_ok C (dl d i)) \<and> lastErr d \<noteq> Some EOF
     \<and> (0 < errorCount d \<longrightarrow> lastErr d \<noteq> None)"

lemma Close_closed: "Sequential.closed (snd (Sequential.Close cr))"
  by (auto simp: Sequential.Close_def resetReader_def split: option.splits)

lemma stop_dl_fields [simp]:
  "dl_offset (stop_dl x) = dl_offset x" "phase (stop_dl x) = phase x" "dl_start (stop_dl x) = dl_start x"
  "maxOffset (stop_dl x) = maxOffset x" "stop (stop_dl x)" "dl_closed (stop_dl x) = dl_closed x"
  "copied (stop_dl x) = copied x"
  by (simp_all add: stop_dl_def)

lemma stop_dl_ok: "dl_ok C x \<Longrightarrow> dl_ok C (stop_dl x)"
  using Close_closed [of "dl_in x"]
  by (auto simp: dl_ok_def at_source_def stop_dl_def split: phase.splits)

lemma dl_ok_bookkeeping [simp]:
  "dl_ok C (x\<lparr>kick := b\<rparr>) = dl_ok C x" "dl_ok C (x\<lparr>maxOffset := m\<rparr>) = dl_ok C x"
  "dl_ok C (x\<lparr>skipped := k\<rparr>) = dl_ok C x"
  by (cases "phase x"; simp add: dl_ok_def at_source_def)+

lemma setRange_ok [simp]: "dl_ok C (setRange r x) = dl_ok C x"
  by (simp add: setRange_def)

lemma close_dl_ok:
  assumes "dl_ok C x" "\<And>p er. phase x \<noteq> Writing p er" "phase x \<noteq> Reading" "\<And>n e p er. phase x \<noteq> Kicking n e p er"
  shows "dl_ok C (snd (close_dl x))"
proof -
  have "stop x \<Longrightarrow> Sequential.closed (dl_in (snd (close_dl x)))"
    using assms(1) Close_closed [of "dl_in x"] by (simp add: close_dl_def split_beta dl_ok_def)
  moreover have "phase (snd (close_dl x)) = phase x" "dl_offset (snd (close_dl x)) = dl_offset x"
    "stop (snd (close_dl x)) = stop x"
    by (simp_all add: close_dl_def split_beta)
  ultimately show ?thesis using assms by (cases "phase x") (simp_all add: dl_ok_def)
qed

lemma finish_not_eof: "finish e = Closing err \<Longrightarrow> err \<noteq> Some EOF"
  by (auto simp: finish_def split: option.splits if_splits)

lemma dl_ok_finish:
  "0 \<le> sint (dl_offset x) \<Longrightarrow> sint (dl_offset x) \<le> int (length C) \<Longrightarrow> (stop x \<longrightarrow> Sequential.closed (dl_in x)) \<Longrightarrow>
   dl_ok C (x\<lparr>phase := finish e\<rparr>)"
  by (auto simp: dl_ok_def finish_def split: option.splits)

text \<open>Back in the loop of \<open>io.Copy\<close>.\<close>

lemma copy_next_ok:
  assumes "0 \<le> sint (dl_offset x)" "sint (dl_offset x) \<le> int (length C)" "stop x \<longrightarrow> Sequential.closed (dl_in x)"
    and "err = None \<and> n = length p \<and> er = None \<longrightarrow> at_source C x (sint (dl_offset x))"
  shows "dl_ok C (copy_next n err p er x)"
proof -
  let ?x = "x\<lparr>copied := copied x + word_of_nat n\<rparr>"
  have f: "dl_ok C (?x\<lparr>phase := finish e\<rparr>)" for e using assms(1-3) by (intro dl_ok_finish) simp_all
  have r: "dl_ok C (?x\<lparr>phase := Reading\<rparr>)" if "err = None" "n = length p" "er = None"
    using assms that by (simp add: dl_ok_def at_source_def)
  show ?thesis using f r by (auto simp: copy_next_def Let_def split: option.split)
qed

section \<open>The operations keep the invariant\<close>

lemma upd_dl_fields [simp]:
  "item (upd_dl i f d) = item d" "src (upd_dl i f d) = src d" "next_dl (upd_dl i f d) = next_dl d"
  "lastErr (upd_dl i f d) = lastErr d" "waiters (upd_dl i f d) = waiters d" "answers (upd_dl i f d) = answers d"
  "next_waiter (upd_dl i f d) = next_waiter d" "ChunkSize (upd_dl i f d) = ChunkSize d" "dls (upd_dl i f d) = dls d"
  "closing (upd_dl i f d) = closing d" "errorCount (upd_dl i f d) = errorCount d"
  "dl (upd_dl i f d) j = (if j = i then f (dl d i) else dl d j)"
  by (simp_all add: upd_dl_def)

lemma upd_dl_inv:
  assumes "dinv C d" "i < next_dl d \<Longrightarrow> dl_ok C (f (dl d i))"
  shows "dinv C (upd_dl i f d)"
  using assms by (auto simp: dinv_def src_ok_def)

lemma dinv_bookkeeping [simp]:
  "dinv C (d\<lparr>waiters := ws\<rparr>) = dinv C d" "dinv C (d\<lparr>answers := as\<rparr>) = dinv C d"
  "dinv C (d\<lparr>next_waiter := k\<rparr>) = dinv C d" "dinv C (d\<lparr>dls := is\<rparr>) = dinv C d"
  "dinv C (d\<lparr>closing := cl\<rparr>) = dinv C d" "dinv C (d\<lparr>cancelled := b\<rparr>) = dinv C d"
  "dinv C (d\<lparr>panicked := b\<rparr>) = dinv C d"
  by (simp_all add: dinv_def src_ok_def)

lemma countErrors_inv: "dinv C d \<Longrightarrow> err \<noteq> Some EOF \<Longrightarrow> dinv C (countErrors n err d)"
  by (auto simp: countErrors_def dinv_def src_ok_def)

lemma countErrors_fields [simp]:
  "item (countErrors n e d) = item d" "src (countErrors n e d) = src d" "waiters (countErrors n e d) = waiters d"
  "answers (countErrors n e d) = answers d" "next_waiter (countErrors n e d) = next_waiter d"
  "closing (countErrors n e d) = closing d"
  by (simp_all add: countErrors_def)

lemma removeClosed_fields [simp]:
  "item (removeClosed d) = item d" "src (removeClosed d) = src d" "waiters (removeClosed d) = waiters d"
  "answers (removeClosed d) = answers d" "next_waiter (removeClosed d) = next_waiter d"
  "closing (removeClosed d) = closing d" "dinv C (removeClosed d) = dinv C d"
  by (simp_all add: removeClosed_def)

lemma newDownloader_fields [simp]:
  "item (snd (newDownloader r d)) = item d" "src (snd (newDownloader r d)) = src d"
  "waiters (snd (newDownloader r d)) = waiters d" "answers (snd (newDownloader r d)) = answers d"
  "next_waiter (snd (newDownloader r d)) = next_waiter d" "closing (snd (newDownloader r d)) = closing d"
  by (auto simp: newDownloader_def Let_def split: sum.split)

text \<open>What \<open>_ensureDownloader\<close> leaves alone: the item and the waiters.\<close>

lemma ensure_fields [simp]:
  "item (snd (ensureDownloader r d)) = item d" "src (snd (ensureDownloader r d)) = src d"
  "waiters (snd (ensureDownloader r d)) = waiters d" "answers (snd (ensureDownloader r d)) = answers d"
  "next_waiter (snd (ensureDownloader r d)) = next_waiter d" "closing (snd (ensureDownloader r d)) = closing d"
proof -
  have n: "item d1 = item x \<and> src d1 = src x \<and> waiters d1 = waiters x \<and> answers d1 = answers x
      \<and> next_waiter d1 = next_waiter x \<and> closing d1 = closing x" if "newDownloader r' x = (e, d1)" for r' x e d1
    using newDownloader_fields [of r' x] that by simp
  show "item (snd (ensureDownloader r d)) = item d" "src (snd (ensureDownloader r d)) = src d"
    "waiters (snd (ensureDownloader r d)) = waiters d" "answers (snd (ensureDownloader r d)) = answers d"
    "next_waiter (snd (ensureDownloader r d)) = next_waiter d" "closing (snd (ensureDownloader r d)) = closing d"
    by (auto simp: ensureDownloader_def Let_def split: prod.split option.split dest!: n)
qed

lemma open_dl_ok:
  assumes "src_ok C d" "open_dl d off = Inr cr"
  shows "seq_inv cr C \<and> pos cr = sint off \<and> refuses_end (obj cr) C \<and> 0 \<le> sint off \<and> sint off \<le> int (length C)"
proof -
  obtain initial limit k1 k2 where N: "New (obj_size (src d)) (ChunkSize d) (ChunkSizeLimit d) (ChunkStreams d) = (initial, limit, k1, k2)"
    by (metis prod_cases4)
  have S: "serves (src d) C" "refuses_end (src d) C" "3 * int (length C) \<le> max_int64" "room C initial"
    using assms(1) N by (auto simp: src_ok_def New_def Let_def room_def split: if_splits)
  define new where "new = newSequential (src d) initial limit"
  have inv: "seq_inv new C" unfolding new_def by (rule newSequential_inv [OF S(1,3,4)])
  obtain p where sk: "Seek new off SeekStart = ((p, None), cr)"
    using assms(2) N by (auto simp: open_dl_def new_def split: if_splits prod.splits option.splits)
  have c: "\<not> Sequential.closed new" "obj new = src d" by (simp_all add: new_def newSequential_def)
  have t: "chunkOffset cr = p" "0 \<le> sint p" "p <s obj_size (src d)" "obj cr = src d"
    using RangeSeek_target [OF c(1) sk [unfolded Seek_def]] c(2) by auto
  have p: "p = off" using sk c by (auto simp: Seek_def RangeSeek_def Let_def split: if_splits)
  have "obj_size (src d) = word_of_nat (length C)" "fits64 (int (length C))"
    using S(1,3) by (auto simp: serves_def)
  then have "sint (obj_size (src d)) = int (length C)" by (simp add: i64)
  then have lt: "sint off < int (length C)" "0 \<le> sint off" using t(2,3) p by (simp_all add: i64)
  from Seek_law [OF inv lt(2,1)] sk have "seq_inv cr C" "pos cr = sint off" by auto
  then show ?thesis using S(2) t(4) lt by simp
qed

lemma newDownloader_inv:
  assumes "dinv C d"
  shows "dinv C (snd (newDownloader r d))"
proof (cases "open_dl d (Pos r)")
  case (Inl e)
  then show ?thesis using assms by (simp add: newDownloader_def)
next
  case (Inr cr)
  have "src_ok C d" using assms by (simp add: dinv_def)
  note o = open_dl_ok [OF this Inr]
  let ?x = "\<lparr>dl_start = Pos r, dl_offset = Pos r, maxOffset = End r, dl_in = cr, skipped = 0,
                 dl_closed = False, stop = False, kick = False, copied = 0, phase = Reading\<rparr>"
  have "dl_ok C ?x" using o by (simp add: dl_ok_def at_source_def)
  then show ?thesis
    using Inr assms by (auto simp: newDownloader_def dinv_def src_ok_def Let_def less_Suc_eq)
qed

lemma ensure_inv:
  assumes "dinv C d"
  shows "dinv C (snd (ensureDownloader r d))"
proof -
  obtain r' st where w: "wanted r d = (r', st)" by (cases "wanted r d")
  let ?d = "removeClosed d"
  obtain e d1 where n: "newDownloader r' ?d = (e, d1)" by (cases "newDownloader r' ?d")
  have i: "dinv C ?d" using assms by simp
  then have d1: "dinv C d1" using newDownloader_inv [OF i, of r'] n by simp
  have u: "dinv C (upd_dl i (setRange r') ?d)" for i
    using i by (rule upd_dl_inv) (use i in \<open>simp add: dinv_def\<close>)
  have "snd (ensureDownloader r d) \<in> {upd_dl i (setRange r') ?d |i. True} \<union> {?d, d1}
      \<union> {countErrors 0 (Some x) d1 |x. e = Some x}"
    using w n by (auto simp: ensureDownloader_def Let_def split: option.split)
  moreover have "x \<noteq> EOF" if "e = Some x" for x
    using n that by (auto simp: newDownloader_def Let_def split: sum.splits)
  ultimately show ?thesis using u i d1 countErrors_inv [OF d1] by auto
qed

lemma ensure_all_inv: "dinv C d \<Longrightarrow> dinv C (ensure_all ws d)"
  by (induction ws arbitrary: d) (auto simp: ensure_all_def ensure_inv split: prod.split)

lemma ensure_all_fields [simp]:
  "item (ensure_all ws d) = item d" "src (ensure_all ws d) = src d" "waiters (ensure_all ws d) = waiters d"
  "answers (ensure_all ws d) = answers d" "next_waiter (ensure_all ws d) = next_waiter d"
  "closing (ensure_all ws d) = closing d"
  by (induction ws arbitrary: d) (simp_all add: ensure_all_def split_beta)

lemma dispatch_fields [simp]:
  "item (dispatchWaiters d) = item d" "src (dispatchWaiters d) = src d"
  "next_waiter (dispatchWaiters d) = next_waiter d" "closing (dispatchWaiters d) = closing d"
  "dinv C (dispatchWaiters d) = dinv C d" "lastErr (dispatchWaiters d) = lastErr d"
  by (simp_all add: dispatchWaiters_def)

lemma closeWaiters_fields [simp]:
  "item (closeWaiters e d) = item d" "src (closeWaiters e d) = src d" "waiters (closeWaiters e d) = []"
  "next_waiter (closeWaiters e d) = next_waiter d" "closing (closeWaiters e d) = closing d"
  "dinv C (closeWaiters e d) = dinv C d"
  by (simp_all add: closeWaiters_def)

text \<open>The three ways \<open>kickWaiters\<close> ends.\<close>

lemma kick_cases:
  obtains "kickWaiters d = (None, dispatchWaiters d)" "waiters (dispatchWaiters d) = []"
  | d2 where "d2 = ensure_all (waiters (dispatchWaiters d)) (dispatchWaiters d)" "kickWaiters d = (None, d2)"
  | d2 where "d2 = ensure_all (waiters (dispatchWaiters d)) (dispatchWaiters d)"
      "kickWaiters d = (lastErr d2, closeWaiters (lastErr d2) d2)"
      "(\<exists>e. lastErr d2 = Some e) \<or> maxErrorCount < errorCount d2"
proof -
  let ?d2 = "ensure_all (waiters (dispatchWaiters d)) (dispatchWaiters d)"
  show ?thesis
  proof (cases "waiters (dispatchWaiters d) = []")
    case True
    then show ?thesis using that(1) by (simp add: kickWaiters_def Let_def)
  next
    case False
    show ?thesis
    proof (cases "(case lastErr ?d2 of Some e \<Rightarrow> contains (Error e) ''no space'' | None \<Rightarrow> False)
        \<or> maxErrorCount < errorCount ?d2")
      case True
      then have "(\<exists>e. lastErr ?d2 = Some e) \<or> maxErrorCount < errorCount ?d2" by (auto split: option.splits)
      then show ?thesis using that(3) [OF refl] True False by (simp add: kickWaiters_def Let_def)
    next
      case no: False
      then show ?thesis using that(2) [OF refl] False by (simp add: kickWaiters_def Let_def)
    qed
  qed
qed

lemma kick_inv: "dinv C d \<Longrightarrow> dinv C (snd (kickWaiters d))"
  by (rule kick_cases [of d]) (simp_all add: ensure_all_inv)

lemma kick_fields [simp]:
  "item (snd (kickWaiters d)) = item d" "src (snd (kickWaiters d)) = src d"
  "next_waiter (snd (kickWaiters d)) = next_waiter d" "closing (snd (kickWaiters d)) = closing d"
  by (rule kick_cases [of d]; simp)+

section \<open>Writing what has been read\<close>

lemma dl_write_ok:
  assumes W: "dl_write p w x = ((n, err), w', x')" and R: "readable C w" and ok: "dl_ok C x"
    and ph: "phase x = Writing p er" and C: "3 * int (length C) \<le> max_int64"
  shows "readable C w' \<and> filled (Rs (inf w)) w w' (sint (dl_offset x)) p n
    \<and> dl_ok C (x'\<lparr>phase := Kicking n err p er\<rparr>) \<and> dl_ok C (copy_next n err p er x')"
proof -
  let ?o = "sint (dl_offset x)"
  obtain sk err0 where w: "WriteAtNoOverwrite p (dl_offset x) w = ((n, sk, err0), w')"
    using W by (auto simp: dl_write_def Let_def split: prod.splits)
  have P: "p = take (length p) (drop (nat ?o) C)" "0 \<le> ?o" "?o \<le> int (length C)"
    "stop x \<longrightarrow> Sequential.closed (dl_in x)" "er = None \<longrightarrow> at_source C x (?o + int (length p))"
    using ok ph by (auto simp: dl_ok_def)
  have "length p \<le> length C - nat ?o" using P(1) by (metis length_drop length_take min.cobounded1)
  then have le: "?o + int (length p) \<le> int (length C)" using P(2,3) by linarith
  then have mx: "?o + int (length p) \<le> max_int64" using C by linarith
  obtain ino where fd: "fd (it w) = Some ino" using R by (auto simp: readable_def)
  have wf: "wf_ranges (Rs (inf w))" using R by (simp add: readable_def mirrors_def)
  note F = WriteAtNoOverwrite_filled [OF w fd wf P(2) mx]
  have fl: "filled (Rs (inf w)) w w' ?o p n" "n \<le> length p" "err0 = None \<Longrightarrow> n = length p" using F by auto
  have R': "readable C w'" by (rule filled_readable [OF R fl(1) P(1,2) fl(2)]) (use fl(2) le in linarith)
  have nn: "sint (word_of_nat n :: int64) = int n"
    using fl(2) mx P(2) by (intro sint_of_nat64 fits64I) linarith+
  have off: "sint (dl_offset x + word_of_nat n) = ?o + int n"
    using nn fl(2) mx P(2) by (subst sint_add64) (auto intro!: fits64I)
  define x2 where "x2 = (if sk = n then x\<lparr>skipped := skipped x + word_of_nat sk\<rparr> else x\<lparr>skipped := 0\<rparr>)
      \<lparr>dl_offset := dl_offset x + word_of_nat n\<rparr>"
  define x3 where "x3 = (if \<not> stop x2 \<and> maxSkipBytes <s skipped x2 then stop_dl x2 else x2)"
  have "dl_write p w x = ((n, if stop x3 \<and> err0 = None then Some EOF else err0), w', x3)"
    unfolding x3_def x2_def by (cases "sk = n") (simp_all add: dl_write_def Let_def w)
  then have x': "x' = (if \<not> stop x2 \<and> maxSkipBytes <s skipped x2 then stop_dl x2 else x2)"
    "err = (if stop x' \<and> err0 = None then Some EOF else err0)"
    using W by (auto simp: x3_def)
  have x2: "dl_offset x2 = dl_offset x + word_of_nat n" "dl_in x2 = dl_in x" "stop x2 = stop x"
    by (simp_all add: x2_def)
  have b: "0 \<le> sint (dl_offset x')" "sint (dl_offset x') \<le> int (length C)"
    "stop x' \<longrightarrow> Sequential.closed (dl_in x')" "sint (dl_offset x') = ?o + int n"
    using x2 off P(2,4) fl(2) le Close_closed [of "dl_in x2"] by (simp_all add: x'(1) stop_dl_def)
  have at: "at_source C x' (sint (dl_offset x'))" if "err = None" "n = length p" "er = None"
  proof -
    have ns: "\<not> stop x'" using x'(2) that(1) fl(3) by (auto split: if_splits)
    then have "x' = x2" using x'(1) by (auto split: if_splits)
    then show ?thesis using P(5) that ns x2 b(4) by (simp add: at_source_def)
  qed
  have "dl_ok C (x'\<lparr>phase := Kicking n err p er\<rparr>)" using b at by (simp add: dl_ok_def at_source_def)
  moreover have "dl_ok C (copy_next n err p er x')" using copy_next_ok [OF b(1-3)] at by blast
  ultimately show ?thesis using R' fl(1) by blast
qed

lemma write_step_inv:
  assumes "dinv C d" "i < next_dl d" "phase (dl d i) = Writing p er"
  shows "dinv C (write_step i p er d)"
proof -
  obtain n err w' x' where W: "dl_write p (item d) (dl d i) = ((n, err), w', x')" by (metis surj_pair)
  have "readable C (item d)" "dl_ok C (dl d i)" "3 * int (length C) \<le> max_int64"
    using assms by (auto simp: dinv_def src_ok_def)
  from dl_write_ok [OF W this(1,2) assms(3) this(3)]
  have o: "readable C w'" "dl_ok C (x'\<lparr>phase := Kicking n err p er\<rparr>)" "dl_ok C (copy_next n err p er x')" by auto
  have "dinv C (d\<lparr>item := w'\<rparr>)" using assms(1) o(1) by (simp add: dinv_def src_ok_def)
  then have "dinv C (upd_dl i (\<lambda>_. x'\<lparr>phase := Kicking n err p er\<rparr>) (d\<lparr>item := w'\<rparr>))"
    "dinv C (upd_dl i (\<lambda>_. copy_next n err p er x') (d\<lparr>item := w'\<rparr>))"
    using o(2,3) by (auto intro: upd_dl_inv)
  then show ?thesis using W by (cases "n = 0") (simp_all add: write_step_def)
qed

text \<open>Steps that do not write leave the item alone.\<close>

lemma read_step_inv:
  assumes "dinv C d" "i < next_dl d" "phase (dl d i) = Reading"
  shows "dinv C (read_step i d)"
proof (cases "Read (dl_in (dl d i)) 32768")
  case None
  then show ?thesis using assms(1) by (simp add: read_step_def)
next
  case (Some a)
  obtain got er cr where a: "a = (got, er, cr)" by (metis prod_cases3)
  let ?x = "dl d i" and ?o = "sint (dl_offset (dl d i))"
  have ok: "dl_ok C ?x" "3 * int (length C) \<le> max_int64" using assms by (auto simp: dinv_def src_ok_def)
  then have P: "0 \<le> ?o" "?o \<le> int (length C)" "stop ?x \<longrightarrow> Sequential.closed (dl_in ?x)" "at_source C ?x ?o"
    using assms(3) by (auto simp: dl_ok_def)
  have cl: "got = [] \<and> er = Some ErrorFileClosed \<and> cr = dl_in ?x" if "Sequential.closed (dl_in ?x)"
    using Some a that by (simp add: Read_def)
  have D: "got = take (length got) (drop (nat ?o) C) \<and> (er = None \<longrightarrow> length got = 32768 \<and> seq_inv cr C
      \<and> pos cr = ?o + 32768 \<and> obj cr = obj (dl_in ?x)) \<and> refuses_end (obj (dl_in ?x)) C"
    if "seq_inv (dl_in ?x) C" "pos (dl_in ?x) = ?o" "refuses_end (obj (dl_in ?x)) C"
    using Read_data [OF Some [unfolded a] that(1,3)] that P(2) by auto
  let ?new = "?x\<lparr>dl_in := cr, phase := (if got \<noteq> [] then Writing got er
      else case er of Some e \<Rightarrow> finish (if e = EOF then None else Some e) | None \<Rightarrow> Reading)\<rparr>"
  have fin: "dl_ok C (?x\<lparr>dl_in := cr, phase := finish e\<rparr>)" if "stop ?x \<longrightarrow> Sequential.closed cr" for e
    using dl_ok_finish [of "?x\<lparr>dl_in := cr\<rparr>" C e] P that by simp
  have "dl_ok C ?new"
  proof (cases "Sequential.closed (dl_in ?x)")
    case True
    then show ?thesis using cl fin [of "Some ErrorFileClosed"] by simp
  next
    case False
    then have ns: "\<not> stop ?x" and S: "seq_inv (dl_in ?x) C" "pos (dl_in ?x) = ?o" "refuses_end (obj (dl_in ?x)) C"
      using P(3,4) by (auto simp: at_source_def)
    note d = D [OF S]
    show ?thesis
    proof (cases "got = []")
      case True
      then have "er \<noteq> None" using d by auto
      then show ?thesis using True fin ns by auto
    next
      case got: False
      then show ?thesis using d ns P(1,2) by (auto simp: dl_ok_def at_source_def)
    qed
  qed
  then show ?thesis
    using upd_dl_inv [OF assms(1), of i "\<lambda>x. x\<lparr>dl_in := cr, phase := (if got \<noteq> [] then Writing got er
      else case er of Some e \<Rightarrow> finish (if e = EOF then None else Some e) | None \<Rightarrow> Reading)\<rparr>"] Some a
    by (simp add: read_step_def)
qed

text \<open>The set of downloaders only kicks the running ones and extends their range.\<close>

definition same_dl :: "downloader \<Rightarrow> downloader \<Rightarrow> bool" where
  "same_dl x y \<longleftrightarrow> y = x\<lparr>maxOffset := maxOffset y, kick := kick y\<rparr>"

lemma same_dl_refl [simp]: "same_dl x x" by (simp add: same_dl_def)

lemma same_dl_trans: "same_dl x y \<Longrightarrow> same_dl y z \<Longrightarrow> same_dl x z"
  by (cases x; cases y; cases z) (simp add: same_dl_def)

lemma ensure_same: "i < next_dl d \<Longrightarrow>
    same_dl (dl d i) (dl (snd (ensureDownloader r d)) i) \<and> next_dl d \<le> next_dl (snd (ensureDownloader r d))"
  by (auto simp: ensureDownloader_def newDownloader_def removeClosed_def countErrors_def setRange_def same_dl_def
      Let_def split: prod.split option.split sum.splits if_splits)

lemma ensure_all_same: "i < next_dl d \<Longrightarrow>
    same_dl (dl d i) (dl (ensure_all ws d) i) \<and> next_dl d \<le> next_dl (ensure_all ws d)"
proof (induction ws arbitrary: d)
  case (Cons w ws)
  obtain k r where w: "w = (k, r)" by (cases w)
  have e: "ensure_all (w # ws) d = ensure_all ws (snd (ensureDownloader r d))" by (simp add: ensure_all_def w)
  from ensure_same [OF Cons.prems, of r] Cons.IH [of "snd (ensureDownloader r d)"] Cons.prems
  show ?case unfolding e by (auto intro: same_dl_trans)
qed (simp add: ensure_all_def)

lemma kick_same: "i < next_dl d \<Longrightarrow>
    same_dl (dl d i) (dl (snd (kickWaiters d)) i) \<and> next_dl d \<le> next_dl (snd (kickWaiters d))"
  by (rule kick_cases [of d])
    (use ensure_all_same [of i "dispatchWaiters d"] in \<open>auto simp: dispatchWaiters_def closeWaiters_def\<close>)

lemma kick_step_inv:
  assumes "dinv C d" "i < next_dl d" "phase (dl d i) = Kicking n err p er"
  shows "dinv C (kick_step i n err p er d)"
proof -
  obtain we d1 where k: "kickWaiters d = (we, d1)" by (cases "kickWaiters d")
  have d1: "dinv C d1" using kick_inv [OF assms(1)] k by simp
  obtain m b where dl: "dl d1 i = (dl d i)\<lparr>maxOffset := m, kick := b\<rparr>"
    using kick_same [OF assms(2)] k unfolding same_dl_def by fastforce
  have x: "dl_ok C (dl d i)" using assms(1,2) by (simp add: dinv_def)
  then have P: "0 \<le> sint (dl_offset (dl d i))" "sint (dl_offset (dl d i)) \<le> int (length C)"
    "stop (dl d i) \<longrightarrow> Sequential.closed (dl_in (dl d i))"
    "err = None \<and> n = length p \<and> er = None \<longrightarrow> at_source C (dl d i) (sint (dl_offset (dl d i)))"
    using assms(3) by (auto simp: dl_ok_def)
  have "dl_ok C (copy_next n (if err = None then we else err) p er (dl d1 i))"
    using P dl by (intro copy_next_ok) (simp_all add: at_source_def)
  then show ?thesis using k d1 by (simp add: kick_step_def upd_dl_inv)
qed

lemma close_dl_step_ok:
  assumes "dl_ok C x" "phase x = Closing err"
  shows "dl_ok C ((snd (close_dl x))\<lparr>phase := Counting err\<rparr>)"
proof -
  have "dl_ok C (snd (close_dl x))" using assms by (intro close_dl_ok) simp_all
  then show ?thesis using assms by (simp add: dl_ok_def)
qed

lemma Download_inv: "dinv C d \<Longrightarrow> dinv C (Download r d)"
  using ensure_inv [of C "d\<lparr>next_waiter := Suc (next_waiter d)\<rparr>" r]
  by (auto simp: Download_def Let_def split: prod.split option.split)

lemma dstep_inv:
  assumes "dinv C d" "dstep e d = Some d'"
  shows "dinv C d'"
  using assms(2)
proof (cases e)
  case (EvDownload r)
  then show ?thesis using assms Download_inv by auto
next
  case (EvEnsure r)
  then show ?thesis using assms ensure_inv by (auto simp: EnsureDownloader_def)
next
  case (EvRead i)
  then show ?thesis using assms read_step_inv by (auto split: if_splits)
next
  case (EvWrite i)
  then show ?thesis using assms write_step_inv by (auto split: if_splits phase.splits)
next
  case (EvKicked i)
  then have s: "d' = upd_dl i (\<lambda>x. x\<lparr>kick := False\<rparr>) d"
    using assms(2) by (auto split: if_splits phase.splits)
  show ?thesis unfolding s using assms(1) by (intro upd_dl_inv) (auto simp: dinv_def)
next
  case (EvIdle i)
  then obtain p er where s: "i < next_dl d" "phase (dl d i) = Writing p er" "d' = write_step i p er (upd_dl i stop_dl d)"
    using assms(2) by (auto split: if_splits phase.splits)
  have "dl_ok C (dl d i)" using assms(1) s(1) by (simp add: dinv_def)
  then have "dinv C (upd_dl i stop_dl d)" using assms(1) stop_dl_ok by (intro upd_dl_inv)
  then show ?thesis unfolding s(3) by (rule write_step_inv) (use s in simp_all)
next
  case (EvKick i)
  then show ?thesis using assms kick_step_inv by (auto split: if_splits phase.splits)
next
  case (EvClose i)
  then obtain err where s: "i < next_dl d" "phase (dl d i) = Closing err"
    "d' = upd_dl i (\<lambda>x. (snd (close_dl x))\<lparr>phase := Counting err\<rparr>) d"
    using assms(2) by (auto split: if_splits phase.splits)
  have "dl_ok C (dl d i)" using assms(1) s(1) by (simp add: dinv_def)
  from close_dl_step_ok [OF this s(2)] show ?thesis unfolding s(3) using assms(1) by (intro upd_dl_inv)
next
  case (EvCount i)
  then obtain err where s: "i < next_dl d" "phase (dl d i) = Counting err"
    "d' = countErrors (copied (dl d i)) err (upd_dl i (\<lambda>x. x\<lparr>phase := LastKick\<rparr>) d)"
    using assms(2) by (auto split: if_splits phase.splits)
  have "dl_ok C (dl d i)" using assms(1) s(1) by (simp add: dinv_def)
  then have "err \<noteq> Some EOF" "dl_ok C ((dl d i)\<lparr>phase := LastKick\<rparr>)" using s(2) by (simp_all add: dl_ok_def)
  then show ?thesis unfolding s(3) using assms(1) by (intro countErrors_inv upd_dl_inv)
next
  case (EvLastKick i)
  then have s: "i < next_dl d" "d' = upd_dl i (\<lambda>x. x\<lparr>phase := Done\<rparr>) (snd (kickWaiters d))" "phase (dl d i) = LastKick"
    using assms(2) by (auto split: if_splits)
  have k: "dinv C (snd (kickWaiters d))" "i < next_dl (snd (kickWaiters d))"
    using kick_inv [OF assms(1)] kick_same [OF s(1)] s(1) by auto
  then have "dl_ok C (dl (snd (kickWaiters d)) i)" by (simp add: dinv_def)
  then have "dl_ok C ((dl (snd (kickWaiters d)) i)\<lparr>phase := Done\<rparr>)" by (simp add: dl_ok_def)
  then show ?thesis unfolding s(2) using k(1) by (intro upd_dl_inv)
next
  case EvTick
  then show ?thesis using assms kick_inv by (auto split: if_splits)
next
  case (EvCloseAll err)
  then show ?thesis using assms by (auto simp: Let_def split: if_splits)
next
  case EvStopNext
  then obtain i where s: "d' = upd_dl i stop_dl d" using assms(2) by (auto split: option.splits list.splits)
  show ?thesis unfolding s using assms(1) by (intro upd_dl_inv) (auto simp: dinv_def stop_dl_ok)
next
  case EvWaitNext
  then obtain i "is" err where s: "phase (dl d i) = Done"
    "d' = upd_dl i (\<lambda>x. snd (close_dl x)) (d\<lparr>closing := Some (is, err)\<rparr>)"
    using assms(2) by (auto split: option.splits list.splits if_splits)
  have "dl_ok C (snd (close_dl (dl d i)))" if "i < next_dl d"
    using assms(1) s(1) that by (intro close_dl_ok) (simp_all add: dinv_def)
  then show ?thesis unfolding s(2) using assms(1) by (intro upd_dl_inv) simp_all
next
  case EvCloseEnd
  then show ?thesis using assms by (auto simp: close_end_def split: option.splits list.splits)
qed

lemma dsched_Cons: "dsched (e # es) d = dsched es (case dstep e d of Some d' \<Rightarrow> d' | None \<Rightarrow> d)"
  by (simp add: dsched_def)

lemma dsched_inv: "dinv C d \<Longrightarrow> dinv C (dsched es d)"
  by (induction es arbitrary: d) (auto simp: dsched_Cons dsched_def [of "[]"] intro: dstep_inv split: option.split)

section \<open>Waiters\<close>

text \<open>Every call of \<open>Download\<close> is waiting or has been answered, exactly once.\<close>

definition accounted :: "Downloaders \<Rightarrow> bool" where
  "accounted d \<longleftrightarrow> mset (map fst (waiters d) @ map fst (answers d)) = mset [0 ..< next_waiter d]"

text \<open>The waiters and answers of two states, and the rest \<open>accounted\<close> depends on, agree.\<close>

definition same_waiters :: "Downloaders \<Rightarrow> Downloaders \<Rightarrow> bool" where
  "same_waiters d d' \<longleftrightarrow> waiters d' = waiters d \<and> answers d' = answers d \<and> next_waiter d' = next_waiter d"

lemma accounted_same: "same_waiters d d' \<Longrightarrow> accounted d' = accounted d"
  by (simp add: accounted_def same_waiters_def)

lemma mset_filter_map: "mset (map fst (filter (\<lambda>(_, r). \<not> P r) ws)) + mset (map fst (filter (\<lambda>(_, r). P r) ws))
    = mset (map fst ws)"
  by (induction ws) auto

lemma dispatch_accounted [simp]: "accounted (dispatchWaiters d) = accounted d"
  using mset_filter_map [of "\<lambda>r. has_range r d" "waiters d"]
  by (simp add: accounted_def dispatchWaiters_def comp_def split_beta' add_ac)

lemma closeWaiters_accounted [simp]: "accounted (closeWaiters e d) = accounted d"
  by (simp add: accounted_def closeWaiters_def comp_def split_beta' add_ac)

lemma ensure_all_same_waiters: "same_waiters d (ensure_all ws d)"
  by (simp add: same_waiters_def)

lemma kick_accounted [simp]: "accounted (snd (kickWaiters d)) = accounted d"
  by (rule kick_cases [of d]) (simp_all add: accounted_same [OF ensure_all_same_waiters])

lemma Download_accounted: "accounted d \<Longrightarrow> accounted (Download r d)"
proof -
  assume a: "accounted d"
  obtain e d1 where n: "ensureDownloader r (d\<lparr>next_waiter := Suc (next_waiter d)\<rparr>) = (e, d1)"
    by (cases "ensureDownloader r (d\<lparr>next_waiter := Suc (next_waiter d)\<rparr>)")
  have "waiters d1 = waiters d" "answers d1 = answers d" "next_waiter d1 = Suc (next_waiter d)"
    using ensure_fields [of r "d\<lparr>next_waiter := Suc (next_waiter d)\<rparr>"] n by simp_all
  then show "accounted (Download r d)"
    using a n by (auto simp: Download_def accounted_def Let_def simp del: mset_upt split: option.split)
qed

lemma write_step_fields [simp]:
  "waiters (write_step i p er d) = waiters d" "answers (write_step i p er d) = answers d"
  "next_waiter (write_step i p er d) = next_waiter d" "closing (write_step i p er d) = closing d"
  "src (write_step i p er d) = src d"
  by (simp_all add: write_step_def split_beta)

lemma read_step_fields [simp]:
  "waiters (read_step i d) = waiters d" "answers (read_step i d) = answers d"
  "next_waiter (read_step i d) = next_waiter d" "closing (read_step i d) = closing d"
  "src (read_step i d) = src d" "item (read_step i d) = item d"
  by (auto simp: read_step_def split: option.split)

lemma dstep_accounted:
  assumes "accounted d" "dstep e d = Some d'"
  shows "accounted d'"
proof -
  have [simp]: "accounted (upd_dl i f d) = accounted d" for i f d by (simp add: accounted_def)
  have [simp]: "accounted (countErrors n er d) = accounted d" for n er d by (simp add: accounted_def)
  have [simp]: "accounted (removeClosed d) = accounted d" for d by (simp add: accounted_def)
  have [simp]: "accounted (read_step i d) = accounted d" "accounted (write_step i p er d) = accounted d" for i p er d
    by (simp_all add: accounted_def)
  have [simp]: "accounted (d\<lparr>closing := c\<rparr>) = accounted d" "accounted (d\<lparr>cancelled := b, dls := l\<rparr>) = accounted d" for d b l c
    by (simp_all add: accounted_def)
  have [simp]: "accounted (kick_step i n er p er' d) = accounted d" for i n er p er' d
    using kick_accounted [of d] by (simp add: kick_step_def split_beta)
  have [simp]: "accounted (snd (ensureDownloader r d)) = accounted d" for r d
    by (rule accounted_same) (simp add: same_waiters_def)
  show ?thesis
    using assms
    by (cases e) (auto simp: Download_accounted EnsureDownloader_def close_end_def Let_def
        split: if_splits phase.splits option.splits list.splits)
qed

text \<open>An answer that reports success speaks the truth about the part of the range inside the object.\<close>

definition promised :: "Range \<Rightarrow> Downloaders \<Rightarrow> bool" where
  "promised r d \<longleftrightarrow> (file_range r \<and> lo r \<le> hi r \<longrightarrow>
     rbytes r \<inter> {..< sint (obj_size (src d))} \<subseteq> rset (Rs (inf (item d))))"

lemma has_range_promised:
  assumes "wf_ranges (Rs (inf (item d)))" "0 \<le> sint (obj_size (src d))" "has_range r d"
  shows "promised r d"
  using assms Clip_spec [of r "obj_size (src d)"] Present_iff [OF assms(1), of "Clip r (obj_size (src d))"]
  by (auto simp: promised_def has_range_def HasRange_def)

definition answered_ok :: "Downloaders \<Rightarrow> bool" where
  "answered_ok d \<longleftrightarrow> (\<forall>(k, r, e) \<in> set (answers d). e \<noteq> Some EOF \<and> (e = None \<longrightarrow> promised r d))"

text \<open>Nobody closes the downloaders with a nil error.\<close>

definition closing_ok :: "Downloaders \<Rightarrow> bool" where
  "closing_ok d \<longleftrightarrow> (case closing d of None \<Rightarrow> True | Some (_, err) \<Rightarrow> err \<noteq> None \<and> err \<noteq> Some EOF)"

definition event_ok :: "event \<Rightarrow> bool" where
  "event_ok e \<longleftrightarrow> (case e of EvCloseAll err \<Rightarrow> err \<noteq> None \<and> err \<noteq> Some EOF | _ \<Rightarrow> True)"

definition grows :: "Downloaders \<Rightarrow> Downloaders \<Rightarrow> bool" where
  "grows d d' \<longleftrightarrow> src d' = src d \<and> rset (Rs (inf (item d))) \<subseteq> rset (Rs (inf (item d')))"

lemma grows_refl [simp]: "src d' = src d \<Longrightarrow> item d' = item d \<Longrightarrow> grows d d'"
  by (simp add: grows_def)

lemma grows_trans: "grows d d1 \<Longrightarrow> grows d1 d2 \<Longrightarrow> grows d d2"
  by (auto simp: grows_def)

lemma promised_grows: "grows d d' \<Longrightarrow> promised r d \<Longrightarrow> promised r d'"
  by (auto simp: promised_def grows_def)

lemma answered_grows: "grows d d' \<Longrightarrow> answers d' = answers d \<Longrightarrow> answered_ok d \<Longrightarrow> answered_ok d'"
  using promised_grows by (fastforce simp: answered_ok_def)

lemma dinv_size:
  assumes "dinv C d"
  shows "sint (obj_size (src d)) = int (length C)" "wf_ranges (Rs (inf (item d)))"
proof -
  have "obj_size (src d) = word_of_nat (length C)" "fits64 (int (length C))"
    using assms by (auto simp: dinv_def src_ok_def serves_def)
  then show "sint (obj_size (src d)) = int (length C)" by (simp add: i64)
  show "wf_ranges (Rs (inf (item d)))" using assms by (simp add: dinv_def readable_def mirrors_def)
qed

lemma dispatch_answered:
  assumes "dinv C d" "answered_ok d"
  shows "answered_ok (dispatchWaiters d)"
proof -
  have g: "grows d (dispatchWaiters d)" by simp
  have "promised r (dispatchWaiters d)" if "has_range r d" for r
    using promised_grows [OF g] has_range_promised that dinv_size [OF assms(1)] by simp
  moreover have "\<forall>(k, r, e) \<in> set (answers d). e \<noteq> Some EOF \<and> (e = None \<longrightarrow> promised r (dispatchWaiters d))"
    using assms(2) promised_grows [OF g] by (fastforce simp: answered_ok_def)
  ultimately show ?thesis unfolding answered_ok_def by (auto simp: dispatchWaiters_def)
qed

lemma closeWaiters_answered:
  assumes "answered_ok d" "err \<noteq> None" "err \<noteq> Some EOF"
  shows "answered_ok (closeWaiters err d)"
proof -
  have g: "grows d (closeWaiters err d)" by simp
  have "\<forall>(k, r, e) \<in> set (answers d). e \<noteq> Some EOF \<and> (e = None \<longrightarrow> promised r (closeWaiters err d))"
    using assms(1) promised_grows [OF g] by (fastforce simp: answered_ok_def)
  then show ?thesis using assms(2,3) unfolding answered_ok_def by (auto simp: closeWaiters_def)
qed

lemma kick_answered:
  assumes "dinv C d" "answered_ok d"
  shows "answered_ok (snd (kickWaiters d))"
proof -
  let ?d2 = "ensure_all (waiters (dispatchWaiters d)) (dispatchWaiters d)"
  have a: "answered_ok (dispatchWaiters d)" by (rule dispatch_answered [OF assms])
  then have a2: "answered_ok ?d2" by (rule answered_grows [rotated 2]) simp_all
  have i2: "dinv C ?d2" using assms(1) by (intro ensure_all_inv) simp
  show ?thesis
  proof (rule kick_cases [of d])
    fix d2
    assume d2: "d2 = ?d2" "kickWaiters d = (lastErr d2, closeWaiters (lastErr d2) d2)"
      "(\<exists>e. lastErr d2 = Some e) \<or> maxErrorCount < errorCount d2"
    have "lastErr d2 \<noteq> Some EOF" "lastErr d2 \<noteq> None" using i2 d2(1,3) by (auto simp: dinv_def)
    then show ?thesis using d2 a2 closeWaiters_answered by simp
  qed (use a a2 in simp_all)
qed

lemma ensure_error:
  assumes "ensureDownloader r d = (Some e, d')"
  shows "e \<noteq> EOF"
  using assms by (auto simp: ensureDownloader_def Let_def split: prod.splits option.splits if_splits)

lemma Download_answered:
  assumes "dinv C d" "answered_ok d"
  shows "answered_ok (Download r d)"
proof -
  let ?d0 = "d\<lparr>next_waiter := Suc (next_waiter d)\<rparr>"
  obtain e d1 where n: "ensureDownloader r ?d0 = (e, d1)" by (cases "ensureDownloader r ?d0")
  have f: "item d1 = item d" "src d1 = src d" "answers d1 = answers d"
    using ensure_fields [of r ?d0] n by simp_all
  have p: "promised r' d1 = promised r' d" "promised r' (d1\<lparr>answers := as\<rparr>) = promised r' d"
    "promised r' (d1\<lparr>waiters := ws\<rparr>) = promised r' d" for r' as ws
    using f by (simp_all add: promised_def)
  show ?thesis
    using assms(2) n f p ensure_error [of r ?d0] by (auto simp: Download_def answered_ok_def Let_def split: option.split)
qed

lemma write_step_grows:
  assumes "dinv C d" "i < next_dl d" "phase (dl d i) = Writing p er"
  shows "grows d (write_step i p er d)"
proof -
  obtain n err w' x' where W: "dl_write p (item d) (dl d i) = ((n, err), w', x')" by (metis surj_pair)
  have "readable C (item d)" "dl_ok C (dl d i)" "3 * int (length C) \<le> max_int64"
    using assms by (auto simp: dinv_def src_ok_def)
  from dl_write_ok [OF W this(1,2) assms(3) this(3)]
  have "rset (Rs (inf (item d))) \<subseteq> rset (Rs (inf w'))" unfolding filled_def by blast
  then show ?thesis using W by (simp add: write_step_def grows_def)
qed

lemma dstep_closing_ok:
  assumes "closing_ok d" "event_ok e" "dstep e d = Some d'"
  shows "closing_ok d'"
  using assms
  by (cases e) (auto simp: closing_ok_def event_ok_def Download_def EnsureDownloader_def kick_step_def close_end_def
      Let_def split_beta split: if_splits phase.splits option.splits list.splits prod.splits)

end
