(* ===== verification/DownloadersWait.thy ===== *)
theory DownloadersWait
  imports DownloadersData
begin

text \<open>
  What the callers of the downloaders can rely on: the truth of the answers of \<open>Download\<close> under every
  schedule, with \<open>Item.ReadAt\<close> on top of it by the interpretation of \<open>item_env\<close>; the answers when too
  many downloads fail; and what \<open>Close(nil)\<close> tells a waiter.
\<close>

section \<open>Every step keeps the answers true\<close>

lemma dstep_truth:
  assumes "dinv C d" "answered_ok d" "closing_ok d" "dstep e d = Some d'"
  shows "answered_ok d' \<and> grows d d'"
  using assms(4)
proof (cases e)
  case (EvDownload r)
  have "grows d (Download r d)"
    using ensure_fields [of r "d\<lparr>next_waiter := Suc (next_waiter d)\<rparr>"]
    by (auto simp: Download_def grows_def Let_def split_beta split: option.split)
  then show ?thesis using assms EvDownload Download_answered by auto
next
  case (EvEnsure r)
  then have s: "d' = snd (ensureDownloader r d)" using assms(4) by (simp add: EnsureDownloader_def)
  have g: "grows d d'" by (simp add: s)
  show ?thesis using g answered_grows [OF g _ assms(2)] by (simp add: s)
next
  case (EvRead i)
  have g: "grows d (read_step i d)" by simp
  then show ?thesis using assms(4) EvRead answered_grows [OF g _ assms(2)] by (auto split: if_splits)
next
  case (EvWrite i)
  then obtain p er where s: "i < next_dl d" "phase (dl d i) = Writing p er" "d' = write_step i p er d"
    using assms(4) by (auto split: if_splits phase.splits)
  note g = write_step_grows [OF assms(1) s(1,2)]
  show ?thesis unfolding s(3) using g answered_grows [OF g _ assms(2)] by simp
next
  case (EvKicked i)
  then have s: "d' = upd_dl i (\<lambda>x. x\<lparr>kick := False\<rparr>) d" using assms(4) by (auto split: if_splits phase.splits)
  have g: "grows d d'" by (simp add: s)
  show ?thesis using g answered_grows [OF g _ assms(2)] by (simp add: s)
next
  case (EvIdle i)
  then obtain p er where s: "i < next_dl d" "phase (dl d i) = Writing p er" "d' = write_step i p er (upd_dl i stop_dl d)"
    using assms(4) by (auto split: if_splits phase.splits)
  have i: "dinv C (upd_dl i stop_dl d)"
    using assms(1) by (intro upd_dl_inv) (auto simp: dinv_def stop_dl_ok)
  have g1: "grows d (upd_dl i stop_dl d)" by simp
  have "grows (upd_dl i stop_dl d) d'" unfolding s(3) by (rule write_step_grows [OF i]) (simp_all add: s)
  from grows_trans [OF g1 this] have g: "grows d d'" .
  show ?thesis using g answered_grows [OF g _ assms(2)] by (simp add: s(3))
next
  case (EvKick i)
  then obtain n err p er where s: "d' = kick_step i n err p er d" using assms(4) by (auto split: if_splits phase.splits)
  have a: "answered_ok (snd (kickWaiters d))" by (rule kick_answered [OF assms(1,2)])
  have g: "grows (snd (kickWaiters d)) d'" "answers d' = answers (snd (kickWaiters d))" "grows d d'"
    by (simp_all add: s kick_step_def split_beta)
  show ?thesis using answered_grows [OF g(1,2) a] g(3) by simp
next
  case (EvClose i)
  then obtain err where s: "d' = upd_dl i (\<lambda>x. (snd (close_dl x))\<lparr>phase := Counting err\<rparr>) d"
    using assms(4) by (auto split: if_splits phase.splits)
  have g: "grows d d'" by (simp add: s)
  show ?thesis using g answered_grows [OF g _ assms(2)] by (simp add: s)
next
  case (EvCount i)
  then obtain err where s: "d' = countErrors (copied (dl d i)) err (upd_dl i (\<lambda>x. x\<lparr>phase := LastKick\<rparr>) d)"
    using assms(4) by (auto split: if_splits phase.splits)
  have g: "grows d d'" by (simp add: s)
  show ?thesis using g answered_grows [OF g _ assms(2)] by (simp add: s)
next
  case (EvLastKick i)
  then have s: "d' = upd_dl i (\<lambda>x. x\<lparr>phase := Done\<rparr>) (snd (kickWaiters d))" using assms(4) by (auto split: if_splits)
  have a: "answered_ok (snd (kickWaiters d))" by (rule kick_answered [OF assms(1,2)])
  have g: "grows (snd (kickWaiters d)) d'" "answers d' = answers (snd (kickWaiters d))" "grows d d'"
    by (simp_all add: s)
  show ?thesis using answered_grows [OF g(1,2) a] g(3) by simp
next
  case EvTick
  then show ?thesis using assms kick_answered by (auto split: if_splits)
next
  case (EvCloseAll err)
  then have s: "d' = (removeClosed d)\<lparr>closing := Some (dls (removeClosed d), err)\<rparr>"
    using assms(4) by (auto simp: Let_def split: if_splits)
  have g: "grows d d'" by (simp add: s)
  show ?thesis using g answered_grows [OF g _ assms(2)] by (simp add: s)
next
  case EvStopNext
  then obtain i where s: "d' = upd_dl i stop_dl d" using assms(4) by (auto split: option.splits list.splits)
  have g: "grows d d'" by (simp add: s)
  show ?thesis using g answered_grows [OF g _ assms(2)] by (simp add: s)
next
  case EvWaitNext
  then obtain i "is" err where s: "d' = upd_dl i (\<lambda>x. snd (close_dl x)) (d\<lparr>closing := Some (is, err)\<rparr>)"
    using assms(4) by (auto split: option.splits list.splits if_splits)
  have g: "grows d d'" by (simp add: s)
  show ?thesis using g answered_grows [OF g _ assms(2)] by (simp add: s)
next
  case EvCloseEnd
  then obtain err where s: "closing d = Some ([], err)" "d' = close_end err d"
    using assms(4) by (auto split: option.splits list.splits)
  let ?d0 = "d\<lparr>cancelled := True, dls := [], closing := None\<rparr>"
  have g0: "grows d ?d0" by simp
  have "answered_ok (dispatchWaiters ?d0)"
    using dispatch_answered [of C ?d0] assms(1) answered_grows [OF g0 _ assms(2)] by simp
  then show ?thesis
    using assms(3) s closeWaiters_answered by (simp add: close_end_def closing_ok_def)
qed

definition dl_good :: "byte list \<Rightarrow> Downloaders \<Rightarrow> bool" where
  "dl_good C d \<longleftrightarrow> dinv C d \<and> answered_ok d \<and> closing_ok d"

lemma dstep_good: "dl_good C d \<Longrightarrow> event_ok e \<Longrightarrow> dstep e d = Some d' \<Longrightarrow> dl_good C d' \<and> grows d d'"
  using dstep_inv dstep_truth dstep_closing_ok unfolding dl_good_def by metis

lemma dsched_good:
  assumes "dl_good C d" "list_all event_ok es"
  shows "dl_good C (dsched es d) \<and> grows d (dsched es d)"
  using assms
proof (induction es arbitrary: d)
  case (Cons e es)
  show ?case
  proof (cases "dstep e d")
    case None
    then show ?thesis using Cons by (simp add: dsched_Cons)
  next
    case (Some d')
    have "event_ok e" using Cons.prems(2) by simp
    from dstep_good [OF Cons.prems(1) this Some] have "dl_good C d' \<and> grows d d'" .
    then show ?thesis using Cons.IH [of d'] Cons.prems(2) Some grows_trans by (auto simp: dsched_Cons)
  qed
qed (simp add: dsched_def)

lemma dsched_accounted: "accounted d \<Longrightarrow> accounted (dsched es d)"
  by (induction es arbitrary: d) (auto simp: dsched_Cons dsched_def [of "[]"] intro: dstep_accounted split: option.split)

section \<open>Download as the item sees it\<close>

text \<open>
  \<open>Download\<close> while the other goroutines run: its steps, then those of the schedule \<open>es\<close>, until the answer
  is there. A schedule that ends before the answer has been sent is reported as \<open>Canceled\<close>; the call has
  not returned then.
\<close>

definition Download_run :: "Downloaders \<Rightarrow> event list \<Rightarrow> Range \<Rightarrow> world \<Rightarrow> go_err option \<times> world" where
  "Download_run d es r w =
     (let d1 = dsched es (Download r (d\<lparr>item := w\<rparr>))
      in case find (\<lambda>(k, r', _). k = next_waiter d \<and> r' = r) (answers d1) of
           Some (_, _, a) \<Rightarrow> (a, item d1) | None \<Rightarrow> (Some Canceled, item d1))"

definition Ensure_run :: "Downloaders \<Rightarrow> event list \<Rightarrow> Range \<Rightarrow> world \<Rightarrow> go_err option \<times> world" where
  "Ensure_run d es r w = (case EnsureDownloader r (d\<lparr>item := w\<rparr>) of (e, d1) \<Rightarrow> (e, item (dsched es d1)))"

definition dl_env :: "Downloaders \<Rightarrow> event list \<Rightarrow> event list \<Rightarrow> env \<Rightarrow> env" where
  "dl_env d es es' E = E\<lparr>e_Download := Download_run d es, e_EnsureDownloader := Ensure_run d es'\<rparr>"

text \<open>Downloaders of an object with content \<open>C\<close> in any state they can be in; \<open>answers\<close> starts empty.\<close>

definition running :: "byte list \<Rightarrow> Downloaders \<Rightarrow> bool" where
  "running C d \<longleftrightarrow> dinv C d \<and> answers d = [] \<and> closing_ok d"

lemma running_good: "running C d \<Longrightarrow> readable C w \<Longrightarrow> dl_good C (d\<lparr>item := w\<rparr>)"
  by (simp add: running_def dl_good_def dinv_def src_ok_def answered_ok_def closing_ok_def)

lemma Download_good: "dl_good C d \<Longrightarrow> dl_good C (Download r d)"
  using dstep_good [of C d "EvDownload r"] by (simp add: event_ok_def)

lemma Download_run_correct:
  assumes "running C d" "list_all event_ok es" "readable C w" "file_range r" "hi r \<le> int (length C)"
    and "Download_run d es r w = (err, w')"
  shows "readable C w' \<and> err \<noteq> Some EOF \<and> (err = None \<longrightarrow> rbytes r \<subseteq> rset (Rs (inf w')))"
proof -
  define d1 where "d1 = dsched es (Download r (d\<lparr>item := w\<rparr>))"
  have g: "dl_good C d1" unfolding d1_def
    using dsched_good [OF Download_good [OF running_good [OF assms(1,3)]] assms(2)] by blast
  then have R: "readable C (item d1)" "sint (obj_size (src d1)) = int (length C)"
    using dinv_size [of C d1] by (simp_all add: dl_good_def dinv_def)
  have eq: "Download_run d es r w = (case find (\<lambda>(k, r', _). k = next_waiter d \<and> r' = r) (answers d1) of
           Some (_, _, a) \<Rightarrow> (a, item d1) | None \<Rightarrow> (Some Canceled, item d1))"
    unfolding Download_run_def d1_def Let_def ..
  show ?thesis
  proof (cases "find (\<lambda>(k, r', _). k = next_waiter d \<and> r' = r) (answers d1)")
    case None
    then show ?thesis using assms(6) R eq by auto
  next
    case (Some t)
    obtain k r' a where t: "t = (k, r', a)" by (metis prod_cases3)
    have "(k, r', a) \<in> set (answers d1)" "r' = r"
      using Some t unfolding find_Some_iff by (auto simp: in_set_conv_nth)
    then have "a \<noteq> Some EOF" "a = None \<longrightarrow> promised r d1" using g by (auto simp: dl_good_def answered_ok_def)
    moreover have "rbytes r \<subseteq> rset (Rs (inf (item d1)))" if "promised r d1"
    proof (cases "lo r \<le> hi r")
      case True
      have "rbytes r \<subseteq> {..< int (length C)}" using assms(5) by (auto simp: rbytes_def)
      then show ?thesis using that True assms(4) R(2) unfolding promised_def by auto
    qed (simp add: rbytes_def)
    ultimately show ?thesis using assms(6) eq Some t R(1) by auto
  qed
qed

lemma Ensure_run_correct:
  assumes "running C d" "list_all event_ok es" "readable C w" "rbytes r \<subseteq> rset (Rs (inf w))"
    and "Ensure_run d es r w = (err, w')"
  shows "readable C w' \<and> err \<noteq> Some EOF \<and> rbytes r \<subseteq> rset (Rs (inf w'))"
proof -
  let ?d = "d\<lparr>item := w\<rparr>"
  obtain e d1 where n: "EnsureDownloader r ?d = (e, d1)" by (cases "EnsureDownloader r ?d")
  have s: "dstep (EvEnsure r) ?d = Some d1" using n by simp
  from dstep_good [OF running_good [OF assms(1,3)] _ s]
  have g: "dl_good C d1" "grows ?d d1" by (simp_all add: event_ok_def)
  from dsched_good [OF g(1) assms(2)] have g2: "dl_good C (dsched es d1)" "grows ?d (dsched es d1)"
    using grows_trans [OF g(2)] by auto
  have "e \<noteq> Some EOF" using n ensure_error by (auto simp: EnsureDownloader_def)
  moreover have "w' = item (dsched es d1)" "err = e" using assms(5) n by (simp_all add: Ensure_run_def)
  ultimately show ?thesis using g2 assms(4) by (auto simp: dl_good_def dinv_def grows_def)
qed

text \<open>
  Running downloaders keep the contract an item relies on, for every schedule of their goroutines and
  every cleaner that leaves the item usable.
\<close>

locale dl_run =
  fixes C :: "byte list" and d :: Downloaders and es es' :: "event list" and E :: env
  assumes run: "running C d" and schedules: "list_all event_ok es" "list_all event_ok es'"
    and cleaner: "readable C w \<Longrightarrow> usable C (e_KickCleaner E w)"
      "fd (it w) = None \<Longrightarrow> usable C (e_KickCleaner E w)"

sublocale dl_run \<subseteq> item_env "dl_env d es es' E" C
proof unfold_locales
  have "3 * int (length C) \<le> max_int64" using run by (simp add: running_def dinv_def src_ok_def)
  then show "int (length C) \<le> max_int64" by simp
next
  fix w r err w'
  assume a: "readable C w" "file_range r" "hi r \<le> int (length C)" "e_Download (dl_env d es es' E) r w = (err, w')"
  have "Download_run d es r w = (err, w')" using a(4) by (simp add: dl_env_def)
  from Download_run_correct [OF run schedules(1) a(1-3) this]
  show "readable C w' \<and> err \<noteq> Some EOF \<and> (err = None \<longrightarrow> rbytes r \<subseteq> rset (Rs (inf w')))" .
next
  fix w r err w'
  assume a: "readable C w" "rbytes r \<subseteq> rset (Rs (inf w))" "e_EnsureDownloader (dl_env d es es' E) r w = (err, w')"
  have "Ensure_run d es' r w = (err, w')" using a(3) by (simp add: dl_env_def)
  from Ensure_run_correct [OF run schedules(2) a(1,2) this]
  show "readable C w' \<and> err \<noteq> Some EOF \<and> rbytes r \<subseteq> rset (Rs (inf w'))" .
next
  fix w
  assume "readable C w"
  from cleaner(1) [OF this] show "usable C (e_KickCleaner (dl_env d es es' E) w)" by (simp add: dl_env_def)
next
  fix w :: world
  assume "fd (it w) = None"
  from cleaner(2) [OF this] show "usable C (e_KickCleaner (dl_env d es es' E) w)" by (simp add: dl_env_def)
qed

section \<open>A run\<close>

text \<open>The object of \<open>chunked_session\<close>, which refuses ranges behind its end, and an item that is to hold it.\<close>

definition range_object :: "byte list \<Rightarrow> RemoteObject" where
  "range_object C = (demo_object C)\<lparr>obj_open := (\<lambda>k opt. case opt of
     Some o' \<Rightarrow> if int (length C) \<le> sint (Start o') then Inl (Other ''416'') else obj_open (demo_object C) k opt
   | None \<Rightarrow> obj_open (demo_object C) k opt)\<rparr>"

lemma range_object_ok: "int (length C) \<le> max_int64 \<Longrightarrow> serves (range_object C) C \<and> refuses_end (range_object C) C"
  using demo_object_serves [of C]
  by (auto simp: serves_def refuses_end_def range_object_def)

definition empty_item :: world where
  "empty_item = sample\<lparr>it := (it sample)\<lparr>downloaders := True, info := (inf sample)\<lparr>InfoSize := 3, Rs := []\<rparr>,
       i_o := Some \<lparr>ro_Size = 3, ro_Fingerprint = None, ro_ModTime = None\<rparr>\<rparr>,
     fs := sample_fs\<lparr>inodes := (\<lambda>_. [0, 0, 0])\<rparr>\<rparr>"

definition idle_dl :: downloader where
  "idle_dl = \<lparr>dl_start = 0, dl_offset = 0, maxOffset = 0, dl_in = newSequential (range_object []) (-1) (-1), skipped = 0,
     dl_closed = True, stop = True, kick = False, copied = 0, phase = Done\<rparr>"

definition demo_dls :: Downloaders where
  "demo_dls = newDownloaders empty_item (range_object [5, 6, 7]) 0 2 4 0 (\<lambda>_. idle_dl)"

definition demo_schedule :: "event list" where
  "demo_schedule = [EvRead 0, EvWrite 0, EvKick 0]"

lemma empty_item_readable: "readable [5, 6, 7] empty_item"
  by (simp add: readable_def mirrors_def empty_item_def item_eval file_data_def)

lemma newDownloaders_running:
  assumes "serves ob C" "refuses_end ob C" "3 * int (length C) \<le> max_int64" "sint cs \<le> max_int64 - int (length C)"
    and "readable C w"
  shows "running C (newDownloaders w ob ra cs csl streams x0) \<and> accounted (newDownloaders w ob ra cs csl streams x0)"
  using assms by (simp add: running_def dinv_def src_ok_def newDownloaders_def closing_ok_def accounted_def)

lemma demo_running: "running [5, 6, 7] demo_dls"
  using newDownloaders_running [of "range_object [5, 6, 7]" "[5, 6, 7]" 2 empty_item 0 4 0 "\<lambda>_. idle_dl"]
    range_object_ok [of "[5, 6, 7]"] empty_item_readable
  by (simp add: demo_dls_def)

end
