(* ===== verification/ItemLife.thy ===== *)
theory ItemLife
  imports ItemWrite
begin

text \<open>
  The life of a cache item: opening, closing, restarting from disk, being checked against its remote
  object, being purged. Besides what these operations promise, the theory shows where they lose data.
\<close>

section \<open>When no system call fails\<close>

definition healthy :: "world \<Rightarrow> bool" where
  "healthy w \<longleftrightarrow> (\<forall>k. fault (fs w) k = None)"

lemma call_ok: "\<forall>k. fault f k = None \<Longrightarrow> call f = (None, f\<lparr>calls := Suc (calls f)\<rparr>)"
  by (simp add: call_def)

lemma fs_ops_ok:
  assumes "\<forall>k. fault f k = None"
  shows "fs_call f = (None, f\<lparr>calls := Suc (calls f)\<rparr>)"
    "fs_save_meta name i f = (None, f\<lparr>calls := Suc (calls f), metas := (metas f)(name \<mapsto> Some i)\<rparr>)"
    "fs_stat name f = (case files f name of Some ino \<Rightarrow> Inr (word_of_nat (length (inodes f ino)), mtimes f ino)
       | None \<Rightarrow> Inl ErrNotExist, f\<lparr>calls := Suc (calls f)\<rparr>)"
    "fs_fstat ino f = (Inr (word_of_nat (length (inodes f ino)), mtimes f ino), f\<lparr>calls := Suc (calls f)\<rparr>)"
    "fs_load_meta name f = (case metas f name of None \<Rightarrow> Inl ErrNotExist
       | Some None \<Rightarrow> Inl (Other ''corrupt JSON'') | Some (Some i) \<Rightarrow> Inr i, f\<lparr>calls := Suc (calls f)\<rparr>)"
    "files (snd (fs_remove name f)) = (files f)(name := None)" "metas (snd (fs_remove name f)) = metas f"
    "files (snd (fs_remove_meta name f)) = files f" "metas (snd (fs_remove_meta name f)) = (metas f)(name := None)"
  using assms
  by (auto simp: fs_call_def fs_save_meta_def fs_stat_def fs_fstat_def fs_load_meta_def fs_remove_def
    fs_remove_meta_def call_def split: option.splits)

lemma fs_remove_fields [simp]:
  "fault (snd (fs_remove name f)) = fault f" "inodes (snd (fs_remove name f)) = inodes f"
  "next_ino (snd (fs_remove name f)) = next_ino f"
  "fault (snd (fs_remove_meta name f)) = fault f" "inodes (snd (fs_remove_meta name f)) = inodes f"
  "files (snd (fs_remove_meta name f)) = files f" "metas (snd (fs_remove name f)) = metas f"
  "next_ino (snd (fs_remove_meta name f)) = next_ino f"
  by (auto simp: fs_remove_def fs_remove_meta_def call_def split: option.splits)

text \<open>\<open>remove\<close> empties the item and deletes both of its files.\<close>

lemma remove_fields [simp]:
  "it (snd (remove w)) = (it w)\<lparr>info := Info_clean (now w)\<rparr>" "now (snd (remove w)) = now w"
  "fault (fs (snd (remove w))) = fault (fs w)" "inodes (fs (snd (remove w))) = inodes (fs w)"
  by (simp_all add: remove_def removeFile_def removeMeta_def split_beta)

lemma remove_ok:
  assumes "healthy w"
  shows "files (fs (snd (remove w))) = (files (fs w))(i_name (it w) := None)"
    "metas (fs (snd (remove w))) = (metas (fs w))(i_name (it w) := None)"
  using assms
  by (simp_all add: remove_def removeFile_def removeMeta_def split_beta healthy_def fs_ops_ok)

lemma Info_clean_fields [simp]:
  "Rs (Info_clean t) = []" "Dirty (Info_clean t) = False" "InfoSize (Info_clean t) = 0"
  "Fingerprint (Info_clean t) = []" "ModTime (Info_clean t) = t" "ATime (Info_clean t) = t"
  by (simp_all add: Info_clean_def zero_Info_def)

section \<open>Only clean items are purged, and storing makes an item clean\<close>

text \<open>C21: an item with local modifications is safe from the cleaner, for every age limit. But
  \<open>_store\<close>, which the write-back queue calls to upload it, only clears the dirty mark: afterwards a purge
  for space deletes the item's data and metadata although no copy of the data exists anywhere else.\<close>

theorem stored_then_purged:
  assumes "healthy w" "Dirty (inf w)" "opens (it w) = 0" "\<not> graceTimer (it w)"
  shows "RemoveNotInUse age eo w = ((False, 0), w)
    \<and> (\<exists>w1 w2. store w = (None, w1) \<and> file_data w1 = file_data w \<and> Rs (inf w1) = Rs (inf w)
         \<and> RemoveNotInUse 0 False w1 = ((True, Ranges_Size (Rs (inf w))), w2)
         \<and> files (fs w2) (i_name (it w)) = None \<and> metas (fs w2) (i_name (it w)) = None \<and> Rs (inf w2) = [])"
proof -
  define w1 where "w1 = snd (save (upd_info (\<lambda>i. i\<lparr>Dirty := False\<rparr>) w))"
  have f: "it w1 = (it w)\<lparr>info := (inf w)\<lparr>Dirty := False\<rparr>\<rparr>" "inodes (fs w1) = inodes (fs w)" "healthy w1"
    using assms(1) by (simp_all add: w1_def healthy_def)
  have d: "file_data w1 = file_data w" by (rule file_data_eq) (simp_all add: f)
  have p: "RemoveNotInUse 0 False w1 = ((True, Ranges_Size (Rs (inf w))), snd (remove w1))"
    using assms(3,4) f by (simp add: RemoveNotInUse_def Let_def)
  have "store w = (None, w1)" using assms(2) by (simp add: store_def w1_def)
  then show ?thesis
    using assms p d remove_ok [OF f(3)] by (simp add: RemoveNotInUse_def f(1))
qed

section \<open>A close that fails\<close>

lemma Open_gives_up:
  assumes "guarded (open_locked E ob) w = Some (Some e, w')" "gives_up e"
  shows "Open E ob w = Some (Some e, w')"
  using assms by (simp add: Open_def eval_nat_numeral)

definition open_twice :: go_err where
  "open_twice = Wrap ''cache item: create cache file failed'' (Other ''cache item: internal error: didn't Close file'')"

lemma gives_up_open_twice: "gives_up open_twice"
  by (simp add: gives_up_def isErrNoSpace_def open_twice_def contains_def upt_rec)

text \<open>Opening an item whose file is still open from a failed close.\<close>

lemma open_stale_fd:
  assumes H: "healthy w" and I: "opens (it w) = 0" "fd (it w) = Some ino" "\<not> graceTimer (it w)" "Dirty (inf w)"
    and E: "\<And>w. e_createItemDir E w = (None, w)" and len: "int (length (file_data w)) \<le> max_int64"
  shows "\<exists>w'. open_locked E (Some ob) w = (Some open_twice, w') \<and> files (fs w') (i_name (it w)) = None
    \<and> \<not> Dirty (inf w') \<and> Rs (inf w') = []"
proof -
  let ?w1 = "upd_info (\<lambda>i. i\<lparr>ATime := now w\<rparr>) w"
  define wa where "wa = upd_it (\<lambda>i. i\<lparr>i_o := Some ob\<rparr>) (upd_info (\<lambda>i. i\<lparr>InfoSize := ro_Size ob\<rparr>)
    (if Fingerprint (inf w) \<noteq> [] then ?w1 else upd_info (\<lambda>i. i\<lparr>Fingerprint := fingerprint ob\<rparr>) ?w1))"
  have c: "checkObject (Some ob) ?w1 = (case truncateToCurrentSize wa of
      (err, w2) \<Rightarrow> (wrap_err ''cache item: open truncate failed'' err, w2))"
    using I by (simp add: checkObject_def wa_def Let_def)
  have wa: "healthy wa" "fd (it wa) = Some ino" "fs wa = fs w" "opens (it wa) = 0" "graceTimer (it wa) = False"
    "i_name (it wa) = i_name (it w)" "Dirty (inf wa)"
    using H I by (simp_all add: wa_def healthy_def)
  let ?sz = "word_of_nat (length (inodes (fs w) ino)) :: int64"
  have dw: "file_data w = inodes (fs w) ino" using I by (simp add: file_data_def)
  have sz: "\<not> ?sz <s 0"
  proof -
    have "fits64 (int (length (inodes (fs w) ino)))" using len dw by (intro fits64I) simp_all
    then show ?thesis using sint_of_nat64 by (simp add: i64)
  qed
  have hk: "\<forall>k. fault (fs w) k = None" using H by (simp add: healthy_def)
  obtain w3 where t: "truncateToCurrentSize wa = (None, w3)" "healthy w3" "fd (it w3) = Some ino" "opens (it w3) = 0"
    "graceTimer (it w3) = False" "i_name (it w3) = i_name (it w)"
    using wa sz hk fs_ops_ok(4) [OF hk] fs_ops_ok(4) [of "(fs w)\<lparr>calls := Suc (calls (fs w))\<rparr>" ino]
    by (simp add: truncateToCurrentSize_def getSize_def stat_def truncate_def truncate_fd_def sys_def healthy_def)
  let ?w4 = "upd_it (\<lambda>i. i\<lparr>opens := opens i + 1\<rparr>) w3"
  have "createFile ?w4 = (Some (Other ''cache item: internal error: didn't Close file''), ?w4)"
    using t by (simp add: createFile_def)
  then have "open_locked E (Some ob) w = (Some open_twice,
      upd_it (\<lambda>i. i\<lparr>fd := None, opens := opens i - 1\<rparr>) (snd (remove ?w4)))"
    using c t E by (simp add: open_locked_def open_create_def wrap_err_def open_twice_def Let_def)
  moreover have "healthy ?w4" using t(2) by (simp add: healthy_def)
  note remove_ok(1) [OF this]
  ultimately show ?thesis using t(6) by simp
qed

text \<open>
  The last \<open>Close\<close> of a dirty item first downloads what is missing. When that fails it returns before
  it has closed the file.
\<close>

lemma close_download_fails:
  assumes H: "healthy w" and I: "opens (it w) = 1" "fd (it w) = Some ino" "\<not> graceTimer (it w)" "Dirty (inf w)"
      "\<not> beingReset (it w)" "i_o (it w) = Some ob" "downloaders (it w)"
    and E: "\<And>r w. e_Download E r w = (Some e, w)"
    and miss: "\<not> Present (Rs (inf w)) (rg 0 (word_of_nat (length (file_data w))))"
    and len: "int (length (file_data w)) \<le> max_int64"
  shows "\<exists>w'. Close E w = Some (Some (Wrap ''cache: failed to download missing parts of cache file'' e), w')
    \<and> healthy w' \<and> opens (it w') = 0 \<and> fd (it w') = Some ino \<and> \<not> graceTimer (it w') \<and> Dirty (inf w')
    \<and> \<not> beingReset (it w') \<and> i_name (it w') = i_name (it w) \<and> files (fs w') = files (fs w)
    \<and> file_data w' = file_data w"
proof -
  define w1 where "w1 = upd_it (\<lambda>i. i\<lparr>pendingAccesses := pendingAccesses i + 1\<rparr>) w"
  define w2 where "w2 = upd_it (\<lambda>i. i\<lparr>opens := opens i - 1\<rparr>) (upd_info (\<lambda>i. i\<lparr>ATime := now w1\<rparr>) w1)"
  let ?sz = "word_of_nat (length (file_data w)) :: int64"
  define w3 where "w3 = upd_info (\<lambda>i. i\<lparr>InfoSize := ?sz\<rparr>) (w2\<lparr>fs := (fs w)\<lparr>calls := Suc (calls (fs w))\<rparr>\<rparr>)"
  have dw: "file_data w = inodes (fs w) ino" using I by (simp add: file_data_def)
  have hk: "\<forall>k. fault (fs w) k = None" using H by (simp add: healthy_def)
  have fs2: "fs w2 = fs w" "fd (it w2) = Some ino" by (simp_all add: w1_def w2_def I)
  have g: "getSize w2 = ((?sz, None), w3)"
    using fs_ops_ok(4) [OF hk] fs2 dw by (simp add: getSize_def stat_def sys_def w3_def)
  have f3: "Dirty (inf w3)" "i_o (it w3) = Some ob" "InfoSize (inf w3) = ?sz" "Rs (inf w3) = Rs (inf w)"
    "downloaders (it w3)"
    by (simp_all add: w3_def w2_def w1_def I)
  have "fits64 (int (length (file_data w)))" using len by (intro fits64I) simp_all
  then have "\<not> ?sz <s ?sz" by (simp add: i64)
  then have e: "ensure E 0 (InfoSize (inf w3)) w3 = (Some e, w3)"
    using f3 miss E by (simp add: ensure_def)
  have "actualClose E (o_WriteBack w1 \<le>s 0) w2 =
      (Some (Wrap ''cache: failed to download missing parts of cache file'' e), w3)"
    using g e f3 by (simp add: actualClose_def wrap_err_def Let_def)
  then have "close_locked E w1 = (Some (Wrap ''cache: failed to download missing parts of cache file'' e), w3)"
    using I by (simp add: close_locked_def w2_def w1_def)
  then have "Close E w = Some (Some (Wrap ''cache: failed to download missing parts of cache file'' e), postAccess w3)"
    using I by (simp add: Close_def guarded_def preAccess_def w1_def)
  moreover have "file_data (postAccess w3) = file_data w"
    by (simp add: file_data_def postAccess_def w3_def fs2(2)) (simp add: I)
  ultimately show ?thesis
    using H I by (simp add: postAccess_def w3_def w2_def w1_def healthy_def)
qed

text \<open>C22: when the last close of a modified item fails because its missing parts cannot
  be downloaded, the modified data is still there; but the file handle stays open with no opener, so the
  next open fails with an internal error and, cleaning up after it, deletes the data file with the
  modifications and the dirty mark.\<close>

theorem failed_close_loses_data:
  assumes "healthy w" "opens (it w) = 1" "fd (it w) = Some ino" "\<not> graceTimer (it w)" "Dirty (inf w)"
      "\<not> beingReset (it w)" "i_o (it w) = Some ob" "downloaders (it w)"
    and "\<And>r w. e_Download E r w = (Some e, w)" "\<And>w. e_createItemDir E w = (None, w)"
    and "\<not> Present (Rs (inf w)) (rg 0 (word_of_nat (length (file_data w))))"
    and "int (length (file_data w)) \<le> max_int64"
  shows "\<exists>w1 w2. Close E w = Some (Some (Wrap ''cache: failed to download missing parts of cache file'' e), w1)
    \<and> opens (it w1) = 0 \<and> Dirty (inf w1) \<and> files (fs w1) = files (fs w) \<and> file_data w1 = file_data w
    \<and> Open E (Some ob') w1 = Some (Some open_twice, w2)
    \<and> files (fs w2) (i_name (it w)) = None \<and> \<not> Dirty (inf w2)"
proof -
  obtain w1 where c: "Close E w = Some (Some (Wrap ''cache: failed to download missing parts of cache file'' e), w1)"
    "healthy w1" "opens (it w1) = 0" "fd (it w1) = Some ino" "\<not> graceTimer (it w1)" "Dirty (inf w1)"
    "\<not> beingReset (it w1)" "i_name (it w1) = i_name (it w)" "files (fs w1) = files (fs w)"
    "file_data w1 = file_data w"
    using close_download_fails [OF assms(1-9,11,12)] by blast
  let ?w1 = "upd_it (\<lambda>i. i\<lparr>pendingAccesses := pendingAccesses i + 1\<rparr>) w1"
  have p: "healthy ?w1" "opens (it ?w1) = 0" "fd (it ?w1) = Some ino" "\<not> graceTimer (it ?w1)" "Dirty (inf ?w1)"
    "int (length (file_data ?w1)) \<le> max_int64"
    using c assms(12) by (simp_all add: healthy_def file_data_def)
  obtain w2 where o: "open_locked E (Some ob') ?w1 = (Some open_twice, w2)"
    "files (fs w2) (i_name (it w)) = None" "\<not> Dirty (inf w2)"
    using open_stale_fd [OF p(1-5) assms(10) p(6)] c(8) by auto
  have "guarded (open_locked E (Some ob')) w1 = Some (Some open_twice, postAccess w2)"
    using c(7) o(1) by (simp add: guarded_def preAccess_def)
  from Open_gives_up [OF this gives_up_open_twice] show ?thesis
    using c o by (auto simp: postAccess_def)
qed

text \<open>An environment whose downloads fail.\<close>

definition dead_remote :: env where
  "dead_remote = \<lparr>e_Download = (\<lambda>r w. (Some (Other ''timeout''), w)), e_EnsureDownloader = (\<lambda>r w. (None, w)),
     e_CloseDownloaders = (\<lambda>w. (None, w)), e_put_conflict = (\<lambda>w. False), e_createItemDir = (\<lambda>w. (None, w)),
     e_KickCleaner = (\<lambda>w. w)\<rparr>"

definition sample_dirty :: world where
  "sample_dirty = sample\<lparr>it := (it sample)\<lparr>info := (inf sample)\<lparr>Dirty := True\<rparr>, downloaders := True,
     i_o := Some \<lparr>ro_Size = 5, ro_Fingerprint = None, ro_ModTime = None\<rparr>\<rparr>\<rparr>"

lemma sample_dirty_fields:
  "healthy sample_dirty" "opens (it sample_dirty) = 1" "fd (it sample_dirty) = Some 0"
  "\<not> graceTimer (it sample_dirty)" "Dirty (inf sample_dirty)" "\<not> beingReset (it sample_dirty)"
  "i_o (it sample_dirty) = Some \<lparr>ro_Size = 5, ro_Fingerprint = None, ro_ModTime = None\<rparr>"
  "downloaders (it sample_dirty)" "Rs (inf sample_dirty) = [rg 1 2]" "file_data sample_dirty = [0, 7, 8, 0, 0]"
  "files (fs sample_dirty) ''a'' = Some 0" "i_name (it sample_dirty) = ''a''"
  by (simp_all add: sample_dirty_def item_eval healthy_def file_data_def)

lemma failed_close_loses_data_witness:
  "\<exists>w1 w2. Close dead_remote sample_dirty =
      Some (Some (Wrap ''cache: failed to download missing parts of cache file'' (Other ''timeout'')), w1)
    \<and> Dirty (inf w1) \<and> file_data w1 = [0, 7, 8, 0, 0] \<and> files (fs w1) ''a'' = Some 0
    \<and> Open dead_remote (i_o (it sample_dirty)) w1 = Some (Some open_twice, w2)
    \<and> files (fs w2) ''a'' = None \<and> \<not> Dirty (inf w2)"
proof -
  have d: "e_Download dead_remote r w = (Some (Other ''timeout''), w)" "e_createItemDir dead_remote w = (None, w)" for r w
    by (simp_all add: dead_remote_def)
  have m: "\<not> Present (Rs (inf sample_dirty)) (rg 0 (word_of_nat (length (file_data sample_dirty))))"
  proof -
    have r: "wf_ranges [rg 1 2]" "file_range (rg 0 5)" "0 \<in> rbytes (rg 0 5)" "0 \<notin> rset [rg 1 2]"
      by (auto simp: range_eval)
    then have "\<not> Present [rg 1 2] (rg 0 5)" using Present_iff by blast
    then show ?thesis by (simp add: sample_dirty_fields)
  qed
  show ?thesis
    using failed_close_loses_data [OF sample_dirty_fields(1-8) d m,
        of "\<lparr>ro_Size = 5, ro_Fingerprint = None, ro_ModTime = None\<rparr>"]
    by (auto simp: sample_dirty_fields)
qed

lemma stored_then_purged_witness:
  "\<exists>w1 w2. store (sample_dirty\<lparr>it := (it sample_dirty)\<lparr>opens := 0, fd := None\<rparr>\<rparr>) = (None, w1)
     \<and> RemoveNotInUse 0 False w1 = ((True, 2), w2) \<and> files (fs w2) ''a'' = None"
proof -
  let ?w = "sample_dirty\<lparr>it := (it sample_dirty)\<lparr>opens := 0, fd := None\<rparr>\<rparr>"
  have w: "healthy ?w" "Dirty (inf ?w)" "opens (it ?w) = 0" "\<not> graceTimer (it ?w)" "Rs (inf ?w) = [rg 1 2]"
    "i_name (it ?w) = ''a''"
    using sample_dirty_fields by (simp_all add: healthy_def)
  have "Ranges_Size [rg 1 2] = 2" by (simp add: Ranges_Size_sum)
  then obtain w1 w2 where "store ?w = (None, w1)" "RemoveNotInUse 0 False w1 = ((True, 2), w2)"
    "files (fs w2) ''a'' = None"
    using stored_then_purged [OF w(1-4)] unfolding w(5,6) by metis
  then show ?thesis by blast
qed

end
