(* ===== verification/DownloadersRun.thy ===== *)
theory DownloadersRun
  imports DownloadersWait ItemLife
begin

text \<open>
  The downloaders and the item together. The locale \<open>dl_run\<close> is interpreted on a run that downloads an
  object of three bytes in chunks of two; the properties say what a reader gets and what becomes of a
  waiting caller.
\<close>

section \<open>A download step by step\<close>

text \<open>The downloader that \<open>Download\<close> starts for the three bytes of \<open>demo_dls\<close>, and the run of \<open>demo_schedule\<close>.\<close>

definition demo_dl :: downloader where
  "demo_dl = \<lparr>dl_start = 0, dl_offset = 0, maxOffset = 3,
     dl_in = snd (Seek (newSequential (range_object [5, 6, 7]) 2 4) 0 SeekStart),
     skipped = 0, dl_closed = False, stop = False, kick = False, copied = 0, phase = Reading\<rparr>"

lemma demo_src: "obj_size (range_object [5, 6, 7]) = 3" "src demo_dls = range_object [5, 6, 7]" "ReadAhead demo_dls = 0"
  by (simp_all add: demo_dls_def newDownloaders_def range_object_def demo_object_def)

lemma demo_fields: "next_dl demo_dls = 0" "dls demo_dls = []" "waiters demo_dls = []" "next_waiter demo_dls = 0"
  "answers demo_dls = []" "errorCount demo_dls = 0" "lastErr demo_dls = None" "ChunkSize demo_dls = 2"
  "ChunkSizeLimit demo_dls = 4" "ChunkStreams demo_dls = 0"
  by (simp_all add: demo_dls_def newDownloaders_def)

definition demo_like :: "Downloaders \<Rightarrow> bool" where
  "demo_like d \<longleftrightarrow> src d = range_object [5, 6, 7] \<and> ReadAhead d = 0 \<and> ChunkSize d = 2 \<and> ChunkSizeLimit d = 4 \<and> ChunkStreams d = 0"

lemma demo_open: "demo_like d \<Longrightarrow> open_dl d 0 = Inr (dl_in demo_dl)"
  by (simp add: open_dl_def demo_like_def demo_src New_def demo_dl_def Seek_def RangeSeek_def newSequential_def i64)

lemma FindMissing_Nil: "FindMissing [] r = r"
proof -
  have "search [] r = 0" using search_spec(1) [of "[]" r] by (simp add: wf_ranges_def)
  then show ?thesis by (simp add: FindMissing_def Find_def)
qed

lemma demo_wanted:
  assumes "demo_like d" "Rs (inf (item d)) = []" "InfoSize (inf (item d)) = 3"
  shows "wanted (rg 0 3) d = (rg 0 3, True)"
proof -
  have "Item_FindMissing (rg 0 3) (item d) = rg 0 3"
    using assms by (simp add: Item_FindMissing_def FindMissing_Nil Clip_def End_def i64)
  then show ?thesis using assms(1) by (simp add: wanted_def demo_like_def IsEmpty_def i64)
qed

lemma demo_ensure:
  assumes "demo_like d" "Rs (inf (item d)) = []" "InfoSize (inf (item d)) = 3" "\<And>i. i \<in> set (dls d) \<Longrightarrow> dl_closed (dl d i)"
  shows "ensureDownloader (rg 0 3) d =
    (None, d\<lparr>dls := [next_dl d], next_dl := Suc (next_dl d), dl := (dl d)(next_dl d := demo_dl)\<rparr>)"
proof -
  have r: "removeClosed d = d\<lparr>dls := []\<rparr>" using assms(4) by (simp add: removeClosed_def)
  have o: "open_dl (d\<lparr>dls := []\<rparr>) 0 = Inr (dl_in demo_dl)" using assms(1) by (intro demo_open) (simp add: demo_like_def)
  show ?thesis
    by (simp add: ensureDownloader_def demo_wanted [OF assms(1-3)] r newDownloader_def o Let_def)
      (simp add: demo_dl_def End_def)
qed

lemma demo_Download:
  assumes "Rs (inf w) = []" "InfoSize (inf w) = 3"
  shows "Download (rg 0 3) (demo_dls\<lparr>item := w\<rparr>) =
    demo_dls\<lparr>item := w, dls := [0], next_dl := 1, dl := (dl demo_dls)(0 := demo_dl), waiters := [(0, rg 0 3)], next_waiter := 1\<rparr>"
proof -
  have "ensureDownloader (rg 0 3) (demo_dls\<lparr>item := w, next_waiter := 1\<rparr>) = (None, demo_dls\<lparr>item := w, next_waiter := 1,
      dls := [0], next_dl := 1, dl := (dl demo_dls)(0 := demo_dl)\<rparr>)"
    using assms by (subst demo_ensure) (simp_all add: demo_like_def demo_fields demo_src)
  then show ?thesis by (simp add: Download_def Let_def demo_fields)
qed

lemmas reads = switchChunk_def openRange_def openSource_def resetReader_def ReadFull_def nextChunk_def
  newSequential_def Seek_def RangeSeek_def Read_def Read_loop.simps [of _ 32768] Read_loop.simps [of _ 32766]
  range_object_def demo_object_def

lemma demo_Read: "\<exists>cr. Read (dl_in demo_dl) 32768 = Some ([5, 6, 7], Some EOF, cr)"
  by (simp add: demo_dl_def reads i64)

lemma demo_run:
  assumes "same_item empty_item w"
  shows "\<exists>d. dsched demo_schedule (Download (rg 0 3) (demo_dls\<lparr>item := w\<rparr>)) = d \<and> answers d = [(0, rg 0 3, None)]
    \<and> fd (it (item d)) = Some 0 \<and> \<not> Dirty (inf (item d)) \<and> (\<forall>k. fault (fs (item d)) k = None)"
proof -
  have w: "Rs (inf w) = []" "InfoSize (inf w) = 3" "fd (it w) = Some 0" "\<forall>k. fault (fs w) k = None" "\<not> Dirty (inf w)"
    using assms by (simp_all add: same_item_def empty_item_def item_eval)
  let ?d1 = "Download (rg 0 3) (demo_dls\<lparr>item := w\<rparr>)"
  note d1 = demo_Download [OF w(1,2)]
  obtain cr where R: "Read (dl_in demo_dl) 32768 = Some ([5, 6, 7], Some EOF, cr)" using demo_Read by blast
  let ?x = "demo_dl\<lparr>dl_in := cr, phase := Writing [5, 6, 7] (Some EOF)\<rparr>"
  let ?d2 = "?d1\<lparr>dl := (dl demo_dls)(0 := ?x)\<rparr>"
  have s2: "dstep (EvRead 0) ?d1 = Some ?d2"
    by (simp add: d1 read_step_def R upd_dl_def) (simp add: demo_dl_def)
  obtain n sk err w1 where W: "WriteAtNoOverwrite [5, 6, 7] 0 w = ((n, sk, err), w1)" by (metis prod_cases3 surj_pair)
  from WriteAtNoOverwrite_filled [OF W w(3)] w
  have F: "n = 3" "err = None" "sk = 0" "filled [] w w1 0 [5, 6, 7] 3"
    by (auto simp: wf_ranges_def rset_def eval_nat_numeral)
  obtain y where s3: "dstep (EvWrite 0) ?d2 = Some (?d2\<lparr>item := w1, dl := (dl demo_dls)(0 := y)\<rparr>)"
      "phase y = Kicking 3 None [5, 6, 7] (Some EOF)"
    using W F by (simp add: d1 waiting_dl_def write_step_def dl_write_def demo_dl_def upd_dl_def i64 maxSkipBytes_def)
  let ?d3 = "?d2\<lparr>item := w1, dl := (dl demo_dls)(0 := y)\<rparr>"
  have I: "fd (it w1) = Some 0" "\<not> Dirty (inf w1)" "\<forall>k. fault (fs w1) k = None" "wf_ranges (Rs (inf w1))" "rset (Rs (inf w1)) = {0 ..< 3}"
    using filled_fields [OF F(4)] F(4) w by (simp_all add: filled_def rset_def)
  have "has_range (rg 0 3) ?d3"
    using Present_iff [OF I(4), of "rg 0 3"] I(5)
    by (simp add: has_range_def HasRange_def d1 demo_src Clip_def End_def i64 range_eval)
  then have K: "kickWaiters ?d3 = (None, ?d3\<lparr>waiters := [], answers := [(0, rg 0 3, None)]\<rparr>)"
    by (simp add: kickWaiters_def dispatchWaiters_def d1 demo_fields)
  have s4: "\<exists>d4. dstep (EvKick 0) ?d3 = Some d4 \<and> item d4 = w1 \<and> answers d4 = [(0, rg 0 3, None)]"
    using s3(2) K by (simp add: kick_step_def d1)
  then show ?thesis using s2 s3 I by (auto simp: demo_schedule_def dsched_Cons dsched_def [of "[]"] simp del: dstep.simps)
qed

section \<open>What a reader gets\<close>

context dl_run
begin

lemma read_right:
  assumes "ReadAt (dl_env d es es' E) n off w = Some ((b, err), w')" "readable C w" "0 \<le> sint off"
    and "sint off + int n \<le> max_int64" "err = None \<or> err = Some EOF"
  shows "b = take n (drop (nat (sint off)) C) \<and> (err = None \<longleftrightarrow> length b = n)"
  using ReadAt_correct [OF assms(1) _ assms(3,4)] assms(2,5) by (simp add: right_bytes_def usable_def)

end


interpretation demo: dl_run "[5, 6, 7]" demo_dls demo_schedule "[]" dead_remote
  by unfold_locales (simp_all add: demo_running demo_schedule_def event_ok_def dead_remote_def usable_def)

text \<open>A read of three bytes at 0 once the download has returned no error.\<close>

lemma demo_ReadAt:
  assumes "Download_run demo_dls es (rg 0 3) (upd_it (\<lambda>i. i\<lparr>pendingAccesses := 1\<rparr>) empty_item) = (None, w2)"
    and "fd (it w2) = Some 0" "\<forall>k. fault (fs w2) k = None"
    and "\<forall>ob. i_o (it w2) = Some ob \<longrightarrow> ro_Size ob = InfoSize (inf w2)"
  shows "\<exists>b err w'. ReadAt (dl_env demo_dls es [] dead_remote) 3 0 empty_item = Some ((b, err), w')
    \<and> b = take 3 (inodes (fs w2) 0) \<and> (err = None \<or> err = Some EOF) \<and> (length b = 3 \<longrightarrow> err = None)"
proof -
  let ?E = "dl_env demo_dls es [] dead_remote"
  let ?w1 = "upd_it (\<lambda>i. i\<lparr>pendingAccesses := 1\<rparr>) empty_item"
  let ?w2 = "upd_info (\<lambda>i. i\<lparr>ATime := now w2\<rparr>) w2"
  have "\<not> Present [] (rg 0 3)" using Present_iff [of "[]" "rg 0 3"] by (simp add: range_eval)
  then have E: "ensure ?E 0 3 ?w1 = (None, w2)"
    using assms(1) by (simp add: ensure_def dl_env_def empty_item_def item_eval i64)
  obtain b err w3 where F: "file_ReadAt 3 0 ?w2 = ((b, err), w3)" by (metis prod_cases3 surj_pair)
  have b: "b = take 3 (inodes (fs w2) 0)" "err = None \<or> err = Some EOF" "length b = 3 \<longrightarrow> err = None"
    using F assms(2,3) by (auto simp: file_ReadAt_def sys_def fs_ReadAt_def call_def i64 Let_def split: if_splits prod.splits)
  have "readAt ?E 3 0 ?w1 = ((b, err), w3)"
    using E F assms(2,4) by (auto simp: readAt_def empty_item_def item_eval i64 split: option.splits)
  then obtain w' where "ReadAt ?E 3 0 empty_item = Some ((b, err), w')"
    using b(2) by (auto simp: ReadAt_def guarded_def preAccess_def postAccess_def numeral_eq_Suc empty_item_def item_eval)
  then show ?thesis using b by blast
qed




section \<open>Waiting callers\<close>

text \<open>When \<open>Download\<close> waits for a range that is missing, a downloader that has not been closed covers it:
  it started at or before the first missing byte, has not to skip more than a window to get there, and its
  target is not below the end of the missing part.\<close>

theorem waiter_has_worker:
  assumes "ensureDownloader r0 d = (None, d')" "wanted r0 d = (r, True)" "Size r \<noteq> 0"
    and "sint (Pos r) \<le> max_int64 - 1048576"
  shows "\<exists>i \<in> set (dls d'). \<not> dl_closed (dl d' i) \<and> dl_start (dl d' i) \<le>s Pos r
    \<and> Pos r <s dl_offset (dl d' i) + minWindow \<and> End r \<le>s maxOffset (dl d' i)"
proof -
  let ?d = "removeClosed d"
  have open_dls: "i \<in> set (dls ?d) \<Longrightarrow> \<not> dl_closed (dl ?d i)" for i by (simp add: removeClosed_def)
  show ?thesis
  proof (cases "find (\<lambda>i. in_window r (dl ?d i)) (dls ?d)")
    case (Some i)
    then have i: "i \<in> set (dls ?d)" "in_window r (dl ?d i)" unfolding find_Some_iff by auto
    have "d' = upd_dl i (setRange r) ?d" using assms(1,2) Some by (simp add: ensureDownloader_def Let_def)
    moreover have "End r \<le>s maxOffset (setRange r (dl ?d i))" by (simp add: setRange_def i64)
    ultimately show ?thesis
      using i open_dls [OF i(1)] by (intro bexI [of _ i]) (auto simp: in_window_def setRange_def)
  next
    case None
    then obtain e where n: "newDownloader r ?d = (e, d')" "e = None"
      using assms(1-3) by (auto simp: ensureDownloader_def Let_def split: prod.splits option.splits)
    have "Pos r <s Pos r + minWindow"
      using assms(4) sint_add64 [of "Pos r" minWindow] sint_range64(1) [of "Pos r"] by (simp add: i64 minWindow_def fits64_def)
    then show ?thesis using n
      by (intro bexI [of _ "next_dl ?d"]) (auto simp: newDownloader_def Let_def i64 split: sum.splits)
  qed
qed

lemma waiter_has_worker_witness: "dls (snd (ensureDownloader (rg 0 3) demo_dls)) \<noteq> []"
proof -
  have "Rs (inf (item demo_dls)) = []" "InfoSize (inf (item demo_dls)) = 3"
    by (simp_all add: demo_dls_def newDownloaders_def empty_item_def item_eval)
  moreover have "demo_like demo_dls" "dls demo_dls = []" by (simp_all add: demo_like_def demo_src demo_fields)
  ultimately have "ensureDownloader (rg 0 3) demo_dls = (None, snd (ensureDownloader (rg 0 3) demo_dls))"
    "wanted (rg 0 3) demo_dls = (rg 0 3, True)"
    using demo_ensure [of demo_dls] demo_wanted [of demo_dls] by simp_all
  from waiter_has_worker [OF this] show ?thesis by (simp del: ensure_fields) (metis empty_iff empty_set)
qed

lemma ensure_all_errors: "errorCount d \<le> errorCount (ensure_all ws d)"
proof -
  have "errorCount d \<le> errorCount (snd (ensureDownloader r d))" for r d
    by (auto simp: ensureDownloader_def countErrors_def newDownloader_def upd_dl_def removeClosed_def Let_def
        split: prod.splits option.splits sum.splits)
  then show ?thesis by (induction ws arbitrary: d) (auto simp: ensure_all_def intro: order_trans)
qed

text \<open>After more than ten failed downloads in a row the next kick leaves nobody waiting: a caller whose
  range is there gets no error, every other one the same error, which is not nil.\<close>

theorem too_many_errors:
  assumes "dinv C d" "maxErrorCount < errorCount d" "kickWaiters d = (err, d')"
  shows "waiters d' = [] \<and> (\<exists>e. answers d' = answers d
      @ map (\<lambda>(k, r). (k, r, None)) (filter (\<lambda>(k, r). has_range r d) (waiters d))
      @ map (\<lambda>(k, r). (k, r, Some e)) (filter (\<lambda>(k, r). \<not> has_range r d) (waiters d)))"
proof -
  let ?d1 = "dispatchWaiters d" and ?ws = "filter (\<lambda>(k, r). \<not> has_range r d) (waiters d)"
  let ?d2 = "ensure_all ?ws ?d1"
  have e: "maxErrorCount < errorCount ?d2"
    using ensure_all_errors [of ?d1 ?ws] assms(2) by (simp add: dispatchWaiters_def)
  have "dinv C ?d1" using assms(1) by simp
  then have "dinv C ?d2" by (rule ensure_all_inv)
  then obtain le where l: "lastErr ?d2 = Some le" using e by (auto simp: dinv_def)
  have k: "waiters ?d1 = ?ws" by (simp add: dispatchWaiters_def)
  show ?thesis
  proof (cases "?ws = []")
    case True
    then show ?thesis using assms(3) k by (auto simp: kickWaiters_def Let_def) (auto simp: dispatchWaiters_def)
  next
    case False
    then have "d' = closeWaiters (Some le) ?d2"
      using assms(3) k e l by (auto simp: kickWaiters_def Let_def)
    then show ?thesis
      using ensure_all_same_waiters [of ?d1 ?ws] k by (auto simp: closeWaiters_def same_waiters_def) (simp add: dispatchWaiters_def)
  qed
qed

definition failing_dls :: Downloaders where
  "failing_dls = demo_dls\<lparr>waiters := [(0, rg 0 3)], next_waiter := 1, errorCount := 11, lastErr := Some (Other ''timeout'')\<rparr>"

lemma too_many_errors_witness: "waiters (snd (kickWaiters failing_dls)) = []"
proof -
  have "dinv [5, 6, 7] failing_dls" using demo_running
    by (simp add: running_def dinv_def failing_dls_def src_ok_def demo_fields)
  from too_many_errors [OF this] show ?thesis
    by (simp add: failing_dls_def maxErrorCount_def prod_eq_iff)
qed
section \<open>Close(nil)\<close>

text \<open>
  \<open>Close\<close> is always called with a nil error, which it passes to the callers that still wait. One of them is
  a read of an item that is being renamed: it goes on as if its range had been downloaded.
\<close>

definition rename_schedule :: "event list" where
  "rename_schedule = [EvCloseAll None, EvStopNext, EvRead 0, EvClose 0, EvCount 0, EvLastKick 0, EvWaitNext, EvCloseEnd]"

lemma rename_run:
  assumes "Rs (inf w) = []" "InfoSize (inf w) = 3"
  shows "Download_run demo_dls rename_schedule (rg 0 3) w = (None, w)"
proof -
  let ?d1 = "Download (rg 0 3) (demo_dls\<lparr>item := w\<rparr>)"
  note d1 = demo_Download [OF assms]
  let ?set = "\<lambda>x. (dl demo_dls)(0 := x)"
  let ?d2 = "?d1\<lparr>closing := Some ([0], None)\<rparr>"
  have s1: "dstep (EvCloseAll None) ?d1 = Some ?d2"
    by (simp add: d1 removeClosed_def demo_dl_def) (simp add: demo_dls_def newDownloaders_def)
  let ?x3 = "stop_dl demo_dl"
  have s2: "dstep EvStopNext ?d2 = Some (?d2\<lparr>dl := ?set ?x3\<rparr>)" by (simp add: d1 upd_dl_def)
  have c: "Sequential.closed (dl_in ?x3)" by (simp add: stop_dl_def demo_dl_def Close_closed)
  have R: "Read (dl_in ?x3) 32768 = Some ([], Some ErrorFileClosed, dl_in ?x3)" using c by (simp add: Read_def)
  let ?x4 = "?x3\<lparr>phase := Closing (Some (Wrap ''cache reader: failed to write to cache file'' ErrorFileClosed))\<rparr>"
  have s3: "dstep (EvRead 0) (?d2\<lparr>dl := ?set ?x3\<rparr>) = Some (?d2\<lparr>dl := ?set ?x4\<rparr>)"
    by (simp add: d1 read_step_def R upd_dl_def finish_def) (simp add: demo_dl_def)
  let ?e = "Some (Wrap ''cache reader: failed to write to cache file'' ErrorFileClosed)"
  let ?x5 = "(snd (close_dl ?x4))\<lparr>phase := Counting ?e\<rparr>"
  have s4: "dstep (EvClose 0) (?d2\<lparr>dl := ?set ?x4\<rparr>) = Some (?d2\<lparr>dl := ?set ?x5\<rparr>)" by (simp add: d1 upd_dl_def)
  let ?x6 = "?x5\<lparr>phase := LastKick\<rparr>" and ?d6 = "?d2\<lparr>errorCount := 1, lastErr := ?e\<rparr>"
  have s5: "dstep (EvCount 0) (?d2\<lparr>dl := ?set ?x5\<rparr>) = Some (?d6\<lparr>dl := ?set ?x6\<rparr>)"
    by (simp add: d1 upd_dl_def countErrors_def demo_fields)
  have x: "dl_closed ?x6" "stop ?x6" by (simp_all add: close_dl_def split_beta)
  have h: "\<not> has_range (rg 0 3) (?d6\<lparr>dl := ?set ?x6\<rparr>)"
    using Present_iff [of "[]" "rg 0 3"] assms
    by (simp add: has_range_def HasRange_def d1 demo_src Clip_def End_def i64 range_eval)
  then have "dispatchWaiters (?d6\<lparr>dl := ?set ?x6\<rparr>) = ?d6\<lparr>dl := ?set ?x6\<rparr>"
    unfolding d1 by (simp add: dispatchWaiters_def demo_dls_def newDownloaders_def)
  moreover have "\<not> contains (Error (the ?e)) ''no space''" by code_simp
  moreover have "ensureDownloader (rg 0 3) (?d6\<lparr>dl := ?set ?x6\<rparr>) =
      (None, ?d6\<lparr>dl := (?set ?x6)(1 := demo_dl), dls := [1], next_dl := 2\<rparr>)"
    using x assms by (subst demo_ensure) (simp_all add: demo_like_def demo_fields demo_src d1)
  ultimately have K: "kickWaiters (?d6\<lparr>dl := ?set ?x6\<rparr>) =
      (None, ?d6\<lparr>dl := (?set ?x6)(1 := demo_dl), dls := [1], next_dl := 2\<rparr>)"
    by (simp add: kickWaiters_def d1 ensure_all_def maxErrorCount_def Let_def)
  have s6: "dstep (EvLastKick 0) (?d6\<lparr>dl := ?set ?x6\<rparr>) =
      Some (?d6\<lparr>dl := (?set (?x6\<lparr>phase := Done\<rparr>))(1 := demo_dl), dls := [1], next_dl := 2\<rparr>)"
    using K by (simp add: d1 upd_dl_def fun_upd_twist)
  let ?d7 = "?d6\<lparr>dl := (?set (?x6\<lparr>phase := Done\<rparr>))(1 := demo_dl), dls := [1], next_dl := 2\<rparr>"
  obtain x8 where s7: "dstep EvWaitNext ?d7 = Some (?d7\<lparr>closing := Some ([], None), dl := x8\<rparr>)"
    using x(2) by (simp add: d1 upd_dl_def)
  have "\<not> has_range (rg 0 3) (?d7\<lparr>closing := None, dl := x8, dls := [], cancelled := True\<rparr>)"
    using h by (simp add: has_range_def)
  then have s8: "\<exists>d8. dstep EvCloseEnd (?d7\<lparr>closing := Some ([], None), dl := x8\<rparr>) = Some d8
      \<and> answers d8 = [(0, rg 0 3, None)] \<and> item d8 = w"
    by (simp add: close_end_def d1 closeWaiters_def dispatchWaiters_def demo_fields)
  then show ?thesis
    using s1 s2 s3 s4 s5 s6 s7
    by (auto simp: Download_run_def rename_schedule_def dsched_Cons dsched_def [of "[]"] demo_fields simp del: dstep.simps)
qed

text \<open>A rename closes the downloaders with a nil error while a read waits for them; the read then
  returns three zeros with no error, although the object holds other bytes and the ranges of the item say that
  nothing has been downloaded.\<close>

theorem read_during_rename:
  "running [5, 6, 7] demo_dls \<and> readable [5, 6, 7] empty_item
    \<and> (\<exists>w'. ReadAt (dl_env demo_dls rename_schedule [] dead_remote) 3 0 empty_item = Some (([0, 0, 0], None), w'))"
proof -
  let ?w1 = "upd_it (\<lambda>i. i\<lparr>pendingAccesses := 1\<rparr>) empty_item"
  have f: "Rs (inf ?w1) = []" "InfoSize (inf ?w1) = 3" "fd (it ?w1) = Some 0" "\<forall>k. fault (fs ?w1) k = None"
    "\<forall>ob. i_o (it ?w1) = Some ob \<longrightarrow> ro_Size ob = InfoSize (inf ?w1)" "inodes (fs ?w1) 0 = [0, 0, 0]"
    by (simp_all add: empty_item_def item_eval)
  from demo_ReadAt [OF rename_run [OF f(1,2)] f(3,4,5)] f(6) show ?thesis
    using demo_running empty_item_readable by (auto simp: numeral_eq_Suc)
qed

end
