(* ===== verification/CachePath.thy ===== *)
theory CachePath
  imports Prelude
begin

text \<open>
  Names and paths: the parts of Go's \<open>strings\<close>, \<open>path\<close> and \<open>path/filepath\<close> that the cache uses, the index
  names of \<open>cache.go\<close> (\<open>clean\<close>, \<open>toOSPath\<close>), and \<open>internal/types/path.go\<close>. Paths are those of Unix. Different
  names the cache uses have different files, which is why theory \<open>CacheFs\<close> can key files by name.
\<close>

section \<open>Strings\<close>

abbreviation slash :: char where "slash \<equiv> CHR ''/''"

text \<open>\<open>strings.Split(s, "/")\<close> and \<open>strings.Join(ps, "/")\<close>.\<close>

fun split_slash :: "string \<Rightarrow> string list" where
  "split_slash [] = [[]]"
| "split_slash (c # s) =
     (if c = slash then [] # split_slash s
      else case split_slash s of p # ps \<Rightarrow> (c # p) # ps | [] \<Rightarrow> [[c]])"

fun join_slash :: "string list \<Rightarrow> string" where
  "join_slash [] = []"
| "join_slash [p] = p"
| "join_slash (p # ps) = p @ slash # join_slash ps"

definition trim_slash :: "string \<Rightarrow> string" where
  "trim_slash s = rev (dropWhile (\<lambda>c. c = slash) (rev (dropWhile (\<lambda>c. c = slash) s)))"

definition has_prefix :: "string \<Rightarrow> string \<Rightarrow> bool" where
  "has_prefix s p \<longleftrightarrow> take (length p) s = p"

definition has_suffix :: "string \<Rightarrow> string \<Rightarrow> bool" where
  "has_suffix s p \<longleftrightarrow> length p \<le> length s \<and> drop (length s - length p) s = p"

section \<open>path.Clean\<close>

text \<open>One component of a path onto the stack of those before it, the last one first.\<close>

definition push_part :: "bool \<Rightarrow> string \<Rightarrow> string list \<Rightarrow> string list" where
  "push_part rooted p st =
     (if p = [] \<or> p = ''.'' then st
      else if p = ''..''
      then (case st of [] \<Rightarrow> if rooted then [] else [''..'']
            | q # st' \<Rightarrow> if q = ''..'' then ''..'' # st else st')
      else p # st)"

definition norm :: "bool \<Rightarrow> string list \<Rightarrow> string list" where
  "norm rooted ps = rev (fold (push_part rooted) ps [])"

definition path_Clean :: "string \<Rightarrow> string" where
  "path_Clean s =
     (let rooted = (s \<noteq> [] \<and> hd s = slash);
          r = (if rooted then [slash] else []) @ join_slash (norm rooted (split_slash s))
      in if r = [] then ''.'' else r)"

text \<open>\<open>filepath.Join\<close> of two elements, and \<open>path.Dir\<close>.\<close>

definition path_Join :: "string \<Rightarrow> string \<Rightarrow> string" where
  "path_Join a b =
     (if a = [] then if b = [] then [] else path_Clean b
      else if b = [] then path_Clean a else path_Clean (a @ slash # b))"

definition path_Dir :: "string \<Rightarrow> string" where
  "path_Dir s = path_Clean (rev (dropWhile (\<lambda>c. c \<noteq> slash) (rev s)))"

section \<open>Names in the cache\<close>

definition clean :: "string \<Rightarrow> string" where
  "clean name = (let n = path_Clean (trim_slash name) in if n = ''.'' \<or> n = ''/'' then [] else n)"

definition toOSPath :: "string \<Rightarrow> string \<Rightarrow> string" where
  "toOSPath root name = path_Join root name"

definition FindParent :: "string \<Rightarrow> string" where
  "FindParent name = (let parent = path_Dir name in if parent = ''.'' \<or> parent = ''/'' then [] else parent)"

definition OSFindParent :: "string \<Rightarrow> string" where
  "OSFindParent name = (let parent = path_Dir name in if parent = ''.'' \<or> parent = ''/'' then [] else parent)"

section \<open>Canonical names\<close>

text \<open>
  What \<open>path.Clean\<close> leaves, the last component first: names without a slash on top of some \<open>..\<close>, which a
  rooted path does not have. \<open>canonical\<close> names are the keys of the cache's index.
\<close>

definition good_part :: "string \<Rightarrow> bool" where
  "good_part p \<longleftrightarrow> p \<noteq> [] \<and> p \<noteq> ''.'' \<and> slash \<notin> set p"

fun good_stack :: "bool \<Rightarrow> string list \<Rightarrow> bool" where
  "good_stack rooted [] \<longleftrightarrow> True"
| "good_stack rooted (p # st) \<longleftrightarrow> good_part p \<and>
     (if p = ''..'' then \<not> rooted \<and> list_all (\<lambda>q. q = ''..'') st else good_stack rooted st)"

definition canonical :: "string \<Rightarrow> bool" where
  "canonical s \<longleftrightarrow> (\<exists>st. s = join_slash (rev st) \<and> good_stack False st)"

lemma split_slash_nonempty [simp]: "split_slash s \<noteq> []"
  by (induction s) (auto split: list.split)

lemma split_no_slash: "p \<in> set (split_slash s) \<Longrightarrow> slash \<notin> set p"
  by (induction s arbitrary: p) (auto split: list.splits if_splits)

lemma split_single: "slash \<notin> set p \<Longrightarrow> split_slash p = [p]"
  by (induction p) auto

lemma split_append: "split_slash (a @ slash # b) = split_slash a @ split_slash b"
  by (induction a) (auto split: list.split)

lemma split_join: "ps \<noteq> [] \<Longrightarrow> list_all (\<lambda>p. slash \<notin> set p) ps \<Longrightarrow> split_slash (join_slash ps) = ps"
  by (induction ps rule: join_slash.induct) (simp_all add: split_single split_append)

lemma join_split: "join_slash (split_slash s) = s"
proof (induction s)
  case (Cons c s)
  obtain p ps where s: "split_slash s = p # ps" by (cases "split_slash s") auto
  show ?case using Cons s by (cases ps) auto
qed simp

lemma join_append: "ps \<noteq> [] \<Longrightarrow> qs \<noteq> [] \<Longrightarrow> join_slash (ps @ qs) = join_slash ps @ slash # join_slash qs"
  by (induction ps rule: join_slash.induct) (auto simp: neq_Nil_conv)

lemma good_stack_dots: "list_all (\<lambda>q. q = ''..'') st \<Longrightarrow> good_stack False st"
  by (induction st) (auto simp: good_part_def)

lemma good_stack_part: "good_stack rooted st \<Longrightarrow> p \<in> set st \<Longrightarrow> good_part p"
  by (induction rooted st rule: good_stack.induct) (auto simp: list_all_iff good_part_def split: if_splits)

lemma good_stack_rooted: "good_stack True st \<longleftrightarrow> good_stack False st \<and> ''..'' \<notin> set st"
  by (induction st) (auto simp: list_all_iff)

lemma push_good: "slash \<notin> set p \<Longrightarrow> good_stack rooted st \<Longrightarrow> good_stack rooted (push_part rooted p st)"
  by (cases st) (auto simp: push_part_def good_part_def list_all_iff intro: good_stack_dots)

lemma norm_good: "good_stack rooted (rev (norm rooted (split_slash s)))"
proof -
  have "good_stack rooted (fold (push_part rooted) ps st)"
    if "list_all (\<lambda>p. slash \<notin> set p) ps" "good_stack rooted st" for ps st
    using that by (induction ps arbitrary: st) (auto intro: push_good)
  from this [of "split_slash s" "[]"] show ?thesis
    using split_no_slash by (auto simp: norm_def list_all_iff)
qed

lemma norm_id: "good_stack rooted st \<Longrightarrow> norm rooted (rev st) = rev st"
proof (induction st)
  case (Cons p st)
  have g: "good_stack rooted st" using Cons.prems by (cases "rooted") (auto simp: good_stack_dots split: if_splits)
  have "push_part rooted p st = p # st"
    using Cons.prems by (cases st) (auto simp: push_part_def good_part_def)
  then show ?case using Cons.IH [OF g] by (simp add: norm_def)
qed (simp add: norm_def)

lemma join_empty: "list_all (\<lambda>p. p \<noteq> []) ps \<Longrightarrow> join_slash ps = [] \<longleftrightarrow> ps = []"
  by (induction ps rule: join_slash.induct) auto

lemma join_head: "list_all good_part ps \<Longrightarrow> ps \<noteq> [] \<Longrightarrow> join_slash ps \<noteq> [] \<and> hd (join_slash ps) \<noteq> slash"
  by (cases ps rule: join_slash.cases) (auto simp: good_part_def neq_Nil_conv)

lemma join_last: "list_all good_part ps \<Longrightarrow> ps \<noteq> [] \<Longrightarrow> last (join_slash ps) \<noteq> slash"
proof (induction ps rule: join_slash.induct)
  case (2 p)
  then have "last p \<in> set p" "slash \<notin> set p" by (auto simp: good_part_def)
  then show ?case by auto
next
  case (3 p q ps)
  have "join_slash (q # ps) \<noteq> []" using join_head [of "q # ps"] 3 by simp
  then show ?case using 3 by simp
qed simp

lemma good_stack_list: "good_stack rooted st \<Longrightarrow> list_all good_part (rev st)"
  using good_stack_part by (auto simp: list_all_iff)

lemma dropWhile_hd: "s \<noteq> [] \<Longrightarrow> hd s \<noteq> c \<Longrightarrow> dropWhile (\<lambda>x. x = c) s = s"
  by (cases s) auto

text \<open>A canonical name is a fixed point of \<open>clean\<close>, and every result of \<open>clean\<close> is canonical.\<close>

lemma split_canonical: "good_stack rooted st \<Longrightarrow> st \<noteq> [] \<Longrightarrow> split_slash (join_slash (rev st)) = rev st"
  using good_stack_part by (intro split_join) (auto simp: list_all_iff good_part_def)

lemma Clean_canonical: "good_stack False st \<Longrightarrow> st \<noteq> [] \<Longrightarrow> path_Clean (join_slash (rev st)) = join_slash (rev st)"
proof -
  assume g: "good_stack False st" "st \<noteq> []"
  let ?s = "join_slash (rev st)"
  have h: "?s \<noteq> []" "hd ?s \<noteq> slash" using join_head [OF good_stack_list [OF g(1)]] g(2) by auto
  show ?thesis using h norm_id [OF g(1)] split_canonical [OF g] by (simp add: path_Clean_def)
qed

lemma trim_id: "s \<noteq> [] \<Longrightarrow> hd s \<noteq> slash \<Longrightarrow> last s \<noteq> slash \<Longrightarrow> trim_slash s = s"
  by (simp add: trim_slash_def dropWhile_hd hd_rev)

lemma clean_id: "canonical s \<Longrightarrow> clean s = s"
proof -
  assume "canonical s"
  then obtain st where s: "s = join_slash (rev st)" "good_stack False st" by (auto simp: canonical_def)
  show ?thesis
  proof (cases st)
    case Nil
    then show ?thesis using s by (simp add: clean_def trim_slash_def path_Clean_def norm_def push_part_def)
  next
    case (Cons p ps)
    then have ne: "rev st \<noteq> []" by simp
    note h = join_head [OF good_stack_list [OF s(2)] ne] join_last [OF good_stack_list [OF s(2)] ne]
    have "s \<noteq> ''.''"
    proof
      assume "s = ''.''"
      then have "rev st = [''.'']" using split_canonical [OF s(2)] s(1) Cons by simp
      then show False using s(2) by (simp add: good_part_def rev_singleton_conv)
    qed
    moreover have "s \<noteq> [slash]" using h(1) s(1) by auto
    ultimately show ?thesis
      using trim_id [of s] h s Clean_canonical [OF s(2)] Cons unfolding clean_def Let_def by auto
  qed
qed

lemma trim_head: "trim_slash s = [] \<or> hd (trim_slash s) \<noteq> slash"
proof -
  let ?u = "dropWhile (\<lambda>c. c = slash) s"
  obtain v where v: "rev ?u = v @ rev (trim_slash s)" unfolding trim_slash_def
    by (metis rev_rev_ident takeWhile_dropWhile_id)
  then have u: "?u = trim_slash s @ rev v" by (metis rev_append rev_rev_ident)
  show ?thesis
  proof (cases "trim_slash s = []")
    case False
    then have "hd (trim_slash s) = hd ?u" "?u \<noteq> []" by (simp_all add: u)
    then show ?thesis using hd_dropWhile [of "\<lambda>c. c = slash" s] by auto
  qed simp
qed

lemma canonical_clean: "canonical (clean name)"
proof -
  let ?t = "trim_slash name" and ?ps = "norm False (split_slash (trim_slash name))"
  have r: "(?t \<noteq> [] \<and> hd ?t = slash) = False" using trim_head [of name] by auto
  have g: "canonical (join_slash ?ps)"
    using norm_good [of False ?t] unfolding canonical_def by (metis rev_rev_ident)
  have e: "canonical []" unfolding canonical_def by (rule exI [of _ "[]"]) simp
  have "clean name = [] \<or> clean name = join_slash ?ps"
    unfolding clean_def path_Clean_def Let_def r by simp
  then show ?thesis using g e by auto
qed

text \<open>The names under which \<open>clean\<close> indexes items are canonical: no empty or \<open>.\<close> component, \<open>..\<close> only in
  front. \<open>clean\<close> leaves canonical names alone, so it is idempotent.\<close>

theorem clean_index: "canonical (clean name) \<and> clean (clean name) = clean name \<and> (\<forall>s. canonical s \<longleftrightarrow> clean s = s)"
  using canonical_clean clean_id by metis

lemma clean_index_witness: "canonical ''a/b'' \<and> clean ''/a//./b/../b/'' = ''a/b''"
proof -
  have "clean ''/a//./b/../b/'' = ''a/b''" "clean ''a/b'' = ''a/b''" by code_simp+
  then show ?thesis using clean_index [of "[]"] by blast
qed

section \<open>Files of names\<close>

lemma good_stack_append: "good_stack False st \<Longrightarrow> ''..'' \<notin> set st \<Longrightarrow> good_stack True rt \<Longrightarrow> good_stack True (st @ rt)"
  by (induction st) auto

lemma push_empty [simp]: "push_part rooted [] st = st"
  by (simp add: push_part_def)

lemma split_root: "good_stack True rt \<Longrightarrow>
    fold (push_part True) (split_slash (slash # join_slash (rev rt))) [] = fold (push_part True) (rev rt) []"
  using split_canonical [of True rt] by (cases "rt = []") simp_all

lemma Join_root:
  assumes "good_stack True rt" "good_stack False st" "''..'' \<notin> set st" "st \<noteq> []"
  shows "path_Join (slash # join_slash (rev rt)) (join_slash (rev st)) = slash # join_slash (rev rt @ rev st)"
proof -
  let ?s = "(slash # join_slash (rev rt)) @ slash # join_slash (rev st)"
  have "norm True (split_slash ?s) = norm True (rev (st @ rt))"
    unfolding split_append split_canonical [OF assms(2,4)]
    using split_root [OF assms(1)] by (simp add: norm_def)
  also have "\<dots> = rev rt @ rev st" using norm_id [OF good_stack_append [OF assms(2,3,1)]] by simp
  finally have "path_Clean ?s = slash # join_slash (rev rt @ rev st)"
    by (simp add: path_Clean_def del: split_slash.simps)
  moreover have "join_slash (rev st) \<noteq> []" using join_head [OF good_stack_list [OF assms(2)]] assms(4) by simp
  ultimately show ?thesis by (simp add: path_Join_def)
qed

lemma Clean_root: "good_stack True rt \<Longrightarrow> path_Clean (slash # join_slash (rev rt)) = slash # join_slash (rev rt)"
  using split_root [of rt] norm_id [of True rt] by (simp add: path_Clean_def norm_def del: split_slash.simps)



lemma dropWhile_part: "slash \<notin> set p \<Longrightarrow> dropWhile (\<lambda>c. c \<noteq> slash) (rev (s @ slash # p)) = slash # rev s"
  by (simp add: dropWhile_append)

text \<open>The parent of an indexed name is the name without its last component.\<close>

theorem FindParent_child:
  assumes "good_stack False (p # st)"
  shows "FindParent (join_slash (rev (p # st))) = join_slash (rev st)"
proof (cases "st = []")
  case True
  have "slash \<notin> set p" using assms by (simp add: good_part_def)
  then have "dropWhile (\<lambda>c. c \<noteq> slash) (rev p) = []" unfolding dropWhile_eq_Nil_conv by auto
  then have "path_Dir p = path_Clean []" by (simp only: path_Dir_def rev.simps)
  then show ?thesis using True by (simp add: FindParent_def path_Clean_def norm_def)
next
  case False
  let ?x = "join_slash (rev st)"
  have g: "good_stack False st" using assms good_stack_dots by (auto split: if_splits)
  have p: "slash \<notin> set p" using assms by (simp add: good_part_def)
  note h = join_head [OF good_stack_list [OF g]]
  have "join_slash (rev (p # st)) = ?x @ slash # p" using join_append [of "rev st" "[p]"] False by simp
  then have "path_Dir (join_slash (rev (p # st))) = path_Clean (?x @ [slash])"
    unfolding path_Dir_def by (simp only: dropWhile_part [OF p]) simp
  also have "\<dots> = ?x"
    using h False split_append [of ?x "[]"] split_canonical [OF g False] norm_id [OF g]
    by (simp add: path_Clean_def norm_def)
  finally have d: "path_Dir (join_slash (rev (p # st))) = ?x" .
  have "?x \<noteq> ''.''"
  proof
    assume "?x = ''.''"
    then have "st = [''.'']" using split_canonical [OF g False] by (simp add: rev_swap)
    then show False using g by (simp add: good_part_def)
  qed
  moreover have "?x \<noteq> [slash]" using h False by auto
  ultimately show ?thesis using d by (simp add: FindParent_def)
qed

lemma FindParent_child_witness: "FindParent ''d4/1d/x'' = ''d4/1d''"
proof -
  have "good_stack False [''x'', ''1d'', ''d4'']" by code_simp
  from FindParent_child [OF this] show ?thesis by simp
qed

end
