(* ===== verification/Cache.thy ===== *)
theory Cache
  imports ItemLife CachePath "HOL-Library.AList"
begin

text \<open>
  \<open>internal/cache/cache.go\<close>: the index of items and the cleaner. An item is an object of its own (the code
  keeps pointers), so an item that has left the index still exists for those who hold it. All items
  share the file system, the clock and the write-back queue. The loops over the index run in any order
  (\<open>c_perm\<close>). Every method is one step here. Directories are in theory \<open>CacheDirs\<close>.
\<close>

section \<open>State\<close>

text \<open>
  \<open>Cache\<close>. \<open>c_item\<close> is the map from names to items; \<open>rest\<close> holds what the items share (its own item has
  no meaning); \<open>c_kick\<close> is the channel \<open>kick\<close>, nil or with the number of buffered kicks.
\<close>

record Cache =
  c_item :: "(string \<times> nat) list"
  c_obj :: "nat \<Rightarrow> Item"
  c_next :: nat
  errItems :: "(string \<times> go_err) list"
  used :: int64
  outOfSpace :: bool
  cleanerKicked :: bool
  c_kick :: "nat option"
  rest :: world
  CacheMaxAge :: int64
  CacheMaxSize :: int64
  CacheMinFreeSpace :: int64
  CachePollInterval :: int64

text \<open>
  What surrounds the cache: the environment of each item, the free space \<open>statfs\<close> reports, whether the
  root directory is there, and the order in which a loop over a map visits its keys.
\<close>

record cenv =
  c_env :: "nat \<Rightarrow> env"
  c_avail :: "world \<Rightarrow> go_err + int64"
  c_root :: "world \<Rightarrow> bool"
  c_perm :: "string list \<Rightarrow> string list"

text \<open>The world as item \<open>k\<close> sees it, and an operation of that item.\<close>

definition at :: "nat \<Rightarrow> Cache \<Rightarrow> world" where
  "at k c = (rest c)\<lparr>it := c_obj c k\<rparr>"

definition put_back :: "nat \<Rightarrow> world \<Rightarrow> Cache \<Rightarrow> Cache" where
  "put_back k w c = c\<lparr>c_obj := (c_obj c)(k := it w), rest := w\<rparr>"

definition run_item :: "nat \<Rightarrow> (world \<Rightarrow> 'a \<times> world) \<Rightarrow> Cache \<Rightarrow> 'a \<times> Cache" where
  "run_item k f c = (case f (at k c) of (r, w) \<Rightarrow> (r, put_back k w c))"

abbreviation obj_info :: "Cache \<Rightarrow> nat \<Rightarrow> Info" where
  "obj_info c k \<equiv> info (c_obj c k)"

section \<open>The index\<close>

text \<open>\<open>_get\<close>, \<open>get\<close> and \<open>Item\<close>: the item, and whether it was there.\<close>

definition get0 :: "string \<Rightarrow> Cache \<Rightarrow> (nat \<times> bool) \<times> Cache" where
  "get0 name c =
     (case map_of (c_item c) name of
        Some k \<Rightarrow> ((k, True), c)
      | None \<Rightarrow>
          let k = c_next c; c1 = put_back k (newItem name (rest c)) c
          in ((k, False), c1\<lparr>c_next := Suc k, c_item := AList.update name k (c_item c1)\<rparr>))"

definition get :: "string \<Rightarrow> Cache \<Rightarrow> (nat \<times> bool) \<times> Cache" where
  "get name c = get0 (clean name) c"

definition Item_op :: "string \<Rightarrow> Cache \<Rightarrow> nat \<times> Cache" where
  "Item_op name c = (case get name c of ((k, _), c1) \<Rightarrow> (k, c1))"

text \<open>\<open>put\<close> returns another item that was there.\<close>

definition put :: "string \<Rightarrow> nat \<Rightarrow> Cache \<Rightarrow> nat option \<times> Cache" where
  "put name k c =
     (let old = map_of (c_item c) (clean name)
      in if old \<noteq> Some k then (old, c\<lparr>c_item := AList.update (clean name) k (c_item c)\<rparr>) else (None, c))"

definition Cache_InUse :: "string \<Rightarrow> Cache \<Rightarrow> bool" where
  "Cache_InUse name c = (case map_of (c_item c) (clean name) of None \<Rightarrow> False | Some k \<Rightarrow> inUse (at k c))"

definition DirtyItem :: "string \<Rightarrow> Cache \<Rightarrow> nat option" where
  "DirtyItem name c = (case map_of (c_item c) (clean name) of
     Some k \<Rightarrow> if Dirty (obj_info c k) then Some k else None | None \<Rightarrow> None)"

definition Cache_Exists :: "string \<Rightarrow> Cache \<Rightarrow> bool \<times> Cache" where
  "Cache_Exists name c = (case get name c of ((k, _), c1) \<Rightarrow> run_item k exists_file c1)"

text \<open>\<open>Rename\<close>: the index is searched for the name as it is given. \<open>None\<close>: waiting for a reset.\<close>

definition move_index :: "string \<Rightarrow> string \<Rightarrow> Cache \<Rightarrow> Cache" where
  "move_index name newName c =
     (case map_of (c_item c) name of
        Some k \<Rightarrow> c\<lparr>c_item := AList.delete name (AList.update newName k (c_item c))\<rparr>
      | None \<Rightarrow> c)"

definition Rename :: "cenv \<Rightarrow> string \<Rightarrow> string \<Rightarrow> remote option \<Rightarrow> Cache \<Rightarrow> (go_err option \<times> Cache) option" where
  "Rename E name newName newObj c =
     (case get name c of
        ((k, _), c1) \<Rightarrow>
          (case rename_item (c_env E k) name newName newObj (at k c1) of
             None \<Rightarrow> None
           | Some (Some e, w) \<Rightarrow> Some (Some e, put_back k w c1)
           | Some (None, w) \<Rightarrow> Some (None, move_index name newName (put_back k w c1))))"

text \<open>\<open>DirRename\<close>: the last error is returned. The directory itself is removed by \<open>purgeEmptyDirs\<close>.\<close>

definition with_slash :: "string \<Rightarrow> string" where
  "with_slash d = (if has_suffix d ''/'' then d else d @ ''/'')"

fun rename_all :: "cenv \<Rightarrow> string \<Rightarrow> string \<Rightarrow> string list \<Rightarrow> go_err option \<Rightarrow> Cache \<Rightarrow> (go_err option \<times> Cache) option" where
  "rename_all E old new [] err c = Some (err, c)"
| "rename_all E old new (n # ns) err c =
     (case Rename E n (new @ drop (length old) n) None c of
        None \<Rightarrow> None
      | Some (e, c1) \<Rightarrow> rename_all E old new ns (if e \<noteq> None then e else err) c1)"

definition DirRename :: "cenv \<Rightarrow> string \<Rightarrow> string \<Rightarrow> Cache \<Rightarrow> (go_err option \<times> Cache) option" where
  "DirRename E oldDir newDir c =
     (let old = with_slash oldDir; new = with_slash newDir
      in rename_all E old new (filter (\<lambda>n. has_prefix n old) (c_perm E (map fst (c_item c)))) None c)"

text \<open>\<open>Remove\<close>: whether the item was waiting to be uploaded.\<close>

definition Cache_Remove :: "string \<Rightarrow> Cache \<Rightarrow> bool \<times> Cache" where
  "Cache_Remove name c =
     (case map_of (c_item c) (clean name) of
        None \<Rightarrow> (False, c)
      | Some k \<Rightarrow> run_item k remove (c\<lparr>c_item := AList.delete (clean name) (c_item c)\<rparr>))"

definition SetModTime :: "string \<Rightarrow> time \<Rightarrow> Cache \<Rightarrow> Cache" where
  "SetModTime name t c =
     (case get name c of ((k, _), c1) \<Rightarrow> snd (run_item k (\<lambda>w. ((), setModTime t w)) c1))"

text \<open>\<open>Item.open\<close> with the calls of \<open>put\<close>: when another open item has the name, that one is put back.\<close>

definition Cache_open :: "cenv \<Rightarrow> nat \<Rightarrow> remote option \<Rightarrow> Cache \<Rightarrow> go_err option \<times> Cache" where
  "Cache_open E k ob c =
     (case run_item k (open_create (c_env E k) ob) c of
        ((err, False), c1) \<Rightarrow> (err, c1)
      | ((err, True), c1) \<Rightarrow>
          (case put (i_name (c_obj c1 k)) k c1 of
             (old, c2) \<Rightarrow>
               let busy = (case old of Some j \<Rightarrow> opens (c_obj c2 j) \<noteq> 0 | None \<Rightarrow> False);
                   c3 = (if busy then snd (put (i_name (c_obj c1 k)) (the old) c2) else c2)
               in (if busy then Some (Other ''internal error: item already open in the cache'') else None,
                   snd (run_item k (\<lambda>w. ((), if i_o (it w) \<noteq> None
                     then upd_it (\<lambda>i. i\<lparr>downloaders := True\<rparr>) w else w)) c3))))"

section \<open>Quotas\<close>

definition disk_size :: "Cache \<Rightarrow> nat \<Rightarrow> int64" where
  "disk_size c k = getDiskSize (at k c)"

definition updateUsed :: "Cache \<Rightarrow> Cache" where
  "updateUsed c = c\<lparr>used := sum_list (map (disk_size c \<circ> snd) (c_item c))\<rparr>"

definition minFreeSpaceQuotaOK :: "cenv \<Rightarrow> Cache \<Rightarrow> bool" where
  "minFreeSpaceQuotaOK E c \<longleftrightarrow> CacheMinFreeSpace c \<le>s 0 \<or>
     (case c_avail E (rest c) of Inl _ \<Rightarrow> True | Inr avail \<Rightarrow> CacheMinFreeSpace c \<le>s avail)"

definition maxSizeQuotaOK :: "Cache \<Rightarrow> bool" where
  "maxSizeQuotaOK c \<longleftrightarrow> CacheMaxSize c \<le>s 0 \<or> used c \<le>s CacheMaxSize c"

definition quotasOK :: "cenv \<Rightarrow> Cache \<Rightarrow> bool" where
  "quotasOK E c \<longleftrightarrow> maxSizeQuotaOK c \<and> minFreeSpaceQuotaOK E c"

definition haveQuotas :: "Cache \<Rightarrow> bool" where
  "haveQuotas c \<longleftrightarrow> 0 <s CacheMaxSize c \<or> 0 <s CacheMinFreeSpace c"

section \<open>Purging\<close>

definition removeNotInUse :: "nat \<Rightarrow> int64 \<Rightarrow> bool \<Rightarrow> Cache \<Rightarrow> Cache" where
  "removeNotInUse k maxAge emptyOnly c =
     (case run_item k (RemoveNotInUse maxAge emptyOnly) c of
        ((removed, freed), c1) \<Rightarrow>
          let c2 = c1\<lparr>used := used c1 - freed\<rparr>
          in if removed then c2\<lparr>c_item := AList.delete (i_name (c_obj c2 k)) (c_item c2)\<rparr> else c2)"

definition unblock :: "cenv \<Rightarrow> Cache \<Rightarrow> Cache" where
  "unblock E c = (if quotasOK E c then c\<lparr>outOfSpace := False\<rparr> else c)"

text \<open>A loop over the map: a key that has been deleted meanwhile is not visited.\<close>

definition purgeOld :: "cenv \<Rightarrow> Cache \<Rightarrow> Cache" where
  "purgeOld E c = unblock E (fold (\<lambda>n c. case map_of (c_item c) n of
       Some k \<Rightarrow> removeNotInUse k (CacheMaxAge c) False c | None \<Rightarrow> c) (c_perm E (map fst (c_item c))) c)"

text \<open>
  The items of the index that satisfy \<open>P\<close>, sorted by access time. \<open>sort.Sort\<close> leaves the order of equal
  items open; so does the order in which they come from the map.
\<close>

definition by_ATime :: "cenv \<Rightarrow> (nat \<Rightarrow> bool) \<Rightarrow> Cache \<Rightarrow> nat list" where
  "by_ATime E P c = sort_key (\<lambda>k. ATime (obj_info c k))
     (filter P (map (\<lambda>n. the (map_of (c_item c) n)) (c_perm E (map fst (c_item c)))))"

definition purgeOverQuota :: "cenv \<Rightarrow> Cache \<Rightarrow> Cache" where
  "purgeOverQuota E c0 =
     (let c = updateUsed c0
      in if quotasOK E c then c
         else unblock E (fold (\<lambda>k c. removeNotInUse k 0 (quotasOK E c) c) (by_ATime E (\<lambda>k. \<not> inUse (at k c)) c) c))"

definition reset_one :: "cenv \<Rightarrow> nat \<Rightarrow> Cache \<Rightarrow> Cache" where
  "reset_one E k c =
     (case run_item k (Reset (c_env E k)) c of
        ((res, freed, err), c1) \<Rightarrow>
          let c2 = c1\<lparr>used := used c1 - freed\<rparr>;
              c3 = (if res = RemovedNotInUse
                    then c2\<lparr>c_item := AList.delete (i_name (c_obj c2 k)) (c_item c2)\<rparr> else c2)
          in case err of
               Some e \<Rightarrow> c3\<lparr>errItems := AList.update (i_name (c_obj c3 k)) e (errItems c3)\<rparr>
             | None \<Rightarrow> c3)"

text \<open>The loop over the sorted items, left when the quotas are met.\<close>

fun reset_until_ok :: "cenv \<Rightarrow> nat list \<Rightarrow> Cache \<Rightarrow> Cache" where
  "reset_until_ok E [] c = c"
| "reset_until_ok E (k # ks) c = (if quotasOK E c then c else reset_until_ok E ks (reset_one E k c))"

definition purgeClean :: "cenv \<Rightarrow> Cache \<Rightarrow> Cache" where
  "purgeClean E c =
     (if quotasOK E c then c
      else (reset_until_ok E (by_ATime E (\<lambda>k. \<not> Dirty (obj_info c k)) c) c)\<lparr>outOfSpace := False\<rparr>)"

definition retry_one :: "cenv \<Rightarrow> string \<Rightarrow> Cache \<Rightarrow> Cache" where
  "retry_one E name c =
     (case map_of (c_item c) name of
        None \<Rightarrow> c\<lparr>errItems := AList.delete name (errItems c)\<rparr>
      | Some k \<Rightarrow>
          (case run_item k (Reset (c_env E k)) c of
             ((_, _, err), c1) \<Rightarrow>
               if err = None \<or> \<not> isErrNoSpace err
               then c1\<lparr>errItems := AList.delete name (errItems c1)\<rparr> else c1))"

definition retryFailedResets :: "cenv \<Rightarrow> Cache \<Rightarrow> Cache" where
  "retryFailedResets E c = fold (retry_one E) (c_perm E (map fst (errItems c))) c"

text \<open>\<open>clean\<close>, the method.\<close>

definition clean_run :: "cenv \<Rightarrow> bool \<Rightarrow> Cache \<Rightarrow> Cache" where
  "clean_run E kicked c0 =
     (if \<not> c_root E (rest c0) then c0
      else let c1 = purgeOld E (updateUsed c0);
               c2 = (if haveQuotas c1 then retryFailedResets E (purgeClean E (purgeOverQuota E c1)) else c1)
           in if kicked then c2\<lparr>cleanerKicked := False\<rparr> else c2)"

section \<open>The cleaner and those who wait for it\<close>

text \<open>
  \<open>KickCleaner\<close> up to its loop; \<open>None\<close>: it blocks on the channel, with the locks held. The loop is left
  when \<open>outOfSpace\<close> is false.
\<close>

definition kick_start :: "Cache \<Rightarrow> Cache option" where
  "kick_start c =
     (if cleanerKicked c then Some c
      else case c_kick c of
             Some 0 \<Rightarrow> Some (c\<lparr>cleanerKicked := True, outOfSpace := True, c_kick := Some 1\<rparr>)
           | _ \<Rightarrow> None)"

definition cleaner_runs :: "Cache \<Rightarrow> bool" where
  "cleaner_runs c \<longleftrightarrow> 0 <s CachePollInterval c"

definition clean_kicked :: "cenv \<Rightarrow> Cache \<Rightarrow> Cache option" where
  "clean_kicked E c =
     (if cleaner_runs c \<and> c_kick c = Some 1 then Some (clean_run E True (c\<lparr>c_kick := Some 0\<rparr>)) else None)"

definition clean_tick :: "cenv \<Rightarrow> Cache \<Rightarrow> Cache option" where
  "clean_tick E c = (if cleaner_runs c then Some (clean_run E False c) else None)"

section \<open>Start\<close>

text \<open>
  \<open>reload\<close>: every file below the data directory, then every one below the metadata directory, in the order
  of \<open>filepath.Walk\<close> (\<open>names\<close>). An error of an item is only logged. \<open>None\<close>: an item waits for ever.
\<close>

fun reload_all :: "cenv \<Rightarrow> string list \<Rightarrow> Cache \<Rightarrow> Cache option" where
  "reload_all E [] c = Some c"
| "reload_all E (n # ns) c =
     (case get n c of
        ((k, True), c1) \<Rightarrow> reload_all E ns c1
      | ((k, False), c1) \<Rightarrow>
          (case reload (c_env E k) (\<lambda>_ _. None) (at k c1) of
             None \<Rightarrow> None
           | Some (_, w) \<Rightarrow> reload_all E ns (put_back k w c1)))"

definition fresh_Cache :: "world \<Rightarrow> int64 \<Rightarrow> int64 \<Rightarrow> int64 \<Rightarrow> int64 \<Rightarrow> Cache" where
  "fresh_Cache w maxAge maxSize minFree poll =
     \<lparr>c_item = [], c_obj = (\<lambda>_. it w), c_next = 0, errItems = [], used = 0, outOfSpace = False, cleanerKicked = False,
      c_kick = None, rest = w, CacheMaxAge = maxAge, CacheMaxSize = maxSize, CacheMinFreeSpace = minFree,
      CachePollInterval = poll\<rparr>"

text \<open>\<open>New\<close>: the channel is made after the reload. An error of \<open>filepath.Walk\<close> is not modelled.\<close>

definition newCache ::
  "cenv \<Rightarrow> string \<Rightarrow> world \<Rightarrow> string list \<Rightarrow> int64 \<Rightarrow> int64 \<Rightarrow> int64 \<Rightarrow> int64 \<Rightarrow> (go_err + Cache) option" where
  "newCache E cacheDir w names maxAge maxSize minFree poll =
     (if cacheDir = [] then Some (Inl (Other ''cache: CacheDir not set''))
      else case sys fs_call w of
        (Some e, _) \<Rightarrow> Some (Inl (Wrap ''cache: failed to create cache directory'' e))
      | (None, w1) \<Rightarrow>
          (case sys fs_call w1 of
             (Some e, _) \<Rightarrow> Some (Inl (Wrap ''cache: failed to create cache directory'' e))
           | (None, w2) \<Rightarrow>
               (case reload_all E names (fresh_Cache w2 maxAge maxSize minFree poll) of
                  None \<Rightarrow> None
                | Some c \<Rightarrow> Some (Inr (c\<lparr>c_kick := Some 0\<rparr>)))))"

text \<open>\<open>CleanUp\<close>. The arguments are what the two calls of \<open>os.RemoveAll\<close> return and leave.\<close>

definition CleanUp :: "go_err option \<Rightarrow> (string \<Rightarrow> bool) \<Rightarrow> go_err option \<Rightarrow> (string \<Rightarrow> bool) \<Rightarrow> Cache \<Rightarrow> go_err option \<times> Cache" where
  "CleanUp e1 left1 e2 left2 c =
     (or_err e1 e2,
      c\<lparr>rest := (rest c)\<lparr>fs := (fs (rest c))
          \<lparr>files := (\<lambda>n. if e1 \<noteq> None \<and> left1 n then files (fs (rest c)) n else None),
           metas := (\<lambda>n. if e2 \<noteq> None \<and> left2 n then metas (fs (rest c)) n else None)\<rparr>\<rparr>\<rparr>)"

section \<open>Queries\<close>

definition TotalInUse :: "Cache \<Rightarrow> nat" where
  "TotalInUse c = length (filter (\<lambda>(n, k). inUse (at k c)) (c_item c))"

text \<open>The numbers of \<open>Stats\<close>: files, errored files, bytes used, whether space has run out.\<close>

definition Cache_Stats :: "Cache \<Rightarrow> nat \<times> nat \<times> int64 \<times> bool" where
  "Cache_Stats c = (length (c_item c), length (errItems c), used c, outOfSpace c)"

end
