(* ===== verification/CacheFrame.thy ===== *)
theory CacheFrame
  imports Cache
begin

text \<open>
  What an operation of one item can touch: the files of its name, the inodes it has open or makes, and
  nothing of the other items (\<open>conf\<close>). From it, for the whole cache: the items of the index have files of
  their own (\<open>cache_ok\<close>), and the cleaner leaves protected items alone (\<open>keeps\<close>).
\<close>

section \<open>One item\<close>

text \<open>
  \<open>conf n T f0 w\<close>: the item of \<open>w\<close> has the name \<open>n\<close>, the inodes it uses are in \<open>T\<close>, and outside of \<open>n\<close> and \<open>T\<close>
  the file system is still \<open>f0\<close>.
\<close>

definition confF :: "string \<Rightarrow> nat set \<Rightarrow> Fs \<Rightarrow> Fs \<Rightarrow> bool" where
  "confF n T f0 f \<longleftrightarrow> {next_ino f ..} \<subseteq> T \<and> (\<forall>i. files f n = Some i \<longrightarrow> i \<in> T \<and> i < next_ino f)
     \<and> (\<forall>m. m \<noteq> n \<longrightarrow> files f m = files f0 m \<and> metas f m = metas f0 m)
     \<and> (\<forall>i. i \<notin> T \<longrightarrow> inodes f i = inodes f0 i)
     \<and> fault f = fault f0 \<and> next_ino f0 \<le> next_ino f"

definition conf :: "string \<Rightarrow> nat set \<Rightarrow> Fs \<Rightarrow> world \<Rightarrow> bool" where
  "conf n T f0 w \<longleftrightarrow> i_name (it w) = n \<and> (\<forall>i. fd (it w) = Some i \<longrightarrow> i \<in> T \<and> i < next_ino (fs w)) \<and> confF n T f0 (fs w)"

lemma confF_calls [simp]: "confF n T f0 (f\<lparr>calls := k\<rparr>) = confF n T f0 f"
  by (simp add: confF_def)

lemma confF_call: "confF n T f0 f \<Longrightarrow> confF n T f0 (snd (call f))"
  by (simp add: call_def)

lemma confF_ops:
  assumes "confF n T f0 f"
  shows "confF n T f0 (snd (fs_open n cr f))" "confF n T f0 (snd (fs_stat m f))" "confF n T f0 (snd (fs_fstat i f))"
    "i \<in> T \<Longrightarrow> confF n T f0 (snd (fs_truncate i sz f))" "i \<in> T \<Longrightarrow> confF n T f0 (snd (fs_WriteAt i b off f))"
    "confF n T f0 (snd (fs_ReadAt i k off f))" "confF n T f0 (snd (fs_call f))" "confF n T f0 (snd (fs_remove n f))"
    "confF n T f0 (snd (fs_remove_meta n f))" "confF n T f0 (snd (fs_save_meta n x f))" "confF n T f0 (snd (fs_load_meta n f))"
    "confF n T f0 (snd (fs_chtimes n t f))"
  using assms by (auto simp: fs_open_def fs_stat_def fs_fstat_def fs_truncate_def fs_WriteAt_def fs_ReadAt_def fs_call_def fs_remove_def
    fs_remove_meta_def fs_save_meta_def fs_load_meta_def fs_chtimes_def call_def confF_def Let_def split: option.splits prod.splits)

lemma next_ino_ops [simp]:
  "next_ino f \<le> next_ino (snd (fs_open n cr f))" "next_ino (snd (fs_stat m f)) = next_ino f"
  "next_ino (snd (fs_fstat i f)) = next_ino f" "next_ino (snd (fs_truncate i sz f)) = next_ino f"
  "next_ino (snd (fs_WriteAt i b off f)) = next_ino f" "next_ino (snd (fs_ReadAt i k off f)) = next_ino f"
  "next_ino (snd (fs_call f)) = next_ino f" "next_ino (snd (fs_remove n f)) = next_ino f"
  "next_ino (snd (fs_remove_meta n f)) = next_ino f" "next_ino (snd (fs_save_meta n x f)) = next_ino f"
  "next_ino (snd (fs_load_meta n f)) = next_ino f" "next_ino (snd (fs_chtimes n t f)) = next_ino f"
  by (auto simp: fs_open_def fs_stat_def fs_fstat_def fs_truncate_def fs_WriteAt_def fs_ReadAt_def fs_call_def fs_remove_def
    fs_remove_meta_def fs_save_meta_def fs_load_meta_def fs_chtimes_def call_def Let_def split: option.splits prod.splits)

lemma conf_sys:
  assumes "conf n T f0 w" "\<And>f. confF n T f0 f \<Longrightarrow> confF n T f0 (snd (g f))" "\<And>f. next_ino f \<le> next_ino (snd (g f))"
  shows "conf n T f0 (snd (sys g w))"
  using assms(1,2) assms(3) [of "fs w"] by (force simp: conf_def sys_def split_beta)

lemma conf_bookkeeping [simp]:
  "conf n T f0 (upd_info g w) = conf n T f0 w"
  "conf n T f0 (w\<lparr>now := t\<rparr>) = conf n T f0 w" "conf n T f0 (w\<lparr>wb_items := m\<rparr>) = conf n T f0 w"
  "conf n T f0 (w\<lparr>wb_last := h\<rparr>) = conf n T f0 w"
  by (simp_all add: conf_def upd_info_def upd_it_def)

lemma conf_upd_it: "conf n T f0 w \<Longrightarrow> i_name (g (it w)) = i_name (it w) \<Longrightarrow> fd (g (it w)) = None \<or> fd (g (it w)) = fd (it w)
   \<Longrightarrow> conf n T f0 (upd_it g w)"
  by (auto simp: conf_def upd_it_def)

lemma conf_name: "conf n T f0 w \<Longrightarrow> i_name (it w) = n" by (simp add: conf_def)

lemma conf_removeFile: "conf n T f0 w \<Longrightarrow> conf n T f0 (removeFile w)"
  unfolding removeFile_def by (rule conf_sys) (auto simp: conf_name confF_ops)

lemma conf_removeMeta: "conf n T f0 w \<Longrightarrow> conf n T f0 (removeMeta w)"
  unfolding removeMeta_def by (rule conf_sys) (auto simp: conf_name confF_ops)

lemma conf_remove: "conf n T f0 w \<Longrightarrow> conf n T f0 (snd (remove w))"
  by (simp add: remove_def wb_Remove_def Let_def conf_removeFile conf_removeMeta)

lemma conf_save: "conf n T f0 w \<Longrightarrow> conf n T f0 (snd (save w))"
  using conf_sys [of n T f0 w "fs_save_meta (i_name (it w)) (CacheItem.inf w)"]
  by (simp add: save_def split_beta conf_name confF_ops)

lemma conf_stat: "conf n T f0 w \<Longrightarrow> conf n T f0 (snd (stat w))"
  by (auto simp: stat_def confF_ops intro!: conf_sys split: option.split)

lemma conf_getSize: "conf n T f0 w \<Longrightarrow> conf n T f0 (snd (getSize w))"
  using conf_stat [of n T f0 w] by (auto simp: getSize_def split: prod.splits sum.splits option.splits)

lemma conf_truncate_fd: "conf n T f0 w \<Longrightarrow> ino \<in> T \<Longrightarrow> conf n T f0 (snd (truncate_fd ino sz w))"
proof -
  assume a: "conf n T f0 w" "ino \<in> T"
  have 1: "conf n T f0 (snd (sys (fs_fstat ino) w))" by (rule conf_sys [OF a(1)]) (simp_all add: confF_ops)
  have 2: "conf n T f0 (snd (sys (fs_truncate ino sz) (snd (sys (fs_fstat ino) w))))"
    by (rule conf_sys [OF 1]) (simp_all add: confF_ops a)
  show ?thesis using 1 2 by (auto simp: truncate_fd_def split_beta split: option.split)
qed

lemma conf_open: "conf n T f0 w \<Longrightarrow> sys (fs_open n cr) w = (Inr ino, w') \<Longrightarrow> ino \<in> T \<and> ino < next_ino (fs w')"
  by (auto simp: conf_def confF_def sys_def fs_open_def call_def Let_def split: prod.splits option.splits if_splits)

lemma conf_sys_open: "conf n T f0 w \<Longrightarrow> conf n T f0 (snd (sys (fs_open n cr) w))"
  by (rule conf_sys) (simp_all add: confF_ops)

lemma conf_sys_call: "conf n T f0 w \<Longrightarrow> conf n T f0 (snd (sys fs_call w))"
  by (rule conf_sys) (simp_all add: confF_ops)

lemma conf_truncate: "conf n T f0 w \<Longrightarrow> conf n T f0 (snd (CacheItem.truncate sz w))"
proof (cases "sz <s 0 \<or> fd (it w) \<noteq> None")
  case True
  assume "conf n T f0 w"
  then show ?thesis
    using True conf_truncate_fd [of n T f0 w] by (auto simp: CacheItem.truncate_def conf_def [of n T f0 w] split: option.splits)
next
  case False
  assume a: "conf n T f0 w"
  obtain r w3 where r: "(case sys (fs_open (i_name (it w)) (Ranges_Size (Rs (CacheItem.inf w)) = 0)) w of
                   (Inl e, w1) \<Rightarrow>
                     if e = ErrNotExist
                     then let w2 = removeMeta (upd_info (\<lambda>i. i\<lparr>Rs := [], Dirty := False\<rparr>) w1)
                          in sys (fs_open (i_name (it w2)) True) w2
                     else (Inl e, w1)
                 | (Inr ino, w1) \<Rightarrow> (Inr ino, w1)) = (r, w3)" (is "?X = _") by (cases ?X)
  have c: "conf n T f0 w3 \<and> (\<forall>ino. r = Inr ino \<longrightarrow> ino \<in> T)"
  proof (cases "sys (fs_open n (Ranges_Size (Rs (CacheItem.inf w)) = 0)) w")
    case (Pair q w1)
    have w1: "conf n T f0 w1" using conf_sys_open [OF a] Pair by (metis snd_conv)
    let ?w2 = "removeMeta (upd_info (\<lambda>i. i\<lparr>Rs := [], Dirty := False\<rparr>) w1)"
    have w2: "conf n T f0 ?w2" using w1 by (intro conf_removeMeta) simp
    show ?thesis
      using r Pair a w1 conf_open [OF a] conf_open [OF w2] conf_sys_open [OF w2, of True]
      by (cases q) (auto simp: conf_name [OF a] conf_name [OF w2] Let_def split: if_splits)
  qed
  have d: "fd (it w) = None" "\<not> sz <s 0" using False by auto
  have e: "CacheItem.truncate sz w = (case (r, w3) of
             (Inl e, w3) \<Rightarrow> (Some (Wrap ''cache: truncate: failed to open cache file'' e), w3)
           | (Inr ino, w3) \<Rightarrow>
               (case truncate_fd ino sz (snd (sys fs_call w3)) of
                  (err, w4) \<Rightarrow>
                    (case sys fs_call w4 of (cerr, w5) \<Rightarrow> (or_err err cerr, w5))))"
    unfolding CacheItem.truncate_def r [symmetric] using d by simp
  show ?thesis
  proof (cases r)
    case (Inl x)
    then show ?thesis using c e by simp
  next
    case (Inr ino)
    have "conf n T f0 (snd (truncate_fd ino sz (snd (sys fs_call w3))))"
      using c Inr by (intro conf_truncate_fd conf_sys_call) auto
    then show ?thesis using e Inr conf_sys_call by (auto simp: split_beta)
  qed
qed

lemma conf_truncateToCurrentSize: "conf n T f0 w \<Longrightarrow> conf n T f0 (snd (truncateToCurrentSize w))"
  using conf_getSize [of n T f0 w] conf_truncate
  by (auto simp: truncateToCurrentSize_def split: prod.splits)

lemma conf_checkObject: "conf n T f0 w \<Longrightarrow> conf n T f0 (snd (checkObject ob w))"
proof -
  assume a: "conf n T f0 w"
  have b: "conf n T f0 (upd_it (\<lambda>i. i\<lparr>i_o := ob\<rparr>) w1)" if "conf n T f0 w1" for w1
    using that by (rule conf_upd_it) simp_all
  have c: "conf n T f0 (snd (truncateToCurrentSize (upd_it (\<lambda>i. i\<lparr>i_o := ob\<rparr>) w1)))" if "conf n T f0 w1" for w1
    using conf_truncateToCurrentSize [OF b [OF that]] .
  show ?thesis unfolding checkObject_def Let_def split_beta snd_conv
    by (intro c) (use a conf_remove [OF a] in \<open>auto split: option.split\<close>)
qed

lemma conf_createFile: "conf n T f0 w \<Longrightarrow> conf n T f0 (snd (createFile w))"
proof (cases "fd (it w) = None")
  case True
  assume a: "conf n T f0 w"
  let ?w0 = "upd_it (\<lambda>i. i\<lparr>modified := False\<rparr>) w"
  have b: "conf n T f0 ?w0" using a by (rule conf_upd_it) simp_all
  obtain r w1 where r: "sys (fs_open n False) ?w0 = (r, w1)" by (cases "sys (fs_open n False) ?w0")
  have w1: "conf n T f0 w1" using conf_sys_open [OF b] r by (metis snd_conv)
  show ?thesis
  proof (cases r)
    case (Inl e)
    then show ?thesis using True r w1 conf_name [OF a] by (simp add: createFile_def upd_it_def)
  next
    case (Inr ino)
    let ?w2 = "upd_it (\<lambda>i. i\<lparr>fd := Some ino\<rparr>) (snd (sys fs_call w1))"
    have "ino \<in> T \<and> ino < next_ino (fs w1)" using conf_open [OF b] r Inr by simp
    then have "conf n T f0 ?w2" using conf_sys_call [OF w1] by (auto simp: conf_def upd_it_def sys_def split_beta)
    then have w3: "conf n T f0 (snd (save ?w2))" by (rule conf_save)
    have "conf n T f0 (upd_it (\<lambda>i. i\<lparr>fd := None\<rparr>) (snd (sys fs_call (snd (save ?w2)))))"
      using conf_sys_call [OF w3] by (rule conf_upd_it) simp_all
    then show ?thesis
      using True r Inr w3 conf_name [OF a] by (simp add: createFile_def split_beta split: option.split)
  qed
qed (simp add: createFile_def)

definition env_local :: "env \<Rightarrow> bool" where
  "env_local E \<longleftrightarrow> (\<forall>n T f0 w. conf n T f0 w \<longrightarrow> conf n T f0 (snd (e_CloseDownloaders E w)))"

lemma conf_close_downloaders: "env_local E \<Longrightarrow> conf n T f0 w \<Longrightarrow> conf n T f0 (snd (close_downloaders E w))"
  using conf_upd_it [of n T f0 w "\<lambda>i. i\<lparr>downloaders := False\<rparr>"] by (simp add: close_downloaders_def env_local_def)

lemma conf_RemoveNotInUse: "conf n T f0 w \<Longrightarrow> conf n T f0 (snd (RemoveNotInUse a b w))"
  by (simp add: RemoveNotInUse_def Let_def conf_remove)

lemma conf_reset_rest:
  assumes E: "env_local E" and a: "conf n T f0 w0"
  shows "conf n T f0 (snd (reset_rest E w0))"
proof -
  obtain e1 w1 where 1: "close_downloaders E w0 = (e1, w1)" by (cases "close_downloaders E w0")
  have w1: "conf n T f0 w1" using conf_close_downloaders [OF E a] 1 by (metis snd_conv)
  obtain e2 w2 where 2: "(if fd (it w1) \<noteq> None then (case sys fs_call w1 of (e, w) \<Rightarrow> (or_err e1 e, w)) else (e1, w1)) = (e2, w2)"
    (is "?X = _") by (cases ?X)
  have w2: "conf n T f0 w2" using 2 w1 conf_sys_call [OF w1] by (auto split: if_splits prod.splits)
  let ?w3 = "upd_it (\<lambda>i. i\<lparr>fd := None\<rparr>) w2"
  have w3: "conf n T f0 ?w3" using w2 by (rule conf_upd_it) simp_all
  let ?w4 = "snd (remove ?w3)"
  have w4: "conf n T f0 ?w4" using w3 by (rule conf_remove)
  obtain e5 w5 where 5: "checkObject (i_o (it ?w4)) ?w4 = (e5, w5)" by (cases "checkObject (i_o (it ?w4)) ?w4")
  have w5: "conf n T f0 w5" using conf_checkObject [OF w4] 5 by (metis snd_conv)
  obtain e6 w6 where 6: "createFile w5 = (e6, w6)" by (cases "createFile w5")
  have w6: "conf n T f0 w6" using conf_createFile [OF w5] 6 by (metis snd_conv)
  have U: "conf n T f0 (upd_it (\<lambda>i. i\<lparr>beingReset := False\<rparr>) w)" if "conf n T f0 w" for w
    using that by (rule conf_upd_it) simp_all
  have V: "conf n T f0 (upd_it (\<lambda>i. i\<lparr>fd := None\<rparr>) w)" if "conf n T f0 w" for w
    using that by (rule conf_upd_it) simp_all
  have X: "conf n T f0 (upd_it (\<lambda>i. i\<lparr>beingReset := False, downloaders := downloaders i \<or> i_o i \<noteq> None\<rparr>) w6)"
    using w6 by (rule conf_upd_it) simp_all
  show ?thesis
    unfolding reset_rest_def 1 prod.case 2 Let_def 5 6
    using U [OF w2] U [OF w5] U [OF V [OF conf_remove [OF w6]]] V [OF conf_remove [OF w6]] X
    by (simp split: option.split)
qed

lemma conf_Reset: "env_local E \<Longrightarrow> conf n T f0 w \<Longrightarrow> conf n T f0 (snd (Reset E w))"
  using conf_reset_rest [of E n T f0 "upd_it (\<lambda>i. i\<lparr>beingReset := True\<rparr>) w"]
    conf_upd_it [of n T f0 w "\<lambda>i. i\<lparr>beingReset := True\<rparr>"] conf_remove [of n T f0 w]
  by (simp add: Reset_def)

section \<open>The whole cache\<close>

abbreviation cfs :: "Cache \<Rightarrow> Fs" where "cfs c \<equiv> fs (rest c)"

definition own_inodes :: "Cache \<Rightarrow> string \<Rightarrow> nat \<Rightarrow> nat set" where
  "own_inodes c n k = {i. files (cfs c) n = Some i \<or> fd (c_obj c k) = Some i \<or> next_ino (cfs c) \<le> i}"

definition cache_ok :: "Cache \<Rightarrow> bool" where
  "cache_ok c \<longleftrightarrow> distinct (map fst (c_item c))
     \<and> (\<forall>n k. (n, k) \<in> set (c_item c) \<longrightarrow> k < c_next c \<and> i_name (c_obj c k) = n)
     \<and> (\<forall>n k i. (n, k) \<in> set (c_item c) \<longrightarrow> fd (c_obj c k) = Some i \<longrightarrow>
          i < next_ino (cfs c) \<and> (\<forall>m. files (cfs c) m = Some i \<longrightarrow> m = n))
     \<and> (\<forall>n k n' k' i. (n, k) \<in> set (c_item c) \<longrightarrow> (n', k') \<in> set (c_item c) \<longrightarrow>
          fd (c_obj c k) = Some i \<longrightarrow> fd (c_obj c k') = Some i \<longrightarrow> k = k')
     \<and> (\<forall>m i. files (cfs c) m = Some i \<longrightarrow> i < next_ino (cfs c))
     \<and> (\<forall>m n i. files (cfs c) m = Some i \<longrightarrow> files (cfs c) n = Some i \<longrightarrow> m = n)"

lemma cache_okD:
  assumes "cache_ok c"
  shows "distinct (map fst (c_item c))"
    "\<And>n k. (n, k) \<in> set (c_item c) \<Longrightarrow> k < c_next c \<and> i_name (c_obj c k) = n"
    "\<And>n k i. (n, k) \<in> set (c_item c) \<Longrightarrow> fd (c_obj c k) = Some i \<Longrightarrow> i < next_ino (cfs c)"
    "\<And>n k i m. (n, k) \<in> set (c_item c) \<Longrightarrow> fd (c_obj c k) = Some i \<Longrightarrow> files (cfs c) m = Some i \<Longrightarrow> m = n"
    "\<And>n k n' k' i. (n, k) \<in> set (c_item c) \<Longrightarrow> (n', k') \<in> set (c_item c) \<Longrightarrow>
          fd (c_obj c k) = Some i \<Longrightarrow> fd (c_obj c k') = Some i \<Longrightarrow> k = k'"
    "\<And>m i. files (cfs c) m = Some i \<Longrightarrow> i < next_ino (cfs c)"
    "\<And>m n i. files (cfs c) m = Some i \<Longrightarrow> files (cfs c) n = Some i \<Longrightarrow> m = n"
  using assms unfolding cache_ok_def by metis+

definition spared :: "Cache \<Rightarrow> Cache \<Rightarrow> string \<Rightarrow> nat \<Rightarrow> bool" where
  "spared c c' n k \<longleftrightarrow> c_obj c' k = c_obj c k \<and> files (cfs c') n = files (cfs c) n \<and> metas (cfs c') n = metas (cfs c) n
     \<and> (\<forall>i. files (cfs c) n = Some i \<or> fd (c_obj c k) = Some i \<longrightarrow> inodes (cfs c') i = inodes (cfs c) i)"

lemma spared_refl: "spared c c n k" by (simp add: spared_def)

lemma spared_trans: "spared c c1 n k \<Longrightarrow> spared c1 c2 n k \<Longrightarrow> spared c c2 n k"
  by (simp add: spared_def)

lemma cache_ok_bookkeeping [simp]:
  "cache_ok (c\<lparr>used := u\<rparr>) = cache_ok c" "cache_ok (c\<lparr>outOfSpace := b\<rparr>) = cache_ok c"
  "cache_ok (c\<lparr>errItems := e\<rparr>) = cache_ok c" "cache_ok (c\<lparr>cleanerKicked := b\<rparr>) = cache_ok c"
  "cache_ok (c\<lparr>c_kick := q\<rparr>) = cache_ok c"
  by (simp_all add: cache_ok_def)

lemma spared_bookkeeping [simp]:
  "spared c (c'\<lparr>used := u\<rparr>) n k = spared c c' n k" "spared c (c'\<lparr>outOfSpace := b\<rparr>) n k = spared c c' n k"
  "spared c (c'\<lparr>errItems := e\<rparr>) n k = spared c c' n k" "spared c (c'\<lparr>cleanerKicked := b\<rparr>) n k = spared c c' n k"
  "spared c (c'\<lparr>c_kick := q\<rparr>) n k = spared c c' n k" "spared c (c'\<lparr>c_item := l\<rparr>) n k = spared c c' n k"
  by (simp_all add: spared_def)

lemma cache_ok_delete: "cache_ok c \<Longrightarrow> cache_ok (c\<lparr>c_item := AList.delete n (c_item c)\<rparr>)"
  unfolding cache_ok_def by (simp add: distinct_delete) (auto simp: AList.delete_eq)

lemma at_conf: 
  assumes "cache_ok c" "(n, k) \<in> set (c_item c)"
  shows "conf n (own_inodes c n k) (cfs c) (at k c)"
  using assms by (auto simp: conf_def confF_def at_def own_inodes_def cache_ok_def)

lemma run_ok:
  assumes ok: "cache_ok c" and k: "(n, k) \<in> set (c_item c)"
    and f: "\<And>T f0 w. conf n T f0 w \<Longrightarrow> conf n T f0 (snd (f w))"
    and r: "run_item k f c = (r, c')"
  shows "cache_ok c'" "c_item c' = c_item c" "\<And>n' k'. (n', k') \<in> set (c_item c) \<Longrightarrow> k' \<noteq> k \<Longrightarrow> spared c c' n' k'"
proof -
  let ?T = "own_inodes c n k"
  define w' where "w' = snd (f (at k c))"
  have c': "c' = put_back k w' c" using r by (simp add: run_item_def w'_def split_beta)
  have C: "conf n ?T (cfs c) w'" unfolding w'_def by (rule f [OF at_conf [OF ok k]])
  then have C': "i_name (it w') = n" "\<And>i. fd (it w') = Some i \<Longrightarrow> i \<in> ?T \<and> i < next_ino (fs w')"
    "\<And>i. files (fs w') n = Some i \<Longrightarrow> i \<in> ?T \<and> i < next_ino (fs w')"
    "\<And>m. m \<noteq> n \<Longrightarrow> files (fs w') m = files (cfs c) m \<and> metas (fs w') m = metas (cfs c) m"
    "\<And>i. i \<notin> ?T \<Longrightarrow> inodes (fs w') i = inodes (cfs c) i" "next_ino (cfs c) \<le> next_ino (fs w')"
    by (auto simp: conf_def confF_def)
  show "c_item c' = c_item c" by (simp add: c' put_back_def)
  note O = cache_okD [OF ok]
  have nk: "n' \<noteq> n" if "(n', k') \<in> set (c_item c)" "k' \<noteq> k" for n' k'
    using that k O(1) by (metis eq_key_imp_eq_value)
  have fdT: "i \<notin> ?T" if "(n', k') \<in> set (c_item c)" "k' \<noteq> k" "fd (c_obj c k') = Some i" for n' k' i
    using O(3) [OF that(1,3)] O(4) [OF that(1,3), of n] O(5) [OF that(1) k that(3)] nk [OF that(1,2)] that(2)
    by (auto simp: own_inodes_def)
  have fT: "i \<notin> ?T" if "m \<noteq> n" "files (cfs c) m = Some i" for m i
    using O(6) [OF that(2)] O(7) [OF that(2), of n] O(4) [OF k _ that(2)] that(1) by (auto simp: own_inodes_def)
  show "spared c c' n' k'" if "(n', k') \<in> set (c_item c)" "k' \<noteq> k" for n' k'
    using that nk [OF that] fdT [OF that] fT [of n'] C'(4) [of n'] C'(5) by (auto simp: spared_def c' put_back_def)
  have fl: "m \<noteq> n \<Longrightarrow> files (cfs c') m = files (cfs c) m" "files (cfs c') n = Some i \<Longrightarrow> i \<in> ?T \<and> i < next_ino (cfs c')"
    "next_ino (cfs c) \<le> next_ino (cfs c')" for m i
    using C'(3,4,6) by (auto simp: c' put_back_def)
  have fk: "k' \<noteq> k \<Longrightarrow> c_obj c' k' = c_obj c k'" "fd (c_obj c' k) = Some i \<Longrightarrow> i \<in> ?T \<and> i < next_ino (cfs c')"
    "i_name (c_obj c' k) = n" for k' i
    using C'(1,2) by (auto simp: c' put_back_def)
  have ix: "c_item c' = c_item c" "c_next c' = c_next c" by (simp_all add: c' put_back_def)
  have lt: "i < next_ino (cfs c')" if "files (cfs c') m = Some i" for m i
    using that fl(1) [of m] fl(2) [of i] fl(3) O(6) [of m i] by (cases "m = n") auto
  show "cache_ok c'"
    unfolding cache_ok_def ix
  proof (intro conjI allI impI)
    fix m i assume "files (cfs c') m = Some i"
    then show "i < next_ino (cfs c')" by (rule lt)
  next
    fix m m' i assume "files (cfs c') m = Some i" "files (cfs c') m' = Some i"
    then show "m = m'" using fl(1,2) fT O(7) by (cases "m = n"; cases "m' = n") auto
  next
    fix n1 k1 assume a: "(n1, k1) \<in> set (c_item c)"
    then show "k1 < c_next c" "i_name (c_obj c' k1) = n1"
      using O(2) fk(1,3) O(1) k by (auto, metis)
    fix i assume b: "fd (c_obj c' k1) = Some i"
    show "i < next_ino (cfs c')"
      using b fk(1) [of k1] fk(2) [of i] O(3) [OF a] fl(3) by (cases "k1 = k") (auto intro: less_le_trans)
    fix m assume c: "files (cfs c') m = Some i"
    show "m = n1"
    proof (cases "k1 = k")
      case True
      then have "n1 = n" using O(2) [OF a] O(2) [OF k] by simp
      then show ?thesis using True b c fk(2) [of i] fl(1) [of m] fT [of m i] by (cases "m = n") auto
    next
      case False
      then have f: "fd (c_obj c k1) = Some i" "i \<notin> ?T" using b fk(1) fdT [OF a False] by auto
      then have "m \<noteq> n" using c fl(2) by auto
      then show ?thesis using c fl(1) O(4) [OF a f(1)] by auto
    qed
  next
    fix n1 k1 n2 k2 i
    assume "(n1, k1) \<in> set (c_item c)" "(n2, k2) \<in> set (c_item c)" "fd (c_obj c' k1) = Some i" "fd (c_obj c' k2) = Some i"
    then show "k1 = k2" using fk(1,2) fdT O(5) by (cases "k1 = k"; cases "k2 = k") auto
  qed (rule O(1))
qed

section \<open>What the cleaner leaves alone\<close>

definition protected :: "Item \<Rightarrow> bool" where
  "protected i \<longleftrightarrow> Dirty (info i) \<or> graceTimer i \<or> (opens i \<noteq> 0 \<and> 0 < pendingAccesses i)"

definition cenv_ok :: "cenv \<Rightarrow> bool" where
  "cenv_ok E \<longleftrightarrow> (\<forall>k. env_local (c_env E k)) \<and>
     (\<forall>l. distinct l \<longrightarrow> distinct (c_perm E l) \<and> set (c_perm E l) = set l)"

definition keeps :: "Cache \<Rightarrow> Cache \<Rightarrow> bool" where
  "keeps c c' \<longleftrightarrow> cache_ok c' \<and> set (c_item c') \<subseteq> set (c_item c) \<and>
     (\<forall>n k. (n, k) \<in> set (c_item c) \<longrightarrow> protected (c_obj c k) \<longrightarrow> (n, k) \<in> set (c_item c') \<and> spared c c' n k)"

lemma keeps_refl: "cache_ok c \<Longrightarrow> keeps c c"
  by (simp add: keeps_def spared_refl)

lemma keeps_trans: "keeps c c1 \<Longrightarrow> keeps c1 c2 \<Longrightarrow> keeps c c2"
  unfolding keeps_def using spared_trans by (metis (no_types, lifting) spared_def subset_trans)

lemma keeps_ok: "keeps c c' \<Longrightarrow> cache_ok c'" by (simp add: keeps_def)

lemma keeps_bookkeeping [simp]:
  "keeps c (c'\<lparr>used := u\<rparr>) = keeps c c'" "keeps c (c'\<lparr>outOfSpace := b\<rparr>) = keeps c c'"
  "keeps c (c'\<lparr>errItems := e\<rparr>) = keeps c c'" "keeps c (c'\<lparr>cleanerKicked := b\<rparr>) = keeps c c'"
  by (simp_all add: keeps_def)

text \<open>The entries other than that of \<open>k\<close> stay.\<close>

definition others_stay :: "nat \<Rightarrow> Cache \<Rightarrow> Cache \<Rightarrow> bool" where
  "others_stay k c c' \<longleftrightarrow> (\<forall>n' k'. k' \<noteq> k \<longrightarrow> (n', k') \<in> set (c_item c) \<longrightarrow> (n', k') \<in> set (c_item c'))"

lemma run_delete:
  assumes ok: "cache_ok c" and k: "(n, k) \<in> set (c_item c)"
    and f: "\<And>T f0 w. conf n T f0 w \<Longrightarrow> conf n T f0 (snd (f w))"
    and r: "run_item k f c = (r, c1)" and p: "protected (c_obj c k) \<Longrightarrow> snd (f (at k c)) = at k c \<and> \<not> del"
    and c': "c_item c' = (if del then AList.delete (i_name (c_obj c1 k)) (c_item c1) else c_item c1)"
      "c_obj c' = c_obj c1" "c_next c' = c_next c1" "rest c' = rest c1"
  shows "keeps c c' \<and> others_stay k c c'"
proof -
  note R = run_ok [OF ok k f r]
  have ok1: "cache_ok c1" and i1: "c_item c1 = c_item c"
    and s1: "\<And>n' k'. (n', k') \<in> set (c_item c) \<Longrightarrow> k' \<noteq> k \<Longrightarrow> spared c c1 n' k'" by (rule R; assumption)+
  have n: "i_name (c_obj c1 k) = n" using cache_okD(2) [OF ok1] k by (simp add: i1)
  have S: "spared c c1 n' k' \<longleftrightarrow> spared c c' n' k'" for n' k' by (simp add: spared_def c')
  have ix: "c_item c' = (if del then AList.delete n (c_item c) else c_item c)" by (simp add: c' n i1)
  have other: "n' \<noteq> n" if "(n', k') \<in> set (c_item c)" "k' \<noteq> k" for n' k'
    using that k cache_okD(1) [OF ok] by (metis eq_key_imp_eq_value)
  have "cache_ok c'"
    using ok1 cache_ok_delete [OF ok1, of n] by (auto simp: cache_ok_def ix c' i1)
  moreover have "set (c_item c') \<subseteq> set (c_item c)" by (auto simp: ix AList.delete_eq)
  moreover have O: "others_stay k c c'" using other by (auto simp: others_stay_def ix AList.delete_eq)
  moreover have "(n', k') \<in> set (c_item c') \<and> spared c c' n' k'"
    if a: "(n', k') \<in> set (c_item c)" "protected (c_obj c k')" for n' k'
  proof (cases "k' = k")
    case True
    then have u: "snd (f (at k c)) = at k c" "\<not> del" using p a(2) by auto
    have "spared c c1 n' k"
      using r u(1) by (auto simp: run_item_def split_beta spared_def put_back_def at_def)
    then show ?thesis using True S a(1) u(2) by (simp add: ix)
  next
    case False
    then show ?thesis using O s1 [OF a(1)] S a(1) by (auto simp: others_stay_def)
  qed
  ultimately show ?thesis by (simp add: keeps_def)
qed

lemma removeNotInUse_keeps:
  assumes ok: "cache_ok c" and k: "(n, k) \<in> set (c_item c)"
  shows "keeps c (removeNotInUse k a b c) \<and> others_stay k c (removeNotInUse k a b c)"
proof -
  obtain r c1 where r: "run_item k (RemoveNotInUse a b) c = (r, c1)" by (cases "run_item k (RemoveNotInUse a b) c")
  obtain removed freed where rr: "r = (removed, freed)" by (cases r)
  have p: "snd (RemoveNotInUse a b (at k c)) = at k c \<and> \<not> removed" if "protected (c_obj c k)"
  proof -
    have "RemoveNotInUse a b (at k c) = ((False, 0), at k c)"
      using that by (auto simp: RemoveNotInUse_def protected_def at_def)
    then show ?thesis using r rr by (simp add: run_item_def)
  qed
  show ?thesis
    by (rule run_delete [OF ok k conf_RemoveNotInUse r p]) (simp_all add: removeNotInUse_def r rr Let_def)
qed

lemma reset_one_keeps:
  assumes E: "cenv_ok E" and ok: "cache_ok c" and k: "(n, k) \<in> set (c_item c)"
  shows "keeps c (reset_one E k c) \<and> others_stay k c (reset_one E k c)"
proof -
  obtain r c1 where r: "run_item k (Reset (c_env E k)) c = (r, c1)" by (cases "run_item k (Reset (c_env E k)) c")
  obtain res freed err where rr: "r = (res, freed, err)" by (cases r)
  have e: "env_local (c_env E k)" using E by (simp add: cenv_ok_def)
  have p: "snd (Reset (c_env E k) (at k c)) = at k c \<and> res \<noteq> RemovedNotInUse" if "protected (c_obj c k)"
  proof -
    have "\<exists>x. Reset (c_env E k) (at k c) = ((x, 0, None), at k c) \<and> x \<noteq> RemovedNotInUse"
      using that by (auto simp: Reset_def protected_def at_def)
    then show ?thesis using r rr by (auto simp: run_item_def)
  qed
  show ?thesis
    by (rule run_delete [OF ok k conf_Reset [OF e] r, of "res = RemovedNotInUse"])
      (use p in \<open>simp_all add: reset_one_def r rr Let_def split: option.split\<close>)
qed

lemma retry_one_keeps:
  assumes E: "cenv_ok E" and ok: "cache_ok c"
  shows "keeps c (retry_one E name c)"
proof (cases "map_of (c_item c) name")
  case None
  then show ?thesis using keeps_refl [OF ok] by (simp add: retry_one_def)
next
  case (Some k)
  obtain r c1 where r: "run_item k (Reset (c_env E k)) c = (r, c1)" by (cases "run_item k (Reset (c_env E k)) c")
  obtain res freed err where rr: "r = (res, freed, err)" by (cases r)
  have k: "(name, k) \<in> set (c_item c)" using Some by (rule map_of_SomeD)
  have e: "env_local (c_env E k)" using E by (simp add: cenv_ok_def)
  have p: "snd (Reset (c_env E k) (at k c)) = at k c" if "protected (c_obj c k)"
    using that by (auto simp: Reset_def protected_def at_def)
  have "keeps c (retry_one E name c) \<and> others_stay k c (retry_one E name c)"
    by (rule run_delete [OF ok k conf_Reset [OF e] r, of False]) (use p in \<open>simp_all add: retry_one_def r rr Some\<close>)
  then show ?thesis ..
qed

lemma unblock_keeps [simp]: "keeps c (unblock E c') = keeps c c'"
  by (simp add: unblock_def)

lemma updateUsed_keeps [simp]: "keeps c (updateUsed c') = keeps c c'"
  by (simp add: updateUsed_def)

lemma purgeOld_keeps:
  assumes "cache_ok c"
  shows "keeps c (purgeOld E c)"
proof -
  have "keeps c (fold (\<lambda>n c. case map_of (c_item c) n of
       Some k \<Rightarrow> removeNotInUse k (CacheMaxAge c) False c | None \<Rightarrow> c) ns c)" for ns
    using assms
  proof (induction ns arbitrary: c)
    case (Cons n ns)
    let ?c1 = "case map_of (c_item c) n of Some k \<Rightarrow> removeNotInUse k (CacheMaxAge c) False c | None \<Rightarrow> c"
    have "keeps c ?c1"
      using removeNotInUse_keeps [OF Cons.prems map_of_SomeD] keeps_refl [OF Cons.prems] by (auto split: option.split)
    from keeps_trans [OF this Cons.IH [OF keeps_ok [OF this]]] show ?case by simp
  qed (simp add: keeps_refl)
  then show ?thesis by (simp add: purgeOld_def)
qed

lemma by_ATime_ok:
  assumes E: "cenv_ok E" and ok: "cache_ok c"
  shows "distinct (by_ATime E P c)" "set (by_ATime E P c) = {k. P k \<and> (\<exists>n. (n, k) \<in> set (c_item c))}"
proof -
  let ?l = "c_perm E (map fst (c_item c))" and ?g = "\<lambda>n. the (map_of (c_item c) n)"
  note d = cache_okD(1) [OF ok]
  have l: "distinct ?l" "set ?l = fst ` set (c_item c)" using E d by (auto simp: cenv_ok_def)
  have g: "map_of (c_item c) n = Some k \<longleftrightarrow> (n, k) \<in> set (c_item c)" for n k using d by simp
  have gi: "n \<in> set ?l \<Longrightarrow> (n, ?g n) \<in> set (c_item c)" for n
    unfolding l(2) using d by force
  have "inj_on ?g (set ?l)"
    by (rule inj_onI) (metis gi cache_okD(2) [OF ok])
  then have "distinct (map ?g ?l)" using l(1) by (simp add: distinct_map)
  then show "distinct (by_ATime E P c)" by (simp add: by_ATime_def)
  have "set (map ?g ?l) = {k. \<exists>n. (n, k) \<in> set (c_item c)}"
    using gi l(2) g by (auto simp: image_iff) (metis option.sel fst_conv gi)
  then show "set (by_ATime E P c) = {k. P k \<and> (\<exists>n. (n, k) \<in> set (c_item c))}"
    by (auto simp: by_ATime_def)
qed

definition indexed :: "Cache \<Rightarrow> nat list \<Rightarrow> bool" where
  "indexed c ks \<longleftrightarrow> distinct ks \<and> (\<forall>k \<in> set ks. \<exists>n. (n, k) \<in> set (c_item c))"

lemma indexed_by_ATime: "cenv_ok E \<Longrightarrow> cache_ok c \<Longrightarrow> indexed c (by_ATime E P c)"
  using by_ATime_ok by (auto simp: indexed_def)

lemma indexed_Cons: "indexed c (k # ks) \<Longrightarrow> others_stay k c c' \<Longrightarrow> indexed c' ks"
  unfolding indexed_def others_stay_def by auto metis

lemma remove_loop_keeps:
  "cache_ok c \<Longrightarrow> indexed c ks \<Longrightarrow> keeps c (fold (\<lambda>k c. removeNotInUse k 0 (quotasOK E c) c) ks c)"
proof (induction ks arbitrary: c)
  case (Cons k ks)
  obtain n where k: "(n, k) \<in> set (c_item c)" using Cons.prems(2) by (auto simp: indexed_def)
  note r = removeNotInUse_keeps [OF Cons.prems(1) k, of 0 "quotasOK E c"]
  have "keeps c (fold (\<lambda>k c. removeNotInUse k 0 (quotasOK E c) c) ks (removeNotInUse k 0 (quotasOK E c) c))"
    using r indexed_Cons [OF Cons.prems(2)] by (intro keeps_trans [OF _ Cons.IH]) (auto intro: keeps_ok)
  then show ?case by simp
qed (simp add: keeps_refl)

lemma reset_loop_keeps:
  "cenv_ok E \<Longrightarrow> cache_ok c \<Longrightarrow> indexed c ks \<Longrightarrow> keeps c (reset_until_ok E ks c)"
proof (induction ks arbitrary: c)
  case (Cons k ks)
  obtain n where k: "(n, k) \<in> set (c_item c)" using Cons.prems(3) by (auto simp: indexed_def)
  note r = reset_one_keeps [OF Cons.prems(1,2) k]
  have "keeps c (reset_until_ok E ks (reset_one E k c))"
    using r indexed_Cons [OF Cons.prems(3)] by (intro keeps_trans [OF _ Cons.IH [OF Cons.prems(1)]]) (auto intro: keeps_ok)
  then show ?case using keeps_refl [OF Cons.prems(2)] by simp
qed (simp add: keeps_refl)

lemma retry_keeps: "cenv_ok E \<Longrightarrow> cache_ok c \<Longrightarrow> keeps c (retryFailedResets E c)"
proof -
  assume E: "cenv_ok E" and ok: "cache_ok c"
  have "keeps c (fold (retry_one E) ns c)" for ns using ok
  proof (induction ns arbitrary: c)
    case (Cons n ns)
    note r = retry_one_keeps [OF E Cons.prems, of n]
    show ?case using keeps_trans [OF r Cons.IH [OF keeps_ok [OF r]]] by simp
  qed (simp add: keeps_refl)
  then show ?thesis by (simp add: retryFailedResets_def)
qed

lemma purgeOverQuota_keeps: "cenv_ok E \<Longrightarrow> cache_ok c \<Longrightarrow> keeps c (purgeOverQuota E c)"
proof -
  assume E: "cenv_ok E" and ok: "cache_ok c"
  let ?c = "updateUsed c" and ?ks = "by_ATime E (\<lambda>k. \<not> inUse (at k (updateUsed c))) (updateUsed c)"
  have k: "keeps c ?c" using keeps_refl [OF ok] by simp
  have "keeps ?c (fold (\<lambda>k c. removeNotInUse k 0 (quotasOK E c) c) ?ks ?c)"
    by (rule remove_loop_keeps [OF keeps_ok [OF k] indexed_by_ATime [OF E keeps_ok [OF k]]])
  from keeps_trans [OF k this] k show ?thesis by (simp add: purgeOverQuota_def Let_def)
qed

lemma purgeClean_keeps: "cenv_ok E \<Longrightarrow> cache_ok c \<Longrightarrow> keeps c (purgeClean E c)"
  using reset_loop_keeps [OF _ _ indexed_by_ATime] keeps_refl [of c] by (simp add: purgeClean_def)

lemma clean_run_keeps:
  assumes E: "cenv_ok E" and ok: "cache_ok c"
  shows "keeps c (clean_run E kicked c)"
proof -
  have 0: "keeps c (updateUsed c)" using keeps_refl [OF ok] by simp
  let ?c1 = "purgeOld E (updateUsed c)"
  have 1: "keeps c ?c1" using keeps_trans [OF 0 purgeOld_keeps [OF keeps_ok [OF 0]]] .
  let ?c2 = "purgeOverQuota E ?c1"
  have 2: "keeps c ?c2" using keeps_trans [OF 1 purgeOverQuota_keeps [OF E keeps_ok [OF 1]]] .
  let ?c3 = "purgeClean E ?c2"
  have 3: "keeps c ?c3" using keeps_trans [OF 2 purgeClean_keeps [OF E keeps_ok [OF 2]]] .
  have 4: "keeps c (retryFailedResets E ?c3)" using keeps_trans [OF 3 retry_keeps [OF E keeps_ok [OF 3]]] .
  show ?thesis using 0 1 4 keeps_refl [OF ok] by (simp add: clean_run_def Let_def)
qed

end
