(* ===== verification/CacheUsed.thy ===== *)
theory CacheUsed
  imports CacheFrame
begin

text \<open>
  The space in use: \<open>used\<close> is the sum of the sizes of the indexed items (\<open>exact\<close>), which every step of the
  cleaner keeps; and the order in which \<open>purgeOverQuota\<close> removes items.
\<close>

section \<open>The space in use\<close>

definition total :: "Cache \<Rightarrow> int64" where
  "total c = sum_list (map (disk_size c \<circ> snd) (c_item c))"

lemma updateUsed_total: "updateUsed c = c\<lparr>used := total c\<rparr>"
  by (simp add: updateUsed_def total_def)

lemma disk_size_obj: "disk_size c k = Ranges_Size (Rs (obj_info c k))"
  by (simp add: disk_size_def getDiskSize_def at_def)

lemma total_bookkeeping [simp]:
  "total (c\<lparr>used := u\<rparr>) = total c" "total (c\<lparr>outOfSpace := b\<rparr>) = total c" "total (c\<lparr>errItems := e\<rparr>) = total c"
  "total (c\<lparr>used := u, c_item := l\<rparr>) = total (c\<lparr>c_item := l\<rparr>)"
  "total (unblock E c) = total c" "used (unblock E c) = used c"
  by (simp_all add: total_def disk_size_obj unblock_def comp_def)

lemma sum_delete:
  fixes f g :: "nat \<Rightarrow> int64"
  assumes "distinct (map fst l)" "(n, k) \<in> set l" "\<And>n' k'. (n', k') \<in> set l \<Longrightarrow> n' \<noteq> n \<Longrightarrow> g k' = f k'"
  shows "sum_list (map (f \<circ> snd) l) = f k + sum_list (map (g \<circ> snd) (AList.delete n l))"
  using assms
proof (induction l)
  case (Cons p l)
  obtain n0 k0 where p: "p = (n0, k0)" by (cases p)
  show ?case
  proof (cases "n0 = n")
    case True
    then have "n \<notin> fst ` set l" using Cons.prems(1) p by simp
    then have "k0 = k" "AList.delete n l = l" using True Cons.prems(2) p by (auto simp: rev_image_eqI)
    moreover have "sum_list (map (g \<circ> snd) l) = sum_list (map (f \<circ> snd) l)"
    proof (rule arg_cong [OF map_cong [OF refl]])
      fix q assume q: "q \<in> set l"
      then have "fst q \<noteq> n" using \<open>n \<notin> fst ` set l\<close> by auto
      then show "(g \<circ> snd) q = (f \<circ> snd) q" using Cons.prems(3) [of "fst q" "snd q"] q by simp
    qed
    ultimately show ?thesis by (simp add: p True comp_def)
  next
    case False
    then have "sum_list (map (f \<circ> snd) l) = f k + sum_list (map (g \<circ> snd) (AList.delete n l))"
      using Cons.prems p by (intro Cons.IH) auto
    moreover have "g k0 = f k0" using Cons.prems(3) [of n0 k0] p False by simp
    ultimately show ?thesis using False by (simp add: p add.left_commute comp_def)
  qed
qed simp

lemma sum_update:
  fixes f g :: "nat \<Rightarrow> int64"
  assumes "distinct (map fst l)" "(n, k) \<in> set l" "\<And>n' k'. (n', k') \<in> set l \<Longrightarrow> n' \<noteq> n \<Longrightarrow> g k' = f k'"
  shows "sum_list (map (g \<circ> snd) l) = sum_list (map (f \<circ> snd) l) - f k + g k"
proof -
  have "sum_list (map (g \<circ> snd) (AList.delete n l)) = sum_list (map (f \<circ> snd) (AList.delete n l))"
    using assms(3) by (intro arg_cong [of _ _ sum_list] map_cong) (auto simp: AList.delete_eq)
  then show ?thesis using sum_delete [OF assms] sum_delete [OF assms(1,2), of g g] by simp
qed

text \<open>One item is changed, or changed and dropped from the index.\<close>

lemma total_run:
  assumes ok: "cache_ok c" and k: "(n, k) \<in> set (c_item c)" and f: "\<And>T f0 w. conf n T f0 w \<Longrightarrow> conf n T f0 (snd (f w))"
    and r: "run_item k f c = (r, c1)"
  shows "total c1 = total c - disk_size c k + disk_size c1 k"
    and "total (c1\<lparr>c_item := AList.delete (i_name (c_obj c1 k)) (c_item c1)\<rparr>) = total c - disk_size c k"
proof -
  note R = run_ok [OF ok k f r]
  have ok1: "cache_ok c1" and i1: "c_item c1 = c_item c"
    and s1: "\<And>n' k'. (n', k') \<in> set (c_item c) \<Longrightarrow> k' \<noteq> k \<Longrightarrow> spared c c1 n' k'" by (rule R; assumption)+
  have n: "i_name (c_obj c1 k) = n" using cache_okD(2) [OF ok1] k by (simp add: i1)
  have e: "disk_size c1 k' = disk_size c k'" if a: "(n', k') \<in> set (c_item c)" "n' \<noteq> n" for n' k'
  proof -
    have "k' \<noteq> k" using a cache_okD(2) [OF ok] k by metis
    then show ?thesis using s1 [OF a(1)] by (simp add: spared_def disk_size_obj)
  qed
  note d = cache_okD(1) [OF ok]
  show "total c1 = total c - disk_size c k + disk_size c1 k"
    unfolding total_def i1 by (rule sum_update [OF d k e])
  have "total c = disk_size c k + sum_list (map (disk_size c1 \<circ> snd) (AList.delete n (c_item c)))"
    unfolding total_def by (rule sum_delete [OF d k e])
  moreover have "disk_size (c1\<lparr>c_item := l\<rparr>) = disk_size c1" for l by (auto simp: disk_size_obj)
  ultimately show "total (c1\<lparr>c_item := AList.delete (i_name (c_obj c1 k)) (c_item c1)\<rparr>) = total c - disk_size c k"
    by (simp add: total_def n i1)
qed

definition exact :: "Cache \<Rightarrow> bool" where
  "exact c \<longleftrightarrow> used c = total c"

lemma exact_bookkeeping [simp]: "exact (c\<lparr>outOfSpace := b\<rparr>) = exact c" "exact (c\<lparr>errItems := e\<rparr>) = exact c"
   "exact (unblock E c) = exact c" "exact (updateUsed c)"
  by (simp_all add: exact_def updateUsed_total)

lemma run_item_used: "run_item k f c = (r, c1) \<Longrightarrow> used c1 = used c"
  by (auto simp: run_item_def put_back_def split: prod.splits)

lemma removeNotInUse_exact:
  assumes ok: "cache_ok c" and k: "(n, k) \<in> set (c_item c)" and e: "exact c"
  shows "exact (removeNotInUse k a b c)"
proof -
  obtain removed freed c1 where r: "run_item k (RemoveNotInUse a b) c = ((removed, freed), c1)"
    by (metis prod_cases3 surj_pair)
  have w: "RemoveNotInUse a b (at k c) = ((removed, freed), snd (RemoveNotInUse a b (at k c)))"
    "c_obj c1 k = it (snd (RemoveNotInUse a b (at k c)))"
    using r by (auto simp: run_item_def put_back_def split: prod.splits)
  have "\<not> removed \<longrightarrow> freed = 0 \<and> disk_size c1 k = disk_size c k" "removed \<longrightarrow> freed = disk_size c k"
    using w by (auto simp: RemoveNotInUse_def disk_size_obj at_def Let_def split: if_splits)
  moreover note total_run [OF ok k conf_RemoveNotInUse r]
  ultimately show ?thesis
    using e run_item_used [OF r] by (simp add: exact_def removeNotInUse_def r Let_def)
qed

lemma purgeOld_exact:
  assumes "cache_ok c" "exact c"
  shows "exact (purgeOld E c)"
proof -
  have "exact (fold (\<lambda>n c. case map_of (c_item c) n of
       Some k \<Rightarrow> removeNotInUse k (CacheMaxAge c) False c | None \<Rightarrow> c) ns c)" for ns
    using assms
  proof (induction ns arbitrary: c)
    case (Cons n ns)
    let ?c1 = "case map_of (c_item c) n of Some k \<Rightarrow> removeNotInUse k (CacheMaxAge c) False c | None \<Rightarrow> c"
    have "cache_ok ?c1 \<and> exact ?c1"
    proof (cases "map_of (c_item c) n")
      case (Some k)
      note k = map_of_SomeD [OF Some]
      show ?thesis
        using removeNotInUse_keeps [OF Cons.prems(1) k, of "CacheMaxAge c" False] keeps_ok
          removeNotInUse_exact [OF Cons.prems(1) k Cons.prems(2)] Some by auto
    qed (use Cons.prems in simp)
    then show ?case using Cons.IH [of ?c1] by simp
  qed simp
  then show ?thesis by (simp add: purgeOld_def)
qed

text \<open>After every run of the cleaner nobody waits for it any more.\<close>

lemma outOfSpace_retry: "outOfSpace (retryFailedResets E c) = outOfSpace c"
proof -
  have "outOfSpace (retry_one E n c) = outOfSpace c" for n c
    by (auto simp: retry_one_def run_item_def put_back_def split: option.split prod.splits)
  then have "outOfSpace (fold (retry_one E) ns c) = outOfSpace c" for ns by (induction ns arbitrary: c) auto
  then show ?thesis by (simp add: retryFailedResets_def)
qed

lemma quotas_unblock [simp]: "quotasOK E (unblock E c) = quotasOK E c"
  by (simp add: unblock_def quotasOK_def maxSizeQuotaOK_def minFreeSpaceQuotaOK_def split: sum.split)

lemma no_quotas: "\<not> haveQuotas c \<Longrightarrow> quotasOK E c"
  by (auto simp: haveQuotas_def quotasOK_def maxSizeQuotaOK_def minFreeSpaceQuotaOK_def i64)

lemma clean_run_releases:
  assumes "cache_ok c" "c_root E (rest c)"
  shows "\<not> outOfSpace (clean_run E kicked c)"
proof -
  let ?c1 = "purgeOld E (updateUsed c)" and ?c2 = "purgeOverQuota E (purgeOld E (updateUsed c))"
  have "cache_ok (updateUsed c)" using assms(1) by (simp add: updateUsed_def)
  then have x: "exact ?c1" by (rule purgeOld_exact) simp
  then have u: "updateUsed ?c1 = ?c1" by (simp add: updateUsed_total exact_def)
  have o: "quotasOK E ?c1 \<Longrightarrow> \<not> outOfSpace ?c1"
    unfolding purgeOld_def by (simp only: quotas_unblock) (simp add: unblock_def)
  have "quotasOK E ?c2 \<Longrightarrow> \<not> outOfSpace ?c2"
    using o unfolding purgeOverQuota_def u Let_def by (auto simp: unblock_def split: if_splits)
  then have "\<not> outOfSpace (purgeClean E ?c2)" by (simp add: purgeClean_def)
  then show ?thesis using assms(2) o no_quotas [of ?c1 E] by (simp add: clean_run_def Let_def outOfSpace_retry)
qed

section \<open>Resets and the space in use\<close>

lemma sys_it [simp]: "it (snd (sys f w)) = it w"
  by (simp add: sys_def split_beta)

lemma save_it [simp]: "it (snd (save w)) = it w"
  by (simp add: save_def split_beta)

lemma remove_Rs [simp]: "Rs (CacheItem.inf (snd (remove w))) = []"
  by (simp add: remove_def wb_Remove_def removeMeta_def removeFile_def upd_info_def upd_it_def Info_clean_def zero_Info_def Let_def)

lemma getSize_Rs [simp]: "Rs (CacheItem.inf (snd (getSize w))) = Rs (CacheItem.inf w)"
proof -
  have "it (snd (stat w)) = it w" by (simp add: stat_def split: option.split)
  then show ?thesis
    by (auto simp: getSize_def upd_info_def upd_it_def split_beta split: sum.split option.split)
qed

lemma truncate_fd_Rs [simp]: "Rs (CacheItem.inf (snd (truncate_fd i sz w))) = Rs (CacheItem.inf w)"
  by (simp add: truncate_fd_def upd_info_def upd_it_def split_beta split: option.split)

lemma truncate_Rs: "Rs (CacheItem.inf w) = [] \<Longrightarrow> Rs (CacheItem.inf (snd (CacheItem.truncate sz w))) = []"
  by (simp add: CacheItem.truncate_def split_beta split: option.split sum.split)
    (simp add: upd_info_def upd_it_def removeMeta_def sys_def fs_open_def Let_def split: prod.split option.split)

lemma truncateToCurrentSize_Rs: "Rs (CacheItem.inf w) = [] \<Longrightarrow> Rs (CacheItem.inf (snd (truncateToCurrentSize w))) = []"
  by (simp add: truncateToCurrentSize_def split_beta truncate_Rs)

lemma checkObject_Rs: "Rs (CacheItem.inf w) = [] \<Longrightarrow> Rs (CacheItem.inf (snd (checkObject ob w))) = []"
proof -
  assume a: "Rs (CacheItem.inf w) = []"
  have c: "Rs (CacheItem.inf (snd (truncateToCurrentSize (upd_it (\<lambda>i. i\<lparr>i_o := ob\<rparr>) w1)))) = []"
    if "Rs (CacheItem.inf w1) = []" for w1
    using that by (intro truncateToCurrentSize_Rs) (simp add: upd_it_def)
  have u: "Rs (CacheItem.inf (upd_info (\<lambda>i. i\<lparr>Fingerprint := f\<rparr>) w1)) = Rs (CacheItem.inf w1)"
    "Rs (CacheItem.inf (upd_info (\<lambda>i. i\<lparr>InfoSize := z\<rparr>) w1)) = Rs (CacheItem.inf w1)" for f z w1
    by (simp_all add: upd_info_def upd_it_def)
  show ?thesis unfolding checkObject_def Let_def split_beta snd_conv
    by (intro c) (simp add: a u split: option.split)
qed

lemma createFile_Rs: "Rs (CacheItem.inf w) = [] \<Longrightarrow> Rs (CacheItem.inf (snd (createFile w))) = []"
  by (simp add: createFile_def split_beta upd_it_def split: option.split sum.split)

definition env_quiet :: "env \<Rightarrow> bool" where
  "env_quiet E \<longleftrightarrow> (\<forall>w. Rs (CacheItem.inf (snd (e_CloseDownloaders E w))) = Rs (CacheItem.inf w))"

definition isize :: "world \<Rightarrow> int64" where "isize w = Ranges_Size (Rs (CacheItem.inf w))"

lemma isize_empty: "Rs (CacheItem.inf w) = [] \<Longrightarrow> isize w = 0"
  by (simp add: isize_def Ranges_Size_def)

lemma reset_rest_size:
  assumes E: "env_quiet E"
  shows "case reset_rest E w0 of ((res, freed, err), w') \<Rightarrow> res \<noteq> RemovedNotInUse \<and> isize w' = isize w0 - freed"
proof -
  obtain e1 w1 where 1: "close_downloaders E w0 = (e1, w1)" by (cases "close_downloaders E w0")
  have w1: "Rs (CacheItem.inf w1) = Rs (CacheItem.inf w0)"
  proof (cases "downloaders (it w0)")
    case True
    let ?w = "upd_it (\<lambda>i. i\<lparr>downloaders := False\<rparr>) w0"
    have "w1 = snd (e_CloseDownloaders E ?w)" using True 1 by (simp add: close_downloaders_def)
    then have "Rs (CacheItem.inf w1) = Rs (CacheItem.inf ?w)" using E by (simp add: env_quiet_def)
    then show ?thesis by (simp add: upd_it_def)
  qed (use 1 in \<open>simp add: close_downloaders_def\<close>)
  obtain e2 w2 where 2: "(if fd (it w1) \<noteq> None then (case sys fs_call w1 of (e, w) \<Rightarrow> (or_err e1 e, w)) else (e1, w1)) = (e2, w2)"
    (is "?X = _") by (cases ?X)
  have w2: "it w2 = it w1" using 2 by (auto simp: sys_def split: if_splits prod.splits)
  let ?w3 = "upd_it (\<lambda>i. i\<lparr>fd := None\<rparr>) w2"
  let ?w4 = "snd (remove ?w3)"
  obtain e5 w5 where 5: "checkObject (i_o (it ?w4)) ?w4 = (e5, w5)" by (cases "checkObject (i_o (it ?w4)) ?w4")
  have w5: "Rs (CacheItem.inf w5) = []" using checkObject_Rs [OF remove_Rs [of ?w3], of "i_o (it ?w4)"] 5 by simp
  obtain e6 w6 where 6: "createFile w5 = (e6, w6)" by (cases "createFile w5")
  have w6: "Rs (CacheItem.inf w6) = []" using createFile_Rs [OF w5] 6 by simp
  have u: "isize (upd_it (\<lambda>i. i\<lparr>beingReset := b\<rparr>) w) = isize w" "isize (upd_it (\<lambda>i. i\<lparr>fd := None\<rparr>) w) = isize w"
     "isize (upd_it (\<lambda>i. i\<lparr>beingReset := b, downloaders := g i\<rparr>) w) = isize w" for b g w
    by (simp_all add: isize_def upd_it_def)
  have i: "isize w5 = 0" "isize w6 = 0" "isize (snd (remove w6)) = 0" "isize w2 = isize w0"
    using w5 w6 w1 w2 by (simp_all add: isize_empty) (simp add: isize_def)
  have r: "Ranges_Size (Rs (CacheItem.inf ?w3)) = isize w0" using i(4) u(2) [of w2] by (simp add: isize_def)
  show ?thesis
    unfolding reset_rest_def 1 prod.case 2 Let_def 5 6 r
    using i by (simp add: u split: option.split)
qed

lemma Reset_size:
  assumes "env_quiet E" "Reset E w = ((res, freed, err), w')"
  shows "if res = RemovedNotInUse then freed = isize w else isize w' = isize w - freed"
  using assms(2) reset_rest_size [OF assms(1), of "upd_it (\<lambda>i. i\<lparr>beingReset := True\<rparr>) w"]
  by (auto simp: Reset_def isize_def upd_it_def split: if_splits)

lemma reset_one_exact:
  assumes ok: "cache_ok c" and k: "(n, k) \<in> set (c_item c)" and e: "exact c"
    and E: "env_local (c_env E k)" "env_quiet (c_env E k)"
  shows "exact (reset_one E k c)"
proof -
  obtain res freed err c1 where r: "run_item k (Reset (c_env E k)) c = ((res, freed, err), c1)"
    by (metis prod_cases3 surj_pair)
  obtain w' where w: "Reset (c_env E k) (at k c) = ((res, freed, err), w')" "c_obj c1 k = it w'"
    using r by (auto simp: run_item_def put_back_def split: prod.splits)
  have "if res = RemovedNotInUse then freed = disk_size c k else disk_size c1 k = disk_size c k - freed"
    using Reset_size [OF E(2) w(1)] w(2) by (auto simp: isize_def disk_size_obj at_def)
  moreover note total_run [OF ok k conf_Reset [OF E(1)] r]
  ultimately show ?thesis
    using e run_item_used [OF r] by (auto simp: exact_def reset_one_def r Let_def split: option.split if_splits)
qed

definition cenv_quiet :: "cenv \<Rightarrow> bool" where
  "cenv_quiet E \<longleftrightarrow> cenv_ok E \<and> (\<forall>k. env_quiet (c_env E k))"

lemma reset_loop_exact:
  "cenv_quiet E \<Longrightarrow> cache_ok c \<Longrightarrow> indexed c ks \<Longrightarrow> exact c \<Longrightarrow> exact (reset_until_ok E ks c)"
proof (induction ks arbitrary: c)
  case (Cons k ks)
  obtain n where k: "(n, k) \<in> set (c_item c)" using Cons.prems(3) by (auto simp: indexed_def)
  have E: "cenv_ok E" "env_local (c_env E k)" "env_quiet (c_env E k)"
    using Cons.prems(1) by (auto simp: cenv_quiet_def cenv_ok_def)
  note r = reset_one_keeps [OF E(1) Cons.prems(2) k] reset_one_exact [OF Cons.prems(2) k Cons.prems(4) E(2,3)]
  show ?case
    using Cons.IH [OF Cons.prems(1)] r indexed_Cons [OF Cons.prems(3)] keeps_ok Cons.prems(4) by auto
qed simp

lemma remove_loop_exact:
  "cache_ok c \<Longrightarrow> indexed c ks \<Longrightarrow> exact c \<Longrightarrow> exact (fold (\<lambda>k c. removeNotInUse k 0 (quotasOK E c) c) ks c)"
proof (induction ks arbitrary: c)
  case (Cons k ks)
  obtain n where k: "(n, k) \<in> set (c_item c)" using Cons.prems(2) by (auto simp: indexed_def)
  note r = removeNotInUse_keeps [OF Cons.prems(1) k, of 0 "quotasOK E c"] removeNotInUse_exact [OF Cons.prems(1) k Cons.prems(3), of 0 "quotasOK E c"]
  show ?case using Cons.IH r indexed_Cons [OF Cons.prems(2)] keeps_ok by auto
qed simp

section \<open>The order of eviction\<close>

definition idle :: "Item \<Rightarrow> bool" where
  "idle i \<longleftrightarrow> opens i = 0 \<and> \<not> Dirty (info i)"

text \<open>One call of \<open>removeNotInUse\<close> with age 0 on an item of the index.\<close>

lemma removeNotInUse_step:
  assumes ok: "cache_ok c" and k: "(n, k) \<in> set (c_item c)" and c': "c' = removeNotInUse k 0 b c"
  shows "\<And>n' k'. (n', k') \<in> set (c_item c) \<Longrightarrow> k' \<noteq> k \<Longrightarrow> c_obj c' k' = c_obj c k'"
    "idle (c_obj c k) \<Longrightarrow> \<not> graceTimer (c_obj c k) \<Longrightarrow> \<not> b \<or> disk_size c k = 0 \<Longrightarrow> (n', k) \<notin> set (c_item c')"
    "b \<Longrightarrow> disk_size c k \<noteq> 0 \<Longrightarrow> (n, k) \<in> set (c_item c') \<and> c_obj c' k = c_obj c k"
    "b \<Longrightarrow> used c' = used c"
    "CacheMaxSize c' = CacheMaxSize c" "CacheMinFreeSpace c' = CacheMinFreeSpace c"
proof -
  obtain removed freed c1 where r: "run_item k (RemoveNotInUse 0 b) c = ((removed, freed), c1)"
    by (metis prod_cases3 surj_pair)
  note R = run_ok [OF ok k conf_RemoveNotInUse r]
  have ok1: "cache_ok c1" and i1: "c_item c1 = c_item c"
    and s1: "\<And>n' k'. (n', k') \<in> set (c_item c) \<Longrightarrow> k' \<noteq> k \<Longrightarrow> spared c c1 n' k'" by (rule R; assumption)+
  have n: "i_name (c_obj c1 k) = n" using cache_okD(2) [OF ok1] k by (simp add: i1)
  have e: "c' = (let c2 = c1\<lparr>used := used c1 - freed\<rparr>
          in if removed then c2\<lparr>c_item := AList.delete n (c_item c2)\<rparr> else c2)"
    using n by (simp add: c' removeNotInUse_def r Let_def)
  obtain w where w: "RemoveNotInUse 0 b (at k c) = ((removed, freed), w)" "c1 = put_back k w c"
    using r by (auto simp: run_item_def split: prod.splits)
  have u: "used c1 = used c" "CacheMaxSize c1 = CacheMaxSize c" "CacheMinFreeSpace c1 = CacheMinFreeSpace c"
    by (simp_all add: w(2) put_back_def)
  show "\<And>n' k'. (n', k') \<in> set (c_item c) \<Longrightarrow> k' \<noteq> k \<Longrightarrow> c_obj c' k' = c_obj c k'"
    using s1 by (auto simp: e spared_def Let_def)
  show "CacheMaxSize c' = CacheMaxSize c" "CacheMinFreeSpace c' = CacheMinFreeSpace c"
    using u by (simp_all add: e Let_def)
  show "(n', k) \<notin> set (c_item c')" if "idle (c_obj c k)" "\<not> graceTimer (c_obj c k)" "\<not> b \<or> disk_size c k = 0"
  proof -
    have "removed" using w that by (auto simp: RemoveNotInUse_def at_def idle_def disk_size_obj split: if_splits)
    moreover have "n' = n" if "(n', k) \<in> set (c_item c)" using that k cache_okD(2) [OF ok] by metis
    ultimately show ?thesis by (auto simp: e i1 AList.delete_eq Let_def)
  qed
  have nr: "b \<Longrightarrow> disk_size c k \<noteq> 0 \<Longrightarrow> \<not> removed \<and> w = at k c" "b \<Longrightarrow> freed = 0"
    using w(1) by (auto simp: RemoveNotInUse_def at_def disk_size_obj Let_def split: if_splits)
  then show "b \<Longrightarrow> disk_size c k \<noteq> 0 \<Longrightarrow> (n, k) \<in> set (c_item c') \<and> c_obj c' k = c_obj c k"
    using k by (auto simp: e i1 w(2) put_back_def at_def Let_def)
  show "b \<Longrightarrow> used c' = used c" using nr(2) u(1) by (simp add: e Let_def)
qed

lemma quotas_size: "CacheMinFreeSpace c \<le>s 0 \<Longrightarrow> quotasOK E c \<longleftrightarrow> maxSizeQuotaOK c"
  by (simp add: quotasOK_def minFreeSpaceQuotaOK_def)

definition evict :: "cenv \<Rightarrow> nat list \<Rightarrow> Cache \<Rightarrow> Cache" where
  "evict E ks c = fold (\<lambda>k c. removeNotInUse k 0 (quotasOK E c) c) ks c"

lemma evict_Cons: "evict E (k # ks) c = evict E ks (removeNotInUse k 0 (quotasOK E c) c)"
  by (simp add: evict_def)

lemma evict_keeps: "cache_ok c \<Longrightarrow> indexed c ks \<Longrightarrow> keeps c (evict E ks c)"
  unfolding evict_def by (rule remove_loop_keeps)

lemma indexed_tail: "indexed c (k # ks) \<Longrightarrow> k' \<in> set ks \<Longrightarrow> k' \<noteq> k \<and> (\<exists>n. (n, k') \<in> set (c_item c))"
  by (auto simp: indexed_def)

text \<open>Items that are not in the list are not touched.\<close>

lemma evict_others:
  assumes "cache_ok c" "indexed c ks" "(n, k) \<in> set (c_item c)" "k \<notin> set ks"
  shows "(n, k) \<in> set (c_item (evict E ks c)) \<and> c_obj (evict E ks c) k = c_obj c k"
  using assms
proof (induction ks arbitrary: c)
  case (Cons k0 ks)
  obtain n0 where k0: "(n0, k0) \<in> set (c_item c)" using Cons.prems(2) by (auto simp: indexed_def)
  let ?c1 = "removeNotInUse k0 0 (quotasOK E c) c"
  note r = removeNotInUse_keeps [OF Cons.prems(1) k0, of 0 "quotasOK E c"]
  note s = removeNotInUse_step(1) [where b = "quotasOK E c", OF Cons.prems(1) k0 refl Cons.prems(3)]
  have "(n, k) \<in> set (c_item ?c1)" using r Cons.prems(3,4) by (auto simp: others_stay_def)
  then show ?case
    using Cons.IH [of ?c1] r s Cons.prems(4) keeps_ok indexed_Cons [OF Cons.prems(2)] by (auto simp: evict_Cons)
qed (simp add: evict_def)

lemma evict_ok:
  assumes "cache_ok c" "indexed c ks" "CacheMinFreeSpace c \<le>s 0" "quotasOK E c"
  shows "quotasOK E (evict E ks c)
    \<and> (\<forall>k \<in> set ks. disk_size c k \<noteq> 0 \<longrightarrow> (\<exists>n. (n, k) \<in> set (c_item (evict E ks c))))"
  using assms
proof (induction ks arbitrary: c)
  case (Cons k ks)
  obtain n where k: "(n, k) \<in> set (c_item c)" using Cons.prems(2) by (auto simp: indexed_def)
  let ?c1 = "removeNotInUse k 0 (quotasOK E c) c"
  note r = removeNotInUse_keeps [OF Cons.prems(1) k, of 0 "quotasOK E c"]
  note s = removeNotInUse_step [where b = "quotasOK E c", OF Cons.prems(1) k refl]
  have ok1: "cache_ok ?c1" "indexed ?c1 ks" using r keeps_ok indexed_Cons [OF Cons.prems(2)] by auto
  have q: "CacheMinFreeSpace ?c1 \<le>s 0" "quotasOK E ?c1"
    using s(4-6) Cons.prems(3,4) by (simp_all add: quotas_size maxSizeQuotaOK_def)
  have kn: "k \<notin> set ks" using Cons.prems(2) by (simp add: indexed_def)
  have "\<exists>n. (n, k) \<in> set (c_item (evict E ks ?c1))" if "disk_size c k \<noteq> 0"
    using evict_others [OF ok1 _ kn] s(3) [OF Cons.prems(4) that] by blast
  moreover have "disk_size ?c1 k' = disk_size c k'" if a: "k' \<in> set ks" for k'
  proof -
    obtain n' where "(n', k') \<in> set (c_item c)" "k' \<noteq> k"
      using indexed_tail [OF Cons.prems(2) a] by blast
    then show ?thesis using s(1) by (simp add: disk_size_obj)
  qed
  ultimately show ?case using Cons.IH [OF ok1 q] by (auto simp: evict_Cons)
qed (simp add: evict_def)

lemma evict_split:
  assumes "cache_ok c" "indexed c ks" "CacheMinFreeSpace c \<le>s 0" "\<forall>k \<in> set ks. idle (c_obj c k)"
  shows "\<exists>old new. ks = old @ new \<and> (new \<noteq> [] \<longrightarrow> quotasOK E (evict E ks c))
    \<and> (\<forall>k \<in> set old. \<not> graceTimer (c_obj c k) \<longrightarrow> (\<forall>n. (n, k) \<notin> set (c_item (evict E ks c))))
    \<and> (\<forall>k \<in> set new. disk_size c k \<noteq> 0 \<longrightarrow> (\<exists>n. (n, k) \<in> set (c_item (evict E ks c))))"
  using assms
proof (induction ks arbitrary: c)
  case (Cons k ks)
  show ?case
  proof (cases "quotasOK E c")
    case True
    then show ?thesis
      using evict_ok [OF Cons.prems(1-3) True] by (intro exI [of _ "[]"] exI [of _ "k # ks"]) auto
  next
    case False
    obtain n where k: "(n, k) \<in> set (c_item c)" using Cons.prems(2) by (auto simp: indexed_def)
    let ?c1 = "removeNotInUse k 0 (quotasOK E c) c"
    note r = removeNotInUse_keeps [OF Cons.prems(1) k, of 0 "quotasOK E c"]
    note s = removeNotInUse_step [where b = "quotasOK E c", OF Cons.prems(1) k refl]
    have ok1: "cache_ok ?c1" "indexed ?c1 ks" using r keeps_ok indexed_Cons [OF Cons.prems(2)] by auto
    have same: "c_obj ?c1 k' = c_obj c k'" if a: "k' \<in> set ks" for k'
    proof -
      obtain n' where "(n', k') \<in> set (c_item c)" "k' \<noteq> k"
        using indexed_tail [OF Cons.prems(2) a] by blast
      then show ?thesis by (rule s(1))
    qed
    have "CacheMinFreeSpace ?c1 \<le>s 0" "\<forall>k \<in> set ks. idle (c_obj ?c1 k)"
      using s(6) Cons.prems(3,4) same by simp_all
    from Cons.IH [OF ok1 this] obtain old new where
      *: "ks = old @ new" "new \<noteq> [] \<longrightarrow> quotasOK E (evict E ks ?c1)"
      "\<forall>k \<in> set old. \<not> graceTimer (c_obj ?c1 k) \<longrightarrow> (\<forall>n. (n, k) \<notin> set (c_item (evict E ks ?c1)))"
      "\<forall>k \<in> set new. disk_size ?c1 k \<noteq> 0 \<longrightarrow> (\<exists>n. (n, k) \<in> set (c_item (evict E ks ?c1)))"
      by blast
    have sub: "set (c_item (evict E ks ?c1)) \<subseteq> set (c_item ?c1)" using evict_keeps [OF ok1] by (simp add: keeps_def)
    have gone: "\<forall>n. (n, k) \<notin> set (c_item (evict E ks ?c1))" if "\<not> graceTimer (c_obj c k)"
      using s(2) [OF _ that] False Cons.prems(4) sub by auto
    show ?thesis
      using * gone same by (intro exI [of _ "k # old"] exI [of _ new]) (auto simp: evict_Cons disk_size_obj)
  qed
qed (simp add: evict_def)

end
