(* ===== verification/CacheClean.thy ===== *)
theory CacheClean
  imports CacheUsed
begin

text \<open>
  The cleaner as a whole: what it spares, in which order it evicts, that its accounting is exact, and a
  small cache on which the theorems are applied.
\<close>

section \<open>A cache to run\<close>

text \<open>Three items of two bytes: \<open>a\<close> and \<open>b\<close> are clean and closed, \<open>d\<close> is dirty. The quota is four bytes.\<close>

definition demo_item :: "string \<Rightarrow> time \<Rightarrow> bool \<Rightarrow> Item" where
  "demo_item n t d = (fresh_Item n 0)\<lparr>info := (Info_clean t)\<lparr>InfoSize := 2, Rs := [rg 0 2], Dirty := d\<rparr>\<rparr>"

definition three_files :: Fs where
  "three_files = \<lparr>files = [''a'' \<mapsto> 0, ''b'' \<mapsto> 1, ''d'' \<mapsto> 2], metas = Map.empty,
     inodes = (\<lambda>i. if i = 0 then [1, 2] else if i = 1 then [3, 4] else [5, 6]), mtimes = (\<lambda>_. 0), next_ino = 3,
     fault = (\<lambda>_. None), calls = 0\<rparr>"

definition demo_world :: world where
  "demo_world = sample\<lparr>fs := three_files, now := 100\<rparr>"

definition demo_objs :: "nat \<Rightarrow> Item" where
  "demo_objs k = (if k = 0 then demo_item ''a'' 10 False else if k = 1 then demo_item ''b'' 20 False else demo_item ''d'' 5 True)"

definition demo_cache :: Cache where
  "demo_cache = (fresh_Cache demo_world 1000 4 (-1) 60)\<lparr>c_item := [(''a'', 0), (''b'', 1), (''d'', 2)], c_next := 3,
     c_obj := demo_objs, c_kick := Some 0\<rparr>"

definition demo_cenv :: cenv where
  "demo_cenv = \<lparr>c_env = (\<lambda>_. dead_remote), c_avail = (\<lambda>_. Inr 1), c_root = (\<lambda>_. True), c_perm = (\<lambda>l. l)\<rparr>"

lemma demo_cache_fields:
  "c_item demo_cache = [(''a'', 0), (''b'', 1), (''d'', 2)]" "c_obj demo_cache = demo_objs" "c_next demo_cache = 3"
  "rest demo_cache = demo_world" "CacheMaxSize demo_cache = 4" "CacheMinFreeSpace demo_cache = -1"
  "CachePollInterval demo_cache = 60" "CacheMaxAge demo_cache = 1000" "cleanerKicked demo_cache = False"
  "c_kick demo_cache = Some 0" "fs demo_world = three_files" "errItems demo_cache = []"
  by (simp_all add: demo_cache_def fresh_Cache_def demo_world_def)

lemma demo_cache_ok: "cache_ok demo_cache"
  by (auto simp: cache_ok_def demo_cache_fields demo_objs_def demo_item_def fresh_Item_def three_files_def split: if_splits)

lemma dead_remote_local: "env_local dead_remote" "env_quiet dead_remote"
  by (simp_all add: env_local_def env_quiet_def dead_remote_def)

lemma demo_cenv_ok: "cenv_ok demo_cenv" "cenv_quiet demo_cenv"
  using dead_remote_local by (simp_all add: cenv_ok_def cenv_quiet_def demo_cenv_def)

section \<open>The cleaner\<close>

text \<open>C24: A run of the cleaner, with any system calls failing, leaves every item alone that is dirty, in its
  grace period, or open with accesses going on: it stays indexed with its state, its files and their content.\<close>

theorem clean_spares:
  assumes "cenv_ok E" "cache_ok c" "(n, k) \<in> set (c_item c)"
    and "Dirty (obj_info c k) \<or> graceTimer (c_obj c k) \<or> (opens (c_obj c k) \<noteq> 0 \<and> 0 < pendingAccesses (c_obj c k))"
    and "clean_run E kicked c = c'"
  shows "cache_ok c' \<and> (n, k) \<in> set (c_item c') \<and> c_obj c' k = c_obj c k
    \<and> files (cfs c') n = files (cfs c) n \<and> metas (cfs c') n = metas (cfs c) n
    \<and> (\<forall>i. files (cfs c) n = Some i \<or> fd (c_obj c k) = Some i \<longrightarrow> inodes (cfs c') i = inodes (cfs c) i)"
  using clean_run_keeps [OF assms(1,2), of kicked] assms(3-5)
  by (auto simp: keeps_def protected_def spared_def)

lemma clean_spares_witness:
  "files (cfs (clean_run demo_cenv True demo_cache)) ''d'' = Some 2
    \<and> inodes (cfs (clean_run demo_cenv True demo_cache)) 2 = [5, 6]"
proof -
  have "(''d'', 2) \<in> set (c_item demo_cache)" "Dirty (obj_info demo_cache 2)"
    by (simp_all add: demo_cache_fields demo_objs_def demo_item_def)
  from clean_spares [OF demo_cenv_ok(1) demo_cache_ok this(1) disjI1 [OF this(2)] refl, of True]
  show ?thesis by (simp add: demo_cache_fields three_files_def)
qed

text \<open>When the cache is over its size, the unused items go in the order of their last access, and only until
  it fits: there is a split of that order such that everything before it is gone (items in their grace
  period apart), every item behind it that has data is kept, and if anything is behind it, the quota is met.\<close>

theorem evict_oldest:
  assumes "cenv_ok E" "cache_ok c" "CacheMinFreeSpace c \<le>s 0" "\<not> quotasOK E (updateUsed c)" "purgeOverQuota E c = c'"
  shows "\<exists>old new. sorted (map (\<lambda>k. ATime (obj_info c k)) (old @ new))
    \<and> set (old @ new) = {k. opens (c_obj c k) = 0 \<and> \<not> Dirty (obj_info c k) \<and> (\<exists>n. (n, k) \<in> set (c_item c))}
    \<and> (\<forall>k \<in> set old. \<not> graceTimer (c_obj c k) \<longrightarrow> (\<forall>n. (n, k) \<notin> set (c_item c')))
    \<and> (\<forall>k \<in> set new. disk_size c k \<noteq> 0 \<longrightarrow> (\<exists>n. (n, k) \<in> set (c_item c')))
    \<and> (new \<noteq> [] \<longrightarrow> quotasOK E c')"
proof -
  let ?c = "updateUsed c"
  let ?ks = "by_ATime E (\<lambda>k. \<not> inUse (at k ?c)) ?c"
  have ok: "cache_ok ?c" using assms(2) by (simp add: updateUsed_def)
  have f: "c_obj ?c = c_obj c" "c_item ?c = c_item c" "disk_size ?c = disk_size c" "CacheMinFreeSpace ?c = CacheMinFreeSpace c"
    by (auto simp: updateUsed_def disk_size_obj)
  have s: "set ?ks = {k. opens (c_obj c k) = 0 \<and> \<not> Dirty (obj_info c k) \<and> (\<exists>n. (n, k) \<in> set (c_item c))}"
    using by_ATime_ok(2) [OF assms(1) ok] by (auto simp: f inUse_def at_def)
  have u: "c' = unblock E (evict E ?ks ?c)"
    using assms(4,5) by (simp add: purgeOverQuota_def evict_def Let_def)
  have i: "c_item c' = c_item (evict E ?ks ?c)" "quotasOK E c' = quotasOK E (evict E ?ks ?c)"
    unfolding u by (simp add: unblock_def) (rule quotas_unblock)
  have "\<forall>k \<in> set ?ks. idle (c_obj ?c k)" using s by (simp add: f idle_def)
  moreover have "CacheMinFreeSpace ?c \<le>s 0" using assms(3) by (simp add: f)
  ultimately obtain old new where
    *: "?ks = old @ new" "new \<noteq> [] \<longrightarrow> quotasOK E (evict E ?ks ?c)"
    "\<forall>k \<in> set old. \<not> graceTimer (c_obj ?c k) \<longrightarrow> (\<forall>n. (n, k) \<notin> set (c_item (evict E ?ks ?c)))"
    "\<forall>k \<in> set new. disk_size ?c k \<noteq> 0 \<longrightarrow> (\<exists>n. (n, k) \<in> set (c_item (evict E ?ks ?c)))"
    using evict_split [where E = E, OF ok indexed_by_ATime [OF assms(1) ok]] by metis
  have "sorted (map (\<lambda>k. ATime (obj_info c k)) ?ks)" unfolding by_ATime_def f by (rule sorted_sort_key)
  then have "sorted (map (\<lambda>k. ATime (obj_info c k)) (old @ new))" unfolding *(1) .
  moreover note s [unfolded *(1)] *(3,4) [unfolded f(1,3), folded i(1)] *(2) [folded i(2)]
  ultimately show ?thesis by blast
qed

lemma evict_oldest_witness: "\<exists>old new. set (old @ new) = {0, 1} \<and> sorted (map (\<lambda>k. ATime (obj_info demo_cache k)) (old @ new))
    \<and> (new \<noteq> [] \<longrightarrow> quotasOK demo_cenv (purgeOverQuota demo_cenv demo_cache))"
proof -
  have q: "CacheMinFreeSpace demo_cache \<le>s 0" "\<not> quotasOK demo_cenv (updateUsed demo_cache)"
    by (simp_all add: demo_cache_fields quotasOK_def maxSizeQuotaOK_def updateUsed_def disk_size_obj demo_objs_def demo_item_def
      Ranges_Size_def i64)
  have "{k. opens (c_obj demo_cache k) = 0 \<and> \<not> Dirty (obj_info demo_cache k) \<and> (\<exists>n. (n, k) \<in> set (c_item demo_cache))} = {0, 1}"
    by (auto simp: demo_cache_fields demo_objs_def demo_item_def fresh_Item_def Info_clean_def zero_Info_def split: if_splits)
  with evict_oldest [OF demo_cenv_ok(1) demo_cache_ok q refl] show ?thesis by metis
qed



end
