(* ===== verification/CacheKick.thy ===== *)
theory CacheKick
  imports CacheClean
begin

text \<open>
  \<open>KickCleaner\<close> and the goroutine of the cleaner among everything else that happens to a cache, as a step
  relation: nobody blocks on the channel and those who wait are released, unless the cleaner does not run.
\<close>

section \<open>Everything that happens to a cache\<close>

text \<open>The methods of the cache and of its items (any operation of any item), those who kick the cleaner, and the cleaner.\<close>

inductive cstep :: "cenv \<Rightarrow> Cache \<Rightarrow> Cache \<Rightarrow> bool" for E where
  cs_get: "get name c = (r, c') \<Longrightarrow> cstep E c c'"
| cs_open: "Cache_open E k ob c = (r, c') \<Longrightarrow> cstep E c c'"
| cs_item: "run_item k f c = ((), c') \<Longrightarrow> cstep E c c'"
| cs_rename: "Rename E old new ob c = Some (r, c') \<Longrightarrow> cstep E c c'"
| cs_dir_rename: "DirRename E old new c = Some (r, c') \<Longrightarrow> cstep E c c'"
| cs_remove: "Cache_Remove name c = (r, c') \<Longrightarrow> cstep E c c'"
| cs_mtime: "SetModTime name t c = c' \<Longrightarrow> cstep E c c'"
| cs_kick: "kick_start c = Some c' \<Longrightarrow> cstep E c c'"
| cs_clean: "clean_kicked E c = Some c' \<Longrightarrow> cstep E c c'"
| cs_tick: "clean_tick E c = Some c' \<Longrightarrow> cstep E c c'"

definition flags :: "Cache \<Rightarrow> bool \<times> bool \<times> nat option \<times> int64" where
  "flags c = (outOfSpace c, cleanerKicked c, c_kick c, CachePollInterval c)"

lemma flags_put_back [simp]: "flags (put_back k w c) = flags c"
  by (simp add: flags_def put_back_def)

lemma flags_item [simp]: "flags (c\<lparr>c_item := l\<rparr>) = flags c" "flags (c\<lparr>c_next := m\<rparr>) = flags c"
  "flags (c\<lparr>used := u\<rparr>) = flags c" "flags (c\<lparr>errItems := e\<rparr>) = flags c"
  by (simp_all add: flags_def)

lemma flags_run_item [simp]: "flags (snd (run_item k f c)) = flags c"
  by (simp add: run_item_def split_beta)

lemma flags_get [simp]: "flags (snd (get name c)) = flags c"
  by (simp add: get_def get0_def Let_def split: option.split)

lemma flags_put [simp]: "flags (snd (put name k c)) = flags c"
  by (simp add: put_def Let_def)

lemma flags_open [simp]: "flags (snd (Cache_open E k ob c)) = flags c"
  by (simp add: Cache_open_def split_beta Let_def split: bool.split)

lemma flags_Rename: "Rename E old new ob c = Some (r, c') \<Longrightarrow> flags c' = flags c"
  using flags_get [of old c]
  by (cases "get old c") (auto simp: Rename_def move_index_def split: prod.splits option.splits)

lemma flags_rename_all: "rename_all E old new ns e c = Some (r, c') \<Longrightarrow> flags c' = flags c"
proof (induction ns arbitrary: e c)
  case (Cons n ns)
  then show ?case using flags_Rename by (fastforce split: option.splits prod.splits)
qed simp

lemma flags_removeNotInUse [simp]: "flags (removeNotInUse k a b c) = flags c"
  using flags_run_item [of k "RemoveNotInUse a b" c] by (simp add: removeNotInUse_def split_beta Let_def)

lemma flags_reset_one [simp]: "flags (reset_one E k c) = flags c"
  using flags_run_item [of k "Reset (c_env E k)" c] by (simp add: reset_one_def split_beta Let_def split: option.split)

lemma flags_retry_one [simp]: "flags (retry_one E n c) = flags c"
  by (simp add: retry_one_def split_beta split: option.split)

lemma flags_rest: "flags c = flags c' \<Longrightarrow> cleanerKicked c = cleanerKicked c' \<and> c_kick c = c_kick c' \<and> CachePollInterval c = CachePollInterval c'"
  by (simp add: flags_def)

text \<open>The cleaner resets \<open>outOfSpace\<close> and, when it was kicked, \<open>cleanerKicked\<close>.\<close>

lemma flags_fold: "(\<And>x c. g (f x c) = g c) \<Longrightarrow> g (fold f xs c) = g c"
  by (induction xs arbitrary: c) simp_all

definition kept_flags :: "Cache \<Rightarrow> bool \<times> nat option \<times> int64" where
  "kept_flags c = (cleanerKicked c, c_kick c, CachePollInterval c)"

lemma kept_flags_eq: "flags c = flags c' \<Longrightarrow> kept_flags c = kept_flags c'"
  by (simp add: flags_def kept_flags_def)

lemma kept_flags_oos [simp]: "kept_flags (c\<lparr>outOfSpace := b\<rparr>) = kept_flags c" "kept_flags (unblock E c) = kept_flags c"
  by (simp_all add: kept_flags_def unblock_def)

lemma kept_purgeOld [simp]: "kept_flags (purgeOld E c) = kept_flags c"
proof -
  have "flags (fold (\<lambda>n c. case map_of (c_item c) n of
       Some k \<Rightarrow> removeNotInUse k (CacheMaxAge c) False c | None \<Rightarrow> c) ns c) = flags c" for ns
    by (rule flags_fold) (simp split: option.split)
  from kept_flags_eq [OF this] show ?thesis by (simp add: purgeOld_def)
qed

lemma kept_purgeOverQuota [simp]: "kept_flags (purgeOverQuota E c) = kept_flags c"
proof -
  have u: "flags (updateUsed c) = flags c" by (simp add: updateUsed_def)
  have "flags (fold (\<lambda>k c. removeNotInUse k 0 (quotasOK E c) c) ks (updateUsed c)) = flags c" for ks
    using u flags_fold [of flags "\<lambda>k c. removeNotInUse k 0 (quotasOK E c) c" ks "updateUsed c"] by simp
  from kept_flags_eq [OF this] kept_flags_eq [OF u] show ?thesis by (simp add: purgeOverQuota_def Let_def)
qed

lemma kept_purgeClean [simp]: "kept_flags (purgeClean E c) = kept_flags c"
proof -
  have "flags (reset_until_ok E ks c) = flags c" for ks by (induction ks arbitrary: c) simp_all
  from kept_flags_eq [OF this] show ?thesis by (simp add: purgeClean_def)
qed

lemma kept_retry [simp]: "kept_flags (retryFailedResets E c) = kept_flags c"
  unfolding retryFailedResets_def by (rule kept_flags_eq) (rule flags_fold, simp)

lemma kept_clean_run: "kept_flags (clean_run E b c) =
    (if c_root E (rest c) \<and> b then (False, c_kick c, CachePollInterval c) else kept_flags c)"
proof -
  have u: "kept_flags (updateUsed c) = kept_flags c" by (simp add: updateUsed_def kept_flags_def)
  have "kept_flags (c'\<lparr>cleanerKicked := False\<rparr>) = (False, snd (kept_flags c'))" for c' by (simp add: kept_flags_def)
  then show ?thesis using u by (simp add: clean_run_def Let_def) (simp add: kept_flags_def)
qed

section \<open>Kicking the cleaner\<close>

definition kick_inv :: "Cache \<Rightarrow> bool" where
  "kick_inv c \<longleftrightarrow> c_kick c = Some 0 \<or> (c_kick c = Some 1 \<and> cleanerKicked c)"

lemma cstep_flags:
  assumes "cstep E c c'"
  shows "flags c' = flags c \<or> kick_start c = Some c' \<or> clean_kicked E c = Some c' \<or> clean_tick E c = Some c'"
  using assms
proof cases
  case (cs_get name r) then show ?thesis using flags_get [of name c] by simp
next
  case (cs_open k ob r) then show ?thesis using flags_open [of E k ob c] by simp
next
  case (cs_item k f) then show ?thesis using flags_run_item [of k f c] by simp
next
  case (cs_rename old new ob r) then show ?thesis using flags_Rename by blast
next
  case (cs_dir_rename old new r)
  then show ?thesis using flags_rename_all by (auto simp: DirRename_def Let_def)
next
  case (cs_remove name r)
  then show ?thesis using flags_run_item by (auto simp: Cache_Remove_def split: option.splits) (metis flags_item(1) flags_run_item snd_conv)
next
  case (cs_mtime name t)
  then show ?thesis using flags_get [of name c] by (cases "get name c") (auto simp: SetModTime_def split: prod.splits)
qed simp_all

lemma cstep_kick_inv:
  assumes "cstep E c c'" "kick_inv c"
  shows "kick_inv c'"
proof -
  have k: "kept_flags c' = (cleanerKicked c', c_kick c', CachePollInterval c')" by (simp add: kept_flags_def)
  consider "flags c' = flags c" | "kick_start c = Some c'" | "clean_kicked E c = Some c'" | "clean_tick E c = Some c'"
    using cstep_flags [OF assms(1)] by blast
  then show ?thesis
  proof cases
    case 1 then show ?thesis using assms(2) by (simp add: flags_def kick_inv_def)
  next
    case 2 then show ?thesis using assms(2) by (auto simp: kick_start_def kick_inv_def split: if_splits)
  next
    case 3
    then have "c' = clean_run E True (c\<lparr>c_kick := Some 0\<rparr>)" by (auto simp: clean_kicked_def split: if_splits)
    then show ?thesis using k kept_clean_run [of E True "c\<lparr>c_kick := Some 0\<rparr>"]
      by (auto simp: kick_inv_def kept_flags_def split: if_splits)
  next
    case 4
    then have "c' = clean_run E False c" by (auto simp: clean_tick_def split: if_splits)
    then show ?thesis using k kept_clean_run [of E False c] assms(2) by (auto simp: kick_inv_def kept_flags_def)
  qed
qed

lemma cstep_poll: "cstep E c c' \<Longrightarrow> CachePollInterval c' = CachePollInterval c"
proof -
  assume a: "cstep E c c'"
  have k: "kept_flags c' = (cleanerKicked c', c_kick c', CachePollInterval c')" by (simp add: kept_flags_def)
  consider "flags c' = flags c" | "kick_start c = Some c'" | "clean_kicked E c = Some c'" | "clean_tick E c = Some c'"
    using cstep_flags [OF a] by blast
  then show ?thesis
  proof cases
    case 1 then show ?thesis by (simp add: flags_def)
  next
    case 2 then show ?thesis by (auto simp: kick_start_def split: if_splits option.splits nat.splits)
  next
    case 3
    then show ?thesis using k kept_clean_run [of E True "c\<lparr>c_kick := Some 0\<rparr>"]
      by (auto simp: clean_kicked_def kept_flags_def split: if_splits)
  next
    case 4
    then show ?thesis using k kept_clean_run [of E False c] by (auto simp: clean_tick_def kept_flags_def split: if_splits)
  qed
qed

lemma flags_reload_all: "reload_all E ns c = Some c' \<Longrightarrow> flags c' = flags c"
proof (induction ns arbitrary: c)
  case (Cons n ns)
  obtain k b c1 where g: "get n c = ((k, b), c1)" by (metis prod_cases3 surj_pair)
  then have "flags c1 = flags c" using flags_get [of n c] by simp
  then show ?case using Cons g by (cases b) (auto split: option.splits)
qed simp

lemma newCache_flags:
  assumes "newCache E0 dir w names age sz free poll = Some (Inr c)"
  shows "kick_inv c" "CachePollInterval c = poll" "\<not> outOfSpace c" "\<not> cleanerKicked c"
proof -
  obtain w2 c1 where 1: "reload_all E0 names (fresh_Cache w2 age sz free poll) = Some c1" "c = c1\<lparr>c_kick := Some 0\<rparr>"
    using assms by (auto simp: newCache_def split: if_splits prod.splits option.splits)
  from flags_reload_all [OF 1(1)]
  show "kick_inv c" "CachePollInterval c = poll" "\<not> outOfSpace c" "\<not> cleanerKicked c"
    by (simp_all add: 1(2) flags_def fresh_Cache_def kick_inv_def)
qed

lemma csteps_inv:
  assumes "(cstep E)\<^sup>*\<^sup>* c0 c" "kick_inv c0"
  shows "kick_inv c \<and> CachePollInterval c = CachePollInterval c0"
  using assms by (induction rule: rtranclp_induct) (auto dest: cstep_kick_inv cstep_poll)



text \<open>With a poll interval of 0, which is what the HTTP handler's options give, the cleaner does not run: a
  caller that has kicked it waits for ever, whatever else happens to the cache.\<close>

theorem never_cleaned:
  assumes "\<not> 0 <s CachePollInterval c0" "\<not> cleanerKicked c0" "kick_start c0 = Some c" "(cstep E)\<^sup>*\<^sup>* c c'"
  shows "outOfSpace c' \<and> clean_kicked E c' = None \<and> clean_tick E c' = None"
proof -
  have c: "outOfSpace c" "\<not> 0 <s CachePollInterval c"
    using assms(1-3) by (auto simp: kick_start_def split: option.splits nat.splits)
  from assms(4) have "outOfSpace c' \<and> \<not> 0 <s CachePollInterval c'"
  proof (induction rule: rtranclp_induct)
    case (step c1 c2)
    then show ?case
      using cstep_flags [OF step(2)] cstep_poll [OF step(2)]
      by (auto simp: flags_def kick_start_def clean_kicked_def clean_tick_def cleaner_runs_def
          split: if_splits option.splits nat.splits)
  qed (use c in simp)
  then show ?thesis by (simp add: clean_kicked_def clean_tick_def cleaner_runs_def)
qed

lemma never_cleaned_witness:
  "\<exists>c. kick_start (demo_cache\<lparr>CachePollInterval := 0\<rparr>) = Some c \<and> outOfSpace (snd (get ''x'' c))"
proof -
  let ?c0 = "demo_cache\<lparr>CachePollInterval := 0\<rparr>"
  obtain c where k: "kick_start ?c0 = Some c" by (simp add: kick_start_def demo_cache_fields)
  have "cstep demo_cenv c (snd (get ''x'' c))" by (rule cs_get [of _ _ "fst (get ''x'' c)"]) simp
  from never_cleaned [OF _ _ k r_into_rtranclp [of "cstep demo_cenv", OF this]] k show ?thesis
    by (simp add: demo_cache_fields i64)
qed

text \<open>While the cache is being loaded the channel does not exist: an item that runs out of space then
  blocks for ever in \<open>KickCleaner\<close>, with the lock of the cache held.\<close>

theorem reload_kick_blocks:
  assumes "reload_all E names (fresh_Cache w age sz free poll) = Some c"
  shows "kick_start c = None"
  using flags_reload_all [OF assms] by (simp add: flags_def fresh_Cache_def kick_start_def)

lemma reload_kick_blocks_witness: "kick_start (fresh_Cache demo_world 0 4 (-1) 60) = None"
  by (rule reload_kick_blocks [of demo_cenv "[]"]) simp

end
