(* ===== verification/CacheNames.thy ===== *)
theory CacheNames
  imports CacheClean
begin

text \<open>
  Names: renaming an item in the index and on disk, and finding items again, also after a restart.
\<close>

section \<open>Renaming\<close>

lemma rename_file_ok:
  assumes "rename_file old new f = (None, f')" "old \<noteq> new" "\<And>i. files f old = Some i \<Longrightarrow> files f new \<noteq> Some i"
  shows "(files f' = (if files f old = None then files f else (files f)(new := files f old, old := None)) \<or>
      (\<exists>k. fault f k \<noteq> None)) \<and> inodes f' = inodes f \<and> metas f' = metas f \<and> fault f' = fault f"
  using assms
  by (auto simp: rename_file_def fs_stat_def fs_call_def call_def wrap_err_def split: option.splits if_splits)

lemma rename_meta_ok:
  assumes "rename_meta old new f = (None, f')" "old \<noteq> new"
  shows "(metas f' = (if metas f old = None then metas f else (metas f)(new := metas f old, old := None)) \<or>
      (\<exists>k. fault f k \<noteq> None)) \<and> inodes f' = inodes f \<and> files f' = files f \<and> fault f' = fault f"
  using assms
  by (auto simp: rename_meta_def fs_call_def call_def wrap_err_def split: option.splits if_splits)



text \<open>A rename of a name to itself drops its item from the index, although the file stays: the next user of the
  name gets a second item for the same file.\<close>

theorem self_rename:
  assumes "Rename E n n ob c = Some (None, c')" "clean n = n"
  shows "map_of (c_item c') n = None"
proof -
  obtain k b c1 where g: "get n c = ((k, b), c1)" by (metis prod_cases3 surj_pair)
  then have m: "map_of (c_item c1) n = Some k"
    by (auto simp: get_def get0_def assms(2) update_conv' Let_def split: option.splits)
  then show ?thesis using assms(1)
    by (auto simp: Rename_def g move_index_def put_back_def delete_conv' split: option.splits prod.splits)
qed

lemma self_rename_witness:
  "\<exists>c'. Rename demo_cenv ''d'' ''d'' None demo_cache = Some (None, c') \<and> map_of (c_item c') ''d'' = None"
proof -
  have c: "clean ''d'' = ''d''" by code_simp
  obtain c' where "Rename demo_cenv ''d'' ''d'' None demo_cache = Some (None, c')"
    by (simp add: Rename_def get_def get0_def c demo_cache_fields rename_item_def guarded_def preAccess_def rename_locked_def
      at_def demo_objs_def demo_item_def fresh_Item_def updateFingerprint_def upd_it_def sys_def rename_file_def rename_meta_def
      fs_stat_def fs_call_def call_def three_files_def wrap_err_def Let_def)
  then show ?thesis using self_rename [OF _ c] by blast
qed

definition failing_cache :: Cache where
  "failing_cache = demo_cache\<lparr>CacheMaxAge := 0, rest := demo_world\<lparr>fs := three_files\<lparr>fault := (\<lambda>k. if k = 0 then Some (ErrPermission, 0) else None)\<rparr>\<rparr>\<rparr>"

lemma removeNotInUse_idle:
  assumes "opens (c_obj c k) = 0" "\<not> Dirty (obj_info c k)" "\<not> graceTimer (c_obj c k)"
    and "\<forall>j \<ge> calls (cfs c). fault (cfs c) j = None"
  shows "\<exists>c'. removeNotInUse k 0 False c = c' \<and> c_item c' = AList.delete (i_name (c_obj c k)) (c_item c)
    \<and> files (cfs c') = (files (cfs c))(i_name (c_obj c k) := None) \<and> (\<forall>k'. k' \<noteq> k \<longrightarrow> c_obj c' k' = c_obj c k')
    \<and> CacheMaxAge c' = CacheMaxAge c \<and> fault (cfs c') = fault (cfs c) \<and> calls (cfs c) \<le> calls (cfs c')"
proof -
  let ?n = "i_name (c_obj c k)" and ?w = "snd (remove (at k c))"
  have f: "fs ?w = snd (fs_remove_meta ?n (snd (fs_remove ?n (cfs c))))"
    by (simp add: remove_def wb_Remove_def removeMeta_def removeFile_def sys_def upd_info_def upd_it_def at_def split_beta Let_def)
  have n: "i_name (it ?w) = ?n"
    by (simp add: remove_def wb_Remove_def removeMeta_def removeFile_def upd_info_def upd_it_def at_def Let_def)
  have 1: "files (snd (fs_remove ?n (cfs c))) = (files (cfs c))(?n := None)" "fault (snd (fs_remove ?n (cfs c))) = fault (cfs c)"
    "calls (snd (fs_remove ?n (cfs c))) = Suc (calls (cfs c))"
    using assms(4) by (auto simp: fs_remove_def call_def)
  have 2: "files (fs ?w) = (files (cfs c))(?n := None)" "fault (fs ?w) = fault (cfs c)" "calls (cfs c) \<le> calls (fs ?w)"
    unfolding f using 1 by (simp_all add: fs_remove_meta_def call_def split: option.split)
  have "RemoveNotInUse 0 False (at k c) = ((True, Ranges_Size (Rs (obj_info c k))), ?w)"
    using assms(1-3) by (simp add: RemoveNotInUse_def at_def)
  then have "removeNotInUse k 0 False c = (put_back k ?w c)\<lparr>used := used c - Ranges_Size (Rs (obj_info c k)),
      c_item := AList.delete ?n (c_item c)\<rparr>"
    using n by (simp add: removeNotInUse_def run_item_def put_back_def Let_def)
  then show ?thesis using 2 by (simp add: put_back_def)
qed

text \<open>When moving the file fails, the item keeps its place in the index under the old name but has the new one:
  the next purge of it removes the file of the item that really has that name, although it is dirty, and
  that item leaves the index.\<close>

theorem failed_rename:
  "\<exists>e c1. Rename demo_cenv ''a'' ''d'' None failing_cache = Some (Some e, c1) \<and> Dirty (obj_info c1 2)
    \<and> files (cfs c1) ''d'' = Some 2 \<and> map_of (c_item c1) ''d'' = Some 2
    \<and> files (cfs (purgeOld demo_cenv c1)) ''d'' = None \<and> map_of (c_item (purgeOld demo_cenv c1)) ''d'' = None"
proof -
  have cl: "clean ''a'' = ''a''" by code_simp
  obtain e c1 where r: "Rename demo_cenv ''a'' ''d'' None failing_cache = Some (Some e, c1)"
    and c1: "c_item c1 = [(''a'', 0), (''b'', 1), (''d'', 2)]" "i_name (c_obj c1 0) = ''d''" "opens (c_obj c1 0) = 0"
      "\<not> Dirty (obj_info c1 0)" "\<not> graceTimer (c_obj c1 0)" "c_obj c1 1 = demo_item ''b'' 20 False" "c_obj c1 2 = demo_item ''d'' 5 True"
      "files (cfs c1) = files three_files" "fault (cfs c1) = (\<lambda>k. if k = 0 then Some (ErrPermission, 0) else None)" "0 < calls (cfs c1)"
      "CacheMaxAge c1 = 0"
    by (simp add: Rename_def get_def get0_def cl failing_cache_def demo_cache_fields rename_item_def guarded_def preAccess_def rename_locked_def
      at_def demo_objs_def demo_item_def fresh_Item_def updateFingerprint_def upd_it_def sys_def rename_file_def rename_meta_def
      fs_stat_def fs_call_def call_def three_files_def wrap_err_def Let_def put_back_def postAccess_def)
  have late: "\<forall>j \<ge> calls (cfs c1). fault (cfs c1) j = None" using c1(9,10) by simp
  from removeNotInUse_idle [OF c1(3-5) late] c1(1,2,8) obtain c2 where
    c2: "removeNotInUse 0 0 False c1 = c2" "c_item c2 = [(''a'', 0), (''b'', 1)]" "files (cfs c2) ''d'' = None"
    "c_obj c2 1 = c_obj c1 1" "CacheMaxAge c2 = 0" "fault (cfs c2) = fault (cfs c1)" "calls (cfs c1) \<le> calls (cfs c2)"
    using c1(11) by auto
  have b: "opens (c_obj c2 1) = 0" "\<not> Dirty (obj_info c2 1)" "\<not> graceTimer (c_obj c2 1)" "i_name (c_obj c2 1) = ''b''"
    by (simp_all only: c2(4) c1(6)) (simp_all add: demo_item_def fresh_Item_def Info_clean_def zero_Info_def)
  have late2: "\<forall>j \<ge> calls (cfs c2). fault (cfs c2) j = None" using late c2(6,7) by simp
  from removeNotInUse_idle [OF b(1-3) late2] c2 b(4) obtain c3 where
    c3: "removeNotInUse 1 0 False c2 = c3" "c_item c3 = [(''a'', 0)]" "files (cfs c3) ''d'' = None" by auto
  have "purgeOld demo_cenv c1 = unblock demo_cenv c3"
    using c1(1,11) c2 c3 by (simp add: purgeOld_def demo_cenv_def)
  then have "files (cfs (purgeOld demo_cenv c1)) ''d'' = None" "map_of (c_item (purgeOld demo_cenv c1)) ''d'' = None"
    using c3 by (simp_all add: unblock_def)
  moreover have "Dirty (obj_info c1 2)" "files (cfs c1) ''d'' = Some 2" "map_of (c_item c1) ''d'' = Some 2"
    using c1(1,7,8) by (simp_all add: three_files_def demo_item_def)
  ultimately show ?thesis using r by blast
qed

section \<open>Restarts\<close>



text \<open>A metadata file that was not completely written makes the next start remove the data file, with the
  modifications that had not been stored.\<close>

theorem torn_metadata:
  assumes "fault (fs w) (calls (fs w)) = Some (e, Suc k)" "\<forall>j > calls (fs w). fault (fs w) j = None"
  shows "fst (save w) \<noteq> None \<and> files (fs (newItem (i_name (it w)) (snd (save w)))) (i_name (it w)) = None"
  using assms
  by (auto simp: save_def sys_def fs_save_meta_def call_def wrap_err_def newItem_def upd_it_def fs_stat_def load_def
      fs_load_meta_def fresh_Item_def upd_info_def remove_def wb_Remove_def removeFile_def removeMeta_def fs_remove_def
      fs_remove_meta_def Let_def split: option.splits)

lemma torn_metadata_witness:
  "Dirty (CacheItem.inf (sample_dirty\<lparr>fs := sample_fs\<lparr>fault := (\<lambda>j. if j = 0 then Some (ENOSPC, 1) else None)\<rparr>\<rparr>))
   \<and> files (fs (newItem ''a'' (snd (save (sample_dirty\<lparr>fs := sample_fs\<lparr>fault := (\<lambda>j. if j = 0 then Some (ENOSPC, 1) else None)\<rparr>\<rparr>))))) ''a'' = None"
proof -
  let ?w = "sample_dirty\<lparr>fs := sample_fs\<lparr>fault := (\<lambda>j. if j = 0 then Some (ENOSPC, 1) else None)\<rparr>\<rparr>"
  have f: "i_name (it ?w) = ''a''" "fault (fs ?w) (calls (fs ?w)) = Some (ENOSPC, Suc 0)" "\<forall>j > calls (fs ?w). fault (fs ?w) j = None"
    by (simp_all add: sample_dirty_def item_eval)
  have "Dirty (CacheItem.inf ?w)" by (simp add: sample_dirty_def)
  with torn_metadata [OF f(2,3)] show ?thesis unfolding f(1) by blast
qed

text \<open>Two users of a name, however they write it, share one item.\<close>

theorem get_same:
  assumes "clean m = clean n" "get n c = ((k, b), c1)"
  shows "get m c1 = ((k, True), c1)"
  using assms by (auto simp: get_def get0_def update_conv' Let_def split: option.splits)

lemma get_same_witness: "\<exists>k c1. get ''/x/'' demo_cache = ((k, False), c1) \<and> get ''y/../x'' c1 = ((k, True), c1)"
proof -
  have c: "clean ''/x/'' = ''x''" "clean ''y/../x'' = clean ''/x/''" by code_simp+
  obtain k c1 where g: "get ''/x/'' demo_cache = ((k, False), c1)"
    by (simp add: get_def get0_def c(1) demo_cache_fields Let_def)
  from get_same [OF c(2) g] g show ?thesis by blast
qed

end
