(* ===== verification/CacheDirs.thy ===== *)
theory CacheDirs
  imports CachePath GoIO
begin

text \<open>
  The directories of the cache: \<open>createDir\<close>, \<open>createItemDir\<close>, \<open>DirExists\<close>, \<open>removeEmptyDir\<close> and \<open>purgeEmptyDirs\<close>
  of \<open>cache.go\<close>, and those steps of \<open>New\<close> that touch directories. The loop of \<open>removeEmptyDir\<close> ends for every path,
  it takes only directories below which no file is, and it takes the root of the cache as well.
\<close>

section \<open>Directories of the file system\<close>

text \<open>
  The paths of directories and of files, and what system calls on a path that is denied answer. Paths are
  cleaned. The theories of items key files by name instead, in one directory.
\<close>

record Disk =
  d_dirs :: "string list"
  d_files :: "string list"
  d_deny :: "string \<Rightarrow> go_err option"

definition has_entry :: "Disk \<Rightarrow> string \<Rightarrow> bool" where
  "has_entry d p \<longleftrightarrow> list_ex (\<lambda>q. q \<noteq> p \<and> path_Dir q = p) (d_dirs d @ d_files d)"

text \<open>\<open>os.Remove\<close>, \<open>os.Mkdir\<close>, and \<open>os.Stat\<close> as far as existence goes.\<close>

definition os_Remove :: "string \<Rightarrow> Disk \<Rightarrow> go_err option \<times> Disk" where
  "os_Remove p d =
     (case d_deny d p of
        Some e \<Rightarrow> (Some e, d)
      | None \<Rightarrow>
          if p \<in> set (d_files d) then (None, d\<lparr>d_files := removeAll p (d_files d)\<rparr>)
          else if p \<notin> set (d_dirs d) then (Some ErrNotExist, d)
          else if p = [slash] then (Some (Other ''device or resource busy''), d)
          else if has_entry d p then (Some (Other ''directory not empty''), d)
          else (None, d\<lparr>d_dirs := removeAll p (d_dirs d)\<rparr>))"

definition os_Mkdir :: "string \<Rightarrow> Disk \<Rightarrow> go_err option \<times> Disk" where
  "os_Mkdir p d =
     (case d_deny d p of
        Some e \<Rightarrow> (Some e, d)
      | None \<Rightarrow>
          if p \<in> set (d_dirs d) \<union> set (d_files d) then (Some ErrExist, d)
          else if path_Dir p \<notin> set (d_dirs d) then (Some ErrNotExist, d)
          else (None, d\<lparr>d_dirs := p # d_dirs d\<rparr>))"

definition os_exists :: "string \<Rightarrow> Disk \<Rightarrow> bool" where
  "os_exists p d \<longleftrightarrow> p \<in> set (d_dirs d) \<union> set (d_files d)"

section \<open>Parents are shorter\<close>

text \<open>What a stack of components needs as text, each with a slash.\<close>

definition weight :: "string list \<Rightarrow> nat" where
  "weight ps = sum_list (map (\<lambda>p. Suc (length p)) ps)"

lemma weight_simps [simp]: "weight [] = 0" "weight (p # ps) = Suc (length p) + weight ps" "weight (ps @ qs) = weight ps + weight qs"
  "weight (rev ps) = weight ps"
  by (simp_all add: weight_def rev_map [symmetric])

lemma length_join: "length (join_slash ps) = weight ps - 1"
  by (induction ps rule: join_slash.induct) simp_all

lemma weight_split: "weight (split_slash s) = Suc (length s)"
proof (induction s)
  case (Cons c s)
  then show ?case by (cases "split_slash s") auto
qed simp

lemma weight_push: "weight (push_part rooted p st) \<le> weight st + (if p = [] then 0 else Suc (length p))"
  by (cases st) (auto simp: push_part_def)

lemma weight_norm: "weight (norm rooted ps) \<le> weight (filter (\<lambda>p. p \<noteq> []) ps)"
proof -
  have "weight (fold (push_part rooted) ps st) \<le> weight st + weight (filter (\<lambda>p. p \<noteq> []) ps)" for st
  proof (induction ps arbitrary: st)
    case (Cons p ps)
    have "weight (fold (push_part rooted) (p # ps) st) \<le> weight (push_part rooted p st) + weight (filter (\<lambda>p. p \<noteq> []) ps)"
      using Cons.IH by simp
    then show ?case using weight_push [of rooted p st] by (simp split: if_splits)
  qed simp
  from this [of "[]"] show ?thesis by (simp add: norm_def)
qed

text \<open>\<open>path.Clean\<close> shortens a path that ends in a slash.\<close>

lemma Clean_shorter:
  assumes "s = t @ [slash]" "path_Clean s \<noteq> s" "path_Clean s \<noteq> ''.''"
  shows "length (path_Clean s) < length s"
proof -
  let ?r = "hd s = slash" and ?ps = "split_slash s"
  have w: "weight (norm ?r ?ps) \<le> weight (filter (\<lambda>p. p \<noteq> []) ?ps)" by (rule weight_norm)
  have sp: "?ps = split_slash t @ [[]]" by (simp add: assms(1) split_append [of t "[]", simplified])
  have le: "weight (filter P ps) \<le> weight ps" for P and ps :: "string list" by (induction ps) auto
  have ne: "s \<noteq> []" by (simp add: assms(1))
  show ?thesis
  proof (cases ?r)
    case True
    then have c: "path_Clean s = slash # join_slash (norm True ?ps)" using ne by (simp add: path_Clean_def)
    show ?thesis
    proof (cases t)
      case Nil
      then show ?thesis using assms(1,2) by (simp add: path_Clean_def norm_def push_part_def)
    next
      case (Cons x t')
      then have "x = slash" using True assms(1) by simp
      then have "?ps = [] # split_slash t' @ [[]]" unfolding sp Cons by simp
      then have "weight (filter (\<lambda>p. p \<noteq> []) ?ps) \<le> Suc (length t')"
        using le [of "\<lambda>p. p \<noteq> []" "split_slash t'"] by (simp add: weight_split)
      then have "length (path_Clean s) \<le> Suc (length t')" using w True unfolding c by (simp add: length_join)
      then show ?thesis using Cons assms(1) by simp
    qed
  next
    case False
    then have r: "(if s \<noteq> [] \<and> hd s = slash then [slash] else []) = []" by simp
    have "weight (norm False ?ps) \<le> weight (split_slash t)"
      using w False le [of "\<lambda>p. p \<noteq> []" "split_slash t"] by (simp add: sp)
    moreover have "path_Clean s = join_slash (norm False ?ps)"
      using assms(3) False ne by (auto simp: path_Clean_def Let_def)
    ultimately show ?thesis using assms(1) by (simp add: length_join weight_split)
  qed
qed

lemma Dir_shorter: "path_Dir p \<noteq> p \<Longrightarrow> path_Dir p \<noteq> ''.'' \<Longrightarrow> length (path_Dir p) < length p"
proof -
  assume a: "path_Dir p \<noteq> p" "path_Dir p \<noteq> ''.''"
  let ?u = "dropWhile (\<lambda>c. c \<noteq> slash) (rev p)"
  have n: "length ?u \<le> length p" using length_dropWhile_le [of _ "rev p"] by simp
  show ?thesis
  proof (cases ?u)
    case Nil
    then have "path_Dir p = path_Clean []" by (simp only: path_Dir_def rev.simps)
    then have "path_Dir p = ''.''" by (simp add: path_Clean_def norm_def push_part_def)
    then show ?thesis using a by simp
  next
    case (Cons c u)
    then have "c = slash" using hd_dropWhile [of "\<lambda>c. c \<noteq> slash" "rev p"] by auto
    then have r: "rev ?u = rev u @ [slash]" using Cons by simp
    show ?thesis
    proof (cases "path_Clean (rev ?u) = rev ?u")
      case True
      then have "path_Dir p = rev ?u" by (simp add: path_Dir_def)
      moreover have "?u = rev p \<or> length ?u < length p"
        by (metis append_Nil length_append length_greater_0_conv length_rev less_add_same_cancel2 takeWhile_dropWhile_id)
      ultimately show ?thesis using a by auto
    next
      case False
      from Clean_shorter [OF r False] show ?thesis using a n by (simp add: path_Dir_def)
    qed
  qed
qed

section \<open>Operations\<close>

text \<open>\<open>os.MkdirAll\<close>, which is \<open>createDir\<close>.\<close>

function os_MkdirAll :: "string \<Rightarrow> Disk \<Rightarrow> go_err option \<times> Disk" where
  "os_MkdirAll p d =
     (if p \<in> set (d_dirs d) then (None, d)
      else if p \<in> set (d_files d) then (Some (Other ''not a directory''), d)
      else case (if path_Dir p = p \<or> path_Dir p = ''.'' then (None, d) else os_MkdirAll (path_Dir p) d) of
             (Some e, d1) \<Rightarrow> (Some e, d1)
           | (None, d1) \<Rightarrow> os_Mkdir p d1)"
  by auto

termination by (relation "measure (length \<circ> fst)") (auto dest: Dir_shorter)

declare os_MkdirAll.simps [simp del]

definition createDir :: "string \<Rightarrow> Disk \<Rightarrow> go_err option \<times> Disk" where
  "createDir dir d = os_MkdirAll dir d"

definition toOSPathMeta :: "string \<Rightarrow> string \<Rightarrow> string" where
  "toOSPathMeta metaRoot name = path_Join metaRoot name"

definition createItemDir :: "string \<Rightarrow> string \<Rightarrow> string \<Rightarrow> Disk \<Rightarrow> (go_err + string) \<times> Disk" where
  "createItemDir root metaRoot name d =
     (let parent = FindParent name
      in case createDir (toOSPath root parent) d of
           (Some e, d1) \<Rightarrow> (Inl (Wrap ''failed to create data cache item directory'' e), d1)
         | (None, d1) \<Rightarrow>
             (case createDir (toOSPathMeta metaRoot parent) d1 of
                (Some e, d2) \<Rightarrow> (Inl (Wrap ''failed to create metadata cache item directory'' e), d2)
              | (None, d2) \<Rightarrow> (Inr (toOSPath root name), d2)))"

definition DirExists :: "string \<Rightarrow> string \<Rightarrow> Disk \<Rightarrow> bool" where
  "DirExists root name d = os_exists (toOSPath root name) d"

text \<open>The loop of \<open>removeEmptyDir\<close> at \<open>fullPath = p\<close>. The root is compared with only when it is gone.\<close>

function remove_up :: "string \<Rightarrow> bool \<Rightarrow> string \<Rightarrow> Disk \<Rightarrow> Disk" where
  "remove_up root leaveRoot p d =
     (case os_Remove p d of
        (Some e, d1) \<Rightarrow> d1
      | (None, d1) \<Rightarrow>
          if leaveRoot \<and> p = root then d1
          else if path_Dir p = p \<or> path_Dir p = ''.'' then d1
          else remove_up root leaveRoot (path_Dir p) d1)"
  by auto

termination by (relation "measure (\<lambda>(_, _, p, _). length p)") (auto dest: Dir_shorter)

declare remove_up.simps [simp del]

definition removeEmptyDir :: "string \<Rightarrow> string \<Rightarrow> bool \<Rightarrow> Disk \<Rightarrow> Disk" where
  "removeEmptyDir root dir leaveRoot d = remove_up root leaveRoot (path_Join root dir) d"

definition purgeEmptyDirs :: "string \<Rightarrow> string \<Rightarrow> string \<Rightarrow> bool \<Rightarrow> Disk \<Rightarrow> Disk" where
  "purgeEmptyDirs root metaRoot dir leaveRoot d =
     removeEmptyDir metaRoot dir leaveRoot (removeEmptyDir root dir leaveRoot d)"

text \<open>The directories in \<open>New\<close>; \<open>reload\<close> is what loading the items does to the disk.\<close>

definition new_dirs :: "string \<Rightarrow> (Disk \<Rightarrow> go_err option \<times> Disk) \<Rightarrow> Disk \<Rightarrow> go_err option \<times> Disk" where
  "new_dirs cacheDir reload d =
     (let root = path_Join cacheDir ''data''; metaRoot = path_Join cacheDir ''meta''
      in if cacheDir = [] then (Some (Other ''cache: CacheDir not set''), d)
         else case os_MkdirAll root d of
           (Some e, d1) \<Rightarrow> (Some (Wrap ''cache: failed to create cache directory'' e), d1)
         | (None, d1) \<Rightarrow>
             (case os_MkdirAll metaRoot d1 of
                (Some e, d2) \<Rightarrow> (Some (Wrap ''cache: failed to create cache directory'' e), d2)
              | (None, d2) \<Rightarrow>
                  (case reload d2 of
                     (Some e, d3) \<Rightarrow> (Some (Wrap ''failed to load cache'' e), d3)
                   | (None, d3) \<Rightarrow> (None, purgeEmptyDirs root metaRoot [] True d3))))"

section \<open>What a purge of directories takes\<close>

text \<open>Every directory and file but \<open>/\<close> lies in a directory, and no path is both.\<close>

definition tree :: "Disk \<Rightarrow> bool" where
  "tree d \<longleftrightarrow> list_all (\<lambda>p. p = [slash] \<or> path_Dir p \<in> set (d_dirs d)) (d_dirs d @ d_files d)
     \<and> list_all (\<lambda>p. p \<notin> set (d_dirs d)) (d_files d)"

lemma tree_above: "tree d \<Longrightarrow> p \<in> set (d_dirs d) \<union> set (d_files d) \<Longrightarrow> p \<noteq> [slash] \<Longrightarrow> path_Dir p \<in> set (d_dirs d)"
  by (auto simp: tree_def list_all_iff)

lemma slash_Dir [simp]: "path_Dir [slash] = [slash]"
  by code_simp

lemma tree_ancestors:
  assumes "tree d" "p \<in> set (d_dirs d) \<union> set (d_files d)" "p \<noteq> [slash]"
  shows "(path_Dir ^^ Suc n) p \<in> set (d_dirs d)"
proof (induction n)
  case (Suc n)
  let ?q = "(path_Dir ^^ Suc n) p"
  show ?case
  proof (cases "?q = [slash]")
    case True
    then have "(path_Dir ^^ Suc (Suc n)) p = ?q" by (metis slash_Dir comp_apply funpow.simps(2))
    then show ?thesis using Suc.IH by metis
  next
    case False
    then show ?thesis using tree_above [OF assms(1), of ?q] Suc.IH by simp
  qed
qed (use tree_above [OF assms] in simp)

text \<open>A step of the loop takes a directory without entries; what the loop did before is told by \<open>shrinks\<close>.\<close>

definition shrinks :: "Disk \<Rightarrow> Disk \<Rightarrow> bool" where
  "shrinks d d' \<longleftrightarrow> tree d' \<and> d_files d' = d_files d \<and> d_deny d' = d_deny d \<and> set (d_dirs d') \<subseteq> set (d_dirs d)"

lemma shrinks_refl: "tree d \<Longrightarrow> shrinks d d"
  by (simp add: shrinks_def)

lemma shrinks_trans: "shrinks d d1 \<Longrightarrow> shrinks d1 d2 \<Longrightarrow> shrinks d d2"
  by (auto simp: shrinks_def)

lemma os_Remove_dir:
  assumes "tree d" "p \<notin> set (d_files d)" "os_Remove p d = (e, d1)"
  shows "shrinks d d1 \<and> set (d_dirs d) - set (d_dirs d1) \<subseteq> {p}
    \<and> (e = None \<longrightarrow> p \<in> set (d_dirs d) \<and> p \<noteq> [slash] \<and> path_Dir p \<notin> set (d_files d))"
proof (cases "e = None")
  case True
  then have p: "p \<in> set (d_dirs d)" "p \<noteq> [slash]" "\<not> has_entry d p" "d1 = d\<lparr>d_dirs := removeAll p (d_dirs d)\<rparr>"
    using assms(2,3) by (auto simp: os_Remove_def split: option.splits if_splits)
  have n: "\<forall>q \<in> set (d_dirs d) \<union> set (d_files d). q \<noteq> p \<longrightarrow> path_Dir q \<noteq> p"
    using p(3) by (auto simp: has_entry_def list_ex_iff)
  have "path_Dir q \<in> set (removeAll p (d_dirs d))"
    if q: "q \<in> set (removeAll p (d_dirs d)) \<union> set (d_files d)" "q \<noteq> [slash]" for q
  proof -
    have m: "q \<in> set (d_dirs d) \<union> set (d_files d)" "q \<noteq> p" using q(1) assms(2) by auto
    then have "path_Dir q \<noteq> p" using n by blast
    then show ?thesis using tree_above [OF assms(1) m(1) q(2)] by simp
  qed
  then have "tree d1" using assms(1) by (auto simp: p(4) tree_def list_all_iff)
  moreover have "path_Dir p \<notin> set (d_files d)"
    using tree_above [OF assms(1), of p] p(1,2) assms(1) by (auto simp: tree_def list_all_iff)
  ultimately show ?thesis using p by (auto simp: shrinks_def)
next
  case False
  then have "d1 = d" using assms(2,3) by (auto simp: os_Remove_def split: option.splits if_splits)
  then show ?thesis using False assms(1) shrinks_refl by auto
qed

lemma remove_up_shrinks:
  "tree d \<Longrightarrow> p \<notin> set (d_files d) \<Longrightarrow> shrinks d (remove_up root lr p d)
     \<and> (\<forall>q \<in> set (d_dirs d) - set (d_dirs (remove_up root lr p d)). \<exists>n. q = (path_Dir ^^ n) p)"
proof (induction root lr p d rule: remove_up.induct)
  case (1 root lr p d)
  obtain e d1 where r: "os_Remove p d = (e, d1)" by (cases "os_Remove p d")
  note s = os_Remove_dir [OF 1(2,3) r]
  have z: "\<exists>n. p = (path_Dir ^^ n) p" by (rule exI [of _ 0]) simp
  show ?case
  proof (cases "e = None \<and> \<not> (lr \<and> p = root) \<and> path_Dir p \<noteq> p \<and> path_Dir p \<noteq> ''.''")
    case True
    then have u: "remove_up root lr p d = remove_up root lr (path_Dir p) d1"
      unfolding remove_up.simps [of root lr p d] by (auto simp: r)
    have t: "tree d1" "path_Dir p \<notin> set (d_files d1)" using s True by (auto simp: shrinks_def)
    have IH: "shrinks d1 (remove_up root lr (path_Dir p) d1)
      \<and> (\<forall>q \<in> set (d_dirs d1) - set (d_dirs (remove_up root lr (path_Dir p) d1)). \<exists>n. q = (path_Dir ^^ n) (path_Dir p))"
      by (rule 1(1) [OF r [symmetric] _ _ _ t]) (use True in auto)
    have "\<exists>n. q = (path_Dir ^^ n) p"
      if q: "q \<in> set (d_dirs d) - set (d_dirs (remove_up root lr p d))" for q
    proof (cases "q \<in> set (d_dirs d1)")
      case True
      then obtain n where "q = (path_Dir ^^ n) (path_Dir p)" using IH q u by auto
      then have "q = (path_Dir ^^ Suc n) p" by (simp add: funpow_swap1)
      then show ?thesis by blast
    next
      case False
      then have "q = p" using s q by auto
      then show ?thesis using z by simp
    qed
    then show ?thesis using IH s u shrinks_trans by metis
  next
    case False
    then have "remove_up root lr p d = d1" unfolding remove_up.simps [of root lr p d] by (auto simp: r split: option.split)
    then show ?thesis using s z by auto
  qed
qed

text \<open>C39: Purging the directories of a name touches no file and keeps every directory above a file or above a directory
  that stays; what goes are the two directories of the name and directories above them.\<close>

theorem purge_spares:
  assumes "tree d" "path_Join root dir \<notin> set (d_files d)" "path_Join metaRoot dir \<notin> set (d_files d)"
    and "d' = purgeEmptyDirs root metaRoot dir leaveRoot d"
  shows "d_files d' = d_files d \<and> set (d_dirs d') \<subseteq> set (d_dirs d)
    \<and> (\<forall>p \<in> set (d_dirs d') \<union> set (d_files d). \<forall>n. p \<noteq> [slash] \<longrightarrow> (path_Dir ^^ Suc n) p \<in> set (d_dirs d'))
    \<and> (\<forall>q \<in> set (d_dirs d) - set (d_dirs d'). \<exists>n. q = (path_Dir ^^ n) (path_Join root dir) \<or> q = (path_Dir ^^ n) (path_Join metaRoot dir))"
proof -
  let ?d1 = "removeEmptyDir root dir leaveRoot d"
  note u = remove_up_shrinks [OF assms(1,2), of root leaveRoot, folded removeEmptyDir_def]
  have m: "tree ?d1" "path_Join metaRoot dir \<notin> set (d_files ?d1)" using u assms(3) by (auto simp: shrinks_def)
  note v = remove_up_shrinks [OF m, of metaRoot leaveRoot, folded removeEmptyDir_def, folded purgeEmptyDirs_def, folded assms(4)]
  note s = shrinks_trans [OF conjunct1 [OF u] conjunct1 [OF v]]
  have t: "tree d'" "d_files d' = d_files d" "set (d_dirs d') \<subseteq> set (d_dirs d)" using s by (simp_all add: shrinks_def)
  show ?thesis
  proof (intro conjI ballI allI impI)
    show "(path_Dir ^^ Suc n) p \<in> set (d_dirs d')" if "p \<in> set (d_dirs d') \<union> set (d_files d)" "p \<noteq> [slash]" for p n
      using tree_ancestors [OF t(1), of p n] that t(2) by simp
    show "\<exists>n. q = (path_Dir ^^ n) (path_Join root dir) \<or> q = (path_Dir ^^ n) (path_Join metaRoot dir)"
      if "q \<in> set (d_dirs d) - set (d_dirs d')" for q
      using u v that by (cases "q \<in> set (d_dirs ?d1)") blast+
  qed (use t in auto)
qed

definition demo_disk :: Disk where
  "demo_disk = \<lparr>d_dirs = [''/'', ''/c'', ''/c/data'', ''/c/data/a'', ''/c/meta'', ''/c/meta/a''], d_files = [''/c/data/x''],
     d_deny = (\<lambda>_. None)\<rparr>"

lemma demo_purge: "d_dirs (purgeEmptyDirs ''/c/data'' ''/c/meta'' ''a'' False demo_disk) = [''/'', ''/c'', ''/c/data'']"
  by code_simp

lemma purge_spares_witness:
  "\<exists>d' :: Disk. d_dirs d' = [''/'', ''/c'', ''/c/data''] \<and> d_files d' = [''/c/data/x'']
     \<and> (\<exists>n. ''/c/meta'' = (path_Dir ^^ n) ''/c/data/a'' \<or> ''/c/meta'' = (path_Dir ^^ n) ''/c/meta/a'')"
proof -
  let ?d = "purgeEmptyDirs ''/c/data'' ''/c/meta'' ''a'' False demo_disk"
  have a: "tree demo_disk" "path_Join ''/c/data'' ''a'' = ''/c/data/a''" "path_Join ''/c/meta'' ''a'' = ''/c/meta/a''" by code_simp+
  have f: "path_Join ''/c/data'' ''a'' \<notin> set (d_files demo_disk)" "path_Join ''/c/meta'' ''a'' \<notin> set (d_files demo_disk)"
    by (simp_all add: a demo_disk_def)
  have m: "''/c/meta'' \<in> set (d_dirs demo_disk) - set (d_dirs ?d)" unfolding demo_purge by (simp add: demo_disk_def)
  note P = purge_spares [OF a(1) f refl, of False]
  have "d_files ?d = [''/c/data/x'']" using P by (simp add: demo_disk_def)
  moreover have "\<exists>n. ''/c/meta'' = (path_Dir ^^ n) ''/c/data/a'' \<or> ''/c/meta'' = (path_Dir ^^ n) ''/c/meta/a''"
    using P [THEN conjunct2, THEN conjunct2, THEN conjunct2, THEN bspec, OF m] unfolding a .
  ultimately show ?thesis using demo_purge by blast
qed

text \<open>\<open>leaveRoot\<close> only keeps the loop from going on above the root: an empty root goes itself, and no other directory.\<close>

theorem root_goes:
  assumes "root \<in> set (d_dirs d)" "root \<notin> set (d_files d)" "root \<noteq> [slash]" "root \<noteq> []" "path_Clean root = root"
    and "\<not> has_entry d root" "d_deny d root = None"
  shows "removeEmptyDir root [] True d = d\<lparr>d_dirs := removeAll root (d_dirs d)\<rparr>"
  using assms by (simp add: removeEmptyDir_def path_Join_def remove_up.simps [of root True root] os_Remove_def)

text \<open>So a cache that starts on an empty directory has no directories when \<open>New\<close> returns.\<close>

lemma root_goes_witness:
  "removeEmptyDir ''/d'' [] True (demo_disk\<lparr>d_dirs := [''/'', ''/d'']\<rparr>) = demo_disk\<lparr>d_dirs := [''/'']\<rparr>
   \<and> d_dirs (snd (new_dirs ''/c'' (Pair None) \<lparr>d_dirs = [''/''], d_files = [], d_deny = (\<lambda>_. None)\<rparr>)) = [''/c'', ''/'']"
proof
  have "path_Clean ''/d'' = ''/d''" "\<not> has_entry (demo_disk\<lparr>d_dirs := [''/'', ''/d'']\<rparr>) ''/d''" by code_simp+
  from root_goes [OF _ _ _ _ this] show "removeEmptyDir ''/d'' [] True (demo_disk\<lparr>d_dirs := [''/'', ''/d'']\<rparr>) = demo_disk\<lparr>d_dirs := [''/'']\<rparr>"
    by (simp add: demo_disk_def)
  show "d_dirs (snd (new_dirs ''/c'' (Pair None) \<lparr>d_dirs = [''/''], d_files = [], d_deny = (\<lambda>_. None)\<rparr>)) = [''/c'', ''/'']" by code_simp
qed

section \<open>The directories of an item\<close>

text \<open>Making directories keeps the tree and all that is in it.\<close>

definition dirs_grow :: "Disk \<Rightarrow> Disk \<Rightarrow> bool" where
  "dirs_grow d d' \<longleftrightarrow> tree d' \<and> d_files d' = d_files d \<and> d_deny d' = d_deny d \<and> set (d_dirs d) \<subseteq> set (d_dirs d')"

lemma dirs_grow_refl: "tree d \<Longrightarrow> dirs_grow d d"
  by (simp add: dirs_grow_def)

lemma os_Mkdir_grows: "tree d \<Longrightarrow> os_Mkdir p d = (e, d1) \<Longrightarrow> dirs_grow d d1 \<and> (e = None \<longrightarrow> p \<in> set (d_dirs d1))"
  by (auto simp: os_Mkdir_def dirs_grow_def tree_def list_all_iff split: option.splits if_splits)

lemma MkdirAll_grows: "tree d \<Longrightarrow> os_MkdirAll p d = (e, d1) \<Longrightarrow> dirs_grow d d1 \<and> (e = None \<longrightarrow> p \<in> set (d_dirs d1))"
proof (induction p d arbitrary: e d1 rule: os_MkdirAll.induct)
  case (1 p d)
  note u = 1(3) [unfolded os_MkdirAll.simps [of p d]]
  show ?case
  proof (cases "p \<in> set (d_dirs d) \<union> set (d_files d)")
    case True
    then show ?thesis using u 1(2) dirs_grow_refl by (auto split: if_splits)
  next
    case False
    let ?r = "if path_Dir p = p \<or> path_Dir p = ''.'' then (None, d) else os_MkdirAll (path_Dir p) d"
    obtain e0 d0 where r: "?r = (e0, d0)" by (cases ?r)
    have g: "dirs_grow d d0" using r 1(1) [of e0 d0] 1(2) False dirs_grow_refl [OF 1(2)] by (auto split: if_splits)
    have v: "(case e0 of Some e' \<Rightarrow> (Some e', d0) | None \<Rightarrow> os_Mkdir p d0) = (e, d1)" using u False r by simp
    then show ?thesis
    proof (cases e0)
      case None
      then have m: "os_Mkdir p d0 = (e, d1)" using v by simp
      have "tree d0" using g by (simp add: dirs_grow_def)
      from os_Mkdir_grows [OF this m] g show ?thesis by (auto simp: dirs_grow_def)
    qed (use v g in auto)
  qed
qed

text \<open>After \<open>createItemDir\<close> both directories of the item are there, unless it reports an error, and nothing has gone.\<close>

theorem createItemDir_makes:
  assumes "tree d" "createItemDir root metaRoot name d = (r, d')"
  shows "dirs_grow d d' \<and> (\<forall>p. r = Inr p \<longrightarrow> p = toOSPath root name
    \<and> DirExists root (FindParent name) d' \<and> toOSPathMeta metaRoot (FindParent name) \<in> set (d_dirs d'))"
proof -
  obtain e1 d1 where c1: "os_MkdirAll (toOSPath root (FindParent name)) d = (e1, d1)" by fastforce
  obtain e2 d2 where c2: "os_MkdirAll (toOSPathMeta metaRoot (FindParent name)) d1 = (e2, d2)" by fastforce
  note g1 = MkdirAll_grows [OF assms(1) c1]
  have t: "tree d1" using g1 by (simp add: dirs_grow_def)
  note g2 = MkdirAll_grows [OF t c2]
  show ?thesis
    using assms(2) g1 g2 c1 c2
    by (cases e1; cases e2) (auto simp: createItemDir_def createDir_def DirExists_def os_exists_def dirs_grow_def)
qed

lemma createItemDir_makes_witness: "DirExists ''/c/data'' ''b'' (snd (createItemDir ''/c/data'' ''/c/meta'' ''b/y'' demo_disk))"
proof -
  have t: "tree demo_disk" and r: "fst (createItemDir ''/c/data'' ''/c/meta'' ''b/y'' demo_disk) = Inr ''/c/data/b/y''"
    and p: "FindParent ''b/y'' = ''b''" by code_simp+
  show ?thesis
    using createItemDir_makes [OF t, of "''/c/data''" "''/c/meta''" "''b/y''"] r unfolding p by (metis prod.collapse)
qed

end
