(* ===== verification/RWBuffer.thy ===== *)
theory RWBuffer
  imports Sequential
begin

text \<open>
  \<open>lib/rwbuffer/rwbuffer.go\<close>: the buffer between the goroutine that reads a chunk and the reader. One
  definition per section under the lock; \<open>WaitWrite\<close> is the condition it waits for.
\<close>

record RW =
  rw_buf :: "byte list"
  rOffset :: nat
  rw_closed :: bool

definition BufferSize :: int64 where
  "BufferSize = 1048576"

definition newRW :: RW where
  "newRW = \<lparr>rw_buf = [], rOffset = 0, rw_closed = False\<rparr>"

text \<open>\<open>ReadFrom\<close> appends what one call of \<open>Read\<close> has returned.\<close>

definition rw_append :: "byte list \<Rightarrow> RW \<Rightarrow> RW" where
  "rw_append b rw = rw\<lparr>rw_buf := rw_buf rw @ b\<rparr>"

definition rw_Read :: "nat \<Rightarrow> RW \<Rightarrow> (byte list \<times> go_err option) \<times> RW" where
  "rw_Read n rw =
     (if length (rw_buf rw) \<le> rOffset rw then (([], Some EOF), rw)
      else let b = take n (drop (rOffset rw) (rw_buf rw))
           in ((b, None), rw\<lparr>rOffset := rOffset rw + length b\<rparr>))"

text \<open>The loop of \<open>WaitWrite\<close> ends on this condition; it does not look at its context.\<close>

definition wait_done :: "RW \<Rightarrow> bool" where
  "wait_done rw \<longleftrightarrow> rOffset rw < length (rw_buf rw) \<or> rw_closed rw"

definition rw_Close :: "RW \<Rightarrow> RW" where
  "rw_Close rw = rw\<lparr>rw_closed := True\<rparr>"

definition rw_Size :: "RW \<Rightarrow> int64" where
  "rw_Size rw = word_of_nat (length (rw_buf rw))"

definition rw_Seek :: "int64 \<Rightarrow> whence \<Rightarrow> RW \<Rightarrow> (int64 \<times> go_err option) \<times> RW" where
  "rw_Seek off wh rw =
     (let absolute = (case wh of SeekStart \<Rightarrow> off | SeekCurrent \<Rightarrow> word_of_nat (rOffset rw) + off
                      | SeekEnd \<Rightarrow> rw_Size rw + off)
      in if absolute <s 0 then ((0, Some EOF), rw)
         else let a = (if rw_Size rw <s absolute then rw_Size rw else absolute)
              in ((a, None), rw\<lparr>rOffset := nat (sint a)\<rparr>))"

section \<open>Lemmas\<close>

text \<open>What has not been read yet.\<close>

definition unread :: "RW \<Rightarrow> byte list" where
  "unread rw = drop (rOffset rw) (rw_buf rw)"

lemma rw_Read_unread:
  assumes "rw_Read n rw = ((b, err), rw')"
  shows "b = take n (unread rw) \<and> unread rw' = drop (length b) (unread rw) \<and> rw_buf rw' = rw_buf rw
    \<and> rw_closed rw' = rw_closed rw \<and> rOffset rw' = rOffset rw + length b \<and> (err = None \<or> err = Some EOF)"
  using assms by (auto simp: rw_Read_def unread_def Let_def add.commute split: if_splits)

lemma unread_append: "rOffset rw \<le> length (rw_buf rw) \<Longrightarrow> unread (rw_append b rw) = unread rw @ b"
  by (simp add: unread_def rw_append_def)

lemma wait_done_unread: "\<not> rw_closed rw \<Longrightarrow> wait_done rw \<longleftrightarrow> unread rw \<noteq> []"
  by (simp add: wait_done_def unread_def not_le)

text \<open>A seek inside the buffer gives the bytes from there on.\<close>

lemma rw_Seek_unread:
  assumes "0 \<le> sint off" "sint off \<le> int (length (rw_buf rw))" "int (length (rw_buf rw)) \<le> max_int64"
  shows "rw_Seek off SeekStart rw = ((off, None), rw\<lparr>rOffset := nat (sint off)\<rparr>)"
proof -
  have "sint (rw_Size rw) = int (length (rw_buf rw))" using assms(3) by (simp add: rw_Size_def i64 fits64I)
  then show ?thesis using assms by (simp add: rw_Seek_def i64 Let_def)
qed

end
