(* ===== verification/Parallel.thy ===== *)
theory Parallel
  imports RWBuffer
begin

text \<open>
  \<open>internal/chunkedreader/parallel.go\<close>: one goroutine per chunk reads it into a buffer (theory
  \<open>RWBuffer\<close>), the reader takes the bytes from the buffers in order. The reader works under the mutex of
  \<open>parallel\<close>; the goroutines run at any time, also while it waits for them.
\<close>

section \<open>State\<close>

text \<open>
  \<open>stream\<close>. \<open>s_err\<close> is the channel \<open>err\<close>, with the error the goroutine has sent; \<open>s_rc\<close> is the open reader
  with the bytes it still delivers; \<open>s_cancelled\<close> says that \<open>cancel\<close> has been called.
\<close>

record stream =
  s_offset :: int64
  s_size :: int64
  s_readBytes :: int64
  s_rw :: RW
  s_rc :: "reader option"
  s_err :: "go_err option option"
  s_cancelled :: bool

text \<open>\<open>parallel\<close>; \<open>p_opens\<close> counts the calls of \<open>Open\<close> of the object.\<close>

record parallel =
  p_o :: RemoteObject
  p_opens :: nat
  endStream :: int64
  p_offset :: int64
  p_chunkSize :: int64
  nstreams :: int64
  streams :: "stream list"
  p_closed :: bool

definition upd_stream :: "nat \<Rightarrow> (stream \<Rightarrow> stream) \<Rightarrow> parallel \<Rightarrow> parallel" where
  "upd_stream i f p = p\<lparr>streams := (streams p)[i := f (streams p ! i)]\<rparr>"

definition newStream :: "int64 \<Rightarrow> int64 \<Rightarrow> stream" where
  "newStream off sz = \<lparr>s_offset = off, s_size = sz, s_readBytes = 0, s_rw = newRW, s_rc = None, s_err = None,
     s_cancelled = False\<rparr>"

text \<open>The chunk size is rounded up to a multiple of the buffer size; a negative one has been replaced before the division.\<close>

definition newParallel :: "RemoteObject \<Rightarrow> int64 \<Rightarrow> int64 \<Rightarrow> parallel" where
  "newParallel ob cs n =
     (let cs1 = (if cs <s 0 then BufferSize else cs);
          new = BufferSize * (cs1 div BufferSize)
      in \<lparr>p_o = ob, p_opens = 0, endStream = 0, p_offset = 0,
          p_chunkSize = (if new <s cs1 then new + BufferSize else new), nstreams = n, streams = [], p_closed = False\<rparr>)"

section \<open>The goroutine of a stream\<close>

text \<open>
  \<open>readFrom\<close> step by step: \<open>GoOpen\<close> opens the chunk, \<open>GoRead n\<close> is a call of \<open>Read\<close> with a buffer of 4096
  bytes that returns \<open>n\<close> of them, \<open>GoEnd\<close> the one that returns the error at the end of the data. Once the
  stream has been cancelled, \<open>Open\<close> and \<open>Read\<close> may return the error of the context (\<open>GoCancel\<close>). An event
  that is not possible in the state changes nothing.
\<close>

datatype go = GoOpen | GoRead nat | GoEnd | GoCancel

definition stream_failed :: "go_err \<Rightarrow> go_err" where
  "stream_failed e = Wrap ''parallel chunked reader: failed to open stream'' e"

fun go_step :: "nat \<Rightarrow> go \<Rightarrow> parallel \<Rightarrow> parallel" where
  "go_step i GoOpen p =
     (let s = streams p ! i
      in if s_rc s \<noteq> None \<or> s_err s \<noteq> None then p
         else case obj_open (p_o p) (p_opens p) (Some \<lparr>Start = s_offset s, EndOpt = s_offset s + s_size s - 1\<rparr>) of
                Inl e \<Rightarrow> (upd_stream i (\<lambda>s. s\<lparr>s_err := Some (Some (stream_failed e))\<rparr>) p)\<lparr>p_opens := Suc (p_opens p)\<rparr>
              | Inr rd \<Rightarrow> (upd_stream i (\<lambda>s. s\<lparr>s_rc := Some rd\<rparr>) p)\<lparr>p_opens := Suc (p_opens p)\<rparr>)"
| "go_step i (GoRead n) p =
     (case s_rc (streams p ! i) of
        Some rd \<Rightarrow>
          if s_err (streams p ! i) = None \<and> 0 < n \<and> n \<le> 4096 \<and> n \<le> length (rdata rd)
          then upd_stream i (\<lambda>s. s\<lparr>s_rw := rw_append (take n (rdata rd)) (s_rw s),
                 s_rc := Some (Reader (drop n (rdata rd)) (rfin rd) (rclose rd) (rseek rd))\<rparr>) p
          else p
      | None \<Rightarrow> p)"
| "go_step i GoEnd p =
     (case s_rc (streams p ! i) of
        Some rd \<Rightarrow>
          if s_err (streams p ! i) = None \<and> rdata rd = []
          then upd_stream i (\<lambda>s. s\<lparr>s_err := Some (if rfin rd = EOF then None else Some (rfin rd))\<rparr>) p else p
      | None \<Rightarrow> p)"
| "go_step i GoCancel p =
     (if s_cancelled (streams p ! i) \<and> s_err (streams p ! i) = None
      then upd_stream i (\<lambda>s. s\<lparr>s_err := Some (Some (if s_rc s = None then stream_failed Canceled else Canceled))\<rparr>) p
      else p)"

text \<open>A batch of events of the streams that are there.\<close>

definition go_run :: "(nat \<times> go) list \<Rightarrow> parallel \<Rightarrow> parallel" where
  "go_run es p = fold (\<lambda>(i, e) p. if i < length (streams p) then go_step i e p else p) es p"

section \<open>The reader\<close>

text \<open>
  The reader takes one batch of the schedule before each section in which it looks at a stream, also each time
  it is woken up; \<open>None\<close>: at the end of the schedule it still waits.
\<close>

type_synonym schedule = "(nat \<times> go) list list"

definition s_eof :: "stream \<Rightarrow> bool" where
  "s_eof s \<longleftrightarrow> s_size s \<le>s s_readBytes s"

text \<open>\<open>stream.read\<close> of the first stream, \<open>n\<close> bytes wanted; \<open>waiting\<close>: in \<open>WaitWrite\<close>.\<close>

fun stream_read ::
  "bool \<Rightarrow> schedule \<Rightarrow> nat \<Rightarrow> byte list \<Rightarrow> parallel \<Rightarrow> ((byte list \<times> go_err option) \<times> parallel \<times> schedule) option" where
  "stream_read waiting [] n acc p = None"
| "stream_read waiting (b # bs) n acc p =
     (let p1 = go_run b p; s = streams p1 ! 0
      in if waiting \<and> \<not> wait_done (s_rw s) then stream_read True bs n acc p1
         else case rw_Read (n - length acc) (s_rw s) of
                ((d, err), rw) \<Rightarrow>
                  let s1 = s\<lparr>s_rw := rw, s_readBytes := s_readBytes s + word_of_nat (length d)\<rparr>;
                      p2 = upd_stream 0 (\<lambda>_. s1) p1; acc1 = acc @ d
                  in if err \<noteq> None \<and> err \<noteq> Some EOF then Some ((acc1, err), p2, bs)
                     else if s_eof s1 then Some ((acc1, Some EOF), p2, bs)
                     else if n \<le> length acc1 then Some ((acc1, None), p2, bs)
                     else stream_read True bs n acc1 p2)"

text \<open>\<open>stream.close\<close> and \<open>_popStream\<close>: the stream is cancelled and its goroutine waited for.\<close>

fun wait_err :: "schedule \<Rightarrow> parallel \<Rightarrow> (parallel \<times> schedule) option" where
  "wait_err [] p = None"
| "wait_err (b # bs) p =
     (let p1 = go_run b p in if s_err (streams p1 ! 0) \<noteq> None then Some (p1, bs) else wait_err bs p1)"

definition stream_close_err :: "stream \<Rightarrow> go_err option" where
  "stream_close_err s =
     (let err1 = (case s_err s of Some e \<Rightarrow> e | None \<Rightarrow> None);
          err2 = (case s_rc s of Some rd \<Rightarrow> if err1 = None then rclose rd else err1 | None \<Rightarrow> err1)
      in if err2 \<noteq> None \<and> err2 \<noteq> Some EOF
         then Some (Wrap ''parallel chunked reader: failed to read stream'' (the err2)) else None)"

definition popStream :: "schedule \<Rightarrow> parallel \<Rightarrow> (go_err option \<times> parallel \<times> schedule) option" where
  "popStream sc p =
     (if streams p = [] then Some (None, p, sc)
      else case wait_err sc (upd_stream 0 (\<lambda>s. s\<lparr>s_cancelled := True\<rparr>) p) of
             None \<Rightarrow> None
           | Some (p1, sc1) \<Rightarrow> Some (stream_close_err (streams p1 ! 0), p1\<lparr>streams := tl (streams p1)\<rparr>, sc1))"

primrec popStreams :: "nat \<Rightarrow> go_err option \<Rightarrow> schedule \<Rightarrow> parallel \<Rightarrow> (go_err option \<times> parallel \<times> schedule) option" where
  "popStreams 0 err sc p = Some (err, p, sc)"
| "popStreams (Suc n) err sc p =
     (case popStream sc p of
        None \<Rightarrow> None
      | Some (e, p1, sc1) \<Rightarrow> popStreams n (if err = None then e else err) sc1 p1)"

text \<open>\<open>_open\<close>: streams are added up to \<open>nstreams\<close> or the end of the object; \<open>k\<close> is how many are missing.\<close>

primrec add_streams :: "nat \<Rightarrow> parallel \<Rightarrow> parallel" where
  "add_streams 0 p = p"
| "add_streams (Suc k) p =
     (let osize = obj_size (p_o p); end1 = endStream p + p_chunkSize p;
          cs = (if osize <s end1 then osize - endStream p else p_chunkSize p);
          p1 = p\<lparr>streams := streams p @ [newStream (endStream p) cs],
                 endStream := (if osize <s end1 then endStream p + cs else end1)\<rparr>
      in if osize \<le>s endStream p1 then p1 else add_streams k p1)"

definition open_streams :: "parallel \<Rightarrow> parallel" where
  "open_streams p =
     (if obj_size (p_o p) <s 0 \<or> obj_size (p_o p) \<le>s endStream p then p
      else add_streams (nat (sint (nstreams p) - int (length (streams p)))) p)"

text \<open>
  \<open>Read\<close>. The error of a stream is assigned to a variable of the loop body, so a \<open>break\<close> returns the error of
  the last \<open>_open\<close>, which is nil.
\<close>

lemma stream_read_shorter: "stream_read w sc n acc p = Some (r, p', sc') \<Longrightarrow> length sc' < length sc"
  by (induction w sc n acc p rule: stream_read.induct) (fastforce simp: Let_def split: if_splits prod.splits)+

lemma wait_err_shorter: "wait_err sc p = Some (p', sc') \<Longrightarrow> length sc' \<le> length sc"
  by (induction sc p rule: wait_err.induct) (fastforce simp: Let_def split: if_splits)+

lemma popStream_shorter: "popStream sc p = Some (e, p', sc') \<Longrightarrow> length sc' \<le> length sc"
  by (auto simp: popStream_def dest: wait_err_shorter split: if_splits option.splits)

function Read_chunks :: "schedule \<Rightarrow> nat \<Rightarrow> byte list \<Rightarrow> parallel \<Rightarrow> ((byte list \<times> go_err option) \<times> parallel \<times> schedule) option" where
  "Read_chunks sc n acc p =
     (if n \<le> length acc then Some ((acc, None), p, sc)
      else let p1 = open_streams p
           in if streams p1 = [] then Some ((acc, Some EOF), p1, sc)
              else case stream_read False sc (n - length acc) [] p1 of
                     None \<Rightarrow> None
                   | Some ((d, err), p2, sc2) \<Rightarrow>
                       let acc1 = acc @ d; p3 = p2\<lparr>p_offset := p_offset p2 + word_of_nat (length d)\<rparr>
                       in if err = Some EOF
                          then (case popStream sc2 p3 of
                                  None \<Rightarrow> None
                                | Some (Some e, p4, sc4) \<Rightarrow> Some ((acc1, None), p4, sc4)
                                | Some (None, p4, sc4) \<Rightarrow> Read_chunks sc4 n acc1 p4)
                          else if err \<noteq> None then Some ((acc1, None), p3, sc2)
                          else Read_chunks sc2 n acc1 p3)"
  by pat_completeness auto
termination
  by (relation "measure (\<lambda>(sc, _). length sc)") (auto dest!: stream_read_shorter popStream_shorter)

declare Read_chunks.simps [simp del]

definition par_Read :: "schedule \<Rightarrow> nat \<Rightarrow> parallel \<Rightarrow> ((byte list \<times> go_err option) \<times> parallel \<times> schedule) option" where
  "par_Read sc n p = (if p_closed p then Some (([], Some ErrorFileClosed), p, sc) else Read_chunks sc n [] p)"

definition par_Close :: "schedule \<Rightarrow> parallel \<Rightarrow> (go_err option \<times> parallel \<times> schedule) option" where
  "par_Close sc p =
     (if p_closed p then Some (Some ErrorFileClosed, p, sc)
      else popStreams (length (streams p)) None sc (p\<lparr>p_closed := True\<rparr>))"

text \<open>\<open>Seek\<close>: streams that end at or before the offset are dropped, then the first one is moved to it.\<close>

primrec ditch :: "nat \<Rightarrow> int64 \<Rightarrow> schedule \<Rightarrow> parallel \<Rightarrow> (parallel \<times> schedule) option" where
  "ditch 0 off sc p = Some (p, sc)"
| "ditch (Suc k) off sc p =
     (if streams p \<noteq> [] \<and> s_offset (streams p ! 0) + s_size (streams p ! 0) \<le>s off
      then (case popStream sc p of None \<Rightarrow> None | Some (_, p1, sc1) \<Rightarrow> ditch k off sc1 p1)
      else Some (p, sc))"

fun wait_size :: "schedule \<Rightarrow> int64 \<Rightarrow> parallel \<Rightarrow> (parallel \<times> schedule) option" where
  "wait_size [] off p = None"
| "wait_size (b # bs) off p =
     (let p1 = go_run b p in if rw_Size (s_rw (streams p1 ! 0)) <s off then wait_size bs off p1 else Some (p1, bs))"

definition seek_stream :: "schedule \<Rightarrow> int64 \<Rightarrow> parallel \<Rightarrow> ((int64 \<times> go_err option) \<times> parallel \<times> schedule) option" where
  "seek_stream sc off p =
     (case wait_size sc off (upd_stream 0 (\<lambda>s. s\<lparr>s_readBytes := off\<rparr>) p) of
        None \<Rightarrow> None
      | Some (p1, sc1) \<Rightarrow>
          (case rw_Seek off SeekStart (s_rw (streams p1 ! 0)) of
             ((_, err), rw) \<Rightarrow>
               Some ((p_offset p1, map_option (Wrap ''parallel chunked reader: failed to seek stream'') err),
                 upd_stream 0 (\<lambda>s. s\<lparr>s_rw := rw\<rparr>) p1, sc1)))"

definition seek_rest :: "int64 \<Rightarrow> schedule \<Rightarrow> parallel \<Rightarrow> ((int64 \<times> go_err option) \<times> parallel \<times> schedule) option" where
  "seek_rest new sc p =
     (if streams p = [] then Some ((new, None), p\<lparr>endStream := new\<rparr>, sc)
      else if new <s s_offset (streams p ! 0)
      then (case popStreams (length (streams p)) None sc p of
              None \<Rightarrow> None
            | Some (_, p1, sc1) \<Rightarrow> Some ((new, None), p1\<lparr>endStream := new\<rparr>, sc1))
      else seek_stream sc (new - s_offset (streams p ! 0)) p)"

definition par_Seek ::
  "schedule \<Rightarrow> int64 \<Rightarrow> whence \<Rightarrow> parallel \<Rightarrow> ((int64 \<times> go_err option) \<times> parallel \<times> schedule) option" where
  "par_Seek sc off wh p =
     (if p_closed p then Some ((0, Some ErrorFileClosed), p, sc)
      else let osize = obj_size (p_o p);
               new = (case wh of SeekStart \<Rightarrow> 0 | SeekCurrent \<Rightarrow> p_offset p | SeekEnd \<Rightarrow> osize) + off
           in if new <s 0 \<or> osize \<le>s new then Some ((0, Some ErrorInvalidSeek), p, sc)
              else if new = p_offset p then Some ((new, None), p, sc)
              else case ditch (length (streams p)) new sc (p\<lparr>p_offset := new\<rparr>) of
                     None \<Rightarrow> None
                   | Some (p1, sc1) \<Rightarrow> seek_rest new sc1 p1)"

text \<open>\<open>RangeSeek\<close> ignores the length.\<close>

definition par_RangeSeek ::
  "schedule \<Rightarrow> int64 \<Rightarrow> whence \<Rightarrow> int64 \<Rightarrow> parallel \<Rightarrow> ((int64 \<times> go_err option) \<times> parallel \<times> schedule) option" where
  "par_RangeSeek sc off wh len p = par_Seek sc off wh p"

definition par_Open :: "parallel \<Rightarrow> parallel" where
  "par_Open p = open_streams p"

end
