(* ===== verification/ParallelData.thy ===== *)
theory ParallelData
  imports Parallel "HOL-Library.Sublist"
begin

text \<open>
  What the parallel reader keeps true: the streams tile the object from the first one on, every buffer holds a
  prefix of its chunk, and the cursor of the first stream is the offset of the reader.
\<close>

section \<open>The source\<close>

text \<open>
  A server that answers a request for a range, if at all, with the bytes of that range or with fewer of them:
  connections may be refused and may break off.
\<close>

definition chunk :: "byte list \<Rightarrow> int64 \<Rightarrow> int64 \<Rightarrow> byte list" where
  "chunk C off sz = take (nat (sint sz)) (drop (nat (sint off)) C)"

definition honest :: "RemoteObject \<Rightarrow> byte list \<Rightarrow> bool" where
  "honest ob C \<longleftrightarrow> obj_size ob = word_of_nat (length C) \<and> int (length C) \<le> max_int64
     \<and> (\<forall>k off sz rd. 0 \<le> sint off \<longrightarrow> 0 < sint sz \<longrightarrow> sint off + sint sz \<le> int (length C) \<longrightarrow>
          obj_open ob k (Some \<lparr>Start = off, EndOpt = off + sz - 1\<rparr>) = Inr rd \<longrightarrow> prefix (rdata rd) (chunk C off sz))"

lemma serves_honest:
  assumes "serves ob C"
  shows "honest ob C"
proof -
  have "obj_open ob k (Some \<lparr>Start = off, EndOpt = off + sz - 1\<rparr>) = Inr (Reader (chunk C off sz) EOF None None)"
    if "0 \<le> sint off" "0 < sint sz" "sint off + sint sz \<le> int (length C)" for k off sz
  proof -
    have e: "sint (off + sz - 1) = sint off + sint sz - 1"
      using that assms sint_add64 [of off sz] sint_sub64 [of "off + sz" 1] by (simp add: serves_def fits64_def)
    have "sint off < int (length C)" "sint off \<le> sint (off + sz - 1)" "\<not> off + sz - 1 <s 0" using that e by (simp_all add: i64)
    then show ?thesis using assms that(1) e by (simp add: serves_def chunk_def Let_def)
  qed
  then show ?thesis using assms by (auto simp: serves_def honest_def)
qed

section \<open>Streams\<close>

text \<open>What the goroutines of the streams do not change, of a stream and of the reader.\<close>

definition key :: "stream \<Rightarrow> int64 \<times> int64 \<times> int64 \<times> bool \<times> nat" where
  "key s = (s_offset s, s_size s, s_readBytes s, s_cancelled s, rOffset (s_rw s))"

abbreviation keys :: "parallel \<Rightarrow> (int64 \<times> int64 \<times> int64 \<times> bool \<times> nat) list" where
  "keys p \<equiv> map key (streams p)"

definition same_rest :: "parallel \<Rightarrow> parallel \<Rightarrow> bool" where
  "same_rest p p' \<longleftrightarrow> endStream p' = endStream p \<and> p_offset p' = p_offset p \<and> p_chunkSize p' = p_chunkSize p
     \<and> nstreams p' = nstreams p \<and> p_closed p' = p_closed p \<and> p_o p' = p_o p"

lemma same_rest_refl [simp]: "same_rest p p" "same_rest p (upd_stream i f p)" "same_rest p (p\<lparr>streams := ss\<rparr>)"
  by (simp_all add: same_rest_def upd_stream_def)

lemma same_rest_trans: "same_rest p q \<Longrightarrow> same_rest q r \<Longrightarrow> same_rest p r"
  by (simp add: same_rest_def)

definition stream_data :: "byte list \<Rightarrow> stream \<Rightarrow> bool" where
  "stream_data C s \<longleftrightarrow> 0 \<le> sint (s_offset s) \<and> 0 < sint (s_size s) \<and> sint (s_offset s) + sint (s_size s) \<le> int (length C)
     \<and> rOffset (s_rw s) \<le> length (rw_buf (s_rw s)) \<and> \<not> rw_closed (s_rw s)
     \<and> (case s_rc s of None \<Rightarrow> rw_buf (s_rw s) = []
        | Some rd \<Rightarrow> prefix (rw_buf (s_rw s) @ rdata rd) (chunk C (s_offset s) (s_size s)))"

definition data :: "byte list \<Rightarrow> parallel \<Rightarrow> bool" where
  "data C p \<longleftrightarrow> honest (p_o p) C \<and> (\<forall>s \<in> set (streams p). stream_data C s)"

lemma data_upd:
  assumes "data C p" "stream_data C (streams p ! i) \<Longrightarrow> stream_data C (f (streams p ! i))" "i < length (streams p)"
  shows "data C (upd_stream i f p)"
  using assms by (auto simp: data_def upd_stream_def dest!: set_update_subset_insert [THEN subsetD])

lemma keys_upd: "i < length (streams p) \<Longrightarrow> key (f (streams p ! i)) = key (streams p ! i) \<Longrightarrow> keys (upd_stream i f p) = keys p"
  by (simp add: upd_stream_def map_update list_update_same_conv)

lemma data_opens [simp]: "data C (p\<lparr>p_opens := n\<rparr>) = data C p" "keys (p\<lparr>p_opens := n\<rparr>) = keys p"
  "same_rest p (q\<lparr>p_opens := n\<rparr>) = same_rest p q"
  by (simp_all add: data_def same_rest_def)

lemma go_step_data:
  assumes "data C p" "i < length (streams p)"
  shows "data C (go_step i e p) \<and> keys (go_step i e p) = keys p \<and> same_rest p (go_step i e p)"
proof -
  let ?s = "streams p ! i"
  have d: "stream_data C ?s" and h: "honest (p_o p) C" using assms by (auto simp: data_def)
  show ?thesis
  proof (cases e)
    case GoOpen
    have "prefix (rdata rd) (chunk C (s_offset ?s) (s_size ?s))"
      if "obj_open (p_o p) (p_opens p) (Some \<lparr>Start = s_offset ?s, EndOpt = s_offset ?s + s_size ?s - 1\<rparr>) = Inr rd" for rd
      using h d that by (auto simp: honest_def stream_data_def)
    then show ?thesis using assms d unfolding GoOpen
      by (auto simp: Let_def stream_data_def key_def intro!: data_upd keys_upd split: sum.split option.split)
  next
    case (GoRead n)
    show ?thesis using assms d unfolding GoRead
      by (auto simp: stream_data_def key_def rw_append_def intro!: data_upd keys_upd split: option.split)
  next
    case GoEnd
    then show ?thesis using assms d
      by (auto simp: stream_data_def key_def intro!: data_upd keys_upd split: option.split)
  next
    case GoCancel
    then show ?thesis using assms d
      by (auto simp: stream_data_def key_def intro!: data_upd keys_upd)
  qed
qed

lemma go_run_data:
  "data C p \<Longrightarrow> data C (go_run es p) \<and> keys (go_run es p) = keys p \<and> same_rest p (go_run es p)"
proof (induction es arbitrary: p)
  case Nil
  then show ?case by (simp add: go_run_def)
next
  case (Cons e es)
  obtain i x where e: "e = (i, x)" by fastforce
  let ?q = "if i < length (streams p) then go_step i x p else p"
  have q: "data C ?q" "keys ?q = keys p" "same_rest p ?q" using go_step_data [OF Cons.prems] Cons.prems by auto
  have "go_run (e # es) p = go_run es ?q" by (simp add: go_run_def e)
  moreover from Cons.IH [OF q(1)] have "data C (go_run es ?q)" "keys (go_run es ?q) = keys p" "same_rest p (go_run es ?q)"
    using q(2) same_rest_trans [OF q(3)] by auto
  ultimately show ?case by simp
qed

lemma data_buf:
  assumes "data C p" "s \<in> set (streams p)"
  shows "prefix (rw_buf (s_rw s)) (chunk C (s_offset s) (s_size s))"
proof -
  have "stream_data C s" using assms by (simp add: data_def)
  then show ?thesis by (cases "s_rc s") (auto simp: stream_data_def dest: append_prefixD)
qed

section \<open>Reading a stream\<close>

text \<open>The first stream has moved on by \<open>k\<close> bytes.\<close>

definition moved :: "nat \<Rightarrow> parallel \<Rightarrow> parallel \<Rightarrow> bool" where
  "moved k p p' \<longleftrightarrow> same_rest p p' \<and> keys p' = (case keys p of [] \<Rightarrow> []
     | (off, sz, r, c, ro) # ks \<Rightarrow> (off, sz, r + word_of_nat k, c, ro + k) # ks)"

lemma moved_0: "same_rest p p' \<Longrightarrow> keys p' = keys p \<Longrightarrow> moved 0 p p'"
  by (auto simp: moved_def split: list.split)

lemma moved_trans: "moved j p q \<Longrightarrow> moved k q r \<Longrightarrow> moved (j + k) p r"
  by (auto simp: moved_def ac_simps intro: same_rest_trans split: list.splits)

lemma take_self: "b = take n xs \<Longrightarrow> b = take (length b) xs"
  by (cases "n \<le> length xs") simp_all

definition bytes_at :: "byte list \<Rightarrow> nat \<Rightarrow> byte list \<Rightarrow> bool" where
  "bytes_at C k d \<longleftrightarrow> d = take (length d) (drop k C)"

lemma bytes_at_Nil [simp]: "bytes_at C k []"
  by (simp add: bytes_at_def)

lemma bytes_at_join: "bytes_at C k d \<Longrightarrow> bytes_at C (k + length d) d' \<Longrightarrow> bytes_at C k (d @ d')"
  unfolding bytes_at_def using take_add [of "length d" "length d'" "drop k C"] by (simp add: add.commute)

text \<open>One section of \<open>stream.read\<close>: what is in the buffer of the first stream, at most \<open>m\<close> bytes.\<close>

lemma read_section:
  assumes "data C p" "keys p = (off, sz, r, c, nat (sint r)) # ks" "0 \<le> sint r" "sint r \<le> sint sz"
    and R: "rw_Read m (s_rw (streams p ! 0)) = ((d, e), rw)"
    and s1: "s1 = (streams p ! 0)\<lparr>s_rw := rw, s_readBytes := s_readBytes (streams p ! 0) + word_of_nat (length d)\<rparr>"
  shows "bytes_at C (nat (sint off + sint r)) d" "length d \<le> m" "e = None \<or> e = Some EOF"
    and "sint r + int (length d) \<le> sint sz" "sint (r + word_of_nat (length d)) = sint r + int (length d)" "0 \<le> sint off"
    and "data C (upd_stream 0 (\<lambda>_. s1) p)" "moved (length d) p (upd_stream 0 (\<lambda>_. s1) p)"
    and "keys (upd_stream 0 (\<lambda>_. s1) p) = (off, sz, r + word_of_nat (length d), c, nat (sint (r + word_of_nat (length d)))) # ks"
    and "s_eof s1 \<longleftrightarrow> sint r + int (length d) = sint sz"
proof -
  let ?s = "streams p ! 0" and ?r = "r + word_of_nat (length d)" and ?p2 = "upd_stream 0 (\<lambda>_. s1) p"
  have ne: "streams p \<noteq> []" using assms(2) by auto
  then have s: "key ?s = (off, sz, r, c, nat (sint r))" "?s \<in> set (streams p)" "streams p = ?s # tl (streams p)"
    using assms(2) by (auto simp: neq_Nil_conv)
  have ks: "map key (tl (streams p)) = ks" using assms(2) s(3) by (metis list.sel(3) map_tl)
  have k: "s_offset ?s = off" "s_size ?s = sz" "s_readBytes ?s = r" "s_cancelled ?s = c" "rOffset (s_rw ?s) = nat (sint r)"
    using s(1) by (simp_all add: key_def)
  have sd: "stream_data C ?s" using assms(1) s(2) by (simp add: data_def)
  note u = rw_Read_unread [OF R]
  obtain t where t: "chunk C off sz = rw_buf (s_rw ?s) @ t" using data_buf [OF assms(1) s(2)] k by (auto simp: prefix_def)
  have un: "unread (s_rw ?s) = drop (nat (sint r)) (rw_buf (s_rw ?s))" by (simp add: unread_def k)
  have dl: "length d \<le> length (rw_buf (s_rw ?s)) - nat (sint r)" "length d \<le> m" using u un by auto
  have "length (chunk C off sz) = nat (sint sz)" using sd k by (auto simp: chunk_def stream_data_def)
  then have bl: "length (rw_buf (s_rw ?s)) \<le> nat (sint sz)" using t by simp
  have dz: "length d \<le> nat (sint sz) - nat (sint r)" using dl(1) bl by arith
  have "d = take (length d) (drop (nat (sint r)) (rw_buf (s_rw ?s)))" using u unfolding un by (intro take_self) blast
  also have "\<dots> = take (length d) (drop (nat (sint r)) (chunk C off sz))" using dl(1) by (simp add: t)
  also have "\<dots> = take (length d) (drop (nat (sint off + sint r)) C)"
    using dz sd k(1) assms(3) by (simp add: chunk_def drop_take add.commute nat_add_distrib stream_data_def)
  finally show "bytes_at C (nat (sint off + sint r)) d" unfolding bytes_at_def .
  show "length d \<le> m" "e = None \<or> e = Some EOF" using dl u by auto
  show off: "0 \<le> sint off" using sd k(1) by (simp add: stream_data_def)
  show le: "sint r + int (length d) \<le> sint sz"
    using dl(1) bl sd k by (auto simp: stream_data_def)
  show r: "sint ?r = sint r + int (length d)"
    using le assms(3) sint_range64(2) [of sz] by (simp add: sint_add64 sint_of_nat64 fits64_def)
  have rw: "rw_buf rw = rw_buf (s_rw ?s)" "rw_closed rw = rw_closed (s_rw ?s)" "rOffset rw = nat (sint r) + length d"
    using u k(5) by auto
  have "nat (sint r) \<le> length (rw_buf (s_rw ?s))" using sd k(5) by (simp add: stream_data_def)
  then have "nat (sint r) + length d \<le> length (rw_buf (s_rw ?s))" using dl(1) by arith
  then have "stream_data C s1" using sd by (simp add: s1 stream_data_def rw split: option.splits)
  then show "data C ?p2" using assms(1) ne by (intro data_upd) simp_all
  have "streams ?p2 = s1 # tl (streams p)" unfolding upd_stream_def by (subst s(3)) simp
  then show k2: "keys ?p2 = (off, sz, ?r, c, nat (sint ?r)) # ks"
    using ks rw(3) k r assms(3) by (simp add: s1 key_def nat_add_distrib)
  then show "moved (length d) p ?p2" using assms(2,3) r by (simp add: moved_def nat_add_distrib)
  show "s_eof s1 \<longleftrightarrow> sint r + int (length d) = sint sz" using le r k by (auto simp: s1 s_eof_def i64)
qed

lemma stream_read_ok:
  assumes "stream_read w sc n acc p = Some ((b, err), p', sc')" "data C p"
    and "keys p = (off, sz, r, c, nat (sint r)) # ks" "0 \<le> sint r" "sint r \<le> sint sz"
  shows "\<exists>d. b = acc @ d \<and> bytes_at C (nat (sint off + sint r)) d \<and> moved (length d) p p' \<and> data C p'
    \<and> sint r + int (length d) \<le> sint sz \<and> (err = Some EOF \<longleftrightarrow> sint r + int (length d) = sint sz) \<and> (err = None \<or> err = Some EOF)
    \<and> (err = None \<longrightarrow> n \<le> length b) \<and> (length acc \<le> n \<longrightarrow> length b \<le> n)"
  using assms
proof (induction w sc n acc p arbitrary: r rule: stream_read.induct)
  case (2 w b0 bs n acc p)
  let ?p1 = "go_run b0 p"
  let ?s = "streams ?p1 ! 0"
  from go_run_data [OF "2.prems"(2)] have g: "data C ?p1" "keys ?p1 = keys p" "same_rest p ?p1" by auto
  have k: "keys ?p1 = (off, sz, r, c, nat (sint r)) # ks" using g(2) "2.prems"(3) by simp
  have m0: "moved 0 p ?p1" using g(2,3) by (intro moved_0)
  show ?case
  proof (cases "w \<and> \<not> wait_done (s_rw ?s)")
    case True
    have "stream_read True bs n acc ?p1 = Some ((b, err), p', sc')" using "2.prems"(1) True by (simp add: Let_def)
    from "2.IH"(1) [OF refl refl True this g(1) k "2.prems"(4,5)] show ?thesis
      using moved_trans [OF m0, of _ p'] by auto
  next
    case False
    obtain d e rw where R: "rw_Read (n - length acc) (s_rw ?s) = ((d, e), rw)" by (metis prod_cases3 surj_pair)
    let ?s1 = "?s\<lparr>s_rw := rw, s_readBytes := s_readBytes ?s + word_of_nat (length d)\<rparr>"
    let ?p2 = "upd_stream 0 (\<lambda>_. ?s1) ?p1" and ?r = "r + word_of_nat (length d)"
    note x = read_section [OF g(1) k "2.prems"(4,5) R refl]
    have e: "\<not> (e \<noteq> None \<and> e \<noteq> Some EOF)" using x(3) by auto
    have m: "moved (length d) p ?p2" using moved_trans [OF m0 x(8)] by simp
    have eq: "stream_read w (b0 # bs) n acc p = (if s_eof ?s1 then Some ((acc @ d, Some EOF), ?p2, bs)
        else if n \<le> length (acc @ d) then Some ((acc @ d, None), ?p2, bs) else stream_read True bs n (acc @ d) ?p2)"
      using False R e by (auto simp: Let_def)
    show ?thesis
    proof (cases "s_eof ?s1 \<or> n \<le> length (acc @ d)")
      case True
      then show ?thesis using "2.prems"(1) eq x(10) x(1,2,4,7) m by (intro exI [of _ d]) (auto split: if_splits)
    next
      case more: False
      then have n: "stream_read True bs n (acc @ d) ?p2 = Some ((b, err), p', sc')" using "2.prems"(1) eq by simp
      have "\<not> s_eof ?s1" "\<not> n \<le> length (acc @ d)" "0 \<le> sint ?r" "sint ?r \<le> sint sz" using more x(4,5) "2.prems"(4) by auto
      from "2.IH"(2) [OF refl refl False R [symmetric] refl refl refl refl e this(1,2) n x(7,9) this(3,4)] obtain d' where
        d': "b = (acc @ d) @ d'" "bytes_at C (nat (sint off + sint ?r)) d'" "moved (length d') ?p2 p'" "data C p'"
          "sint ?r + int (length d') \<le> sint sz" "err = Some EOF \<longleftrightarrow> sint ?r + int (length d') = sint sz" "err = None \<or> err = Some EOF"
          "err = None \<longrightarrow> n \<le> length b" "length (acc @ d) \<le> n \<longrightarrow> length b \<le> n"
        by blast
      have "nat (sint off + sint ?r) = nat (sint off + sint r) + length d" using x(5,6) "2.prems"(4) by (simp add: nat_add_distrib)
      then have "bytes_at C (nat (sint off + sint r)) (d @ d')" using d'(2) x(1) by (simp add: bytes_at_join)
      moreover have "moved (length (d @ d')) p p'" using moved_trans [OF m d'(3)] by simp
      moreover have "sint r + int (length (d @ d')) = sint ?r + int (length d')" using x(5) by simp
      moreover have "b = acc @ (d @ d')" "length acc \<le> n \<longrightarrow> length b \<le> n" using d'(1,9) more by simp_all
      ultimately show ?thesis using d'(4-8) by (intro exI [of _ "d @ d'"] conjI) (simp_all only:)
    qed
  qed
qed simp

end
