(* ===== verification/ParallelRun.thy ===== *)
theory ParallelRun
  imports ParallelData
begin

text \<open>
  The operations of the parallel reader keep the streams in order, and what they return is the object; which
  schedules let them return, and which never do.
\<close>

section \<open>Layout\<close>

text \<open>The streams follow one another from \<open>a\<close> to \<open>b\<close>; nothing has been read from the later ones.\<close>

type_synonym skey = "int64 \<times> int64 \<times> int64 \<times> bool \<times> nat"

fun tiled :: "int64 \<Rightarrow> skey list \<Rightarrow> int64 \<Rightarrow> bool" where
  "tiled a [] b \<longleftrightarrow> a = b"
| "tiled a ((off, sz, r, c, ro) # ks) b \<longleftrightarrow> off = a \<and> tiled (a + sz) ks b"

definition fresh :: "skey \<Rightarrow> bool" where
  "fresh k \<longleftrightarrow> (case k of (off, sz, r, c, ro) \<Rightarrow> r = 0 \<and> ro = 0 \<and> \<not> c)"

lemma tiled_append: "tiled a (ks @ ks') b \<longleftrightarrow> (\<exists>m. tiled a ks m \<and> tiled m ks' b)"
  by (induction a ks b rule: tiled.induct) auto

definition cursor_ok :: "skey \<Rightarrow> bool" where
  "cursor_ok k \<longleftrightarrow> (case k of (off, sz, r, c, ro) \<Rightarrow> 0 \<le> sint r \<and> sint r < sint sz \<and> ro = nat (sint r) \<and> \<not> c)"

lemma fresh_cursor_simps [simp]:
  "fresh (off, sz, r, c, ro) \<longleftrightarrow> r = 0 \<and> ro = 0 \<and> \<not> c"
  "cursor_ok (off, sz, r, c, ro) \<longleftrightarrow> 0 \<le> sint r \<and> sint r < sint sz \<and> ro = nat (sint r) \<and> \<not> c"
  by (simp_all add: fresh_def cursor_ok_def)

text \<open>Where the first stream is; with no stream, where the next one starts.\<close>

definition here :: "parallel \<Rightarrow> int64" where
  "here p = (case keys p of [] \<Rightarrow> endStream p | (off, sz, r, c, ro) # ks \<Rightarrow> off + r)"

definition ordered :: "byte list \<Rightarrow> parallel \<Rightarrow> bool" where
  "ordered C p \<longleftrightarrow> data C p \<and> \<not> p_closed p \<and> 0 < sint (p_chunkSize p) \<and> int (length C) + sint (p_chunkSize p) \<le> max_int64 \<and> 0 < sint (nstreams p)
     \<and> 0 \<le> sint (endStream p) \<and> sint (endStream p) \<le> int (length C)
     \<and> (case keys p of [] \<Rightarrow> True | (off, sz, r, c, ro) # ks \<Rightarrow> tiled (off + sz) ks (endStream p) \<and> list_all fresh ks)"

definition par_inv :: "byte list \<Rightarrow> parallel \<Rightarrow> bool" where
  "par_inv C p \<longleftrightarrow> ordered C p \<and> list_all cursor_ok (keys p) \<and> p_offset p = here p"

lemma ordered_same:
  assumes "ordered C p" "data C q" "keys q = keys p" "same_rest p q"
  shows "ordered C q"
  using assms by (auto simp: ordered_def same_rest_def split: list.splits)

lemma data_sizes:
  assumes "data C p" "(off, sz, r, c, ro) \<in> set (keys p)"
  shows "0 \<le> sint off \<and> 0 < sint sz \<and> sint off + sint sz \<le> int (length C) \<and> sint (off + sz) = sint off + sint sz"
proof -
  obtain s where "s \<in> set (streams p)" "key s = (off, sz, r, c, ro)" using assms(2) by auto
  then have "0 \<le> sint off" "0 < sint sz" "sint off + sint sz \<le> int (length C)" "int (length C) \<le> max_int64"
    using assms(1) by (auto simp: data_def stream_data_def key_def honest_def)
  then show ?thesis by (simp add: sint_add64 fits64_def)
qed

lemma fresh_cursor: "fresh k \<Longrightarrow> k \<in> set (keys p) \<Longrightarrow> data C p \<Longrightarrow> cursor_ok k"
  using data_sizes [of C p] by (cases k) auto

lemma fresh_cursors: "list_all fresh ks \<Longrightarrow> set ks \<subseteq> set (keys p) \<Longrightarrow> data C p \<Longrightarrow> list_all cursor_ok ks"
  using fresh_cursor unfolding list_all_iff by blast

section \<open>Closing streams\<close>

lemma wait_err_data:
  "wait_err sc p = Some (p', sc') \<Longrightarrow> data C p \<Longrightarrow> data C p' \<and> keys p' = keys p \<and> same_rest p p'"
proof (induction sc p rule: wait_err.induct)
  case (2 b bs p)
  have g: "data C (go_run b p)" "keys (go_run b p) = keys p" "same_rest p (go_run b p)" using go_run_data [OF "2.prems"(2)] by auto
  show ?case
  proof (cases "s_err (streams (go_run b p) ! 0) = None")
    case True
    then show ?thesis using "2.IH" [OF refl _ _ g(1)] "2.prems"(1) g same_rest_trans [OF g(3)] by (auto simp: Let_def)
  qed (use "2.prems" g in \<open>auto simp: Let_def\<close>)
qed (auto split: if_splits)

lemma popStream_keys:
  assumes "popStream sc p = Some (e, p', sc')" "data C p" "keys p = k # ks"
  shows "data C p' \<and> keys p' = ks \<and> same_rest p p'"
proof -
  let ?q = "upd_stream 0 (\<lambda>s. s\<lparr>s_cancelled := True\<rparr>) p"
  have ne: "streams p \<noteq> []" using assms(3) by auto
  have q: "data C ?q" using assms(2) ne by (intro data_upd) (auto simp: stream_data_def split: option.splits)
  have kq: "tl (keys ?q) = ks" using ne assms(3) by (auto simp: upd_stream_def neq_Nil_conv)
  from assms(1) ne obtain p1 where w: "wait_err sc ?q = Some (p1, sc')" and p': "p' = p1\<lparr>streams := tl (streams p1)\<rparr>"
    by (auto simp: popStream_def split: option.splits)
  from wait_err_data [OF w q] have "data C p1" "keys p1 = keys ?q" "same_rest ?q p1" by auto
  moreover from this(3) have "same_rest p p1" by (simp add: same_rest_def upd_stream_def)
  moreover have "streams p1 \<noteq> []" using ne \<open>keys p1 = keys ?q\<close> by (auto simp: upd_stream_def)
  ultimately show ?thesis using kq list.set_sel(2) [of "streams p1"]
    by (simp add: p' data_def map_tl same_rest_def)
qed

text \<open>After the first stream has been dropped the reader is at its end.\<close>

lemma popStream_ordered:
  assumes "popStream sc p = Some (e, p', sc')" "ordered C p" "keys p = (off, sz, r, c, ro) # ks"
  shows "ordered C p' \<and> list_all cursor_ok (keys p') \<and> here p' = off + sz \<and> keys p' = ks \<and> p_offset p' = p_offset p"
proof -
  have x: "data C p'" "keys p' = ks" "same_rest p p'" using popStream_keys [OF assms(1) _ assms(3)] assms(2) by (auto simp: ordered_def)
  have o: "ordered C p'" using assms(2,3) x by (auto simp: ordered_def same_rest_def split: list.splits)
  have "list_all fresh ks" "tiled (off + sz) ks (endStream p')" using assms(2,3) x(3) by (auto simp: ordered_def same_rest_def)
  then have "list_all cursor_ok ks" "here p' = off + sz"
    using fresh_cursor [of _ p' C] x(1,2) by (auto simp: list_all_iff here_def split: list.splits)
  then show ?thesis using o x by (simp add: same_rest_def)
qed

lemma popStreams_all:
  "popStreams (length (streams p)) err sc p = Some (e, p', sc') \<Longrightarrow> data C p \<Longrightarrow> data C p' \<and> streams p' = [] \<and> same_rest p p'"
proof (induction "length (streams p)" arbitrary: p err sc)
  case (Suc n)
  then obtain k ks where k: "keys p = k # ks" by (cases "streams p") auto
  from Suc.prems(1) Suc.hyps(2) [symmetric] obtain e1 p1 sc1 where
    p1: "popStream sc p = Some (e1, p1, sc1)" "popStreams n (if err = None then e1 else err) sc1 p1 = Some (e, p', sc')"
    by (auto split: option.splits)
  from popStream_keys [OF p1(1) Suc.prems(2) k] have x: "data C p1" "keys p1 = ks" "same_rest p p1" by auto
  have "length (streams p1) = n" using x(2) k Suc.hyps(2) by (metis length_Cons length_map nat.inject)
  with Suc.hyps(1) [of p1] p1(2) x same_rest_trans [OF x(3)] show ?case by auto
qed simp

section \<open>Opening streams\<close>

lemma add_streams_ok:
  assumes "data C p" "0 < sint (p_chunkSize p)" "int (length C) + sint (p_chunkSize p) \<le> max_int64"
    and "0 \<le> sint (endStream p)" "sint (endStream p) < int (length C)" "add_streams k p = p'"
  shows "data C p' \<and> (\<exists>ks. keys p' = keys p @ ks \<and> list_all fresh ks \<and> tiled (endStream p) ks (endStream p') \<and> (0 < k \<longrightarrow> ks \<noteq> []))
    \<and> 0 \<le> sint (endStream p') \<and> sint (endStream p') \<le> int (length C)
    \<and> p_chunkSize p' = p_chunkSize p \<and> nstreams p' = nstreams p \<and> p_offset p' = p_offset p \<and> p_closed p' = p_closed p"
  using assms
proof (induction k arbitrary: p)
  case 0
  then show ?case by (intro conjI exI [of _ "[]"]) auto
next
  case (Suc k)
  have sz: "sint (obj_size (p_o p)) = int (length C)" using Suc.prems(1) by (auto simp: data_def honest_def i64 fits64I)
  let ?end1 = "endStream p + p_chunkSize p"
  define cs where "cs = (if obj_size (p_o p) <s ?end1 then obj_size (p_o p) - endStream p else p_chunkSize p)"
  have e1: "sint ?end1 = sint (endStream p) + sint (p_chunkSize p)" using Suc.prems(2-5) by (simp add: sint_add64 fits64_def)
  have e2: "sint (obj_size (p_o p) - endStream p) = int (length C) - sint (endStream p)"
    using sz Suc.prems(3-5) Suc.prems(2) by (subst sint_sub64) (auto simp: fits64_def)
  have cs: "0 < sint cs" "sint (endStream p) + sint cs \<le> int (length C)" "sint (endStream p + cs) = sint (endStream p) + sint cs"
  proof -
    show c: "0 < sint cs" "sint (endStream p) + sint cs \<le> int (length C)"
      using Suc.prems(2,5) e1 e2 sz by (auto simp: cs_def i64)
    then show "sint (endStream p + cs) = sint (endStream p) + sint cs"
      using Suc.prems(2-4) by (simp add: sint_add64 fits64_def)
  qed
  have end_eq: "(if obj_size (p_o p) <s ?end1 then endStream p + cs else ?end1) = endStream p + cs" by (simp add: cs_def)
  let ?s = "newStream (endStream p) cs"
  let ?p1 = "p\<lparr>streams := streams p @ [?s], endStream := endStream p + cs\<rparr>"
  have "stream_data C ?s" using cs Suc.prems(4) by (simp add: stream_data_def newStream_def newRW_def)
  then have d1: "data C ?p1" using Suc.prems(1) by (simp add: data_def)
  have key1: "key ?s = (endStream p, cs, 0, False, 0)" by (simp add: key_def newStream_def newRW_def)
  have eq: "add_streams (Suc k) p = (if obj_size (p_o p) \<le>s endStream ?p1 then ?p1 else add_streams k ?p1)"
    by (simp only: add_streams.simps Let_def cs_def [symmetric] end_eq)
  show ?case
  proof (cases "obj_size (p_o p) \<le>s endStream ?p1")
    case True
    then have "p' = ?p1" using Suc.prems(6) eq by simp
    then show ?thesis using d1 key1 cs Suc.prems(4)
      by (intro conjI exI [of _ "[(endStream p, cs, 0, False, 0)]"]) simp_all
  next
    case False
    then have r: "add_streams k ?p1 = p'" using Suc.prems(6) eq by simp
    have "0 \<le> sint (endStream ?p1)" "sint (endStream ?p1) < int (length C)" using False cs Suc.prems(4) sz by (simp_all add: i64)
    from Suc.IH [OF d1 _ _ this r] Suc.prems(2,3) obtain ks where
      ks: "keys p' = keys ?p1 @ ks" "list_all fresh ks" "tiled (endStream p + cs) ks (endStream p')"
      and o: "data C p'" "0 \<le> sint (endStream p')" "sint (endStream p') \<le> int (length C)"
        "p_chunkSize p' = p_chunkSize p" "nstreams p' = nstreams p" "p_offset p' = p_offset p" "p_closed p' = p_closed p" by auto
    show ?thesis using ks o key1
      by (intro conjI exI [of _ "(endStream p, cs, 0, False, 0) # ks"]) simp_all
  qed
qed

lemma open_streams_inv:
  assumes "par_inv C p"
  shows "par_inv C (open_streams p) \<and> p_offset (open_streams p) = p_offset p \<and> p_closed (open_streams p) = p_closed p
    \<and> (streams (open_streams p) = [] \<longrightarrow> sint (p_offset p) = int (length C))"
proof -
  have o: "ordered C p" "list_all cursor_ok (keys p)" "p_offset p = here p" using assms by (auto simp: par_inv_def)
  have d: "data C p" using o(1) by (simp add: ordered_def)
  have sz: "sint (obj_size (p_o p)) = int (length C)" using d by (auto simp: data_def honest_def i64 fits64I)
  show ?thesis
  proof (cases "sint (endStream p) < int (length C)")
    case False
    then have "open_streams p = p" "sint (endStream p) = int (length C)" using sz o(1) by (auto simp: open_streams_def ordered_def i64)
    then show ?thesis using assms o(3) by (auto simp: here_def)
  next
    case True
    let ?k = "nat (sint (nstreams p) - int (length (streams p)))"
    have q: "add_streams ?k p = open_streams p" using True sz by (simp add: open_streams_def i64)
    from add_streams_ok [OF d _ _ _ True q] o(1) obtain ks where
      ks: "keys (open_streams p) = keys p @ ks" "list_all fresh ks" "tiled (endStream p) ks (endStream (open_streams p))" "0 < ?k \<longrightarrow> ks \<noteq> []"
      and x: "data C (open_streams p)" "0 \<le> sint (endStream (open_streams p))" "sint (endStream (open_streams p)) \<le> int (length C)"
        "p_chunkSize (open_streams p) = p_chunkSize p" "nstreams (open_streams p) = nstreams p"
        "p_offset (open_streams p) = p_offset p" "p_closed (open_streams p) = p_closed p"
      by (auto simp: ordered_def)
    have "ordered C (open_streams p)" using o(1) x ks
      by (auto simp: ordered_def tiled_append split: list.splits)
    moreover have "list_all cursor_ok (keys (open_streams p))"
      using ks(1) o(2) fresh_cursors [OF ks(2) _ x(1)] by (simp add: list_all_append)
    moreover have "here (open_streams p) = here p"
      using ks by (auto simp: here_def split: list.splits)
    moreover have "streams (open_streams p) \<noteq> []" using ks(1,4) o(1) by (auto simp: ordered_def)
    ultimately show ?thesis using x o(3) by (simp add: par_inv_def)
  qed
qed

section \<open>Reading\<close>

text \<open>
  What \<open>Read\<close> returns, from offset \<open>a\<close> of the reader: the bytes of the object there, at least one, and
  \<open>io.EOF\<close> only at the end of the object.
\<close>

definition read_result :: "byte list \<Rightarrow> int64 \<Rightarrow> nat \<Rightarrow> byte list \<Rightarrow> go_err option \<Rightarrow> int64 \<Rightarrow> bool" where
  "read_result C a n b err a' \<longleftrightarrow> bytes_at C (nat (sint a)) b \<and> sint a' = sint a + int (length b) \<and> length b \<le> n
     \<and> (err = None \<and> (0 < n \<longrightarrow> b \<noteq> []) \<or> err = Some EOF \<and> length b < n \<and> sint a' = int (length C))"

lemma read_result_step:
  assumes "bytes_at C (nat (sint a)) d" "sint a1 = sint a + int (length d)" "0 \<le> sint a" "length d \<le> n" "d \<noteq> []"
    and "read_result C a1 (n - length d) b err a'"
  shows "read_result C a n (d @ b) err a'"
  using assms by (auto simp: read_result_def nat_add_distrib intro: bytes_at_join)

text \<open>One turn of the loop: the bytes of the first stream.\<close>

lemma read_turn:
  assumes "par_inv C p" "keys p = (off, sz, r, c, ro) # ks" "0 < n" "stream_read False sc n [] p = Some ((d, err), p2, sc2)"
    and p3: "p3 = p2\<lparr>p_offset := p_offset p2 + word_of_nat (length d)\<rparr>"
  shows "bytes_at C (nat (sint (p_offset p))) d" "length d \<le> n" "d \<noteq> []" "err = None \<or> err = Some EOF"
    and "0 \<le> sint (p_offset p)" "sint (p_offset p3) = sint (p_offset p) + int (length d)" "ordered C p3"
    and "keys p3 = (off, sz, r + word_of_nat (length d), c, ro + length d) # ks" "p_offset p3 = off + (r + word_of_nat (length d))"
    and "err = Some EOF \<Longrightarrow> p_offset p3 = off + sz" "err = None \<Longrightarrow> par_inv C p3 \<and> length d = n"
proof -
  have o: "ordered C p" "cursor_ok (off, sz, r, c, ro)" "p_offset p = off + r" using assms(1,2) by (auto simp: par_inv_def here_def)
  have D: "data C p" using o(1) by (simp add: ordered_def)
  have sz: "0 \<le> sint off" "0 < sint sz" "sint off + sint sz \<le> int (length C)" "int (length C) \<le> max_int64"
    using data_sizes [OF D, of off sz r c ro] assms(2) D by (simp_all add: data_def honest_def)
  have r: "0 \<le> sint r" "sint r < sint sz" "ro = nat (sint r)" using o(2) by auto
  then have p: "sint (p_offset p) = sint off + sint r" using sz o(3) by (simp add: sint_add64 fits64_def)
  from stream_read_ok [OF assms(4) D assms(2) [unfolded r(3)] r(1) less_imp_le [OF r(2)]]
  have x: "bytes_at C (nat (sint off + sint r)) d" "moved (length d) p p2" "data C p2"
    "sint r + int (length d) \<le> sint sz" "err = Some EOF \<longleftrightarrow> sint r + int (length d) = sint sz" "err = None \<or> err = Some EOF"
    "err = None \<longrightarrow> n \<le> length d" "length d \<le> n" by auto
  show "bytes_at C (nat (sint (p_offset p))) d" "length d \<le> n" "err = None \<or> err = Some EOF" using x(1,8,6) p by simp_all
  show "0 \<le> sint (p_offset p)" using p r sz by simp
  show "d \<noteq> []" using x(5-7) r(2) assms(3) by auto
  have k: "keys p3 = (off, sz, r + word_of_nat (length d), c, ro + length d) # ks" "same_rest p p2" "data C p3"
    using x(2,3) assms(2) by (simp_all add: moved_def p3 data_def)
  then show "keys p3 = (off, sz, r + word_of_nat (length d), c, ro + length d) # ks" by simp
  show o3: "ordered C p3" using o(1) k assms(2) by (auto simp: ordered_def p3 same_rest_def)
  have rd: "sint (r + word_of_nat (length d)) = sint r + int (length d)"
    using x(4) r sz by (simp add: sint_add64 sint_of_nat64 fits64_def)
  show p3o: "p_offset p3 = off + (r + word_of_nat (length d))" using k(2) o(3) by (simp add: p3 same_rest_def)
  then show "sint (p_offset p3) = sint (p_offset p) + int (length d)"
    using rd p x(4) r sz by (simp add: sint_add64 fits64_def)
  have eof: "r + word_of_nat (length d) = sz" if "err = Some EOF" using that x(5) rd by (simp add: sint_inj64)
  then show "p_offset p3 = off + sz" if "err = Some EOF" using that p3o by simp
  have "list_all cursor_ok ks" using assms(1,2) by (simp add: par_inv_def)
  then show "par_inv C p3 \<and> length d = n" if "err = None"
    using that x(4,5,7,8) o3 k(1) p3o rd r o(2) by (auto simp: par_inv_def here_def nat_add_distrib)
qed

lemma Read_chunks_ok:
  "Read_chunks sc n acc p = Some ((b, err), p', sc') \<Longrightarrow> par_inv C p \<Longrightarrow> length acc \<le> n \<Longrightarrow>
   \<exists>d. b = acc @ d \<and> par_inv C p' \<and> read_result C (p_offset p) (n - length acc) d err (p_offset p')"
proof (induction sc n acc p rule: Read_chunks.induct)
  case (1 sc n acc p)
  note u = "1.prems"(1) [unfolded Read_chunks.simps [of sc n acc p]]
  let ?p1 = "open_streams p"
  from open_streams_inv [OF "1.prems"(2)] have i: "par_inv C ?p1" "p_offset ?p1 = p_offset p"
    "streams ?p1 = [] \<Longrightarrow> sint (p_offset p) = int (length C)" by auto
  consider "n \<le> length acc" | "\<not> n \<le> length acc" "streams ?p1 = []" | "\<not> n \<le> length acc" "streams ?p1 \<noteq> []" by blast
  then show ?case
  proof cases
    case 1
    then show ?thesis using u "1.prems"(2) by (intro exI [of _ "[]"]) (auto simp: read_result_def)
  next
    case 2
    then show ?thesis using u i by (intro exI [of _ "[]"]) (auto simp: read_result_def)
  next
    case 3
    let ?m = "n - length acc"
    obtain off sz r c ro ks where k: "keys ?p1 = (off, sz, r, c, ro) # ks" using 3(2) by (cases "keys ?p1") auto
    from u 3 obtain d e p2 sc2 where S: "stream_read False sc ?m [] ?p1 = Some ((d, e), p2, sc2)"
      by (auto simp: Let_def split: option.splits)
    define p3 where "p3 = p2\<lparr>p_offset := p_offset p2 + word_of_nat (length d)\<rparr>"
    have m: "0 < ?m" using 3(1) by simp
    note t = read_turn [OF i(1) k m S p3_def]
    have step: "\<exists>d'. b = acc @ d' \<and> par_inv C p' \<and> read_result C (p_offset p) ?m d' err (p_offset p')"
      if "b = (acc @ d) @ d0" "par_inv C p'" "read_result C (p_offset p3) (n - length (acc @ d)) d0 err (p_offset p')" for d0
      using read_result_step [OF t(1,6,5,2,3)] that i(2) by (intro exI [of _ "d @ d0"]) simp
    have z: "read_result C (p_offset p3) (n - length (acc @ d)) [] None (p_offset p3)" if "length d = ?m"
      using that by (simp add: read_result_def)
    from t(4) show ?thesis
    proof
      assume e: "e = None"
      have "Read_chunks sc2 n (acc @ d) p3 = Some ((b, err), p', sc')"
        using u 3 S e by (simp add: Let_def p3_def)
      moreover have "e \<noteq> Some EOF" "\<not> e \<noteq> None" "par_inv C p3" "length (acc @ d) \<le> n" using e t(11) 3(1) by auto
      ultimately obtain d0 where "b = (acc @ d) @ d0" "par_inv C p'" "read_result C (p_offset p3) (n - length (acc @ d)) d0 err (p_offset p')"
        using "1.IH"(2) [OF 3(1) refl 3(2) S refl refl refl refl p3_def] by blast
      then show ?thesis by (rule step)
    next
      assume e: "e = Some EOF"
      have v: "Some ((b, err), p', sc') = (case popStream sc2 p3 of None \<Rightarrow> None
          | Some (Some e, p4, sc4) \<Rightarrow> Some ((acc @ d, None), p4, sc4)
          | Some (None, p4, sc4) \<Rightarrow> Read_chunks sc4 n (acc @ d) p4)"
        using u 3 S e by (simp add: Let_def p3_def)
      then obtain e1 p4 sc4 where P: "popStream sc2 p3 = Some (e1, p4, sc4)"
        by (auto split: option.splits)
      from popStream_ordered [OF P t(7,8)] have p4: "par_inv C p4" "p_offset p4 = p_offset p3"
        using t(10) [OF e] by (auto simp: par_inv_def)
      show ?thesis
      proof (cases e1)
        case None
        have "Read_chunks sc4 n (acc @ d) p4 = Some ((b, err), p', sc')"
          using v P None by simp
        moreover have "length (acc @ d) \<le> n" using t(2) 3(1) by simp
        ultimately obtain d0 where "b = (acc @ d) @ d0" "par_inv C p'" "read_result C (p_offset p4) (n - length (acc @ d)) d0 err (p_offset p')"
          using "1.IH"(1) [OF 3(1) refl 3(2) S refl refl refl refl p3_def e P refl None refl _ p4(1)] by blast
        then show ?thesis unfolding p4(2) by (rule step)
      next
        case (Some x)
        have "b = acc @ d" "err = None" "p' = p4" using v P Some by simp_all
        moreover have "read_result C (p_offset p) ?m d None (p_offset p4)"
          using t(1-3,6) p4(2) i(2) by (simp add: read_result_def)
        ultimately show ?thesis using p4 by blast
      qed
    qed
  qed
qed

end
