(* ===== verification/ParallelSeek.thy ===== *)
theory ParallelSeek
  imports ParallelRun
begin

text \<open>\<open>Seek\<close> of the parallel reader, and sessions of a seek and reads.\<close>

section \<open>Seeking\<close>

lemma wait_size_data:
  "wait_size sc off p = Some (p', sc') \<Longrightarrow> data C p \<Longrightarrow>
   data C p' \<and> keys p' = keys p \<and> same_rest p p' \<and> \<not> rw_Size (s_rw (streams p' ! 0)) <s off"
proof (induction sc off p rule: wait_size.induct)
  case (2 b bs off p)
  have g: "data C (go_run b p)" "keys (go_run b p) = keys p" "same_rest p (go_run b p)" using go_run_data [OF "2.prems"(2)] by auto
  show ?case
  proof (cases "rw_Size (s_rw (streams (go_run b p) ! 0)) <s off")
    case True
    then show ?thesis using "2.IH" [OF refl True _ g(1)] "2.prems"(1) g same_rest_trans [OF g(3)] by (auto simp: Let_def)
  qed (use "2.prems" g in \<open>auto simp: Let_def\<close>)
qed (auto split: if_splits)

definition key_end :: "skey \<Rightarrow> int64" where
  "key_end k = (case k of (off, sz, r, c, ro) \<Rightarrow> off + sz)"

lemma ditch_ok:
  assumes "ditch k off sc p = Some (p', sc')" "ordered C p" "list_all cursor_ok (keys p)" "length (streams p) \<le> k"
  shows "ordered C p' \<and> list_all cursor_ok (keys p') \<and> p_offset p' = p_offset p
    \<and> (streams p' \<noteq> [] \<longrightarrow> \<not> s_offset (streams p' ! 0) + s_size (streams p' ! 0) \<le>s off)"
  using assms
proof (induction k arbitrary: sc p)
  case (Suc k)
  show ?case
  proof (cases "streams p \<noteq> [] \<and> s_offset (streams p ! 0) + s_size (streams p ! 0) \<le>s off")
    case True
    with Suc.prems(1) obtain e p1 sc1 where P: "popStream sc p = Some (e, p1, sc1)" "ditch k off sc1 p1 = Some (p', sc')"
      by (auto split: option.splits)
    from True obtain o1 sz r c ro ks where k: "keys p = (o1, sz, r, c, ro) # ks" by (cases "keys p") auto
    from popStream_ordered [OF P(1) Suc.prems(2) k] have x: "ordered C p1" "list_all cursor_ok (keys p1)" "keys p1 = ks"
      "p_offset p1 = p_offset p" by auto
    have "length (streams p1) \<le> k" using x(3) k Suc.prems(4) by (metis Suc_le_mono length_Cons length_map)
    from Suc.IH [OF P(2) x(1,2) this] x(4) show ?thesis by simp
  qed (use Suc.prems in auto)
qed simp

lemma seek_stream_ok:
  assumes "seek_stream sc x p = Some ((y, err), p', sc')" "ordered C p" "keys p = (off, sz, r, c, ro) # ks"
    and "list_all cursor_ok (keys p)" "0 \<le> sint x" "sint x < sint sz" "p_offset p = off + x"
  shows "err = None \<and> y = p_offset p \<and> par_inv C p' \<and> p_offset p' = p_offset p"
proof -
  let ?q = "upd_stream 0 (\<lambda>s. s\<lparr>s_readBytes := x\<rparr>) p"
  have ne: "streams p \<noteq> []" using assms(3) by auto
  have D: "data C p" using assms(2) by (simp add: ordered_def)
  have q: "data C ?q" using D ne by (intro data_upd) (auto simp: stream_data_def split: option.splits)
  have kq: "keys ?q = (off, sz, x, c, ro) # ks" using assms(3) ne by (auto simp: upd_stream_def neq_Nil_conv key_def)
  from assms(1) obtain p1 where w: "wait_size sc x ?q = Some (p1, sc')"
    and p': "rw_Seek x SeekStart (s_rw (streams p1 ! 0)) = (v, rw) \<Longrightarrow> y = p_offset p1 \<and> p' = upd_stream 0 (\<lambda>s. s\<lparr>s_rw := rw\<rparr>) p1
      \<and> err = map_option (Wrap ''parallel chunked reader: failed to seek stream'') (snd v)" for v rw
    by (auto simp: seek_stream_def split: option.splits prod.splits)
  from wait_size_data [OF w q] have p1: "data C p1" "keys p1 = (off, sz, x, c, ro) # ks" "same_rest ?q p1"
    "\<not> rw_Size (s_rw (streams p1 ! 0)) <s x" using kq by auto
  then have ne1: "streams p1 \<noteq> []" by auto
  let ?s = "streams p1 ! 0"
  have s: "?s \<in> set (streams p1)" "key ?s = (off, sz, x, c, ro)" using p1(2) ne1 by (auto simp: neq_Nil_conv)
  have sd: "stream_data C ?s" using p1(1) s(1) by (simp add: data_def)
  have "length (rw_buf (s_rw ?s)) \<le> length C" using data_buf [OF p1(1) s(1)] by (auto simp: chunk_def dest!: prefix_length_le)
  then have b: "int (length (rw_buf (s_rw ?s))) \<le> max_int64" using p1(1) by (auto simp: data_def honest_def)
  then have le: "sint x \<le> int (length (rw_buf (s_rw ?s)))" using p1(4) by (simp add: rw_Size_def i64 fits64I)
  let ?rw = "(s_rw ?s)\<lparr>rOffset := nat (sint x)\<rparr>" and ?f = "\<lambda>s. s\<lparr>s_rw := (s_rw ?s)\<lparr>rOffset := nat (sint x)\<rparr>\<rparr>"
  from p' [OF rw_Seek_unread [OF assms(5) le b]] have r: "err = None" "y = p_offset p1" "p' = upd_stream 0 ?f p1" by auto
  have d': "data C p'" unfolding r(3) using p1(1) ne1 le
    by (intro data_upd) (auto simp: stream_data_def split: option.splits)
  have k': "keys p' = (off, sz, x, c, nat (sint x)) # ks"
    using s(2) p1(2) unfolding r(3) upd_stream_def by (auto simp: neq_Nil_conv key_def)
  have sr: "same_rest p p'" using p1(3) by (simp add: r(3) same_rest_def upd_stream_def)
  have "ordered C p'" using assms(2,3) d' k' sr by (auto simp: ordered_def same_rest_def)
  then have "par_inv C p'" using k' sr assms(3-7) by (simp add: par_inv_def here_def same_rest_def)
  then show ?thesis using r(1,2) sr p1(3) by (simp add: same_rest_def upd_stream_def)
qed

lemma seek_rest_ok:
  assumes "seek_rest t sc p = Some ((x, err), p', sc')" "ordered C p" "list_all cursor_ok (keys p)" "p_offset p = t"
    and "streams p \<noteq> [] \<Longrightarrow> \<not> s_offset (streams p ! 0) + s_size (streams p ! 0) \<le>s t" "0 \<le> sint t" "sint t < int (length C)"
  shows "err = None \<and> x = t \<and> par_inv C p' \<and> p_offset p' = t"
proof -
  have restart: "par_inv C (q\<lparr>endStream := t\<rparr>)" if "data C q" "streams q = []" "same_rest p q" for q
    using that assms(2,4,6,7) by (simp add: par_inv_def ordered_def data_def here_def same_rest_def)
  consider "streams p = []" | "streams p \<noteq> []" "t <s s_offset (streams p ! 0)" | "streams p \<noteq> []" "\<not> t <s s_offset (streams p ! 0)"
    by blast
  then show ?thesis
  proof cases
    case 1
    then show ?thesis using assms(1,2,4) restart [of p] by (auto simp: seek_rest_def ordered_def)
  next
    case 2
    with assms(1) obtain e q sc2 where P: "popStreams (length (streams p)) None sc p = Some (e, q, sc2)"
      "x = t" "err = None" "p' = q\<lparr>endStream := t\<rparr>" by (auto simp: seek_rest_def split: option.splits)
    from popStreams_all [OF P(1)] assms(2,4) restart [of q] P(2-) show ?thesis
      by (auto simp: ordered_def same_rest_def)
  next
    case 3
    obtain o1 sz1 r1 c ro ks where k: "keys p = (o1, sz1, r1, c, ro) # ks" using 3(1) by (cases "keys p") auto
    then have f: "s_offset (streams p ! 0) = o1" "s_size (streams p ! 0) = sz1" using 3(1) by (auto simp: neq_Nil_conv key_def)
    have z: "0 \<le> sint o1" "sint (o1 + sz1) = sint o1 + sint sz1" using data_sizes [of C p o1 sz1 r1 c ro] assms(2) k by (auto simp: ordered_def)
    have m: "sint (t - o1) = sint t - sint o1"
      using 3(2) z(1) assms(6) f sint_range64(2) [of t] by (subst sint_sub64) (auto simp: fits64_def i64)
    have "0 \<le> sint (t - o1)" "sint (t - o1) < sint sz1" using m 3(2) assms(5) [OF 3(1)] f z by (auto simp: i64)
    moreover have "seek_stream sc (t - o1) p = Some ((x, err), p', sc')" using assms(1) 3 f by (simp add: seek_rest_def)
    moreover have "p_offset p = o1 + (t - o1)" using assms(4) by simp
    ultimately show ?thesis using seek_stream_ok [OF _ assms(2) k assms(3)] assms(4) by blast
  qed
qed

lemma par_Seek_ok:
  assumes "par_Seek sc off wh p = Some ((x, err), p', sc')" "par_inv C p"
    and t: "(case wh of SeekStart \<Rightarrow> 0 | SeekCurrent \<Rightarrow> p_offset p | SeekEnd \<Rightarrow> obj_size (p_o p)) + off = t"
  shows "if 0 \<le> sint t \<and> sint t < int (length C) then err = None \<and> x = t \<and> par_inv C p' \<and> p_offset p' = t
    else err = Some ErrorInvalidSeek \<and> p' = p"
proof -
  have o: "ordered C p" "list_all cursor_ok (keys p)" using assms(2) by (auto simp: par_inv_def)
  then have cl: "\<not> p_closed p" by (simp add: ordered_def)
  have sz: "sint (obj_size (p_o p)) = int (length C)" using o by (auto simp: ordered_def data_def honest_def i64 fits64I)
  consider "\<not> (0 \<le> sint t \<and> sint t < int (length C))" | "0 \<le> sint t" "sint t < int (length C)" "t = p_offset p"
    | "0 \<le> sint t" "sint t < int (length C)" "t \<noteq> p_offset p" by blast
  then show ?thesis
  proof cases
    case 3
    let ?q = "p\<lparr>p_offset := t\<rparr>"
    from assms(1) cl 3 sz obtain p1 sc1 where D: "ditch (length (streams p)) t sc ?q = Some (p1, sc1)"
      and r: "seek_rest t sc1 p1 = Some ((x, err), p', sc')"
      by (auto simp: par_Seek_def t Let_def i64 split: option.splits)
    have "ordered C ?q" using o(1) by (auto simp: ordered_def data_def split: list.splits)
    from ditch_ok [OF D this] o(2) seek_rest_ok [OF r, of C] 3 show ?thesis by simp
  qed (use assms cl sz in \<open>auto simp: par_Seek_def t Let_def i64\<close>)
qed

section \<open>The chunk size\<close>

lemma sint_uint64: "0 \<le> sint (w :: int64) \<Longrightarrow> sint w = uint w"
  using sint_range64(2) [of w] by (simp add: uint_sint take_bit_int_eq_self)

lemma uint_sint64: "uint (w :: int64) \<le> max_int64 \<Longrightarrow> sint w = uint w"
  using sint_of_int64 [of "uint w"] by (simp add: fits64_def order_trans [OF _ uint_ge_0])

lemma rounded:
  fixes cs :: int64
  assumes "0 \<le> sint cs"
  shows "sint (BufferSize * (cs div BufferSize)) = 1048576 * (sint cs div 1048576)"
proof -
  have u: "uint cs = sint cs" using sint_uint64 [OF assms] by simp
  have q: "uint (cs div BufferSize) = sint cs div 1048576" by (simp add: uint_div BufferSize_def u)
  have le: "1048576 * (sint cs div 1048576) \<le> sint cs" by (simp add: mult.commute)
  then have "uint BufferSize * uint (cs div BufferSize) < 2 ^ LENGTH(64)"
    using sint_range64(2) [of cs] q by (simp add: BufferSize_def)
  then have m: "uint (BufferSize * (cs div BufferSize)) = 1048576 * (sint cs div 1048576)"
    unfolding uint_mult_lem using q by (simp add: BufferSize_def)
  then show ?thesis using le sint_range64(2) [of cs] by (subst uint_sint64) simp_all
qed

text \<open>A new reader: the chunk size is positive and not more than a buffer larger than the one asked for.\<close>

lemma newParallel_inv:
  assumes "honest ob C" "cs \<noteq> 0" "int (length C) + sint cs + 2097152 \<le> max_int64" "int (length C) + 2097152 \<le> max_int64" "0 < sint n"
  shows "par_inv C (newParallel ob cs n)"
proof -
  define c where "c = (if cs <s 0 then BufferSize else cs)"
  define m where "m = BufferSize * (c div BufferSize)"
  have "sint cs \<noteq> 0" using assms(2) by (simp add: sint_inj64)
  then have c: "0 < sint c" "int (length C) + sint c + 1048576 \<le> max_int64"
    using assms(3,4) by (auto simp: c_def BufferSize_def i64)
  have m: "sint m = 1048576 * (sint c div 1048576)" unfolding m_def using c(1) by (intro rounded) simp
  have "sint m \<le> sint c" "0 \<le> sint m" using m c(1) by (simp_all add: mult.commute pos_imp_zdiv_nonneg_iff)
  moreover have "sint (m + BufferSize) = sint m + 1048576"
    using calculation c(2) by (simp add: sint_add64 fits64_def BufferSize_def)
  ultimately have "0 < sint (if m <s c then m + BufferSize else m)" "sint (if m <s c then m + BufferSize else m) \<le> sint c + 1048576"
    using c(1) by (auto simp: i64)
  moreover have "p_chunkSize (newParallel ob cs n) = (if m <s c then m + BufferSize else m)"
    by (simp add: newParallel_def Let_def m_def c_def)
  ultimately show ?thesis
    using assms(1,5) c(2) by (simp add: par_inv_def ordered_def data_def here_def) (simp add: newParallel_def Let_def)
qed

end
