(* ===== verification/ParallelWait.thy ===== *)
theory ParallelWait
  imports ParallelSeek
begin

text \<open>
  When \<open>Read\<close> of the parallel reader returns: always at last when the server delivers every chunk, never when
  the chunks cannot be opened. Sessions of a seek and reads.
\<close>

section \<open>Schedules go on\<close>

lemma stream_read_append:
  "stream_read w sc n acc p = Some (r, p', sc') \<Longrightarrow> stream_read w (sc @ ext) n acc p = Some (r, p', sc' @ ext)"
  by (induction w sc n acc p rule: stream_read.induct) (auto simp: Let_def split: if_splits prod.splits)

lemma wait_err_append: "wait_err sc p = Some (p', sc') \<Longrightarrow> wait_err (sc @ ext) p = Some (p', sc' @ ext)"
  by (induction sc p rule: wait_err.induct) (auto simp: Let_def split: if_splits)

lemma popStream_append: "popStream sc p = Some (e, p', sc') \<Longrightarrow> popStream (sc @ ext) p = Some (e, p', sc' @ ext)"
  by (auto simp: popStream_def split: if_splits option.splits dest: wait_err_append [of _ _ _ _ ext])

section \<open>Streams that come to an end\<close>

text \<open>A stream that delivers its chunk, and has ended only with the whole of it in the buffer.\<close>

definition live :: "byte list \<Rightarrow> stream \<Rightarrow> bool" where
  "live C s \<longleftrightarrow> \<not> s_cancelled s \<and> (case s_rc s of None \<Rightarrow> s_err s = None
     | Some rd \<Rightarrow> rw_buf (s_rw s) @ rdata rd = chunk C (s_offset s) (s_size s) \<and> (s_err s \<noteq> None \<longrightarrow> rdata rd = []))"

definition all_live :: "byte list \<Rightarrow> parallel \<Rightarrow> bool" where
  "all_live C p \<longleftrightarrow> serves (p_o p) C \<and> (\<forall>s \<in> set (streams p). live C s)"

lemma serves_chunk:
  assumes "serves ob C" "0 \<le> sint off" "0 < sint sz" "sint off + sint sz \<le> int (length C)"
  shows "obj_open ob k (Some \<lparr>Start = off, EndOpt = off + sz - 1\<rparr>) = Inr (Reader (chunk C off sz) EOF None None)"
proof -
  have e: "sint (off + sz - 1) = sint off + sint sz - 1"
    using assms sint_add64 [of off sz] sint_sub64 [of "off + sz" 1] by (simp add: serves_def fits64_def)
  have "sint off < int (length C)" "sint off \<le> sint (off + sz - 1)" "\<not> off + sz - 1 <s 0" using assms e by (simp_all add: i64)
  then show ?thesis using assms(1,2) e by (simp add: serves_def chunk_def Let_def)
qed

lemma go_step_live:
  assumes "serves (p_o p) C" "data C p" "i < length (streams p)" "j < length (streams p)" "live C (streams p ! j)"
  shows "live C (streams (go_step i e p) ! j)"
proof (cases "i = j")
  case False
  then show ?thesis using assms by (cases e) (auto simp: upd_stream_def Let_def split: sum.split option.split)
next
  case True
  have d: "stream_data C (streams p ! j)" using assms(2,4) by (simp add: data_def)
  show ?thesis
  proof (cases e)
    case GoOpen
    have "obj_open (p_o p) (p_opens p) (Some \<lparr>Start = s_offset (streams p ! j), EndOpt = s_offset (streams p ! j) + s_size (streams p ! j) - 1\<rparr>)
        = Inr (Reader (chunk C (s_offset (streams p ! j)) (s_size (streams p ! j))) EOF None None)"
      using serves_chunk [OF assms(1)] d by (simp add: stream_data_def)
    then show ?thesis using assms d True by (auto simp: GoOpen upd_stream_def Let_def live_def stream_data_def)
  next
    case (GoRead n)
    then show ?thesis using assms True by (auto simp: upd_stream_def live_def rw_append_def split: option.split)
  next
    case GoEnd
    then show ?thesis using assms True by (auto simp: upd_stream_def live_def split: option.split)
  next
    case GoCancel
    then show ?thesis using assms True by (auto simp: live_def)
  qed
qed

lemma go_step_length [simp]: "length (streams (go_step i e p)) = length (streams p)"
  by (cases e) (auto simp: upd_stream_def Let_def split: sum.split option.split)

lemma go_run_length [simp]: "length (streams (go_run es p)) = length (streams p)"
  by (induction es arbitrary: p) (auto simp: go_run_def)

lemma go_run_live:
  "data C p \<Longrightarrow> serves (p_o p) C \<Longrightarrow> j < length (streams p) \<Longrightarrow> live C (streams p ! j) \<Longrightarrow> live C (streams (go_run es p) ! j)"
proof (induction es arbitrary: p)
  case (Cons e es)
  obtain i x where e: "e = (i, x)" by fastforce
  let ?q = "if i < length (streams p) then go_step i x p else p"
  have q: "data C ?q" "serves (p_o ?q) C" "length (streams ?q) = length (streams p)" "live C (streams ?q ! j)"
    using go_step_data [OF Cons.prems(1), of i x] Cons.prems go_step_live [OF Cons.prems(2,1), of i j x]
    by (auto simp: same_rest_def)
  have "go_run (e # es) p = go_run es ?q" by (simp add: go_run_def e)
  then show ?case using Cons.IH [OF q(1,2)] q(3,4) Cons.prems(3) by simp
qed (simp add: go_run_def)

lemma go_run_all_live: "data C p \<Longrightarrow> all_live C p \<Longrightarrow> all_live C (go_run es p)"
  using go_run_live [of C p _ es] go_run_data [of C p es]
  by (auto simp: all_live_def in_set_conv_nth [of _ "streams (go_run es p)"] same_rest_def)

lemma go_run_Nil_iff [simp]: "streams (go_run es p) = [] \<longleftrightarrow> streams p = []"
  using go_run_length [of es p] by (metis length_0_conv)

lemma go_run_append: "go_run (es @ es') p = go_run es' (go_run es p)"
  by (simp add: go_run_def)

text \<open>A run of the goroutine of the first stream to its end.\<close>

lemma reads_to_end:
  "streams p \<noteq> [] \<Longrightarrow> s_rc (streams p ! 0) = Some rd \<Longrightarrow> s_err (streams p ! 0) = None \<Longrightarrow>
   \<exists>es rd'. s_rc (streams (go_run es p) ! 0) = Some rd' \<and> rdata rd' = [] \<and> s_err (streams (go_run es p) ! 0) = None"
proof (induction "length (rdata rd)" arbitrary: p rd)
  case 0
  then show ?case by (intro exI [of _ "[]"]) (auto simp: go_run_def)
next
  case (Suc n)
  define p1 where "p1 = go_step 0 (GoRead 1) p"
  let ?rd = "Reader (drop 1 (rdata rd)) (rfin rd) (rclose rd) (rseek rd)"
  have "s_rc (streams p1 ! 0) = Some ?rd" "s_err (streams p1 ! 0) = None" "streams p1 \<noteq> []"
    using Suc.prems Suc.hyps(2) by (auto simp: p1_def upd_stream_def)
  moreover have "n = length (rdata ?rd)" using Suc.hyps(2) by simp
  ultimately obtain es rd' where
    e: "s_rc (streams (go_run es p1) ! 0) = Some rd' \<and> rdata rd' = [] \<and> s_err (streams (go_run es p1) ! 0) = None"
    using Suc.hyps(1) [of ?rd p1] by blast
  have "go_run ((0, GoRead 1) # es) p = go_run es p1" using Suc.prems(1) by (simp add: go_run_def p1_def)
  then show ?case using e by (intro exI [of _ "(0, GoRead 1) # es"]) auto
qed

lemma finish_stream:
  assumes "data C p" "all_live C p" "streams p \<noteq> []"
  shows "\<exists>es. rw_buf (s_rw (streams (go_run es p) ! 0)) = chunk C (s_offset (streams (go_run es p) ! 0)) (s_size (streams (go_run es p) ! 0))"
proof -
  define p1 where "p1 = go_run [(0, GoOpen)] p"
  have p1: "data C p1" "all_live C p1" unfolding p1_def using go_run_data [OF assms(1)] go_run_all_live [OF assms(1,2)] by blast+
  have ne: "streams p1 \<noteq> []" using assms(3) by (simp add: p1_def)
  have first: "streams q \<noteq> [] \<Longrightarrow> all_live C q \<Longrightarrow> live C (streams q ! 0)" for q by (simp add: all_live_def)
  have d: "stream_data C (streams p ! 0)" using assms(1,3) by (simp add: data_def)
  obtain rd where rd: "s_rc (streams p1 ! 0) = Some rd"
  proof (cases "s_rc (streams p ! 0)")
    case None
    let ?s = "streams p ! 0"
    have "s_err ?s = None" using first [OF assms(3,2)] None by (simp add: live_def)
    moreover have "obj_open (p_o p) (p_opens p) (Some \<lparr>Start = s_offset ?s, EndOpt = s_offset ?s + s_size ?s - 1\<rparr>)
        = Inr (Reader (chunk C (s_offset ?s) (s_size ?s)) EOF None None)"
      using assms(2) d by (intro serves_chunk) (auto simp: all_live_def stream_data_def)
    ultimately show thesis using that None assms(3) by (simp add: p1_def go_run_def upd_stream_def Let_def)
  next
    case (Some rd0)
    then show thesis using that assms(3) by (simp add: p1_def go_run_def Let_def)
  qed
  have "\<exists>es rd'. s_rc (streams (go_run es p1) ! 0) = Some rd' \<and> rdata rd' = []"
  proof (cases "s_err (streams p1 ! 0)")
    case None
    then show ?thesis using reads_to_end [OF ne rd] by blast
  next
    case (Some e)
    then have "rdata rd = []" using first [OF ne p1(2)] rd by (simp add: live_def)
    then show ?thesis using rd by (intro exI [of _ "[]"] exI [of _ rd]) (simp add: go_run_def)
  qed
  then obtain es rd' where e: "s_rc (streams (go_run es p1) ! 0) = Some rd'" "rdata rd' = []" by blast
  have "streams (go_run es p1) \<noteq> []" using ne by simp
  from first [OF this go_run_all_live [OF p1]] e
  have "rw_buf (s_rw (streams (go_run es p1) ! 0)) = chunk C (s_offset (streams (go_run es p1) ! 0)) (s_size (streams (go_run es p1) ! 0))"
    by (simp add: live_def)
  then show ?thesis unfolding p1_def go_run_append [symmetric] by blast
qed

section \<open>No deadlock\<close>

lemma head_key: "keys p = k # ks \<Longrightarrow> key (streams p ! 0) = k \<and> streams p ! 0 \<in> set (streams p)"
  by (cases "streams p") auto

lemma live_cursor:
  assumes "all_live C p" "streams p \<noteq> []" "live C s1 = live C (streams p ! 0)"
  shows "all_live C (upd_stream 0 (\<lambda>_. s1) p)"
  using assms by (auto simp: all_live_def upd_stream_def dest!: set_update_subset_insert [THEN subsetD])

lemma live_rw: "rw_buf rw = rw_buf (s_rw s) \<Longrightarrow> live C (s\<lparr>s_rw := rw, s_readBytes := x\<rparr>) = live C s"
  by (auto simp: live_def split: option.split)

text \<open>A \<open>stream.read\<close> that still waits returns when the schedule goes on long enough.\<close>

lemma stream_read_returns:
  assumes "data C p" "all_live C p" "keys p = (off, sz, r, c, nat (sint r)) # ks" "0 \<le> sint r" "sint r < sint sz"
  shows "\<exists>ext b p' sc'. stream_read w (sc @ ext) n acc p = Some (b, p', sc') \<and> all_live C p'"
  using assms
proof (induction sc arbitrary: w acc p r)
  case Nil
  from finish_stream [OF Nil(1,2)] Nil(3) obtain es where
    f: "rw_buf (s_rw (streams (go_run es p) ! 0)) = chunk C (s_offset (streams (go_run es p) ! 0)) (s_size (streams (go_run es p) ! 0))"
    by auto
  let ?p1 = "go_run es p"
  let ?s = "streams ?p1 ! 0"
  have k: "keys ?p1 = (off, sz, r, c, nat (sint r)) # ks" "data C ?p1" using go_run_data [OF Nil(1)] Nil(3) by auto
  then have ne: "streams ?p1 \<noteq> []" by (metis list.distinct(1) map_is_Nil_conv)
  have s: "s_offset ?s = off" "s_size ?s = sz" "s_readBytes ?s = r" "rOffset (s_rw ?s) = nat (sint r)" and sd: "stream_data C ?s"
    using head_key [OF k(1)] k(2) by (simp_all add: key_def data_def)
  have len: "length (rw_buf (s_rw ?s)) = nat (sint sz)" using f s sd by (auto simp: chunk_def stream_data_def)
  then have wd: "wait_done (s_rw ?s)" using Nil(4,5) s by (simp add: wait_done_def)
  obtain d e rw where R: "rw_Read (n - length acc) (s_rw ?s) = ((d, e), rw)" by (metis prod_cases3 surj_pair)
  let ?s1 = "?s\<lparr>s_rw := rw, s_readBytes := s_readBytes ?s + word_of_nat (length d)\<rparr>"
  note x = read_section [OF k(2,1) Nil(4) less_imp_le [OF Nil(5)] R refl]
  note u = rw_Read_unread [OF R]
  have "length d = min (nat (sint sz) - nat (sint r)) (n - length acc)" using u s len by (auto simp: unread_def)
  then have "int (length d) = sint sz - sint r \<or> length d = n - length acc" using Nil(4,5) by (auto simp: min_def split: if_splits)
  then have "s_eof ?s1 \<or> n \<le> length (acc @ d)" unfolding x(10) by auto
  moreover have "all_live C (upd_stream 0 (\<lambda>_. ?s1) ?p1)"
    using live_cursor [OF go_run_all_live [OF Nil(1,2)] ne live_rw] u by blast
  ultimately show ?case using wd R x(3) by (intro exI [of _ "[es]"]) (auto simp: Let_def)
next
  case (Cons b0 sc)
  let ?p1 = "go_run b0 p"
  let ?s = "streams ?p1 ! 0"
  have k: "keys ?p1 = (off, sz, r, c, nat (sint r)) # ks" "data C ?p1" and l: "all_live C ?p1"
    using go_run_data [OF Cons.prems(1)] Cons.prems(3) go_run_all_live [OF Cons.prems(1,2)] by auto
  then have ne: "streams ?p1 \<noteq> []" by (metis list.distinct(1) map_is_Nil_conv)
  show ?case
  proof (cases "w \<and> \<not> wait_done (s_rw ?s)")
    case True
    then have "stream_read w ((b0 # sc) @ ext) n acc p = stream_read True (sc @ ext) n acc ?p1" for ext by (simp add: Let_def)
    then show ?thesis using Cons.IH [OF k(2) l k(1) Cons.prems(4,5), of True acc] by simp
  next
    case False
    obtain d e rw where R: "rw_Read (n - length acc) (s_rw ?s) = ((d, e), rw)" by (metis prod_cases3 surj_pair)
    let ?s1 = "?s\<lparr>s_rw := rw, s_readBytes := s_readBytes ?s + word_of_nat (length d)\<rparr>"
    let ?p2 = "upd_stream 0 (\<lambda>_. ?s1) ?p1"
    note x = read_section [OF k(2,1) Cons.prems(4) less_imp_le [OF Cons.prems(5)] R refl]
    have l2: "all_live C ?p2" using live_cursor [OF l ne live_rw] rw_Read_unread [OF R] by blast
    have eq: "stream_read w ((b0 # sc) @ ext) n acc p = (if s_eof ?s1 then Some ((acc @ d, Some EOF), ?p2, sc @ ext)
        else if n \<le> length (acc @ d) then Some ((acc @ d, None), ?p2, sc @ ext) else stream_read True (sc @ ext) n (acc @ d) ?p2)" for ext
      using False R x(3) by (auto simp: Let_def)
    show ?thesis
    proof (cases "s_eof ?s1 \<or> n \<le> length (acc @ d)")
      case True
      then have "\<exists>b'. stream_read w ((b0 # sc) @ []) n acc p = Some (b', ?p2, sc @ [])" unfolding eq by auto
      then show ?thesis using l2 by blast
    next
      case more: False
      have "0 \<le> sint (r + word_of_nat (length d))" "sint (r + word_of_nat (length d)) < sint sz"
        using more x(4,5,10) Cons.prems(4) by auto
      from Cons.IH [OF x(7) l2 x(9) this, of True "acc @ d"] show ?thesis unfolding eq using more by simp
    qed
  qed
qed

lemma wait_err_returns:
  assumes "data C p" "serves (p_o p) C" "streams p \<noteq> []" "s_cancelled (streams p ! 0)" "\<forall>s \<in> set (tl (streams p)). live C s"
  shows "\<exists>ext p' sc'. wait_err (sc @ ext) p = Some (p', sc') \<and> (\<forall>s \<in> set (tl (streams p')). live C s) \<and> p_o p' = p_o p"
  using assms
proof (induction sc arbitrary: p)
  case Nil
  let ?p1 = "go_run [(0, GoCancel)] p"
  have "s_err (streams ?p1 ! 0) \<noteq> None" "tl (streams ?p1) = tl (streams p)" "p_o ?p1 = p_o p"
    using Nil(3,4) by (auto simp: go_run_def upd_stream_def neq_Nil_conv)
  then show ?case using Nil(5) by (intro exI [of _ "[[(0, GoCancel)]]"]) (simp add: Let_def)
next
  case (Cons b sc)
  let ?p1 = "go_run b p"
  have g: "data C ?p1" "keys ?p1 = keys p" "p_o ?p1 = p_o p" using go_run_data [OF Cons.prems(1)] by (auto simp: same_rest_def)
  have ne: "streams ?p1 \<noteq> []" using Cons.prems(3) by simp
  have "s_cancelled (streams ?p1 ! 0)" using arg_cong [OF g(2), of hd] Cons.prems(3,4) ne by (auto simp: key_def hd_map hd_conv_nth)
  moreover have "\<forall>s \<in> set (tl (streams ?p1)). live C s"
  proof
    fix s assume "s \<in> set (tl (streams ?p1))"
    then obtain j where j: "j < length (streams p) - 1" "s = streams ?p1 ! Suc j" by (auto simp: in_set_conv_nth nth_tl)
    moreover have "live C (streams p ! Suc j)"
      using Cons.prems(5) j(1) by (metis length_tl nth_mem nth_tl)
    ultimately show "live C s" using go_run_live [OF Cons.prems(1,2), of "Suc j" b] by simp
  qed
  ultimately have ih: "\<exists>ext p' sc'. wait_err (sc @ ext) ?p1 = Some (p', sc') \<and> (\<forall>s \<in> set (tl (streams p')). live C s) \<and> p_o p' = p_o ?p1"
    and t: "\<forall>s \<in> set (tl (streams ?p1)). live C s"
    using Cons.IH [OF g(1) _ ne] Cons.prems(2) g(3) by auto
  show ?case
  proof (cases "s_err (streams ?p1 ! 0) = None")
    case True
    then show ?thesis using ih g(3) by (simp add: Let_def)
  next
    case False
    then show ?thesis using t g(3) by (intro exI [of _ "[]"]) (simp add: Let_def)
  qed
qed

lemma popStream_returns:
  assumes "data C p" "all_live C p" "streams p \<noteq> []"
  shows "\<exists>ext e p' sc'. popStream (sc @ ext) p = Some (e, p', sc') \<and> all_live C p'"
proof -
  let ?q = "upd_stream 0 (\<lambda>s. s\<lparr>s_cancelled := True\<rparr>) p"
  have q: "data C ?q" using assms(1,3) by (intro data_upd) (auto simp: stream_data_def split: option.splits)
  have t: "tl (streams ?q) = tl (streams p)" "s_cancelled (streams ?q ! 0)" "streams ?q \<noteq> []" "p_o ?q = p_o p"
    using assms(3) by (auto simp: upd_stream_def neq_Nil_conv)
  have "\<forall>s \<in> set (tl (streams ?q)). live C s" "serves (p_o ?q) C"
    using assms(2,3) t by (auto simp: all_live_def dest: list.set_sel(2) [rotated])
  from wait_err_returns [OF q this(2) t(3,2) this(1), of sc] obtain ext p1 sc1 where
    w: "wait_err (sc @ ext) ?q = Some (p1, sc1)" "\<forall>s \<in> set (tl (streams p1)). live C s" "p_o p1 = p_o p" using t(4) by auto
  then have "popStream (sc @ ext) p = Some (stream_close_err (streams p1 ! 0), p1\<lparr>streams := tl (streams p1)\<rparr>, sc1)"
    using assms(3) by (simp add: popStream_def)
  moreover have "all_live C (p1\<lparr>streams := tl (streams p1)\<rparr>)" using w(2,3) assms(2) by (simp add: all_live_def)
  ultimately show ?thesis by blast
qed

lemma add_streams_live: "all_live C p \<Longrightarrow> all_live C (add_streams k p)"
proof (induction k arbitrary: p)
  case (Suc k)
  have "all_live C (p\<lparr>streams := streams p @ [newStream a z], endStream := e\<rparr>)" for a z e
    using Suc.prems by (auto simp: all_live_def live_def newStream_def)
  then show ?case using Suc.IH by (simp add: Let_def)
qed simp

lemma par_inv_offset:
  assumes "par_inv C p"
  shows "0 \<le> sint (p_offset p)" "sint (p_offset p) \<le> int (length C)"
proof -
  have o: "ordered C p" "p_offset p = here p" "list_all cursor_ok (keys p)" using assms by (auto simp: par_inv_def)
  have "0 \<le> sint (p_offset p) \<and> sint (p_offset p) \<le> int (length C)"
  proof (cases "keys p")
    case Nil
    then show ?thesis using o by (simp add: here_def ordered_def)
  next
    case (Cons k ks)
    obtain off sz r c ro where k: "k = (off, sz, r, c, ro)" by (cases k) auto
    have "0 \<le> sint off" "sint off + sint sz \<le> int (length C)" "0 \<le> sint r" "sint r < sint sz"
      using data_sizes [of C p off sz r c ro] o(1,3) Cons k by (auto simp: ordered_def)
    moreover have "int (length C) \<le> max_int64" using o(1) by (auto simp: ordered_def data_def honest_def)
    ultimately show ?thesis using o(2) Cons k by (simp add: here_def sint_add64 fits64_def)
  qed
  then show "0 \<le> sint (p_offset p)" "sint (p_offset p) \<le> int (length C)" by auto
qed

lemma Read_returns:
  "par_inv C p \<Longrightarrow> all_live C p \<Longrightarrow> \<exists>ext. Read_chunks (sc @ ext) n acc p \<noteq> None"
proof (induction "nat (int (length C) - sint (p_offset p))" arbitrary: p acc sc rule: less_induct)
  case less
  let ?p1 = "open_streams p"
  from open_streams_inv [OF less.prems(1)] have i: "par_inv C ?p1" "p_offset ?p1 = p_offset p" by auto
  have l: "all_live C ?p1" using less.prems(2) add_streams_live by (auto simp: open_streams_def)
  have D: "data C ?p1" using i(1) by (simp add: par_inv_def ordered_def)
  show ?case
  proof (cases "n \<le> length acc \<or> streams ?p1 = []")
    case True
    then show ?thesis by (subst Read_chunks.simps) (auto simp: Let_def)
  next
    case False
    then have ne: "\<not> n \<le> length acc" "streams ?p1 \<noteq> []" by auto
    obtain off sz r c ro ks where k: "keys ?p1 = (off, sz, r, c, ro) # ks" using ne(2) by (cases "keys ?p1") auto
    then have r: "0 \<le> sint r" "sint r < sint sz" "ro = nat (sint r)" using i(1) by (auto simp: par_inv_def)
    from stream_read_returns [OF D l k [unfolded r(3)] r(1,2), of False sc "n - length acc" "[]"] obtain ext1 d e p2 sc2
      where S: "stream_read False (sc @ ext1) (n - length acc) [] ?p1 = Some ((d, e), p2, sc2)" and l2: "all_live C p2" by auto
    define p3 where "p3 = p2\<lparr>p_offset := p_offset p2 + word_of_nat (length d)\<rparr>"
    have "0 < n - length acc" using ne(1) by simp
    note t = read_turn [OF i(1) k this S p3_def]
    have l3: "all_live C p3" using l2 by (simp add: p3_def all_live_def)
    have eq: "Read_chunks (sc @ ext1 @ x) n acc p = (if e = Some EOF
        then (case popStream (sc2 @ x) p3 of None \<Rightarrow> None | Some (Some e, p4, sc4) \<Rightarrow> Some ((acc @ d, None), p4, sc4)
              | Some (None, p4, sc4) \<Rightarrow> Read_chunks sc4 n (acc @ d) p4)
        else Read_chunks (sc2 @ x) n (acc @ d) p3)" for x
      using stream_read_append [OF S, of x] ne t(4) by (subst Read_chunks.simps) (auto simp: Let_def p3_def)
    show ?thesis
    proof (cases "e = Some EOF")
      case False
      then have "n \<le> length (acc @ d)" using t(4,11) by auto
      then have "Read_chunks sc2 n (acc @ d) p3 \<noteq> None" by (subst Read_chunks.simps) auto
      then show ?thesis using eq [of "[]"] False by (intro exI [of _ ext1]) simp
    next
      case True
      have D3: "data C p3" "streams p3 \<noteq> []" using t(7,8) by (auto simp: ordered_def)
      from popStream_returns [OF D3(1) l3 D3(2), of sc2] obtain ext2 e1 p4 sc4 where
        P: "popStream (sc2 @ ext2) p3 = Some (e1, p4, sc4)" and l4: "all_live C p4" by auto
      from popStream_ordered [OF P t(7,8)] have p4: "par_inv C p4" "p_offset p4 = p_offset p3"
        using t(10) [OF True] by (auto simp: par_inv_def)
      have "nat (int (length C) - sint (p_offset p4)) < nat (int (length C) - sint (p_offset p))"
        using t(3,6) i(2) p4(2) par_inv_offset(2) [OF p4(1)] by (cases d) auto
      from less.hyps [OF this p4(1) l4, of sc4 "acc @ d"] obtain ext3 where
        R: "Read_chunks (sc4 @ ext3) n (acc @ d) p4 \<noteq> None" by blast
      have "popStream (sc2 @ ext2 @ ext3) p3 = Some (e1, p4, sc4 @ ext3)" using popStream_append [OF P, of ext3] by simp
      then have "Read_chunks (sc @ ext1 @ ext2 @ ext3) n acc p \<noteq> None" using eq [of "ext2 @ ext3"] True R by (cases e1) auto
      then show ?thesis by blast
    qed
  qed
qed

section \<open>Chunks that cannot be opened\<close>

text \<open>Streams of which nothing has arrived, of an object whose chunks cannot be opened.\<close>

definition barren :: "parallel \<Rightarrow> bool" where
  "barren p \<longleftrightarrow> (\<forall>k opt. \<exists>e. obj_open (p_o p) k opt = Inl e)
     \<and> (\<forall>s \<in> set (streams p). s_rc s = None \<and> s_rw s = newRW \<and> s_readBytes s = 0 \<and> 0 <s s_size s)"

lemma barren_upd:
  assumes "barren p" "i < length (streams p)" "f (streams p ! i) = (streams p ! i)\<lparr>s_err := e\<rparr>"
  shows "barren (upd_stream i f p)"
  using assms by (auto simp: barren_def upd_stream_def dest!: set_update_subset_insert [THEN subsetD])

lemma go_step_barren:
  assumes "barren p" "i < length (streams p)"
  shows "barren (go_step i x p)"
proof -
  have rc: "s_rc (streams p ! i) = None" using assms by (simp add: barren_def)
  have b: "barren (upd_stream i (\<lambda>s. s\<lparr>s_err := e\<rparr>) p)" for e using assms by (intro barren_upd) auto
  obtain e where "obj_open (p_o p) (p_opens p) (Some \<lparr>Start = s_offset (streams p ! i),
      EndOpt = s_offset (streams p ! i) + s_size (streams p ! i) - 1\<rparr>) = Inl e" using assms(1) unfolding barren_def by blast
  moreover have "barren (q\<lparr>p_opens := n\<rparr>) = barren q" for q n by (simp add: barren_def)
  ultimately show ?thesis using assms rc b by (cases x) (auto simp: Let_def intro: barren_upd)
qed

lemma go_run_barren: "barren p \<Longrightarrow> barren (go_run es p)"
  unfolding go_run_def by (induction es arbitrary: p) (auto simp: go_step_barren split: prod.split)

lemma stream_read_barren: "barren p \<Longrightarrow> streams p \<noteq> [] \<Longrightarrow> 0 < n \<Longrightarrow> stream_read w sc n [] p = None"
proof (induction sc arbitrary: w p)
  case (Cons b sc)
  let ?p1 = "go_run b p"
  let ?s = "streams ?p1 ! 0"
  have b1: "barren ?p1" using go_run_barren [OF Cons.prems(1)] .
  have s: "s_rw ?s = newRW" "s_readBytes ?s = 0" "0 <s s_size ?s" using b1 Cons.prems(2) by (auto simp: barren_def)
  then have R: "rw_Read (n - length []) (s_rw ?s) = (([], Some EOF), newRW)" by (simp add: newRW_def rw_Read_def)
  have e1: "?s\<lparr>s_rw := newRW, s_readBytes := s_readBytes ?s + word_of_nat (length [])\<rparr> = ?s"
    by (rule stream.equality) (use s in simp_all)
  have e2: "upd_stream 0 (\<lambda>_. ?s) ?p1 = ?p1" by (simp add: upd_stream_def)
  have "\<not> s_eof ?s" using s by (simp add: s_eof_def i64)
  moreover have "\<not> n \<le> length ([] :: byte list)" using Cons.prems(3) by simp
  ultimately show ?case using Cons.IH [OF b1] Cons.prems(2,3)
    by (simp only: stream_read.simps Let_def R prod.case e1 e2 append_Nil if_False go_run_Nil_iff) simp
qed simp

end
