(* ===== verification/ParallelSession.thy ===== *)
theory ParallelSession
  imports ParallelWait
begin

text \<open>The properties of the parallel reader.\<close>

section \<open>Sessions\<close>

text \<open>Reads of the given sizes, until one returns an error: the bytes and the error.\<close>

fun par_reads :: "schedule \<Rightarrow> nat list \<Rightarrow> parallel \<Rightarrow> ((byte list \<times> go_err option) \<times> parallel \<times> schedule) option" where
  "par_reads sc [] p = Some (([], None), p, sc)"
| "par_reads sc (n # ns) p =
     (case par_Read sc n p of
        None \<Rightarrow> None
      | Some ((b, Some e), p1, sc1) \<Rightarrow> Some ((b, Some e), p1, sc1)
      | Some ((b, None), p1, sc1) \<Rightarrow>
          (case par_reads sc1 ns p1 of
             None \<Rightarrow> None
           | Some ((b', err), p2, sc2) \<Rightarrow> Some ((b @ b', err), p2, sc2)))"

lemma par_Read_ok:
  assumes "par_Read sc n p = Some ((b, err), p', sc')" "par_inv C p"
  shows "par_inv C p' \<and> read_result C (p_offset p) n b err (p_offset p')"
  using Read_chunks_ok [of sc n "[]" p b err p' sc' C] assms by (auto simp: par_Read_def par_inv_def ordered_def)

lemma par_reads_ok:
  "par_reads sc ns p = Some ((b, err), p', sc') \<Longrightarrow> par_inv C p \<Longrightarrow>
   bytes_at C (nat (sint (p_offset p))) b \<and> (err = None \<or> err = Some EOF) \<and> sint (p_offset p') = sint (p_offset p) + int (length b)
   \<and> (err = Some EOF \<longrightarrow> sint (p_offset p) + int (length b) = int (length C))"
proof (induction ns arbitrary: sc p b)
  case (Cons n ns)
  from Cons.prems(1) obtain b1 e1 p1 sc1 where R: "par_Read sc n p = Some ((b1, e1), p1, sc1)" by (auto split: option.splits)
  from par_Read_ok [OF R Cons.prems(2)] have x: "par_inv C p1" "read_result C (p_offset p) n b1 e1 (p_offset p1)" by auto
  have o: "0 \<le> sint (p_offset p)" using par_inv_offset [OF Cons.prems(2)] by simp
  show ?case
  proof (cases e1)
    case None
    with R Cons.prems(1) obtain b2 where S: "par_reads sc1 ns p1 = Some ((b2, err), p', sc')" "b = b1 @ b2"
      by (auto split: option.splits)
    from Cons.IH [OF S(1) x(1)] x(2) o S(2) show ?thesis
      by (auto simp: read_result_def nat_add_distrib intro: bytes_at_join)
  next
    case (Some e)
    then show ?thesis using R Cons.prems(1) x(2) by (auto simp: read_result_def)
  qed
qed simp


text \<open>One stream, whose goroutine delivers the bytes in two pieces.\<close>

definition two_pieces :: schedule where
  "two_pieces = [[(0, GoOpen), (0, GoRead 1)], [(0, GoRead 2)], [(0, GoEnd)], []]"

abbreviation three_bytes :: parallel where
  "three_bytes \<equiv> newParallel (demo_object [5, 6, 7]) (-1) 2"

lemma two_pieces_run: "map_option fst (par_reads two_pieces [2, 2] three_bytes) = Some ([5, 6, 7], Some EOF)"
  by code_simp

lemma newParallel_fields [simp]:
  "p_o (newParallel ob cs n) = ob" "p_offset (newParallel ob cs n) = 0" "streams (newParallel ob cs n) = []"
  "endStream (newParallel ob cs n) = 0" "nstreams (newParallel ob cs n) = n" "p_closed (newParallel ob cs n) = False"
  by (simp_all add: newParallel_def Let_def)

lemma three_bytes_seek: "par_Seek sc 0 SeekStart three_bytes = Some ((0, None), three_bytes, sc)"
  by (simp add: par_Seek_def demo_object_def i64)


text \<open>C30: As long as the server delivers, \<open>Read\<close> does not hang: however the goroutines have been
  scheduled so far, they can go on so that it returns.\<close>

theorem parallel_no_deadlock:
  assumes "par_inv C p" "all_live C p"
  shows "\<exists>ext. par_Read (sc @ ext) n p \<noteq> None"
  using Read_returns [OF assms, of sc n "[]"] assms(1) by (simp add: par_Read_def par_inv_def ordered_def)

lemma parallel_no_deadlock_witness: "\<exists>ext. par_Read ([[(0, GoOpen)], []] @ ext) 3 three_bytes \<noteq> None"
proof -
  have s: "serves (demo_object [5, 6, 7]) [5, 6, 7]" using demo_object_serves [of "[5, 6, 7]"] by simp
  have "par_inv [5, 6, 7] three_bytes" by (rule newParallel_inv) (simp_all add: serves_honest [OF s] i64)
  moreover have "all_live [5, 6, 7] three_bytes" using s by (simp add: all_live_def newParallel_def Let_def)
  ultimately show ?thesis by (rule parallel_no_deadlock)
qed

lemma add_streams_o [simp]: "p_o (add_streams k p) = p_o p"
  by (induction k arbitrary: p) (simp_all add: Let_def)

lemma add_streams_new: "s \<in> set (streams (add_streams k p)) \<Longrightarrow> s \<in> set (streams p) \<or> (\<exists>a z. s = newStream a z)"
proof (induction k arbitrary: p)
  case (Suc k)
  have "s \<in> set (streams (p\<lparr>streams := streams p @ [newStream a z], endStream := e\<rparr>)) \<Longrightarrow>
    s \<in> set (streams p) \<or> (\<exists>a z. s = newStream a z)" for a z e by auto
  then show ?case using Suc.IH Suc.prems unfolding add_streams.simps Let_def by (simp only: split: if_splits) blast+
qed simp

text \<open>C31: When the chunks cannot be opened, \<open>Read\<close> never returns, under any schedule: the error
  of a stream is only looked at once the stream has been read to its end.\<close>

theorem parallel_hangs:
  assumes "\<And>k opt. \<exists>e. obj_open ob k opt = Inl e" "0 <s obj_size ob" "cs \<noteq> 0"
    and "sint (obj_size ob) + sint cs + 2097152 \<le> max_int64" "sint (obj_size ob) + 2097152 \<le> max_int64" "0 < sint n" "0 < m"
  shows "par_Read sc m (newParallel ob cs n) = None"
proof -
  let ?p = "newParallel ob cs n" and ?C = "replicate (nat (sint (obj_size ob))) (0 :: byte)"
  have sz: "int (length ?C) = sint (obj_size ob)" "0 < sint (obj_size ob)" using assms(2) by (simp_all add: i64)
  have no: "obj_open ob k opt \<noteq> Inr rd" for k opt rd using assms(1) [of k opt] by auto
  have "obj_size ob = word_of_nat (length ?C)" using sz assms(5) by (simp add: sint_inj64 sint_of_nat64 fits64_def)
  then have "honest ob ?C" using no sz assms(5) by (auto simp: honest_def)
  then have i: "par_inv ?C ?p" using newParallel_inv [of ob ?C cs n] assms(3-6) sz by simp
  let ?q = "open_streams ?p"
  have q: "par_inv ?C ?q" "streams ?q \<noteq> []" using open_streams_inv [OF i] sz by auto
  have "\<forall>s \<in> set (streams ?q). stream_data ?C s" using q(1) by (simp add: par_inv_def ordered_def data_def)
  moreover have "\<forall>s \<in> set (streams ?q). \<exists>a z. s = newStream a z" "p_o ?q = ob"
    using add_streams_new [of _ _ ?p] by (auto simp: open_streams_def)
  ultimately have "barren ?q" using assms(1)
    by (fastforce simp: barren_def newStream_def stream_data_def i64)
  from stream_read_barren [OF this q(2), of m False sc] show ?thesis
    using assms(7) q(2) by (simp add: par_Read_def Read_chunks.simps [of sc m] Let_def)
qed

definition refused :: RemoteObject where
  "refused = \<lparr>obj_size = 3, obj_open = (\<lambda>_ _. Inl (Other ''connection refused''))\<rparr>"

lemma parallel_hangs_witness:
  "obj_open refused 0 None = Inl (Other ''connection refused'') \<and> (\<forall>sc. par_Read sc 3 (newParallel refused (-1) 2) = None)"
  using parallel_hangs [where ob = refused and cs = "-1" and n = 2 and m = 3] by (auto simp: refused_def i64)

end
