(* ===== verification/Engine.thy ===== *)
theory Engine
  imports CacheKick CacheNames
begin

text \<open>
  \<open>internal/engine.go\<close>, \<open>dir.go\<close>, \<open>file.go\<close>, \<open>read.go\<close>, \<open>write.go\<close>, \<open>dir_handle.go\<close> and \<open>errors.go\<close>: the tree of
  nodes (one directory with its files) and the read handles on top of the cache. A \<open>File\<close> does not change
  once it is a child, so a node holds it by value. What may wait for a reset of an item returns \<open>None\<close> when
  it waits for ever.
\<close>

unbundle bit_operations_syntax

section \<open>Errors\<close>

text \<open>The low level errors are bytes; \<open>EPERM\<close> and its like are those of \<open>os\<close> (\<open>go_err\<close>).\<close>

type_synonym low_error = "8 word"

definition errorNames :: "string list" where
  "errorNames = [''Success'', ''Directory not empty'', ''Illegal seek'', ''Bad file descriptor'',
     ''Read only file system'', ''Function not implemented'', ''Too many symbolic links'']"

definition low_Error :: "low_error \<Rightarrow> string" where
  "low_Error e = (if length errorNames \<le> unat e then ''Low level error '' @ show_nat (unat e)
                  else errorNames ! unat e)"

section \<open>State\<close>

record File =
  f_inode :: uint64
  f_size :: int64
  f_name :: string
  f_remote :: "remote option"

datatype Node = DirNode | FileNode File

text \<open>
  \<open>Engine\<close> with its root directory (\<open>children\<close>, \<open>root_mtime\<close>, \<open>root_inode\<close>) and the counter \<open>inodeCount\<close>.
\<close>

record Engine =
  e_cache :: Cache
  children :: "(string \<times> Node) list"
  root_mtime :: time
  root_inode :: uint64
  inodeCount :: uint64
  e_inUse :: bool

record ReadFileHandle =
  h_closed :: bool
  h_file :: File
  h_offset :: int64
  h_size :: int64

definition on_cache :: "(Cache \<Rightarrow> 'a \<times> Cache) \<Rightarrow> Engine \<Rightarrow> 'a \<times> Engine" where
  "on_cache f e = (case f (e_cache e) of (r, c) \<Rightarrow> (r, e\<lparr>e_cache := c\<rparr>))"

definition e_now :: "Engine \<Rightarrow> time" where
  "e_now e = now (rest (e_cache e))"

section \<open>Items of the cache\<close>

text \<open>\<open>Item.Exists\<close> and \<open>Item.GetSize\<close> of an item of the index.\<close>

definition item_Exists :: "nat \<Rightarrow> Cache \<Rightarrow> bool \<times> Cache" where
  "item_Exists k c = run_item k exists_file c"

definition item_GetSize :: "nat \<Rightarrow> Cache \<Rightarrow> (int64 \<times> go_err option) \<times> Cache" where
  "item_GetSize k c = run_item k getSize c"

text \<open>\<open>Item.Open\<close> in the cache: as \<open>Open_loop\<close>, with the real calls of \<open>Cache.put\<close>.\<close>

definition guarded_open :: "cenv \<Rightarrow> nat \<Rightarrow> remote option \<Rightarrow> Cache \<Rightarrow> (go_err option \<times> Cache) option" where
  "guarded_open E k ob c =
     (case preAccess (at k c) of
        None \<Rightarrow> None
      | Some w \<Rightarrow> (case Cache_open E k ob (put_back k w c) of
          (err, c1) \<Rightarrow> Some (err, put_back k (postAccess (at k c1)) c1)))"

fun item_Open_loop :: "cenv \<Rightarrow> nat \<Rightarrow> remote option \<Rightarrow> nat \<Rightarrow> Cache \<Rightarrow> (go_err option \<times> Cache) option" where
  "item_Open_loop E k ob 0 c = Some (None, c)"
| "item_Open_loop E k ob (Suc n) c =
     (case guarded_open E k ob c of
        None \<Rightarrow> None
      | Some (None, c1) \<Rightarrow> Some (None, c1)
      | Some (Some e, c1) \<Rightarrow>
          if gives_up e then Some (Some e, c1)
          else let c2 = put_back k (e_KickCleaner (c_env E k) (at k c1)) c1
               in if n = 0 then Some (Some e, c2) else item_Open_loop E k ob n c2)"

definition item_Open :: "cenv \<Rightarrow> nat \<Rightarrow> remote option \<Rightarrow> Cache \<Rightarrow> (go_err option \<times> Cache) option" where
  "item_Open E k ob c = item_Open_loop E k ob 3 c"

definition item_ReadAt :: "cenv \<Rightarrow> nat \<Rightarrow> nat \<Rightarrow> int64 \<Rightarrow> Cache \<Rightarrow> ((byte list \<times> go_err option) \<times> Cache) option" where
  "item_ReadAt E k n off c = (case ReadAt (c_env E k) n off (at k c) of
     None \<Rightarrow> None | Some (r, w) \<Rightarrow> Some (r, put_back k w c))"

section \<open>Nodes\<close>

definition newInode :: "Engine \<Rightarrow> uint64 \<times> Engine" where
  "newInode e = (let i = inodeCount e + 1 in (i, e\<lparr>inodeCount := i\<rparr>))"

definition newFile :: "string \<Rightarrow> Engine \<Rightarrow> File \<times> Engine" where
  "newFile name e = (case newInode e of (i, e1) \<Rightarrow> (\<lparr>f_inode = i, f_size = 0, f_name = name, f_remote = None\<rparr>, e1))"

definition AddChild :: "string \<Rightarrow> Node \<Rightarrow> Engine \<Rightarrow> Engine" where
  "AddChild name nd e = e\<lparr>children := AList.update name nd (children e)\<rparr>"

text \<open>
  The file that \<open>Stat\<close> and \<open>OpenCached\<close> make of an item. An error of \<open>GetSize\<close> leaves the size 0.
\<close>

definition add_file :: "string \<Rightarrow> nat \<Rightarrow> Engine \<Rightarrow> File \<times> Engine" where
  "add_file name k e =
     (case newFile name e of (f, e1) \<Rightarrow>
        (case on_cache (item_GetSize k) e1 of ((sz, err), e2) \<Rightarrow>
           let f' = (if err = None then f\<lparr>f_size := sz\<rparr> else f) in (f', AddChild name (FileNode f') e2)))"

section \<open>Methods of nodes\<close>

text \<open>\<open>os.FileInfo\<close> and the other getters of a node. \<open>Sys\<close> has no counterpart.\<close>

record node_info =
  n_Name :: string
  n_Path :: string
  n_IsFile :: bool
  n_IsDir :: bool
  n_ModTime :: time
  n_Size :: int64
  n_Mode :: "32 word"
  n_Inode :: uint64

definition Dir_info :: "Engine \<Rightarrow> node_info" where
  "Dir_info e = \<lparr>n_Name = trim_slash ''/'', n_Path = trim_slash ''/'', n_IsFile = False, n_IsDir = True, n_ModTime = root_mtime e,
     n_Size = 0, n_Mode = 2 ^ 31 OR 493, n_Inode = root_inode e\<rparr>"

definition File_info :: "Engine \<Rightarrow> File \<Rightarrow> node_info" where
  "File_info e f = \<lparr>n_Name = f_name f, n_Path = f_name f, n_IsFile = True, n_IsDir = False, n_ModTime = e_now e,
     n_Size = f_size f, n_Mode = 420, n_Inode = f_inode f\<rparr>"

fun Node_info :: "Engine \<Rightarrow> Node \<Rightarrow> node_info" where
  "Node_info e DirNode = Dir_info e"
| "Node_info e (FileNode f) = File_info e f"

abbreviation Node_Inode :: "Engine \<Rightarrow> Node \<Rightarrow> uint64" where
  "Node_Inode e nd \<equiv> n_Inode (Node_info e nd)"

text \<open>The operations on a node itself.\<close>

datatype node_op = NSync | NRemove | NRemoveAll | NTruncate int64 | NSetModTime time

fun Dir_op :: "node_op \<Rightarrow> Engine \<Rightarrow> go_err option \<times> Engine" where
  "Dir_op (NTruncate sz) e = (Some ENOSYS, e)"
| "Dir_op (NSetModTime t) e = (None, e\<lparr>root_mtime := t\<rparr>)"
| "Dir_op op e = (None, e)"

fun File_op :: "node_op \<Rightarrow> File \<Rightarrow> go_err option" where
  "File_op (NTruncate sz) f = Some ENOSYS"
| "File_op op f = None"

section \<open>Opening\<close>

definition newReadFileHandle :: "cenv \<Rightarrow> File \<Rightarrow> Engine \<Rightarrow> ((go_err + ReadFileHandle) \<times> Engine) option" where
  "newReadFileHandle E f e =
     (case on_cache (Item_op (f_name f)) e of (k, e1) \<Rightarrow>
        (case (case f_remote f of
                 None \<Rightarrow> Some (None, e_cache e1)
               | Some ob \<Rightarrow> item_Open E k (Some ob) (e_cache e1)) of
           None \<Rightarrow> None
         | Some (Some err, c) \<Rightarrow>
             Some (Inl (Wrap ''cache read: failed to open cache item'' err), e1\<lparr>e_cache := c\<rparr>)
         | Some (None, c) \<Rightarrow>
             let sz0 = (case f_remote f of None \<Rightarrow> f_size f | Some ob \<Rightarrow> ro_Size ob)
             in (case item_GetSize k c of
                   ((sz, err), c1) \<Rightarrow>
                     Some (Inr \<lparr>h_closed = False, h_file = f, h_offset = 0, h_size = (if err = None then sz else sz0)\<rparr>,
                       e1\<lparr>e_cache := c1\<rparr>))))"

text \<open>\<open>Open\<close> of a node; the two low bits of the flags are the access mode.\<close>

definition accessModeMask :: int64 where "accessModeMask = 0 OR 1 OR 2"

definition File_Open :: "cenv \<Rightarrow> File \<Rightarrow> int64 \<Rightarrow> Engine \<Rightarrow> ((go_err + ReadFileHandle) \<times> Engine) option" where
  "File_Open E f fl e = (if fl AND accessModeMask = 0 then newReadFileHandle E f e else Some (Inl ErrPermission, e))"

definition Dir_Open :: "int64 \<Rightarrow> go_err + ReadFileHandle" where
  "Dir_Open fl = Inl ENOSYS"

fun Node_Open :: "cenv \<Rightarrow> Node \<Rightarrow> int64 \<Rightarrow> Engine \<Rightarrow> ((go_err + ReadFileHandle) \<times> Engine) option" where
  "Node_Open E DirNode fl e = Some (Dir_Open fl, e)"
| "Node_Open E (FileNode f) fl e = File_Open E f fl e"

definition Stat :: "string \<Rightarrow> Engine \<Rightarrow> (go_err + Node) \<times> Engine" where
  "Stat filePath e =
     (let p = trim_slash filePath
      in if p = [] then (Inr DirNode, e)
         else case map_of (children e) p of
                Some nd \<Rightarrow> (Inr nd, e)
              | None \<Rightarrow>
                  (case on_cache (Item_op p) e of (k, e1) \<Rightarrow>
                     (case on_cache (item_Exists k) e1 of (ex, e2) \<Rightarrow>
                        if ex then (case add_file p k e2 of (f, e3) \<Rightarrow> (Inr (FileNode f), e3))
                        else (Inl ErrNotExist, e2))))"

definition Dir_OpenFile :: "cenv \<Rightarrow> string \<Rightarrow> int64 \<Rightarrow> Engine \<Rightarrow> ((go_err + ReadFileHandle) \<times> Engine) option" where
  "Dir_OpenFile E filePath fl e =
     (let p = trim_slash filePath
      in if p = [] then Some (Inl ErrInvalid, e)
         else case Stat p e of
                (Inl err, e1) \<Rightarrow> Some (Inl err, e1)
              | (Inr nd, e1) \<Rightarrow>
                  if \<not> n_IsFile (Node_info e1 nd) then Some (Inl (Other (Error ErrInvalid @ '': is a directory'')), e1)
                  else Node_Open E nd fl e1)"

definition Engine_OpenFile :: "cenv \<Rightarrow> string \<Rightarrow> Engine \<Rightarrow> ((go_err + ReadFileHandle) \<times> Engine) option" where
  "Engine_OpenFile E name e = Dir_OpenFile E (trim_slash name) 0 e"

definition Engine_Open :: "cenv \<Rightarrow> string \<Rightarrow> Engine \<Rightarrow> ((go_err + ReadFileHandle) \<times> Engine) option" where
  "Engine_Open E path e = (let p = trim_slash path in if p = [] then Some (Inl ErrInvalid, e) else Dir_OpenFile E p 0 e)"

definition OpenCached :: "cenv \<Rightarrow> string \<Rightarrow> remote option \<Rightarrow> Engine \<Rightarrow> ((go_err + ReadFileHandle) \<times> Engine) option" where
  "OpenCached E filePath ob e =
     (let p = trim_slash filePath
      in if p = [] then Some (Inl ErrInvalid, e)
         else case on_cache (Item_op p) e of (k, e1) \<Rightarrow>
           (case (case ob of None \<Rightarrow> Some (None, e_cache e1) | Some _ \<Rightarrow> item_Open E k ob (e_cache e1)) of
              None \<Rightarrow> None
            | Some (Some err, c) \<Rightarrow> Some (Inl (Wrap ''failed to open cache item'' err), e1\<lparr>e_cache := c\<rparr>)
            | Some (None, c) \<Rightarrow>
                (case Stat p (e1\<lparr>e_cache := c\<rparr>) of
                   (Inl _, e2) \<Rightarrow> Dir_OpenFile E p 0 (snd (add_file p k e2))
                 | (Inr _, e2) \<Rightarrow> Dir_OpenFile E p 0 e2)))"

section \<open>Read handles\<close>

definition fh_readAt :: "cenv \<Rightarrow> nat \<Rightarrow> int64 \<Rightarrow> ReadFileHandle \<Rightarrow> Engine \<Rightarrow> ((byte list \<times> go_err option) \<times> Engine) option" where
  "fh_readAt E n off h e =
     (case on_cache (Item_op (f_name (h_file h))) e of (k, e1) \<Rightarrow>
        (case item_ReadAt E k n off (e_cache e1) of
           None \<Rightarrow> None | Some (r, c) \<Rightarrow> Some (r, e1\<lparr>e_cache := c\<rparr>)))"

text \<open>\<open>ReadAt\<close> does not look at \<open>closed\<close>.\<close>

definition fh_ReadAt :: "cenv \<Rightarrow> nat \<Rightarrow> int64 \<Rightarrow> ReadFileHandle \<Rightarrow> Engine \<Rightarrow> ((byte list \<times> go_err option) \<times> Engine) option" where
  "fh_ReadAt E n off h e = fh_readAt E n off h e"

definition fh_Read :: "cenv \<Rightarrow> nat \<Rightarrow> ReadFileHandle \<Rightarrow> Engine \<Rightarrow>
    ((byte list \<times> go_err option) \<times> ReadFileHandle \<times> Engine) option" where
  "fh_Read E n h e =
     (if h_closed h then Some (([], Some ErrClosed), h, e)
      else case fh_readAt E n (h_offset h) h e of
             None \<Rightarrow> None
           | Some ((b, err), e1) \<Rightarrow>
               if err \<noteq> None \<and> err \<noteq> Some EOF then Some ((b, err), h, e1)
               else Some ((b, err), h\<lparr>h_offset := h_offset h + word_of_nat (length b)\<rparr>, e1))"

text \<open>A \<open>whence\<close> that is none of the three leaves the offset alone, and is no error.\<close>

definition fh_Seek :: "int64 \<Rightarrow> int \<Rightarrow> ReadFileHandle \<Rightarrow> (int64 \<times> go_err option) \<times> ReadFileHandle" where
  "fh_Seek offset whence h =
     (if h_closed h then ((0, Some ErrClosed), h)
      else let off = (if whence = 0 then offset
                      else if whence = 2 then h_size h + offset
                      else if whence = 1 then h_offset h + offset
                      else h_offset h)
           in ((off, None), h\<lparr>h_offset := off\<rparr>))"

definition fh_Close :: "ReadFileHandle \<Rightarrow> go_err option \<times> ReadFileHandle" where
  "fh_Close h = (if h_closed h then (Some ErrClosed, h) else (None, h\<lparr>h_closed := True\<rparr>))"

definition fh_Release :: "ReadFileHandle \<Rightarrow> go_err option \<times> ReadFileHandle" where
  "fh_Release h = fh_Close h"

text \<open>\<open>Stat\<close>: the file of the handle itself.\<close>

definition fh_Stat :: "Engine \<Rightarrow> ReadFileHandle \<Rightarrow> node_info \<times> go_err option" where
  "fh_Stat e h = (File_info e (h_file h), None)"

section \<open>The engine\<close>

text \<open>
  \<open>New\<close> on the cache that \<open>cache.New\<close> returns; \<open>count\<close> is the global counter of inodes.
\<close>

definition newEngine :: "(go_err + Cache) \<Rightarrow> uint64 \<Rightarrow> go_err + Engine" where
  "newEngine r count =
     (case r of
        Inl err \<Rightarrow> Inl (Wrap ''engine: failed to create cache'' err)
      | Inr c \<Rightarrow> Inr \<lparr>e_cache = c, children = [], root_mtime = now (rest c), root_inode = count + 1,
                     inodeCount = count + 1, e_inUse = True\<rparr>)"

text \<open>\<open>Cache.AddVirtual\<close> calls the function it was registered with, here the \<open>addVirtual\<close> of the engine. That and \<open>Usage\<close>
  are stubs in the code.\<close>

definition AddVirtual :: "(string \<Rightarrow> int64 \<Rightarrow> bool \<Rightarrow> go_err option) option \<Rightarrow> string \<Rightarrow> int64 \<Rightarrow> bool \<Rightarrow> go_err option" where
  "AddVirtual avFn remote_name sz isDir =
     (case avFn of None \<Rightarrow> Some (Other ''no AddVirtual function registered'') | Some f \<Rightarrow> f remote_name sz isDir)"

definition addVirtual :: "string \<Rightarrow> int64 \<Rightarrow> bool \<Rightarrow> go_err option" where
  "addVirtual remote_name sz isDir = None"

definition Usage :: "Engine \<Rightarrow> int64 \<times> int64" where
  "Usage e = (0, 0)"

definition CacheItem :: "string \<Rightarrow> Engine \<Rightarrow> nat \<times> Engine" where
  "CacheItem path e = on_cache (Item_op path) e"

text \<open>\<open>Remove\<close>: the node of the file stays.\<close>

definition Engine_Remove :: "string \<Rightarrow> Engine \<Rightarrow> go_err option \<times> Engine" where
  "Engine_Remove name e = (None, snd (on_cache (Cache_Remove name) e))"

definition Engine_Stats :: "Engine \<Rightarrow> nat \<times> nat \<times> int64 \<times> bool" where
  "Engine_Stats e = Cache_Stats (e_cache e)"

definition Engine_Close ::
  "go_err option \<Rightarrow> (string \<Rightarrow> bool) \<Rightarrow> go_err option \<Rightarrow> (string \<Rightarrow> bool) \<Rightarrow> Engine \<Rightarrow> go_err option \<times> Engine" where
  "Engine_Close e1 left1 e2 left2 e =
     (None, (snd (on_cache (CleanUp e1 left1 e2 left2) e))\<lparr>e_inUse := False\<rparr>)"

definition ReadDir :: "Engine \<Rightarrow> Node list \<times> go_err option" where
  "ReadDir e = (map snd (children e), None)"

text \<open>\<open>Nodes\<close> sort by path.\<close>

definition Nodes_Less :: "Engine \<Rightarrow> Node list \<Rightarrow> nat \<Rightarrow> nat \<Rightarrow> bool" where
  "Nodes_Less e ns i j \<longleftrightarrow> ord_class.lexordp (map of_char (n_Path (Node_info e (ns ! i))) :: nat list)
     (map of_char (n_Path (Node_info e (ns ! j))))"

definition Nodes_Swap :: "nat \<Rightarrow> nat \<Rightarrow> Node list \<Rightarrow> Node list" where
  "Nodes_Swap i j ns = ns[i := ns ! j, j := ns ! i]"

text \<open>
  \<open>ReadFileInto\<close>: the loop of \<open>io.Copy\<close> with its buffer of 32 KiB, for a writer that takes everything.
  A copy that does not end, and a read that waits for ever, have no result (\<open>None\<close>).
\<close>

partial_function (option) copy_handle ::
  "cenv \<Rightarrow> byte list \<Rightarrow> ReadFileHandle \<Rightarrow> Engine \<Rightarrow> (byte list \<times> go_err option \<times> ReadFileHandle \<times> Engine) option" where
  "copy_handle E out h e =
     (case fh_Read E 32768 h e of
        None \<Rightarrow> None
      | Some ((b, err), h1, e1) \<Rightarrow>
          (case err of
             None \<Rightarrow> copy_handle E (out @ b) h1 e1
           | Some er \<Rightarrow> Some (out @ b, if er = EOF then None else Some er, h1, e1)))"

definition ReadFileInto :: "cenv \<Rightarrow> string \<Rightarrow> Engine \<Rightarrow> (byte list \<times> go_err option \<times> Engine) option" where
  "ReadFileInto E name e =
     (case Engine_OpenFile E name e of
        None \<Rightarrow> None
      | Some (Inl err, e1) \<Rightarrow> Some ([], Some err, e1)
      | Some (Inr h, e1) \<Rightarrow>
          (case copy_handle E [] h e1 of
             None \<Rightarrow> None
           | Some (out, err, h1, e2) \<Rightarrow> Some (out, err, e2)))"

section \<open>The other handles\<close>

text \<open>
  The methods of \<open>Handle\<close> that have a fixed result: those of \<open>baseHandle\<close>, and those a read handle, a
  directory handle and a write handle put in their place.
\<close>

datatype handle_op =
    HChdir | HChmod | HChown | HClose | HRead | HReadAt | HReaddir | HReaddirnames | HSeek | HStat | HSync
  | HTruncate | HWrite | HWriteAt | HWriteString | HFlush | HRelease | HUnlock | HLock

fun baseHandle :: "handle_op \<Rightarrow> go_err option" where
  "baseHandle HSync = None"
| "baseHandle HUnlock = Some ErrInvalid"
| "baseHandle HLock = Some ErrInvalid"
| "baseHandle _ = Some ENOSYS"

text \<open>\<open>None\<close>: the read handle has a method of its own, above.\<close>

fun readHandle :: "handle_op \<Rightarrow> go_err option option" where
  "readHandle HClose = None"
| "readHandle HRead = None"
| "readHandle HReadAt = None"
| "readHandle HSeek = None"
| "readHandle HRelease = None"
| "readHandle HFlush = Some None"
| "readHandle HStat = Some None"
| "readHandle HWrite = Some (Some ErrPermission)"
| "readHandle HWriteAt = Some (Some ErrPermission)"
| "readHandle HTruncate = Some (Some ErrPermission)"
| "readHandle HWriteString = Some (Some ErrPermission)"
| "readHandle m = Some (baseHandle m)"

text \<open>The method \<open>ReadDir\<close> of a directory handle is not the interface's \<open>Readdir\<close>.\<close>

definition DirHandle_ReadDir :: "int64 \<Rightarrow> go_err option" where
  "DirHandle_ReadDir n = Some EOF"

fun dirHandle :: "handle_op \<Rightarrow> go_err option" where
  "dirHandle HReaddirnames = Some EOF"
| "dirHandle HFlush = None"
| "dirHandle HRelease = None"
| "dirHandle HStat = None"
| "dirHandle m = baseHandle m"

fun writeHandle :: "handle_op \<Rightarrow> go_err option" where
  "writeHandle HFlush = None"
| "writeHandle HRelease = None"
| "writeHandle m = baseHandle m"

definition newWriteFileHandle :: "go_err option" where "newWriteFileHandle = Some ENOSYS"

definition newRWFileHandle :: "go_err option" where "newRWFileHandle = Some ENOSYS"

end
