(* ===== verification/EngineOpens.thy ===== *)
theory EngineOpens
  imports Engine
begin

text \<open>
  What no operation of the engine or the cleaner changes of an item: its name, and how often it is open.
\<close>

section \<open>Operations of an item\<close>

definition tag :: "world \<Rightarrow> string \<times> int" where
  "tag w = (i_name (it w), opens (it w))"

lemma tag_bookkeeping [simp]:
  "tag (upd_info f w) = tag w" "tag (snd (sys g w)) = tag w" "tag (w\<lparr>now := t\<rparr>) = tag w"
  "tag (upd_it (\<lambda>i. i\<lparr>i_o := ob\<rparr>) w) = tag w" "tag (upd_it (\<lambda>i. i\<lparr>fd := x\<rparr>) w) = tag w"
  "tag (upd_it (\<lambda>i. i\<lparr>downloaders := b\<rparr>) w) = tag w" "tag (upd_it (\<lambda>i. i\<lparr>beingReset := b\<rparr>) w) = tag w"
  "tag (upd_it (\<lambda>i. i\<lparr>modified := b\<rparr>) w) = tag w" "tag (upd_it (\<lambda>i. i\<lparr>graceTimer := b\<rparr>) w) = tag w"
  "tag (upd_it (\<lambda>i. i\<lparr>pendingAccesses := pf i\<rparr>) w) = tag w"
  "tag (w\<lparr>wb_items := m\<rparr>) = tag w"
  "tag (upd_it (\<lambda>i. i\<lparr>beingReset := b, downloaders := df i\<rparr>) w) = tag w"
  by (simp_all add: tag_def upd_info_def upd_it_def)

lemma tag_opens: "tag (upd_it (\<lambda>i. i\<lparr>opens := f i\<rparr>) w) = (fst (tag w), f (it w))"
  "tag (upd_it (\<lambda>i. i\<lparr>fd := x, opens := f i\<rparr>) w) = (fst (tag w), f (it w))"
  by (simp_all add: tag_def upd_it_def)

lemma tag_remove [simp]: "tag (snd (remove w)) = tag w"
  by (simp add: remove_def wb_Remove_def removeMeta_def removeFile_def Let_def)

lemma tag_save [simp]: "tag (snd (save w)) = tag w"
  by (simp add: tag_def)

lemma tag_stat [simp]: "tag (snd (stat w)) = tag w"
  by (simp add: stat_def split: option.split)

lemma tag_getSize [simp]: "tag (snd (getSize w)) = tag w"
  by (simp add: getSize_def split_beta split: sum.split option.split)

lemma tag_exists [simp]: "tag (snd (exists_file w)) = tag w"
  by (simp add: exists_file_def split_beta split: sum.split)

lemma tag_truncate_fd [simp]: "tag (snd (truncate_fd i sz w)) = tag w"
  by (simp add: truncate_fd_def split_beta split: option.split)

lemma tag_truncate [simp]: "tag (snd (CacheItem.truncate sz w)) = tag w"
  by (simp add: CacheItem.truncate_def split_beta removeMeta_def Let_def split: option.split sum.split)

lemma tag_truncateToCurrentSize [simp]: "tag (snd (truncateToCurrentSize w)) = tag w"
  by (simp add: truncateToCurrentSize_def split_beta)

lemma tag_checkObject [simp]: "tag (snd (checkObject ob w)) = tag w"
  by (simp add: checkObject_def split_beta Let_def split: option.split)

lemma tag_createFile [simp]: "tag (snd (createFile w)) = tag w"
  by (simp add: createFile_def split_beta split: option.split sum.split)

text \<open>What an item asks of its environment leaves name and count alone too.\<close>

definition env_tame :: "env \<Rightarrow> bool" where
  "env_tame E \<longleftrightarrow> (\<forall>w r. tag (snd (e_Download E r w)) = tag w \<and> tag (snd (e_EnsureDownloader E r w)) = tag w
     \<and> tag (snd (e_CloseDownloaders E w)) = tag w \<and> tag (snd (e_createItemDir E w)) = tag w
     \<and> tag (e_KickCleaner E w) = tag w)"

lemma env_tameD:
  assumes "env_tame E"
  shows "tag (snd (e_Download E r w)) = tag w" "tag (snd (e_EnsureDownloader E r w)) = tag w"
    "tag (snd (e_CloseDownloaders E w)) = tag w" "tag (snd (e_createItemDir E w)) = tag w"
    "tag (e_KickCleaner E w) = tag w"
  using assms by (simp_all add: env_tame_def)

lemma tag_close_downloaders: "env_tame E \<Longrightarrow> tag (snd (close_downloaders E w)) = tag w"
  by (simp add: close_downloaders_def env_tameD)

lemma tag_ensure: "env_tame E \<Longrightarrow> tag (snd (ensure E off sz w)) = tag w"
  by (simp add: ensure_def env_tameD Let_def)

lemma tag_readAt: "env_tame E \<Longrightarrow> tag (snd (readAt E n off w)) = tag w"
  by (simp add: readAt_def file_ReadAt_def split_beta tag_ensure split: option.split)

lemma tag_guarded: "guarded f w = Some (r, w') \<Longrightarrow> (\<And>w. tag (snd (f w)) = tag w) \<Longrightarrow> tag w' = tag w"
  by (auto simp: guarded_def preAccess_def postAccess_def split: if_splits prod.splits)
    (metis snd_conv tag_bookkeeping(10))

lemma tag_ReadAt_loop: "env_tame E \<Longrightarrow> ReadAt_loop E n off k m w = Some (r, w') \<Longrightarrow> tag w' = tag w"
proof (induction m arbitrary: k w)
  case (Suc m)
  obtain b1 e1 w1 where g: "guarded (readAt E n off) w = Some ((b1, e1), w1)"
    using Suc.prems(2) by (auto split: option.splits)
  have t: "tag w1 = tag w" using tag_guarded [OF g tag_readAt [OF Suc.prems(1)]] .
  show ?case
  proof (cases "e1 = None \<or> e1 = Some EOF \<or> gives_up (the e1)")
    case True
    then show ?thesis using Suc.prems g t by (auto split: option.splits)
  next
    case False
    then show ?thesis
      using Suc.prems g t Suc.IH [OF Suc.prems(1)] env_tameD(5) [OF Suc.prems(1)]
      by (force simp: Let_def split: option.splits if_splits)
  qed
qed simp

lemma tag_ReadAt: "env_tame E \<Longrightarrow> ReadAt E n off w = Some (r, w') \<Longrightarrow> tag w' = tag w"
  unfolding ReadAt_def by (rule tag_ReadAt_loop)

lemma tag_RemoveNotInUse [simp]: "tag (snd (RemoveNotInUse a b w)) = tag w"
  by (simp add: RemoveNotInUse_def Let_def)

lemma tag_reset_rest: "env_tame E \<Longrightarrow> tag (snd (reset_rest E w)) = tag w"
  by (simp add: reset_rest_def split_beta Let_def tag_close_downloaders split: option.split)

lemma tag_Reset: "env_tame E \<Longrightarrow> tag (snd (Reset E w)) = tag w"
  by (simp add: Reset_def tag_reset_rest)

lemma tag_newItem: "tag (newItem name w) = (name, 0)"
proof -
  have f: "tag (upd_it (\<lambda>_. fresh_Item name t) w) = (name, 0)" for t w by (simp add: tag_def upd_it_def fresh_Item_def)
  have l: "tag (snd (load w)) = tag w" for w
    by (simp add: load_def split_beta split: sum.split)
  show ?thesis
    by (simp add: newItem_def split_beta Let_def removeMeta_def removeFile_def l f split: sum.split)
qed

text \<open>A successful start of \<open>open\<close> adds one to the count, a failed one does not take anything away.\<close>

lemma tag_open_create:
  assumes "env_tame E" "open_create E ob w = ((err, created), w')"
  shows "fst (tag w') = fst (tag w)" "snd (tag w') = (if err = None then snd (tag w) + 1 else snd (tag w))"
proof -
  let ?w = "upd_info (\<lambda>i. i\<lparr>ATime := now w\<rparr>) w"
  obtain e1 w1 where c1: "e_createItemDir E ?w = (e1, w1)" by (cases "e_createItemDir E ?w")
  then have t1: "tag w1 = tag w" using env_tameD(4) [OF assms(1), of ?w] by simp
  obtain e2 w2 where c2: "checkObject ob w1 = (e2, w2)" by (cases "checkObject ob w1")
  then have t2: "tag w2 = tag w" using tag_checkObject [of ob w1] t1 by simp
  let ?w3 = "upd_it (\<lambda>i. i\<lparr>opens := opens i + 1\<rparr>) w2"
  have t3: "tag ?w3 = (fst (tag w), snd (tag w) + 1)" using t2 by (simp add: tag_opens) (simp add: tag_def)
  have "fst (tag w') = fst (tag w) \<and> snd (tag w') = (if err = None then snd (tag w) + 1 else snd (tag w))"
  proof (cases "e1 = None \<and> e2 = None \<and> opens (it ?w3) = 1")
    case False
    then show ?thesis using assms(2) c1 c2 t1 t2 t3 by (auto simp: open_create_def Let_def split: option.splits)
  next
    case True
    define g ex w4 where "g = graceTimer (it ?w3)"
      and "ex = fst (if g then exists_file (upd_it (\<lambda>i. i\<lparr>graceTimer := False\<rparr>) ?w3) else (False, ?w3))"
      and "w4 = snd (if g then exists_file (upd_it (\<lambda>i. i\<lparr>graceTimer := False\<rparr>) ?w3) else (False, ?w3))"
    have t4: "tag w4 = tag ?w3" by (simp add: w4_def)
    define w5 where "w5 = (if g \<and> fd (it w4) \<noteq> None then upd_it (\<lambda>i. i\<lparr>fd := None\<rparr>) (snd (sys fs_call w4)) else w4)"
    define w6 where "w6 = (if g then snd (close_downloaders E w5) else w5)"
    obtain e7 w7 where c7: "createFile w6 = (e7, w7)" by (cases "createFile w6")
    have t7: "tag w7 = tag ?w3"
    proof -
      have "tag w6 = tag ?w3" using t4 by (simp add: w6_def w5_def tag_close_downloaders assms(1))
      then show ?thesis using tag_createFile [of w6] unfolding c7 by simp
    qed
    have r: "((err, created), w') = (if g \<and> ex then ((None, False), w4)
        else case e7 of Some e \<Rightarrow> ((Some (Wrap ''cache item: create cache file failed'' e), False),
               upd_it (\<lambda>i. i\<lparr>fd := None, opens := opens i - 1\<rparr>) (snd (remove w7)))
             | None \<Rightarrow> ((None, True), w7))"
      using assms(2) True c1 c2 c7
      by (simp add: open_create_def Let_def split_beta g_def ex_def w4_def w5_def w6_def split: option.splits if_splits)
    have o: "opens (it (snd (remove w7))) = snd (tag ?w3)" using t7 tag_remove [of w7] by (simp add: tag_def)
    show ?thesis
      using r t3 t4 t7 o by (auto simp: tag_opens split: if_splits option.splits)
  qed
  then show "fst (tag w') = fst (tag w)" "snd (tag w') = (if err = None then snd (tag w) + 1 else snd (tag w))"
    by blast+
qed

end
