(* ===== verification/EngineRun.thy ===== *)
theory EngineRun
  imports EngineOpens
begin

text \<open>
  What the cleaner may take from the index: the index keeps its items in order (\<open>idx\<close>), the cleaner only drops items that nobody has open
  (\<open>pruned\<close>), and nothing else drops any (\<open>steady\<close>).
\<close>

section \<open>The index\<close>

definition tg :: "Cache \<Rightarrow> nat \<Rightarrow> string \<times> int" where
  "tg c k = tag (at k c)"

lemma tg_eq: "tg c k = (i_name (c_obj c k), opens (c_obj c k))"
  by (simp add: tg_def tag_def at_def)

lemma tg_bookkeeping [simp]:
  "tg (c\<lparr>used := u\<rparr>) = tg c" "tg (c\<lparr>outOfSpace := b\<rparr>) = tg c" "tg (c\<lparr>errItems := e\<rparr>) = tg c"
  "tg (c\<lparr>cleanerKicked := b\<rparr>) = tg c" "tg (c\<lparr>c_kick := q\<rparr>) = tg c" "tg (c\<lparr>c_item := l\<rparr>) = tg c"
  "tg (c\<lparr>c_next := m\<rparr>) = tg c"
  by (auto simp: tg_eq fun_eq_iff)

lemma tg_put_back: "tg (put_back k w c) = (tg c)(k := tag w)"
  by (auto simp: tg_eq fun_eq_iff put_back_def tag_def)

lemma at_put_back [simp]: "at k (put_back k w c) = w"
  by (simp add: at_def put_back_def)

lemma put_back_fields [simp]: "c_item (put_back k w c) = c_item c" "c_next (put_back k w c) = c_next c"
  "rest (put_back k w c) = w"
  by (simp_all add: put_back_def)

lemma tg_run: "(\<And>w. tag (snd (f w)) = tag w) \<Longrightarrow> tg (snd (run_item k f c)) = tg c"
  by (simp add: run_item_def split_beta tg_put_back) (simp add: tg_def fun_upd_idem)

lemma run_fields [simp]: "c_item (snd (run_item k f c)) = c_item c" "c_next (snd (run_item k f c)) = c_next c"
  by (simp_all add: run_item_def split_beta)

text \<open>
  The keys are different and clean, every item is filed under its name, and no item is open less than
  zero times.
\<close>

definition idx :: "Cache \<Rightarrow> bool" where
  "idx c \<longleftrightarrow> distinct (map fst (c_item c))
     \<and> (\<forall>(n, k) \<in> set (c_item c). k < c_next c \<and> clean n = n \<and> fst (tg c k) = n \<and> 0 \<le> snd (tg c k))"

lemma idx_D: "idx c \<Longrightarrow> map_of (c_item c) n = Some k \<Longrightarrow> k < c_next c \<and> clean n = n \<and> fst (tg c k) = n \<and> 0 \<le> snd (tg c k)"
  unfolding idx_def using map_of_SomeD by fastforce

lemma idx_owner: "idx c \<Longrightarrow> (n, k) \<in> set (c_item c) \<Longrightarrow> (n, k') \<in> set (c_item c) \<Longrightarrow> k = k'"
  unfolding idx_def by (metis eq_key_imp_eq_value)

section \<open>The cleaner\<close>

text \<open>Items that are not open may leave the index.\<close>

definition pruned :: "Cache \<Rightarrow> Cache \<Rightarrow> bool" where
  "pruned c c' \<longleftrightarrow> tg c' = tg c \<and> c_next c' = c_next c
     \<and> (\<exists>D. (\<forall>j \<in> D. snd (tg c j) = 0) \<and> c_item c' = filter (\<lambda>(n, j). j \<notin> D) (c_item c))"

lemma pruned_same: "tg c' = tg c \<Longrightarrow> c_next c' = c_next c \<Longrightarrow> c_item c' = c_item c \<Longrightarrow> pruned c c'"
  unfolding pruned_def by (auto intro!: exI [of _ "{}"])

lemma pruned_refl: "pruned c c" by (rule pruned_same) simp_all

lemma pruned_trans: "pruned c c1 \<Longrightarrow> pruned c1 c2 \<Longrightarrow> pruned c c2"
  unfolding pruned_def
proof (elim conjE exE, intro conjI exI)
  fix D D' assume "c_item c1 = filter (\<lambda>(n, j). j \<notin> D) (c_item c)" "c_item c2 = filter (\<lambda>(n, j). j \<notin> D') (c_item c1)"
  then show "c_item c2 = filter (\<lambda>(n, j). j \<notin> D \<union> D') (c_item c)"
    by (simp add: filter_filter) (rule filter_cong, auto)
qed auto

lemma pruned_idx: "pruned c c' \<Longrightarrow> idx c \<Longrightarrow> idx c'"
  unfolding pruned_def idx_def by (auto simp: distinct_map_filter)

lemma pruned_sub: "pruned c c' \<Longrightarrow> set (c_item c') \<subseteq> set (c_item c)"
  by (auto simp: pruned_def)

text \<open>A step of a loop over items that were indexed when the loop began: its own item may go.\<close>

definition drops :: "nat \<Rightarrow> Cache \<Rightarrow> Cache \<Rightarrow> bool" where
  "drops k c c' \<longleftrightarrow> tg c' = tg c \<and> c_next c' = c_next c
     \<and> (c_item c' = c_item c \<or> (snd (tg c k) = 0 \<and> c_item c' = AList.delete (fst (tg c k)) (c_item c)))"

lemma drops_pruned:
  assumes "idx c0" "pruned c0 c" "(n, k) \<in> set (c_item c0)" "drops k c c'"
  shows "pruned c0 c'"
proof (cases "c_item c' = c_item c")
  case True
  then show ?thesis using assms(2,4) pruned_trans pruned_same by (auto simp: drops_def)
next
  case False
  then have d: "snd (tg c k) = 0" "c_item c' = AList.delete (fst (tg c k)) (c_item c)" using assms(4) by (auto simp: drops_def)
  have t: "tg c = tg c0" using assms(2) by (simp add: pruned_def)
  have i: "(m, j) \<in> set (c_item c0) \<Longrightarrow> fst (tg c0 j) = m" for m j using assms(1) by (auto simp: idx_def)
  have n: "fst (tg c k) = n" using i [OF assms(3)] t by simp
  have "(\<lambda>(m, j). m \<noteq> n) x = (\<lambda>(m, j). j \<notin> {k}) x" if x: "x \<in> set (c_item c)" for x
  proof (cases x)
    case (Pair m j)
    then have m: "(m, j) \<in> set (c_item c0)" using x pruned_sub [OF assms(2)] by blast
    have "m = n \<longleftrightarrow> j = k"
    proof
      assume "m = n"
      then show "j = k" using idx_owner [OF assms(1,3), of j] m by simp
    next
      assume "j = k"
      then show "m = n" using i [OF m] i [OF assms(3)] by simp
    qed
    then show ?thesis using Pair by simp
  qed
  then have "c_item c' = filter (\<lambda>(m, j). j \<notin> {k}) (c_item c)"
    unfolding d(2) n AList.delete_eq by (intro filter_cong) force+
  then have "pruned c c'" using d(1) assms(4) unfolding pruned_def drops_def by blast
  then show ?thesis using pruned_trans [OF assms(2)] by blast
qed

lemma drops_loop:
  assumes "idx c0" "pruned c0 c" "\<forall>k \<in> set ks. k \<in> snd ` set (c_item c0)" "\<And>k c. drops k c (f k c)"
  shows "pruned c0 (fold f ks c)"
  using assms(2,3)
proof (induction ks arbitrary: c)
  case (Cons k ks)
  then obtain n where "(n, k) \<in> set (c_item c0)" by auto
  from Cons.IH [OF drops_pruned [OF assms(1) Cons.prems(1) this assms(4)]] Cons.prems(2) show ?case by simp
qed simp

lemma removeNotInUse_drops: "drops k c (removeNotInUse k a b c)"
proof -
  obtain r z w where R: "RemoveNotInUse a b (at k c) = ((r, z), w)" by (metis prod_cases3 surj_pair)
  have t: "tag w = tag (at k c)" using tag_RemoveNotInUse [of a b "at k c"] R by simp
  have "r \<Longrightarrow> opens (it (at k c)) = 0" using R by (auto simp: RemoveNotInUse_def Let_def split: if_splits)
  then have o: "r \<Longrightarrow> snd (tg c k) = 0" by (simp add: tg_def tag_def)
  have g: "tg (put_back k w c) = tg c" using t by (simp add: tg_put_back) (simp add: tg_def fun_upd_idem)
  have n: "i_name (c_obj (put_back k w c) k) = fst (tg c k)" using g [THEN fun_cong, of k] by (simp add: tg_eq)
  show ?thesis using o g n by (auto simp: removeNotInUse_def run_item_def R Let_def drops_def)
qed

definition tame :: "cenv \<Rightarrow> bool" where
  "tame E \<longleftrightarrow> (\<forall>k. env_tame (c_env E k)) \<and> (\<forall>ns. set (c_perm E ns) = set ns)"

lemma Reset_removed: "fst (fst (Reset E w)) = RemovedNotInUse \<Longrightarrow> opens (it w) = 0"
  by (auto simp: Reset_def reset_rest_def split_beta Let_def split: if_splits option.splits)

lemma reset_one_drops: "env_tame (c_env E k) \<Longrightarrow> drops k c (reset_one E k c)"
proof -
  assume e: "env_tame (c_env E k)"
  obtain r z er w where R: "Reset (c_env E k) (at k c) = ((r, z, er), w)" by (metis prod_cases4 surj_pair)
  have t: "tag w = tag (at k c)" using tag_Reset [OF e, of "at k c"] R by simp
  have "r = RemovedNotInUse \<Longrightarrow> opens (it (at k c)) = 0" using Reset_removed [of "c_env E k" "at k c"] R by simp
  then have o: "r = RemovedNotInUse \<Longrightarrow> snd (tg c k) = 0" by (simp add: tg_def tag_def)
  have g: "tg (put_back k w c) = tg c" using t by (simp add: tg_put_back) (simp add: tg_def fun_upd_idem)
  have n: "i_name (c_obj (put_back k w c) k) = fst (tg c k)" using g [THEN fun_cong, of k] by (simp add: tg_eq)
  show ?thesis using o g n by (auto simp: reset_one_def run_item_def R Let_def drops_def split: option.split)
qed

lemma retry_one_same:
  assumes "tame E"
  shows "pruned c (retry_one E n c)"
proof -
  have "tg (snd (run_item k (Reset (c_env E k)) c)) = tg c" for k
    using assms tag_Reset by (intro tg_run) (auto simp: tame_def)
  then show ?thesis
    by (intro pruned_same) (simp_all add: retry_one_def split_beta split: option.split)
qed

lemma pruned_bookkeeping [simp]:
  "pruned c (c'\<lparr>used := u\<rparr>) = pruned c c'" "pruned c (c'\<lparr>outOfSpace := b\<rparr>) = pruned c c'"
  "pruned c (c'\<lparr>cleanerKicked := b\<rparr>) = pruned c c'" "pruned c (c'\<lparr>c_kick := q\<rparr>) = pruned c c'"
  by (simp_all add: pruned_def)

lemma purgeOld_pruned:
  assumes "idx c"
  shows "pruned c (purgeOld E c)"
proof -
  have "pruned c (fold (\<lambda>n c. case map_of (c_item c) n of
       Some k \<Rightarrow> removeNotInUse k (CacheMaxAge c) False c | None \<Rightarrow> c) ns c1)" if "pruned c c1" for ns c1
    using that
  proof (induction ns arbitrary: c1)
    case (Cons n ns)
    show ?case
    proof (cases "map_of (c_item c1) n")
      case (Some k)
      then have "(n, k) \<in> set (c_item c)" using pruned_sub [OF Cons.prems] map_of_SomeD by fast
      from drops_pruned [OF assms Cons.prems this removeNotInUse_drops] Cons.IH Some show ?thesis by simp
    qed (use Cons in simp)
  qed simp
  from this [OF pruned_refl] show ?thesis by (simp add: purgeOld_def unblock_def)
qed

lemma by_ATime_indexed: "tame E \<Longrightarrow> k \<in> set (by_ATime E P c) \<Longrightarrow> k \<in> snd ` set (c_item c)"
proof -
  assume "tame E" "k \<in> set (by_ATime E P c)"
  then obtain n where "n \<in> fst ` set (c_item c)" "k = the (map_of (c_item c) n)" by (auto simp: by_ATime_def tame_def)
  then obtain j where "map_of (c_item c) n = Some j" "k = j" by (metis map_of_eq_None_iff not_None_eq option.sel)
  then show ?thesis using map_of_SomeD by force
qed

lemma purgeOverQuota_pruned:
  assumes "tame E" "idx c"
  shows "pruned c (purgeOverQuota E c)"
proof -
  have i: "idx (updateUsed c)" using assms(2) by (simp add: updateUsed_def idx_def)
  have u: "pruned c (updateUsed c)" by (rule pruned_same) (simp_all add: updateUsed_def)
  have "pruned (updateUsed c) (fold (\<lambda>k c. removeNotInUse k 0 (quotasOK E c) c) (by_ATime E P (updateUsed c)) (updateUsed c))" for P
    using by_ATime_indexed [OF assms(1)] removeNotInUse_drops by (intro drops_loop [OF i pruned_refl]) auto
  from pruned_trans [OF u this] u show ?thesis by (simp add: purgeOverQuota_def Let_def unblock_def)
qed

lemma purgeClean_pruned:
  assumes "tame E" "idx c"
  shows "pruned c (purgeClean E c)"
proof -
  have "pruned c (reset_until_ok E ks c1)" if "pruned c c1" "\<forall>k \<in> set ks. k \<in> snd ` set (c_item c)" for ks c1
    using that
  proof (induction ks arbitrary: c1)
    case (Cons k ks)
    then obtain n where "(n, k) \<in> set (c_item c)" by auto
    moreover have "env_tame (c_env E k)" using assms(1) by (simp add: tame_def)
    ultimately show ?case using Cons drops_pruned [OF assms(2) Cons.prems(1)] reset_one_drops by (simp add: Cons.IH)
  qed simp
  then show ?thesis using pruned_refl by_ATime_indexed [OF assms(1)] by (simp add: purgeClean_def)
qed

lemma retry_pruned: "tame E \<Longrightarrow> pruned c (retryFailedResets E c)"
proof -
  assume t: "tame E"
  have "pruned c (fold (retry_one E) ns c)" for ns
  proof (induction ns arbitrary: c)
    case (Cons n ns)
    show ?case using pruned_trans [OF retry_one_same [OF t] Cons] by simp
  qed (simp add: pruned_refl)
  then show ?thesis by (simp add: retryFailedResets_def)
qed

lemma clean_run_pruned:
  assumes "tame E" "idx c"
  shows "pruned c (clean_run E b c)"
proof -
  have u: "pruned c (updateUsed c)" "idx (updateUsed c)" using assms(2) by (auto simp: updateUsed_def idx_def intro: pruned_same)
  let ?c1 = "purgeOld E (updateUsed c)"
  have 1: "pruned c ?c1" using pruned_trans [OF u(1) purgeOld_pruned [OF u(2)]] .
  have i1: "idx ?c1" using pruned_idx [OF 1 assms(2)] .
  have 2: "pruned c (purgeOverQuota E ?c1)" using pruned_trans [OF 1 purgeOverQuota_pruned [OF assms(1) i1]] .
  have i2: "idx (purgeOverQuota E ?c1)" using pruned_idx [OF 2 assms(2)] .
  have 3: "pruned c (purgeClean E (purgeOverQuota E ?c1))" using pruned_trans [OF 2 purgeClean_pruned [OF assms(1) i2]] .
  have "pruned c (retryFailedResets E (purgeClean E (purgeOverQuota E ?c1)))"
    using pruned_trans [OF 3 retry_pruned [OF assms(1)]] .
  then show ?thesis using 1 by (simp add: clean_run_def Let_def pruned_refl)
qed

end
