(* ===== verification/EngineSession.thy ===== *)
theory EngineSession
  imports EngineRun
begin

text \<open>
  Sessions of the engine: any sequence of its operations, of those of its handles, and of runs of the
  cleaner, with their invariants.
\<close>

section \<open>Sessions\<close>

text \<open>Handles are numbered in the order in which they were opened.\<close>

datatype engine_op =
    OpStat string | OpOpen string | OpOpenFile string | OpOpenCached string "remote option" | OpItem string
  | OpRemove string | OpRead nat nat | OpReadAt nat nat int64 | OpSeek nat int64 int | OpClose nat | OpClean bool

type_synonym session = "Engine \<times> ReadFileHandle list"

definition opened :: "((go_err + ReadFileHandle) \<times> Engine) option \<Rightarrow> ReadFileHandle list \<Rightarrow> session option" where
  "opened r hs = map_option (\<lambda>(x, e). (e, case x of Inl _ \<Rightarrow> hs | Inr h \<Rightarrow> hs @ [h])) r"

fun estep :: "cenv \<Rightarrow> engine_op \<Rightarrow> session \<Rightarrow> session option" where
  "estep E (OpStat p) (e, hs) = Some (snd (Stat p e), hs)"
| "estep E (OpOpen p) (e, hs) = opened (Engine_Open E p e) hs"
| "estep E (OpOpenFile p) (e, hs) = opened (Engine_OpenFile E p e) hs"
| "estep E (OpOpenCached p ob) (e, hs) = opened (OpenCached E p ob e) hs"
| "estep E (OpItem p) (e, hs) = Some (snd (CacheItem p e), hs)"
| "estep E (OpRemove p) (e, hs) = Some (snd (Engine_Remove p e), hs)"
| "estep E (OpRead i n) (e, hs) =
     (if i < length hs
      then map_option (\<lambda>(_, h, e'). (e', hs[i := h])) (fh_Read E n (hs ! i) e) else None)"
| "estep E (OpReadAt i n off) (e, hs) =
     (if i < length hs then map_option (\<lambda>(_, e'). (e', hs)) (fh_ReadAt E n off (hs ! i) e) else None)"
| "estep E (OpSeek i off whence) (e, hs) =
     (if i < length hs then Some (e, hs[i := snd (fh_Seek off whence (hs ! i))]) else None)"
| "estep E (OpClose i) (e, hs) = (if i < length hs then Some (e, hs[i := snd (fh_Close (hs ! i))]) else None)"
| "estep E (OpClean kicked) (e, hs) = Some (e\<lparr>e_cache := clean_run E kicked (e_cache e)\<rparr>, hs)"

fun erun :: "cenv \<Rightarrow> engine_op list \<Rightarrow> session \<Rightarrow> session option" where
  "erun E [] s = Some s"
| "erun E (op # ops) s = (case estep E op s of None \<Rightarrow> None | Some s1 \<Rightarrow> erun E ops s1)"

section \<open>The index in a session\<close>

text \<open>The index stays in order, and no open item leaves it or is open less often.\<close>

definition steady :: "Cache \<Rightarrow> Cache \<Rightarrow> bool" where
  "steady c c' \<longleftrightarrow> idx c' \<and> (\<forall>n k. map_of (c_item c) n = Some k \<longrightarrow> 0 < snd (tg c k) \<longrightarrow>
     map_of (c_item c') n = Some k \<and> snd (tg c k) \<le> snd (tg c' k))"

lemma steady_refl: "idx c \<Longrightarrow> steady c c" by (simp add: steady_def)

lemma steady_trans: "steady c c1 \<Longrightarrow> steady c1 c2 \<Longrightarrow> steady c c2"
  unfolding steady_def by (meson order_less_le_trans order_trans)

lemma steady_idx: "steady c c' \<Longrightarrow> idx c'" by (simp add: steady_def)

lemma steady_pruned: "idx c \<Longrightarrow> pruned c c' \<Longrightarrow> steady c c'"
proof -
  assume a: "idx c" "pruned c c'"
  note i = pruned_idx [OF a(2,1)]
  obtain D where D: "\<forall>j \<in> D. snd (tg c j) = 0" "c_item c' = filter (\<lambda>(n, j). j \<notin> D) (c_item c)" "tg c' = tg c"
    using a(2) by (auto simp: pruned_def)
  have "map_of (c_item c') n = Some k" if "map_of (c_item c) n = Some k" "0 < snd (tg c k)" for n k
  proof -
    have "(n, k) \<in> set (c_item c')" using map_of_SomeD [OF that(1)] D(1,2) that(2) by auto
    then show ?thesis using i by (simp add: idx_def)
  qed
  then show ?thesis using i D(3) by (simp add: steady_def)
qed

lemma steady_grow:
  assumes "idx c" "c_item c' = c_item c" "c_next c' = c_next c"
    and "\<And>j. fst (tg c' j) = fst (tg c j) \<and> snd (tg c j) \<le> snd (tg c' j)"
  shows "steady c c'"
  using assms unfolding steady_def idx_def by (fastforce intro: order_trans)

lemma clean_idem: "clean (clean s) = clean s"
  using clean_id [OF canonical_clean] .

lemma steady_get:
  assumes "idx c" "Item_op name c = (k, c')"
  shows "steady c c'" "map_of (c_item c') (clean name) = Some k"
proof -
  have "steady c c' \<and> map_of (c_item c') (clean name) = Some k"
  proof (cases "map_of (c_item c) (clean name)")
    case (Some j)
    then show ?thesis using assms steady_refl by (auto simp: Item_op_def get_def get0_def)
  next
    case None
    let ?w = "newItem (clean name) (rest c)"
    have c': "k = c_next c" "c_item c' = AList.update (clean name) k (c_item c)" "c_next c' = Suc k"
      "tg c' = (tg c)(k := (clean name, 0))"
      using assms(2) None by (auto simp: Item_op_def get_def get0_def Let_def tg_put_back tag_newItem)
    have u: "AList.update (clean name) k (c_item c) = c_item c @ [(clean name, k)]"
    proof -
      have "n \<notin> fst ` set l \<Longrightarrow> AList.update n v l = l @ [(n, v)]" for n and v :: nat and l by (induction l) auto
      then show ?thesis using None by (simp add: map_of_eq_None_iff)
    qed
    have new: "clean name \<notin> fst ` set (c_item c)" using None by (simp add: map_of_eq_None_iff)
    have old: "j < k \<and> clean m = m \<and> fst (tg c j) = m \<and> 0 \<le> snd (tg c j)" if "(m, j) \<in> set (c_item c)" for m j
      using that assms(1) c'(1) by (auto simp: idx_def)
    have d: "distinct (map fst (c_item c'))" using assms(1) new by (simp add: c'(2) u idx_def)
    have e: "j < c_next c' \<and> clean m = m \<and> fst (tg c' j) = m \<and> 0 \<le> snd (tg c' j)" if "(m, j) \<in> set (c_item c')" for m j
    proof (cases "j = k")
      case True
      then have "m = clean name" using that old [of m j] by (auto simp: c'(2) u)
      then show ?thesis using True by (simp add: c'(3,4) clean_idem)
    next
      case False
      then show ?thesis using that old [of m j] by (auto simp: c'(2-4) u)
    qed
    have "idx c'" unfolding idx_def using d e by blast
    moreover have "map_of (c_item c') n = Some j \<and> snd (tg c j) \<le> snd (tg c' j)"
      if m: "map_of (c_item c) n = Some j" for n j
    proof -
      have "n \<noteq> clean name" using m None by auto
      moreover have "j < k" using idx_D [OF assms(1) m] c'(1) by simp
      ultimately show ?thesis using m by (simp add: c' update_conv')
    qed
    ultimately show ?thesis by (simp add: steady_def c' update_conv')
  qed
  then show "steady c c'" "map_of (c_item c') (clean name) = Some k" by blast+
qed

lemma steady_run: "idx c \<Longrightarrow> (\<And>w. tag (snd (f w)) = tag w) \<Longrightarrow> steady c (snd (run_item k f c))"
  by (rule steady_grow) (simp_all add: tg_run)

lemma Cache_open_steady:
  assumes "env_tame (c_env E k)" "idx c" "map_of (c_item c) n = Some k" "Cache_open E k ob c = (err, c')"
  shows "c_item c' = c_item c" "c_next c' = c_next c" "\<And>j. fst (tg c' j) = fst (tg c j) \<and> snd (tg c j) \<le> snd (tg c' j)"
    "err = None \<Longrightarrow> snd (tg c' k) = snd (tg c k) + 1"
proof -
  obtain er cr w where o: "open_create (c_env E k) ob (at k c) = ((er, cr), w)" by (metis prod_cases3 surj_pair)
  note t = tag_open_create [OF assms(1) o]
  let ?c1 = "put_back k w c"
  have t1: "fst (tg ?c1 j) = fst (tg c j) \<and> snd (tg c j) \<le> snd (tg ?c1 j)"
    "snd (tg ?c1 k) = (if er = None then snd (tg c k) + 1 else snd (tg c k))" for j
    using t by (auto simp: tg_put_back tg_def)
  have r: "run_item k (open_create (c_env E k) ob) c = ((er, cr), ?c1)" by (simp add: run_item_def o)
  have n: "i_name (c_obj ?c1 k) = n" "clean n = n"
    using idx_D [OF assms(2,3)] t1(1) [of k] by (auto simp: tg_eq)
  have p: "put n k ?c1 = (None, ?c1)" using assms(3) n by (simp add: put_def)
  let ?f = "\<lambda>w. ((), if i_o (it w) \<noteq> None then upd_it (\<lambda>i. i\<lparr>downloaders := True\<rparr>) w else w)"
  have e: "(err, c') = (if cr then (None, snd (run_item k ?f ?c1)) else (er, ?c1))"
    using assms(4) unfolding Cache_open_def r using n p by (cases cr) simp_all
  have g: "tg (snd (run_item k ?f ?c1)) = tg ?c1" by (rule tg_run) simp
  have er: "cr \<Longrightarrow> er = None"
    using o by (auto simp: open_create_def Let_def split_beta split: option.splits if_splits)
  show "c_item c' = c_item c" "c_next c' = c_next c" "\<And>j. fst (tg c' j) = fst (tg c j) \<and> snd (tg c j) \<le> snd (tg c' j)"
    "err = None \<Longrightarrow> snd (tg c' k) = snd (tg c k) + 1"
    using e t1 g er by (auto split: if_splits)
qed

lemma item_Open_steady:
  assumes "env_tame (c_env E k)" "item_Open_loop E k ob m c = Some (err, c')" "idx c" "map_of (c_item c) n = Some k"
  shows "steady c c'" "c_item c' = c_item c" "0 < m \<Longrightarrow> err = None \<Longrightarrow> 0 < snd (tg c' k)"
proof -
  have "(c_item c' = c_item c \<and> c_next c' = c_next c \<and> (\<forall>j. fst (tg c' j) = fst (tg c j) \<and> snd (tg c j) \<le> snd (tg c' j)))
      \<and> (0 < m \<longrightarrow> err = None \<longrightarrow> 0 < snd (tg c' k))"
    using assms(2-4)
  proof (induction m arbitrary: c)
    case (Suc m)
    obtain e1 c1 where g: "guarded_open E k ob c = Some (e1, c1)" using Suc.prems(1) by (auto split: option.splits)
    then obtain w c0 where w: "preAccess (at k c) = Some w" "Cache_open E k ob (put_back k w c) = (e1, c0)"
      "c1 = put_back k (postAccess (at k c0)) c0" by (auto simp: guarded_open_def split: option.splits prod.splits)
    let ?c = "put_back k w c"
    have t: "tg ?c = tg c" using w(1) by (simp add: tg_put_back preAccess_def split: if_splits) (auto simp: tg_def fun_upd_idem)
    have i: "idx ?c" "map_of (c_item ?c) n = Some k" using Suc.prems(2,3) t by (simp_all add: idx_def)
    note O = Cache_open_steady [OF assms(1) i w(2)]
    have t1: "tg c1 = tg c0" unfolding w(3) by (simp add: tg_put_back postAccess_def) (simp add: tg_def fun_upd_idem)
    have c1: "c_item c1 = c_item c" "c_next c1 = c_next c" "fst (tg c1 j) = fst (tg c j) \<and> snd (tg c j) \<le> snd (tg c1 j)"
      "e1 = None \<Longrightarrow> 0 < snd (tg c1 k)" for j
      using O t t1 idx_D [OF i] by (simp_all add: w(3))
    show ?case
    proof (cases "e1 = None \<or> gives_up (the e1)")
      case True
      then show ?thesis using Suc.prems(1) g c1 by (cases e1) auto
    next
      case False
      let ?c2 = "put_back k (e_KickCleaner (c_env E k) (at k c1)) c1"
      have t2: "tg ?c2 = tg c1" by (simp add: tg_put_back env_tameD [OF assms(1)]) (simp add: tg_def fun_upd_idem)
      have i1: "idx c1" by (rule steady_idx [OF steady_grow [OF Suc.prems(2) c1(1-3)]])
      then have i2: "idx ?c2" "map_of (c_item ?c2) n = Some k" using t2 c1(1) Suc.prems(3) by (simp_all add: idx_def)
      show ?thesis
      proof (cases m)
        case 0
        then show ?thesis using Suc.prems(1) g False c1 t2 by (cases e1) (auto simp: Let_def)
      next
        case S: (Suc m')
        then have "item_Open_loop E k ob m ?c2 = Some (err, c')"
          using Suc.prems(1) g False by (cases e1) (auto simp: Let_def)
        from Suc.IH [OF this i2] show ?thesis using c1 t2 S by (auto intro: order_trans)
      qed
    qed
  qed simp
  then show "steady c c'" "c_item c' = c_item c" "0 < m \<Longrightarrow> err = None \<Longrightarrow> 0 < snd (tg c' k)"
    using steady_grow [OF assms(3), of c'] by simp_all
qed

lemma item_ReadAt_steady: "env_tame (c_env E k) \<Longrightarrow> idx c \<Longrightarrow> item_ReadAt E k n off c = Some (r, c') \<Longrightarrow>
   steady c c' \<and> tg c' = tg c"
proof -
  assume a: "env_tame (c_env E k)" "idx c" "item_ReadAt E k n off c = Some (r, c')"
  then obtain w where w: "ReadAt (c_env E k) n off (at k c) = Some (r, w)" "c' = put_back k w c"
    by (auto simp: item_ReadAt_def split: option.splits)
  have t: "tg c' = tg c" using tag_ReadAt [OF a(1) w(1)] by (simp add: w(2) tg_put_back) (simp add: tg_def fun_upd_idem)
  then show ?thesis using steady_grow [OF a(2), of c'] by (simp add: w(2))
qed

end
