(* ===== verification/EngineTree.thy ===== *)
theory EngineTree
  imports EngineSession
begin

text \<open>
  The tree of nodes in a session: what each operation adds to it, the invariant of its names and inodes,
  and what becomes of a file once it has been opened.
\<close>

section \<open>The invariant\<close>

lemma trim_idem: "trim_slash (trim_slash s) = trim_slash s"
proof -
  let ?d = "dropWhile (\<lambda>c. c = slash)"
  have d: "?d (?d l) = ?d l" for l by (induction l) auto
  let ?a = "?d s"
  let ?b = "rev (?d (rev ?a))"
  have b: "?d ?b = ?b"
  proof (cases ?b)
    case Nil
    then show ?thesis unfolding Nil by simp
  next
    case (Cons x xs)
    obtain ys where "rev ?a = ys @ ?d (rev ?a)" by (metis takeWhile_dropWhile_id)
    then have "?a = ?b @ rev ys" by (metis rev_append rev_rev_ident)
    then have "?a = x # xs @ rev ys" unfolding Cons by simp
    then have "x \<noteq> slash" using hd_dropWhile [of "\<lambda>c. c = slash" s] by simp
    then show ?thesis unfolding Cons by simp
  qed
  show ?thesis unfolding trim_slash_def b by (simp add: d)
qed

definition tree_ok :: "Engine \<Rightarrow> bool" where
  "tree_ok e \<longleftrightarrow> distinct (map fst (children e))
     \<and> (\<forall>(p, nd) \<in> set (children e). p \<noteq> [] \<and> trim_slash p = p
          \<and> (\<exists>f. nd = FileNode f \<and> f_name f = p \<and> f_remote f = None))"

definition inodes_of :: "Engine \<Rightarrow> uint64 list" where
  "inodes_of e = root_inode e # map (\<lambda>(p, nd). Node_Inode e nd) (children e)"

definition inodes_ok :: "Engine \<Rightarrow> bool" where
  "inodes_ok e \<longleftrightarrow> distinct (inodes_of e) \<and> (\<forall>i \<in> set (inodes_of e). unat i \<le> unat (inodeCount e))"

text \<open>An operation leaves the tree as it is, or adds a file at its end.\<close>

definition adds :: "string \<Rightarrow> File \<Rightarrow> Engine \<Rightarrow> Engine \<Rightarrow> bool" where
  "adds p f e e' \<longleftrightarrow> p \<noteq> [] \<and> trim_slash p = p \<and> p \<notin> fst ` set (children e) \<and> f_name f = p \<and> f_remote f = None
     \<and> f_inode f = inodeCount e + 1 \<and> inodeCount e' = inodeCount e + 1 \<and> children e' = children e @ [(p, FileNode f)]"

definition same_tree :: "Engine \<Rightarrow> Engine \<Rightarrow> bool" where
  "same_tree e e' \<longleftrightarrow> root_inode e' = root_inode e \<and> children e' = children e \<and> inodeCount e' = inodeCount e"

definition tree_step :: "Engine \<Rightarrow> Engine \<Rightarrow> bool" where
  "tree_step e e' \<longleftrightarrow> same_tree e e' \<or> (root_inode e' = root_inode e \<and> (\<exists>p f. adds p f e e'))"

lemma same_tree_simps [simp]: "same_tree e (e'\<lparr>e_cache := c\<rparr>) = same_tree e e'" "same_tree e e"
  "same_tree (e\<lparr>e_cache := c\<rparr>) e' = same_tree e e'"
  by (simp_all add: same_tree_def)

lemma on_cache_same [simp]: "same_tree e (snd (on_cache f e))"
  by (simp add: on_cache_def split_beta)

lemma on_cache_cache: "on_cache f e = (r, e') \<Longrightarrow> f (e_cache e) = (r, e_cache e') \<and> same_tree e e'"
  by (auto simp: on_cache_def split: prod.splits)

lemma tree_step_left: "same_tree e e1 \<Longrightarrow> tree_step e1 e2 \<Longrightarrow> tree_step e e2"
  by (auto simp: tree_step_def same_tree_def adds_def)

lemma tree_step_right: "tree_step e e1 \<Longrightarrow> same_tree e1 e2 \<Longrightarrow> tree_step e e2"
  by (auto simp: tree_step_def same_tree_def adds_def)

lemma step_ok: "tree_step e e' \<Longrightarrow> tree_ok e \<Longrightarrow> tree_ok e'"
  by (auto simp: tree_step_def same_tree_def adds_def tree_ok_def)

lemma step_inodes:
  assumes "tree_step e e'" "inodes_ok e" "unat (inodeCount e) < 2 ^ 64 - 1"
  shows "inodes_ok e'" "unat (inodeCount e') \<le> Suc (unat (inodeCount e))"
proof -
  have N: "map (\<lambda>(p, nd). Node_Inode e' nd) l = map (\<lambda>(p, nd). Node_Inode e nd) l" if "root_inode e' = root_inode e" for l
  proof -
    have "Node_Inode e' nd = Node_Inode e nd" for nd using that by (cases nd) (simp_all add: Dir_info_def File_info_def)
    then show ?thesis by simp
  qed
  have "inodes_ok e' \<and> unat (inodeCount e') \<le> Suc (unat (inodeCount e))"
  proof (cases "same_tree e e'")
    case True
    then have "inodes_of e' = inodes_of e" "inodeCount e' = inodeCount e" using N by (simp_all add: same_tree_def inodes_of_def)
    then show ?thesis using assms(2) by (simp add: inodes_ok_def)
  next
    case False
    then obtain p f where f: "adds p f e e'" "root_inode e' = root_inode e" using assms(1) by (auto simp: tree_step_def)
    have "unat (inodeCount e + 1) = unat (inodeCount e) + unat (1 :: uint64)"
      using assms(3) by (subst unat_add_lem [symmetric]) simp
    then have c: "unat (inodeCount e') = Suc (unat (inodeCount e))" using f(1) by (simp add: adds_def)
    have i: "inodes_of e' = inodes_of e @ [inodeCount e']" using f N [OF f(2)] by (simp add: adds_def inodes_of_def File_info_def)
    have le: "\<forall>i \<in> set (inodes_of e). unat i \<le> unat (inodeCount e)" using assms(2) by (simp add: inodes_ok_def)
    have "inodeCount e' \<notin> set (inodes_of e)"
    proof
      assume "inodeCount e' \<in> set (inodes_of e)"
      from bspec [OF le this] c show False by simp
    qed
    then show ?thesis using assms(2) le c by (auto simp: inodes_ok_def i intro: le_SucI)
  qed
  then show "inodes_ok e'" "unat (inodeCount e') \<le> Suc (unat (inodeCount e))" by blast+
qed

section \<open>The operations\<close>

text \<open>What holds of an operation: it is a step of the tree, and the index is as good as before.\<close>

definition fine :: "Engine \<Rightarrow> Engine \<Rightarrow> bool" where
  "fine e e' \<longleftrightarrow> tree_step e e' \<and> steady (e_cache e) (e_cache e')"

lemma add_file_step:
  assumes "add_file p k e = (f, e')" "p \<noteq> []" "trim_slash p = p" "p \<notin> fst ` set (children e)" "idx (e_cache e)"
  shows "fine e e'" "map_of (children e') p = Some (FileNode f)" "f_remote f = None" "f_name f = p"
proof -
  let ?e1 = "e\<lparr>inodeCount := inodeCount e + 1\<rparr>"
  obtain sz err e2 where g: "on_cache (item_GetSize k) ?e1 = ((sz, err), e2)" by (metis prod_cases3 surj_pair)
  note c = on_cache_cache [OF g]
  have "steady (e_cache e) (snd (item_GetSize k (e_cache e)))"
    unfolding item_GetSize_def by (rule steady_run [OF assms(5)]) simp
  then have s: "steady (e_cache e) (e_cache e2)" using c by simp
  have f: "f_name f = p" "f_remote f = None" "f_inode f = inodeCount e + 1" "e' = AddChild p (FileNode f) e2"
    using assms(1) g by (auto simp: add_file_def newFile_def newInode_def Let_def split: if_splits)
  have u: "p \<notin> fst ` set l \<Longrightarrow> AList.update p v l = l @ [(p, v)]" for l and v :: Node by (induction l) auto
  have e2: "children e2 = children e" "inodeCount e2 = inodeCount e + 1" "root_inode e2 = root_inode e"
    using c by (auto simp: same_tree_def)
  have a: "adds p f e e'" using f assms(2-4) e2 u by (simp add: adds_def AddChild_def)
  then have "tree_step e e'" using f(4) e2 by (auto simp: tree_step_def AddChild_def)
  then show "fine e e'" using s f(4) by (simp add: fine_def AddChild_def)
  show "map_of (children e') p = Some (FileNode f)" using a using assms(4) by (auto simp: adds_def map_add_def map_of_eq_None_iff [symmetric])
  show "f_remote f = None" "f_name f = p" using f by simp_all
qed

lemma Stat_step:
  assumes "Stat p e = (r, e')" "tree_ok e" "idx (e_cache e)"
  shows "fine e e'"
    "r = Inr nd \<Longrightarrow> trim_slash p \<noteq> [] \<Longrightarrow>
       \<exists>f. nd = FileNode f \<and> map_of (children e') (trim_slash p) = Some nd \<and> f_remote f = None \<and> f_name f = trim_slash p"
    "r = Inl err \<Longrightarrow> same_tree e e' \<and> trim_slash p \<notin> fst ` set (children e') \<and> trim_slash p \<noteq> []"
proof -
  let ?p = "trim_slash p"
  have "fine e e' \<and> (\<forall>nd. r = Inr nd \<longrightarrow> ?p \<noteq> [] \<longrightarrow>
      (\<exists>f. nd = FileNode f \<and> map_of (children e') ?p = Some nd \<and> f_remote f = None \<and> f_name f = ?p))
    \<and> (\<forall>err. r = Inl err \<longrightarrow> same_tree e e' \<and> ?p \<notin> fst ` set (children e') \<and> ?p \<noteq> [])"
  proof (cases "?p = [] \<or> map_of (children e) ?p \<noteq> None")
    case True
    have "map_of (children e) ?p = Some nd \<Longrightarrow> \<exists>f. nd = FileNode f \<and> f_remote f = None \<and> f_name f = ?p" for nd
      using assms(2) map_of_SomeD unfolding tree_ok_def by fastforce
    moreover have "?p = [] \<Longrightarrow> r = Inr DirNode \<and> e' = e" "?p \<noteq> [] \<Longrightarrow> map_of (children e) ?p = Some nd \<Longrightarrow> r = Inr nd \<and> e' = e" for nd
      using assms(1) by (simp_all add: Stat_def Let_def)
    ultimately show ?thesis
      using True steady_refl [OF assms(3)] by (cases "?p = []") (auto simp: fine_def tree_step_def)
  next
    case False
    then have n: "?p \<noteq> []" "map_of (children e) ?p = None" "?p \<notin> fst ` set (children e)" by (auto simp: map_of_eq_None_iff)
    obtain k e1 where k: "on_cache (Item_op ?p) e = (k, e1)" by (cases "on_cache (Item_op ?p) e")
    obtain ex e2 where x: "on_cache (item_Exists k) e1 = (ex, e2)" by (cases "on_cache (item_Exists k) e1")
    note ck = on_cache_cache [OF k] and cx = on_cache_cache [OF x]
    have s1: "steady (e_cache e) (e_cache e1)" using steady_get(1) [OF assms(3)] ck by blast
    have "steady (e_cache e1) (snd (item_Exists k (e_cache e1)))"
      unfolding item_Exists_def by (rule steady_run [OF steady_idx [OF s1]]) simp
    then have s2: "steady (e_cache e) (e_cache e2)" using steady_trans [OF s1] cx by simp
    have t: "same_tree e e2" using ck cx by (auto simp: same_tree_def)
    show ?thesis
    proof (cases ex)
      case False
      then have "(r, e') = (Inl ErrNotExist, e2)" using assms(1) n k x by (simp add: Stat_def)
      then show ?thesis using s2 t n by (auto simp: fine_def tree_step_def same_tree_def)
    next
      case True
      obtain f e3 where f: "add_file ?p k e2 = (f, e3)" by (cases "add_file ?p k e2")
      have r: "(r, e') = (Inr (FileNode f), e3)" using assms(1) n k x f True by (simp add: Stat_def)
      have "?p \<notin> fst ` set (children e2)" using n(3) t by (simp add: same_tree_def)
      note a = add_file_step [OF f n(1) trim_idem this steady_idx [OF s2]]
      show ?thesis
        using a r tree_step_left [OF t] steady_trans [OF s2] by (auto simp: fine_def)
    qed
  qed
  then show "fine e e'"
    "r = Inr nd \<Longrightarrow> ?p \<noteq> [] \<Longrightarrow>
       \<exists>f. nd = FileNode f \<and> map_of (children e') ?p = Some nd \<and> f_remote f = None \<and> f_name f = ?p"
    "r = Inl err \<Longrightarrow> same_tree e e' \<and> ?p \<notin> fst ` set (children e') \<and> ?p \<noteq> []" by blast+
qed

lemma Stat_child: "map_of (children e) (trim_slash p) = Some nd \<Longrightarrow> trim_slash p \<noteq> [] \<Longrightarrow> Stat p e = (Inr nd, e)"
  by (simp add: Stat_def)

lemma newReadFileHandle_step:
  assumes "newReadFileHandle E f e = Some (r, e')" "f_remote f = None" "idx (e_cache e)"
  shows "same_tree e e'" "steady (e_cache e) (e_cache e')" "r = Inr h \<Longrightarrow> h_file h = f \<and> h_offset h = 0 \<and> \<not> h_closed h"
proof -
  obtain k e1 where k: "on_cache (Item_op (f_name f)) e = (k, e1)" by (cases "on_cache (Item_op (f_name f)) e")
  obtain sz err c where g: "item_GetSize k (e_cache e1) = ((sz, err), c)" by (metis prod_cases3 surj_pair)
  note ck = on_cache_cache [OF k]
  have s1: "steady (e_cache e) (e_cache e1)" using steady_get(1) [OF assms(3)] ck by blast
  have "steady (e_cache e1) (snd (item_GetSize k (e_cache e1)))"
    unfolding item_GetSize_def by (rule steady_run [OF steady_idx [OF s1]]) simp
  then have "steady (e_cache e) c" using steady_trans [OF s1] g by simp
  moreover have "e' = e1\<lparr>e_cache := c\<rparr>" "r = Inr h \<Longrightarrow> h_file h = f \<and> h_offset h = 0 \<and> \<not> h_closed h"
    using assms(1,2) k g by (auto simp: newReadFileHandle_def Let_def)
  ultimately show "same_tree e e'" "steady (e_cache e) (e_cache e')" "r = Inr h \<Longrightarrow> h_file h = f \<and> h_offset h = 0 \<and> \<not> h_closed h"
    using ck by simp_all
qed

text \<open>A handle is on the file that the tree has for its name.\<close>

definition on_tree :: "Engine \<Rightarrow> ReadFileHandle \<Rightarrow> bool" where
  "on_tree e h \<longleftrightarrow> map_of (children e) (f_name (h_file h)) = Some (FileNode (h_file h)) \<and> f_remote (h_file h) = None"

lemma Dir_OpenFile_step:
  assumes "Dir_OpenFile E p 0 e = Some (r, e')" "tree_ok e" "idx (e_cache e)"
  shows "fine e e'" "r = Inr h \<Longrightarrow> on_tree e' h"
    "map_of (children e) (trim_slash p) \<noteq> None \<Longrightarrow> same_tree e e'"
    "r = Inr h \<Longrightarrow> f_name (h_file h) = trim_slash p \<and> h_offset h = 0 \<and> \<not> h_closed h"
proof -
  let ?p = "trim_slash p"
  have "fine e e' \<and> (r = Inr h \<longrightarrow> on_tree e' h \<and> f_name (h_file h) = ?p \<and> h_offset h = 0 \<and> \<not> h_closed h)
    \<and> (map_of (children e) ?p \<noteq> None \<longrightarrow> same_tree e e')"
  proof (cases "?p = []")
    case True
    then show ?thesis using assms(1,3) steady_refl by (auto simp: Dir_OpenFile_def fine_def tree_step_def)
  next
    case False
    obtain q e1 where s: "Stat ?p e = (q, e1)" by (cases "Stat ?p e")
    note S = Stat_step [OF s assms(2,3), unfolded trim_idem]
    have c: "map_of (children e) ?p \<noteq> None \<Longrightarrow> e1 = e" using Stat_child [of e ?p] False s by (auto simp: trim_idem)
    show ?thesis
    proof (cases q)
      case (Inl err)
      then show ?thesis using assms(1) False s S(1) c by (auto simp: Dir_OpenFile_def)
    next
      case (Inr nd)
      then obtain f where f: "nd = FileNode f" "map_of (children e1) ?p = Some nd" "f_remote f = None" "f_name f = ?p"
        using S(2) False by blast
      then have N: "newReadFileHandle E f e1 = Some (r, e')"
        using assms(1) False s Inr by (simp add: Dir_OpenFile_def accessModeMask_def File_Open_def File_info_def)
      have i: "idx (e_cache e1)" using S(1) steady_idx by (auto simp: fine_def)
      note n = newReadFileHandle_step [OF N f(3) i]
      have "fine e e'" using S(1) n(1,2) tree_step_right steady_trans by (auto simp: fine_def)
      moreover have "r = Inr h \<Longrightarrow> on_tree e' h" using n(1,3) f by (auto simp: on_tree_def same_tree_def)
      ultimately show ?thesis using n(1,3) c f by auto
    qed
  qed
  then show "fine e e'" "r = Inr h \<Longrightarrow> on_tree e' h"
    "map_of (children e) (trim_slash p) \<noteq> None \<Longrightarrow> same_tree e e'"
    "r = Inr h \<Longrightarrow> f_name (h_file h) = trim_slash p \<and> h_offset h = 0 \<and> \<not> h_closed h" by blast+
qed

end
