(* ===== verification/EngineProps.thy ===== *)
theory EngineProps
  imports EngineTree
begin

text \<open>
  The properties of the engine over whole sessions.
\<close>

section \<open>A step of a session\<close>

lemma OpenCached_step:
  assumes "OpenCached E p ob e = Some (r, e')" "tree_ok e" "idx (e_cache e)" "tame E"
  shows "fine e e'" "r = Inr h \<Longrightarrow> on_tree e' h"
    "r = Inr h \<Longrightarrow> ob \<noteq> None \<Longrightarrow>
       \<exists>k. map_of (c_item (e_cache e')) (clean (trim_slash p)) = Some k \<and> 0 < snd (tg (e_cache e') k)"
    "r = Inr h \<Longrightarrow> f_name (h_file h) = trim_slash p \<and> h_offset h = 0 \<and> \<not> h_closed h"
proof -
  let ?p = "trim_slash p"
  have "fine e e' \<and> (\<forall>h. r = Inr h \<longrightarrow> on_tree e' h \<and> (f_name (h_file h) = ?p \<and> h_offset h = 0 \<and> \<not> h_closed h) \<and> (ob \<noteq> None \<longrightarrow>
       (\<exists>k. map_of (c_item (e_cache e')) (clean ?p) = Some k \<and> 0 < snd (tg (e_cache e') k))))"
  proof (cases "?p = []")
    case True
    then show ?thesis using assms(1,3) steady_refl by (auto simp: OpenCached_def fine_def tree_step_def)
  next
    case False
    obtain k e1 where k: "on_cache (Item_op ?p) e = (k, e1)" by (cases "on_cache (Item_op ?p) e")
    note ck = on_cache_cache [OF k]
    note K = steady_get [OF assms(3) ck [THEN conjunct1]]
    have t: "env_tame (c_env E k)" using assms(4) by (simp add: tame_def)
    obtain err c where o: "(case ob of None \<Rightarrow> Some (None, e_cache e1) | Some _ \<Rightarrow> item_Open E k ob (e_cache e1)) = Some (err, c)"
      using assms(1) False k by (auto simp: OpenCached_def Let_def split: option.splits)
    have c: "steady (e_cache e) c" "map_of (c_item c) (clean ?p) = Some k" "ob \<noteq> None \<Longrightarrow> err = None \<Longrightarrow> 0 < snd (tg c k)"
    proof -
      have "steady (e_cache e1) c \<and> map_of (c_item c) (clean ?p) = Some k \<and> (ob \<noteq> None \<longrightarrow> err = None \<longrightarrow> 0 < snd (tg c k))"
      proof (cases ob)
        case None
        then show ?thesis using o K steady_refl [OF steady_idx [OF K(1)]] by simp
      next
        case (Some q)
        then have "item_Open_loop E k ob 3 (e_cache e1) = Some (err, c)" using o by (simp add: item_Open_def)
        from item_Open_steady [OF t this steady_idx [OF K(1)] K(2)] K(2) show ?thesis by simp
      qed
      then show "steady (e_cache e) c" "map_of (c_item c) (clean ?p) = Some k" "ob \<noteq> None \<Longrightarrow> err = None \<Longrightarrow> 0 < snd (tg c k)"
        using steady_trans [OF K(1)] by auto
    qed
    let ?e2 = "e1\<lparr>e_cache := c\<rparr>"
    have same: "same_tree e ?e2" using ck by simp
    have ok2: "tree_ok ?e2" "idx (e_cache ?e2)"
      using assms(2) same steady_idx [OF c(1)] by (simp_all add: tree_ok_def same_tree_def)
    show ?thesis
    proof (cases err)
      case (Some er)
      then have "e' = ?e2" "\<And>h. r \<noteq> Inr h" using assms(1) False k o by (auto simp: OpenCached_def Let_def)
      then show ?thesis using same c(1) by (auto simp: fine_def tree_step_def)
    next
      case None
      obtain q e3 where s: "Stat ?p ?e2 = (q, e3)" by (cases "Stat ?p ?e2")
      note S = Stat_step [OF s ok2, unfolded trim_idem]
      have A: "\<exists>e4. fine ?e2 e4 \<and> map_of (children e4) ?p \<noteq> None \<and> Dir_OpenFile E ?p 0 e4 = Some (r, e')"
      proof (cases q)
        case (Inr nd)
        then have "Dir_OpenFile E ?p 0 e3 = Some (r, e')"
          using assms(1) False k o None s by (simp add: OpenCached_def)
        then show ?thesis using S(1,2) Inr False by (intro exI [of _ e3]) auto
      next
        case (Inl er)
        obtain f e4 where f: "add_file ?p k e3 = (f, e4)" by (cases "add_file ?p k e3")
        have r: "Dir_OpenFile E ?p 0 e4 = Some (r, e')"
          using assms(1) False k o None s Inl f by (simp add: OpenCached_def)
        have i3: "idx (e_cache e3)" using S(1) steady_idx by (auto simp: fine_def)
        have t3: "same_tree ?e2 e3" "?p \<notin> fst ` set (children e3)" using S(3) [OF Inl] by blast+
        note a = add_file_step [OF f False trim_idem t3(2) i3]
        have "fine ?e2 e4" using a(1) S(1) tree_step_left [OF t3(1)] steady_trans by (auto simp: fine_def)
        then show ?thesis using a(2) r by auto
      qed
      then obtain e4 where e4: "fine ?e2 e4" "map_of (children e4) ?p \<noteq> None" "Dir_OpenFile E ?p 0 e4 = Some (r, e')" by blast
      have ok4: "tree_ok e4" "idx (e_cache e4)"
        using e4(1) step_ok [OF _ ok2(1)] steady_idx by (auto simp: fine_def)
      note D = Dir_OpenFile_step [OF e4(3) ok4, unfolded trim_idem]
      have st: "steady c (e_cache e')" using D(1) e4(1) steady_trans [of c "e_cache e4" "e_cache e'"] by (simp add: fine_def)
      have f: "fine e e'"
      proof -
        have "tree_step ?e2 e'" using tree_step_right D(3) e4(1,2) unfolding fine_def by blast
        then show ?thesis using tree_step_left [OF same] steady_trans [OF c(1) st] unfolding fine_def by blast
      qed
      have "ob \<noteq> None \<Longrightarrow> map_of (c_item (e_cache e')) (clean ?p) = Some k \<and> 0 < snd (tg (e_cache e') k)"
        using st c(2) c(3) [OF _ None] unfolding steady_def by fastforce
      then show ?thesis using f D(2,4) by auto
    qed
  qed
  then show "fine e e'" "r = Inr h \<Longrightarrow> on_tree e' h"
    "r = Inr h \<Longrightarrow> ob \<noteq> None \<Longrightarrow>
       \<exists>k. map_of (c_item (e_cache e')) (clean (trim_slash p)) = Some k \<and> 0 < snd (tg (e_cache e') k)"
    "r = Inr h \<Longrightarrow> f_name (h_file h) = trim_slash p \<and> h_offset h = 0 \<and> \<not> h_closed h" by blast+
qed

lemma fh_readAt_step:
  assumes "fh_readAt E n off h e = Some (r, e')" "idx (e_cache e)" "tame E"
  shows "same_tree e e'" "steady (e_cache e) (e_cache e')"
proof -
  obtain k e1 where k: "on_cache (Item_op (f_name (h_file h))) e = (k, e1)" by (cases "on_cache (Item_op (f_name (h_file h))) e")
  note ck = on_cache_cache [OF k]
  note K = steady_get [OF assms(2) ck [THEN conjunct1]]
  obtain c where c: "item_ReadAt E k n off (e_cache e1) = Some (r, c)" "e' = e1\<lparr>e_cache := c\<rparr>"
    using assms(1) k by (auto simp: fh_readAt_def split: option.splits)
  have "env_tame (c_env E k)" using assms(3) by (simp add: tame_def)
  from item_ReadAt_steady [OF this steady_idx [OF K(1)] c(1)] steady_trans [OF K(1)]
  show "same_tree e e'" "steady (e_cache e) (e_cache e')" using ck c(2) by auto
qed

definition session_ok :: "session \<Rightarrow> bool" where
  "session_ok s \<longleftrightarrow> tree_ok (fst s) \<and> idx (e_cache (fst s)) \<and> list_all (on_tree (fst s)) (snd s)"

lemma on_tree_step: "tree_step e e' \<Longrightarrow> on_tree e h \<Longrightarrow> on_tree e' h"
  by (auto simp: tree_step_def same_tree_def adds_def on_tree_def)

lemma opened_step:
  assumes "opened x hs = Some (e', hs')"
  obtains r where "x = Some (r, e')" "hs' = (case r of Inl _ \<Rightarrow> hs | Inr h \<Rightarrow> hs @ [h])"
  using assms by (cases x) (auto simp: opened_def)

text \<open>One step: what becomes of the tree, of the index, and of the handles.\<close>

definition step_good :: "engine_op \<Rightarrow> Engine \<Rightarrow> session \<Rightarrow> bool" where
  "step_good op e s \<longleftrightarrow> tree_step e (fst s) \<and> ((\<forall>p. op \<noteq> OpRemove p) \<longrightarrow> steady (e_cache e) (e_cache (fst s))) \<and> session_ok s"

lemma good_I:
  assumes "session_ok (e, hs)" "tree_step e e'" "steady (e_cache e) (e_cache e')"
    and "\<And>h. h \<in> set hs' \<Longrightarrow> on_tree e' h \<or> (\<exists>h0 \<in> set hs. h_file h = h_file h0)"
  shows "step_good op e (e', hs')"
proof -
  have "on_tree e' h" if "h \<in> set hs'" for h
  proof -
    have o: "h0 \<in> set hs \<Longrightarrow> on_tree e' h0" for h0
      using assms(1) on_tree_step [OF assms(2)] by (auto simp: session_ok_def list_all_iff)
    show ?thesis using assms(4) [OF that] o by (auto simp: on_tree_def)
  qed
  then show ?thesis
    using assms(1-3) step_ok steady_idx by (auto simp: step_good_def session_ok_def list_all_iff)
qed

lemma estep_good:
  assumes "estep E op (e, hs) = Some s" "session_ok (e, hs)" "tame E"
  shows "step_good op e s"
proof -
  have ok: "tree_ok e" "idx (e_cache e)" using assms(2) by (simp_all add: session_ok_def)
  obtain e' hs' where s: "s = (e', hs')" by (cases s)
  have F: "step_good op e (e', hs')" if "fine e e'" "hs' = (case r of Inl _ \<Rightarrow> hs | Inr h \<Rightarrow> hs @ [h])" "\<And>h. r = Inr h \<Longrightarrow> on_tree e' h"
    for r :: "go_err + ReadFileHandle"
    using that by (intro good_I [OF assms(2)]) (auto simp: fine_def split: sum.splits)
  have I: "\<exists>h1 \<in> set hs. h_file h = h_file h1"
    if "h \<in> set (hs[i := h0])" "i < length hs" "h_file h0 = h_file (hs ! i)" for h h0 i
  proof (cases "h = h0")
    case True
    then show ?thesis using that(2,3) nth_mem [OF that(2)] by blast
  next
    case False
    then have "h \<in> set hs" using that(1) set_update_subset_insert [of hs i h0] by blast
    then show ?thesis by blast
  qed
  show ?thesis
  proof (cases op)
    case (OpStat p)
    then have "Stat p e = (fst (Stat p e), e')" "hs' = hs" using assms(1) s by auto
    from Stat_step(1) [OF this(1) ok] this(2) show ?thesis
      unfolding s by (intro good_I [OF assms(2)]) (auto simp: fine_def)
  next
    case (OpOpen p)
    then obtain r where r: "Engine_Open E p e = Some (r, e')" "hs' = (case r of Inl _ \<Rightarrow> hs | Inr h \<Rightarrow> hs @ [h])"
      using assms(1) s opened_step by (metis estep.simps(2))
    have "fine e e' \<and> (\<forall>h. r = Inr h \<longrightarrow> on_tree e' h)"
    proof (cases "trim_slash p = []")
      case True
      then show ?thesis using r ok steady_refl by (auto simp: Engine_Open_def fine_def tree_step_def)
    next
      case False
      then have "Dir_OpenFile E (trim_slash p) 0 e = Some (r, e')" using r by (simp add: Engine_Open_def)
      from Dir_OpenFile_step [OF this ok] show ?thesis by blast
    qed
    then show ?thesis using F [of r] r(2) s by simp
  next
    case (OpOpenFile p)
    then obtain r where r: "Engine_OpenFile E p e = Some (r, e')" "hs' = (case r of Inl _ \<Rightarrow> hs | Inr h \<Rightarrow> hs @ [h])"
      using assms(1) s opened_step by (metis estep.simps(3))
    from Dir_OpenFile_step [OF r(1) [unfolded Engine_OpenFile_def] ok] F [of r] r(2) s show ?thesis by simp
  next
    case (OpOpenCached p ob)
    then obtain r where r: "OpenCached E p ob e = Some (r, e')" "hs' = (case r of Inl _ \<Rightarrow> hs | Inr h \<Rightarrow> hs @ [h])"
      using assms(1) s opened_step by (metis estep.simps(4))
    from OpenCached_step [OF r(1) ok assms(3)] F [of r] r(2) s show ?thesis by simp
  next
    case (OpItem p)
    then have "on_cache (Item_op p) e = (fst (CacheItem p e), e')" "hs' = hs" using assms(1) s by (auto simp: CacheItem_def)
    with on_cache_cache [OF this(1)] steady_get(1) [OF ok(2)] show ?thesis
      unfolding s by (intro good_I [OF assms(2)]) (auto simp: tree_step_def)
  next
    case (OpRemove p)
    then have h: "hs' = hs" and e': "e' = snd (on_cache (Cache_Remove p) e)" using assms(1) s by (auto simp: Engine_Remove_def)
    have c: "e_cache e' = snd (Cache_Remove p (e_cache e))" by (simp add: e' on_cache_def split_beta)
    have t: "tg (snd (run_item k remove c0)) = tg c0" for k c0 by (rule tg_run) simp
    have "idx (e_cache e')"
      using ok(2) unfolding c by (auto simp: Cache_Remove_def t idx_def AList.delete_eq distinct_map_filter split: option.split)
    moreover have "same_tree e e'" by (simp add: e')
    ultimately show ?thesis
      using assms(2) OpRemove s h by (auto simp: step_good_def tree_step_def session_ok_def same_tree_def tree_ok_def on_tree_def list_all_iff)
  next
    case (OpRead i n)
    then obtain x h1 where x: "fh_Read E n (hs ! i) e = Some (x, h1, e')" "hs' = hs[i := h1]" "i < length hs"
      using assms(1) s by (auto split: if_splits)
    have "same_tree e e' \<and> steady (e_cache e) (e_cache e') \<and> h_file h1 = h_file (hs ! i)"
      using x(1) ok(2) steady_refl fh_readAt_step [OF _ ok(2) assms(3)]
      by (auto simp: fh_Read_def split: if_splits option.splits)
    then show ?thesis
      unfolding s x(2) using I x(3) by (intro good_I [OF assms(2)]) (auto simp: tree_step_def)
  next
    case (OpReadAt i n off)
    then obtain x where x: "fh_ReadAt E n off (hs ! i) e = Some (x, e')" "hs' = hs"
      using assms(1) s by (cases "fh_ReadAt E n off (hs ! i) e") (simp_all split: if_splits prod.splits)
    show ?thesis
      unfolding s x(2) using fh_readAt_step [OF x(1) [unfolded fh_ReadAt_def] ok(2) assms(3)]
      by (intro good_I [OF assms(2)]) (auto simp: tree_step_def)
  next
    case (OpSeek i off whence)
    then have "e' = e" "hs' = hs[i := snd (fh_Seek off whence (hs ! i))]" "i < length hs" using assms(1) s by (auto split: if_splits)
    moreover have "h_file (snd (fh_Seek off whence (hs ! i))) = h_file (hs ! i)" by (simp add: fh_Seek_def Let_def)
    ultimately show ?thesis
      unfolding s using I steady_refl [OF ok(2)] by (intro good_I [OF assms(2)]) (auto simp: tree_step_def)
  next
    case (OpClose i)
    then have "e' = e" "hs' = hs[i := snd (fh_Close (hs ! i))]" "i < length hs" using assms(1) s by (auto split: if_splits)
    moreover have "h_file (snd (fh_Close (hs ! i))) = h_file (hs ! i)" by (simp add: fh_Close_def)
    ultimately show ?thesis
      unfolding s using I steady_refl [OF ok(2)] by (intro good_I [OF assms(2)]) (auto simp: tree_step_def)
  next
    case (OpClean kicked)
    then have "e' = e\<lparr>e_cache := clean_run E kicked (e_cache e)\<rparr>" "hs' = hs" using assms(1) s by auto
    then show ?thesis
      unfolding s using steady_pruned [OF ok(2) clean_run_pruned [OF assms(3) ok(2)]]
      by (intro good_I [OF assms(2)]) (auto simp: tree_step_def)
  qed
qed

lemma erun_good:
  assumes "erun E ops s = Some s'" "session_ok s" "tame E"
  shows "session_ok s'"
    and "\<And>p nd. map_of (children (fst s)) p = Some nd \<Longrightarrow> map_of (children (fst s')) p = Some nd"
    and "list_all (\<lambda>op. \<forall>p. op \<noteq> OpRemove p) ops \<Longrightarrow> steady (e_cache (fst s)) (e_cache (fst s'))"
    and "inodes_ok (fst s) \<Longrightarrow> unat (inodeCount (fst s)) + length ops < 2 ^ 64 \<Longrightarrow> inodes_ok (fst s')"
proof -
  have "session_ok s' \<and> (\<forall>p nd. map_of (children (fst s)) p = Some nd \<longrightarrow> map_of (children (fst s')) p = Some nd)
    \<and> (list_all (\<lambda>op. \<forall>p. op \<noteq> OpRemove p) ops \<longrightarrow> steady (e_cache (fst s)) (e_cache (fst s')))
    \<and> (inodes_ok (fst s) \<longrightarrow> unat (inodeCount (fst s)) + length ops < 2 ^ 64 \<longrightarrow> inodes_ok (fst s'))"
    using assms(1,2)
  proof (induction ops arbitrary: s)
    case Nil
    then show ?case using steady_refl by (auto simp: session_ok_def)
  next
    case (Cons op ops)
    obtain e hs where s: "s = (e, hs)" by (cases s)
    obtain s1 where s1: "estep E op s = Some s1" "erun E ops s1 = Some s'" using Cons.prems(1) by (auto split: option.splits)
    have g: "step_good op e s1" using estep_good [OF _ _ assms(3)] s1(1) Cons.prems(2) s by simp
    then have ok1: "session_ok s1" and t: "tree_step e (fst s1)" by (auto simp: step_good_def)
    note IH = Cons.IH [OF s1(2) ok1]
    have m: "map_of (children (fst s)) p = Some nd \<Longrightarrow> map_of (children (fst s1)) p = Some nd" for p nd
      using t s by (auto simp: tree_step_def same_tree_def adds_def)
    have st: "(\<forall>p. op \<noteq> OpRemove p) \<Longrightarrow> steady (e_cache (fst s)) (e_cache (fst s1))" using g s by (simp add: step_good_def)
    have n: "inodes_ok (fst s1) \<and> unat (inodeCount (fst s1)) + length ops < 2 ^ 64"
      if "inodes_ok (fst s)" "unat (inodeCount (fst s)) + length (op # ops) < 2 ^ 64"
    proof -
      have "inodes_ok e" "unat (inodeCount e) < 2 ^ 64 - 1" using that s by simp_all
      from step_inodes [OF t this] that(2) s show ?thesis by simp
    qed
    show ?case
    proof (intro conjI allI impI)
      show "session_ok s'" using IH by blast
      show "map_of (children (fst s')) p = Some nd" if "map_of (children (fst s)) p = Some nd" for p nd
        using IH m [OF that] by blast
      show "steady (e_cache (fst s)) (e_cache (fst s'))" if "list_all (\<lambda>op. \<forall>p. op \<noteq> OpRemove p) (op # ops)"
        using IH st that steady_trans by auto
      show "inodes_ok (fst s')" if "inodes_ok (fst s)" "unat (inodeCount (fst s)) + length (op # ops) < 2 ^ 64"
        using IH n [OF that] by blast
    qed
  qed
  then show "session_ok s'"
    and "\<And>p nd. map_of (children (fst s)) p = Some nd \<Longrightarrow> map_of (children (fst s')) p = Some nd"
    and "list_all (\<lambda>op. \<forall>p. op \<noteq> OpRemove p) ops \<Longrightarrow> steady (e_cache (fst s)) (e_cache (fst s'))"
    and "inodes_ok (fst s) \<Longrightarrow> unat (inodeCount (fst s)) + length ops < 2 ^ 64 \<Longrightarrow> inodes_ok (fst s')" by blast+
qed

section \<open>A session to run\<close>

definition demo_engine :: Engine where
  "demo_engine = \<lparr>e_cache = demo_cache, children = [], root_mtime = 100, root_inode = 1, inodeCount = 1, e_inUse = True\<rparr>"

definition a_remote :: remote where
  "a_remote = \<lparr>ro_Size = 2, ro_Fingerprint = None, ro_ModTime = None\<rparr>"

lemma demo_engine_ok: "tame demo_cenv" "idx demo_cache" "session_ok (demo_engine, [])" "newEngine (Inr demo_cache) 0 = Inr demo_engine"
proof -
  show "tame demo_cenv" by (simp add: tame_def env_tame_def demo_cenv_def dead_remote_def)
  have "clean ''a'' = ''a''" "clean ''b'' = ''b''" "clean ''d'' = ''d''" by code_simp+
  then show "idx demo_cache"
    by (auto simp: idx_def demo_cache_fields tg_eq demo_objs_def demo_item_def fresh_Item_def)
  then show "session_ok (demo_engine, [])" by (simp add: session_ok_def demo_engine_def tree_ok_def)
  show "newEngine (Inr demo_cache) 0 = Inr demo_engine"
    by (simp add: newEngine_def demo_engine_def demo_cache_fields demo_world_def)
qed

section \<open>Properties\<close>

text \<open>C7: In every session of a new engine each path has at most one node, the node of a file carries its own path and
  no remote object, no inode is given out twice, every item is indexed under its clean name, and an open handle
  is on the node the tree has for its path.\<close>

theorem engine_tree:
  assumes "newEngine (Inr c) count = Inr e0" "idx c" "tame E" "erun E ops (e0, []) = Some (e, hs)"
    and "unat count + 1 + length ops < 2 ^ 64"
  shows "distinct (map fst (children e)) \<and> distinct (inodes_of e)
    \<and> (\<forall>(p, nd) \<in> set (children e). p \<noteq> [] \<and> trim_slash p = p \<and> (\<exists>f. nd = FileNode f \<and> f_name f = p \<and> f_remote f = None))
    \<and> (\<forall>(n, k) \<in> set (c_item (e_cache e)). clean n = n \<and> i_name (c_obj (e_cache e) k) = n)
    \<and> (\<forall>h \<in> set hs. map_of (children e) (f_name (h_file h)) = Some (FileNode (h_file h)))"
proof -
  have e0: "children e0 = []" "e_cache e0 = c" "inodeCount e0 = count + 1" "root_inode e0 = count + 1"
    using assms(1) by (auto simp: newEngine_def)
  have s: "session_ok (e0, [])" "inodes_ok e0" using assms(2) e0 by (simp_all add: session_ok_def tree_ok_def inodes_ok_def inodes_of_def)
  have "unat (count + 1) = unat count + unat (1 :: uint64)" using assms(5) by (subst unat_add_lem [symmetric]) simp
  then have n: "unat (inodeCount (fst (e0, []))) + length ops < 2 ^ 64" using assms(5) e0 by simp
  note R = erun_good [OF assms(4) s(1) assms(3)]
  have "inodes_ok e" using R(4) s(2) n by simp
  moreover have "session_ok (e, hs)" by (rule R(1))
  ultimately show ?thesis
    by (auto simp: session_ok_def tree_ok_def inodes_ok_def idx_def on_tree_def list_all_iff tg_eq)
qed

definition demo_ops :: "engine_op list" where
  "demo_ops = [OpStat ''/a/'', OpOpenCached ''b'' (Some a_remote), OpOpen ''b'', OpClean True, OpClose 0]"

lemma engine_tree_witness:
  "\<exists>e hs. erun demo_cenv demo_ops (demo_engine, []) = Some (e, hs) \<and> map fst (children e) = [''a'', ''b''] \<and> length hs = 2
     \<and> distinct (inodes_of e)"
proof -
  have "case erun demo_cenv demo_ops (demo_engine, []) of
      Some (e, hs) \<Rightarrow> map fst (children e) = [''a'', ''b''] \<and> length hs = 2 | None \<Rightarrow> False" by code_simp
  then obtain e hs where r: "erun demo_cenv demo_ops (demo_engine, []) = Some (e, hs)" "map fst (children e) = [''a'', ''b'']" "length hs = 2"
    by (auto split: option.splits)
  from engine_tree [OF demo_engine_ok(4,2,1) r(1)] r show ?thesis by (simp add: demo_ops_def)
qed



text \<open>The node of a path is made once: from the first time \<open>Stat\<close> finds a file its size and its inode stay the same,
  however the item changes, also when it is removed from the cache and fetched again.\<close>

theorem node_frozen:
  assumes "tame E" "session_ok (e, hs)" "Stat p e = (Inr nd, e1)" "erun E ops (e1, hs) = Some (e2, hs2)"
  shows "Stat p e2 = (Inr nd, e2)"
proof -
  have ok: "tree_ok e" "idx (e_cache e)" using assms(2) by (simp_all add: session_ok_def)
  note S = Stat_step [OF assms(3) ok]
  show ?thesis
  proof (cases "trim_slash p = []")
    case True
    then show ?thesis using assms(3) by (auto simp: Stat_def)
  next
    case False
    then have m: "map_of (children e1) (trim_slash p) = Some nd" using S(2) by blast
    have "session_ok (e1, hs)"
      using S(1) assms(2) step_ok on_tree_step steady_idx by (auto simp: session_ok_def fine_def list_all_iff)
    from erun_good(2) [OF assms(4) this assms(1)] m Stat_child False show ?thesis by simp
  qed
qed

lemma node_frozen_witness:
  "\<exists>f e1 e2. Stat ''a'' demo_engine = (Inr (FileNode f), e1) \<and> f_size f = 2 \<and> erun demo_cenv [OpRemove ''a''] (e1, []) = Some (e2, [])
     \<and> files (cfs (e_cache e2)) ''a'' = None \<and> Stat ''a'' e2 = (Inr (FileNode f), e2)"
proof -
  have c: "case Stat ''a'' demo_engine of (Inr (FileNode f), e1) \<Rightarrow> f_size f = 2
      \<and> (case erun demo_cenv [OpRemove ''a''] (e1, []) of Some (e2, hs2) \<Rightarrow> hs2 = [] \<and> files (cfs (e_cache e2)) ''a'' = None | None \<Rightarrow> False)
    | _ \<Rightarrow> False" by code_simp
  obtain x e1 where x: "Stat ''a'' demo_engine = (x, e1)" by (cases "Stat ''a'' demo_engine")
  from c obtain f where f: "x = Inr (FileNode f)" unfolding x by (cases x) (auto split: Node.splits)
  with x c obtain e2 where r: "Stat ''a'' demo_engine = (Inr (FileNode f), e1)" "f_size f = 2"
    "erun demo_cenv [OpRemove ''a''] (e1, []) = Some (e2, [])" "files (cfs (e_cache e2)) ''a'' = None"
    by (cases "erun demo_cenv [OpRemove ''a''] (e1, [])") auto
  from node_frozen [OF demo_engine_ok(1,3) r(1,3)] r show ?thesis by blast
qed

end
