(* ===== verification/EngineRead.thy ===== *)
theory EngineRead
  imports EngineProps DownloadersRun
begin

text \<open>
  Reading through a handle of the engine: against a reader of the object's bytes, for any sequence of reads,
  seeks and closes, and the end of the copy loop of \<open>ReadFileInto\<close>. The locale \<open>engine_file\<close> puts the contract
  of an item and its downloaders (\<open>dl_run\<close>) under the engine.
\<close>

section \<open>Operations of a handle\<close>

datatype read_op = RdRead nat | RdReadAt nat int64 | RdSeek int64 int | RdClose

datatype read_out = OutBytes "byte list" "go_err option" | OutPos int64 "go_err option" | OutClose "go_err option"

fun hstep :: "cenv \<Rightarrow> read_op \<Rightarrow> ReadFileHandle \<times> Engine \<Rightarrow> (read_out \<times> ReadFileHandle \<times> Engine) option" where
  "hstep E (RdRead n) (h, e) = map_option (\<lambda>((b, err), h', e'). (OutBytes b err, h', e')) (fh_Read E n h e)"
| "hstep E (RdReadAt n off) (h, e) = map_option (\<lambda>((b, err), e'). (OutBytes b err, h, e')) (fh_ReadAt E n off h e)"
| "hstep E (RdSeek off whence) (h, e) = (case fh_Seek off whence h of ((q, err), h') \<Rightarrow> Some (OutPos q err, h', e))"
| "hstep E RdClose (h, e) = (case fh_Close h of (err, h') \<Rightarrow> Some (OutClose err, h', e))"

fun hrun :: "cenv \<Rightarrow> read_op list \<Rightarrow> ReadFileHandle \<times> Engine \<Rightarrow> (read_out list \<times> ReadFileHandle \<times> Engine) option" where
  "hrun E [] s = Some ([], s)"
| "hrun E (op # ops) s = (case hstep E op s of
     None \<Rightarrow> None
   | Some (x, s1) \<Rightarrow> (case hrun E ops s1 of None \<Rightarrow> None | Some (xs, s2) \<Rightarrow> Some (x # xs, s2)))"

section \<open>The reader it refines\<close>

text \<open>
  What a file with the bytes \<open>C\<close> may answer from position \<open>p\<close>. A read that fails with another error than
  \<open>io.EOF\<close> delivers nothing that counts and leaves the position. Offsets that do not fit into 63 bits end the
  comparison.
\<close>

definition hard :: "go_err option \<Rightarrow> bool" where
  "hard err \<longleftrightarrow> err \<noteq> None \<and> err \<noteq> Some EOF"

definition reads_as :: "byte list \<Rightarrow> int \<Rightarrow> nat \<Rightarrow> byte list \<Rightarrow> go_err option \<Rightarrow> bool" where
  "reads_as C p n b err \<longleftrightarrow> hard err \<or> (b = take n (drop (nat p) C) \<and> (err = None \<longleftrightarrow> length b = n))"

fun agrees :: "byte list \<Rightarrow> read_op list \<Rightarrow> read_out list \<Rightarrow> int \<Rightarrow> bool \<Rightarrow> bool" where
  "agrees C [] [] p cl = True"
| "agrees C (RdRead n # ops) (OutBytes b err # outs) p cl =
     (if cl then b = [] \<and> err = Some ErrClosed \<and> agrees C ops outs p cl
      else if p < 0 \<or> max_int64 < p + int n then True
      else reads_as C p n b err \<and> agrees C ops outs (if hard err then p else p + int (length b)) cl)"
| "agrees C (RdReadAt n off # ops) (OutBytes b err # outs) p cl =
     (if sint off < 0 \<or> max_int64 < sint off + int n then True
      else reads_as C (sint off) n b err \<and> agrees C ops outs p cl)"
| "agrees C (RdSeek off whence # ops) (OutPos q err # outs) p cl =
     (if cl then q = 0 \<and> err = Some ErrClosed \<and> agrees C ops outs p cl
      else let p' = (if whence = 0 then sint off else if whence = 1 then p + sint off
                       else if whence = 2 then int (length C) + sint off else p)
           in \<not> fits64 p' \<or> (sint q = p' \<and> err = None \<and> agrees C ops outs p' cl))"
| "agrees C (RdClose # ops) (OutClose err # outs) p cl =
     (err = (if cl then Some ErrClosed else None) \<and> agrees C ops outs p True)"
| "agrees C _ _ p cl = False"

section \<open>The engine on top of an item\<close>

locale engine_file = dl_run C d es es' E
  for C :: "byte list" and d :: Downloaders and es es' :: "event list" and E :: env +
  fixes EE :: cenv and k :: nat and name :: string
  assumes env_k: "c_env EE k = dl_env d es es' E"
begin

definition serving :: "Engine \<Rightarrow> bool" where
  "serving e \<longleftrightarrow> map_of (c_item (e_cache e)) (clean name) = Some k \<and> usable C (at k (e_cache e))"

lemma Item_found: "serving e \<Longrightarrow> on_cache (Item_op name) e = (k, e)"
  by (simp add: serving_def on_cache_def Item_op_def get_def get0_def)

lemma readAt_serving:
  assumes "fh_readAt EE n off h e = Some ((b, err), e')" "serving e" "f_name (h_file h) = name"
    and "0 \<le> sint off" "sint off + int n \<le> max_int64"
  shows "serving e'" "reads_as C (sint off) n b err"
proof -
  obtain w where w: "ReadAt (dl_env d es es' E) n off (at k (e_cache e)) = Some ((b, err), w)"
    "e' = e\<lparr>e_cache := put_back k w (e_cache e)\<rparr>"
    using assms(1) Item_found [OF assms(2)] assms(3)
    by (auto simp: fh_readAt_def item_ReadAt_def env_k split: option.splits)
  have u: "usable C (at k (e_cache e))" using assms(2) by (simp add: serving_def)
  from ReadAt_correct [OF w(1) u assms(4,5)]
  show "serving e'" "reads_as C (sint off) n b err"
    using assms(2) by (auto simp: serving_def w(2) right_bytes_def reads_as_def hard_def)
qed

lemma length_C: "int (length C) \<le> max_int64" by (rule C_fits)

lemma hrun_agrees:
  assumes "hrun EE ops (h, e) = Some (outs, s)" "serving e" "f_name (h_file h) = name" "sint (h_size h) = int (length C)"
  shows "agrees C ops outs (sint (h_offset h)) (h_closed h)"
  using assms
proof (induction ops arbitrary: h e outs)
  case (Cons op ops)
  obtain x h1 e1 xs where x: "hstep EE op (h, e) = Some (x, h1, e1)" "hrun EE ops (h1, e1) = Some (xs, s)" "outs = x # xs"
    using Cons.prems(1) by (auto split: option.splits)
  note IH = Cons.IH [OF x(2)]
  show ?case
  proof (cases op)
    case (RdRead n)
    then obtain b err where r: "fh_Read EE n h e = Some ((b, err), h1, e1)" "x = OutBytes b err" using x(1) by auto
    show ?thesis
    proof (cases "h_closed h \<or> sint (h_offset h) < 0 \<or> max_int64 < sint (h_offset h) + int n")
      case True
      then show ?thesis using r RdRead x(3) IH Cons.prems by (cases "h_closed h") (auto simp: fh_Read_def)
    next
      case False
      then have f: "fh_readAt EE n (h_offset h) h e = Some ((b, err), e1)"
        "h1 = (if hard err then h else h\<lparr>h_offset := h_offset h + word_of_nat (length b)\<rparr>)"
        using r(1) by (auto simp: fh_Read_def hard_def split: option.splits if_splits)
      have B: "0 \<le> sint (h_offset h)" "sint (h_offset h) + int n \<le> max_int64" using False by simp_all
      note R = readAt_serving [OF f(1) Cons.prems(2,3) B]
      have o: "sint (h_offset h1) = (if hard err then sint (h_offset h) else sint (h_offset h) + int (length b))"
      proof (cases "hard err")
        case False
        then have "length b \<le> n" using R(2) by (auto simp: reads_as_def)
        moreover from this have "sint (word_of_nat (length b) :: int64) = int (length b)"
          using B by (intro sint_of_nat64 fits64I) linarith+
        ultimately have "sint (h_offset h + word_of_nat (length b)) = sint (h_offset h) + int (length b)"
          using B by (subst sint_add64) auto
        then show ?thesis using f(2) False by simp
      qed (simp add: f(2))
      have "h_file h1 = h_file h" "h_size h1 = h_size h" "h_closed h1 = h_closed h" using f(2) by auto
      then show ?thesis using IH R o False Cons.prems RdRead r(2) x(3) by simp
    qed
  next
    case (RdReadAt n off)
    then obtain b err where r: "fh_readAt EE n off h e = Some ((b, err), e1)" "x = OutBytes b err" "h1 = h"
      using x(1) by (auto simp: fh_ReadAt_def)
    show ?thesis
    proof (cases "sint off < 0 \<or> max_int64 < sint off + int n")
      case False
      then show ?thesis
        using readAt_serving [OF r(1) Cons.prems(2,3)] IH r(2,3) RdReadAt x(3) Cons.prems(3,4) by simp
    qed (use RdReadAt r x(3) in simp)
  next
    case (RdSeek off whence)
    let ?pos = "if whence = 0 then sint off else if whence = 1 then sint (h_offset h) + sint off
       else if whence = 2 then int (length C) + sint off else sint (h_offset h)"
    obtain q err where r: "fh_Seek off whence h = ((q, err), h1)" "x = OutPos q err" "e1 = e"
      using x(1) RdSeek by (auto split: prod.splits)
    show ?thesis
    proof (cases "h_closed h \<or> \<not> fits64 ?pos")
      case True
      then show ?thesis using r IH RdSeek x(3) Cons.prems by (cases "h_closed h") (auto simp: fh_Seek_def Let_def)
    next
      case False
      then have "q = (if whence = 0 then off else if whence = 2 then h_size h + off
          else if whence = 1 then h_offset h + off else h_offset h)" "err = None" "h1 = h\<lparr>h_offset := q\<rparr>"
        using r(1) by (auto simp: fh_Seek_def Let_def)
      moreover from this have "sint q = ?pos"
        using False Cons.prems(4) sint_add64 [of "h_offset h" off] sint_add64 [of "h_size h" off] by (auto simp: add.commute)
      ultimately show ?thesis using False IH RdSeek r(2,3) x(3) Cons.prems by (auto simp: Let_def)
    qed
  next
    case RdClose
    then have "h1 = h\<lparr>h_closed := True\<rparr>" "x = OutClose (if h_closed h then Some ErrClosed else None)" "e1 = e"
      using x(1) by (cases "h_closed h"; cases h; auto simp: fh_Close_def)+
    then show ?thesis using IH RdClose x(3) Cons.prems by auto
  qed
qed simp

text \<open>
  The copy loop. No read waits when no reset is going on and the environment begins none (\<open>calm\<close>, below).
\<close>

lemma copy_ends:
  assumes "serving e" "f_name (h_file h) = name" "\<not> h_closed h" "0 \<le> sint (h_offset h)" "sint (h_offset h) \<le> int (length C)"
    and "int (length C) + 32768 \<le> max_int64"
    and never: "\<And>n off h e. serving e \<Longrightarrow> f_name (h_file h) = name \<Longrightarrow> live e \<Longrightarrow>
        \<exists>r e'. fh_readAt EE n off h e = Some (r, e') \<and> live e'" and "live e"
  shows "\<exists>out' err h' e'. copy_handle EE out h e = Some (out', err, h', e')
    \<and> (err = None \<longrightarrow> out' = out @ drop (nat (sint (h_offset h))) C)"
  using assms(1-5,8)
proof (induction "length C - nat (sint (h_offset h))" arbitrary: out h e rule: less_induct)
  case less
  let ?p = "nat (sint (h_offset h))"
  obtain b err e1 where r: "fh_readAt EE 32768 (h_offset h) h e = Some ((b, err), e1)" "live e1"
    using never [OF less.prems(1,2,6)] by (metis surj_pair)
  have B: "0 \<le> sint (h_offset h)" "sint (h_offset h) + int 32768 \<le> max_int64" using less.prems(4,5) assms(6) by simp_all
  note R = readAt_serving [OF r(1) less.prems(1,2) B]
  show ?case
  proof (cases "err = None")
    case False
    then obtain er where er: "err = Some er" by blast
    have c: "copy_handle EE out h e = Some (out @ b, if er = EOF then None else Some er,
        if hard err then h else h\<lparr>h_offset := h_offset h + word_of_nat (length b)\<rparr>, e1)"
      using r(1) er less.prems(3) by (subst copy_handle.simps) (auto simp: fh_Read_def hard_def)
    have "b = drop ?p C" if "er = EOF"
      using R(2) er that by (auto simp: reads_as_def hard_def)
    then show ?thesis using c by auto
  next
    case None: True
    have b: "b = take 32768 (drop ?p C)" "length b = 32768" using R(2) None by (auto simp: reads_as_def hard_def)
    let ?h = "h\<lparr>h_offset := h_offset h + word_of_nat (length b)\<rparr>"
    have o: "sint (h_offset ?h) = sint (h_offset h) + 32768"
      using B b(2) by simp (subst sint_add64; simp add: i64 fits64_def)
    have l: "?p + 32768 \<le> length C" using b by simp
    have c: "copy_handle EE out h e = copy_handle EE (out @ b) ?h e1"
      using r(1) None less.prems(3) by (subst copy_handle.simps) (simp add: fh_Read_def)
    have q: "nat (sint (h_offset ?h)) = ?p + 32768" using o B(1) by simp
    obtain out' er h' e' where IH: "copy_handle EE (out @ b) ?h e1 = Some (out', er, h', e')"
      "er = None \<longrightarrow> out' = (out @ b) @ drop (?p + 32768) C"
    proof -
      have m: "length C - nat (sint (h_offset ?h)) < length C - ?p" unfolding q using l by linarith
      have p: "f_name (h_file ?h) = name" "\<not> h_closed ?h" "0 \<le> sint (h_offset ?h)" "sint (h_offset ?h) \<le> int (length C)"
        using less.prems(2,3) B(1) l unfolding o by simp_all
      from less.hyps [OF m R(1) p r(2), of "out @ b"] show ?thesis using that unfolding q by blast
    qed
    have "b @ drop (?p + 32768) C = drop ?p C"
      unfolding b(1) by (metis add.commute append_take_drop_id drop_drop)
    then show ?thesis using IH c by auto
  qed
qed

end

section \<open>Reads that do not wait\<close>

text \<open>An environment that begins no reset.\<close>

definition calm :: "env \<Rightarrow> bool" where
  "calm E \<longleftrightarrow> (\<forall>w r. \<not> beingReset (it w) \<longrightarrow> \<not> beingReset (it (snd (e_Download E r w)))
     \<and> \<not> beingReset (it (snd (e_EnsureDownloader E r w))) \<and> \<not> beingReset (it (e_KickCleaner E w)))"

lemma calm_simps [simp]: "beingReset (it (upd_info f w)) = beingReset (it w)"
  "beingReset (it (upd_it (\<lambda>i. i\<lparr>downloaders := b\<rparr>) w)) = beingReset (it w)"
  "beingReset (it (upd_it (\<lambda>i. i\<lparr>pendingAccesses := pf i\<rparr>) w)) = beingReset (it w)"
  by (simp_all add: upd_info_def upd_it_def)

lemma reset_truncate: "beingReset (it (snd (CacheItem.truncate sz w))) = beingReset (it w)"
proof -
  have "beingReset (it (snd (truncate_fd i sz w))) = beingReset (it w)" for i w
    by (simp add: truncate_fd_def split_beta split: option.split)
  then show ?thesis
    by (simp add: CacheItem.truncate_def split_beta removeMeta_def Let_def split: option.split sum.split)
qed

lemma reset_readAt: "calm E \<Longrightarrow> \<not> beingReset (it w) \<Longrightarrow> \<not> beingReset (it (snd (readAt E n off w)))"
proof -
  assume a: "calm E" "\<not> beingReset (it w)"
  have "\<not> beingReset (it (snd (ensure E off z w)))" for z using a by (simp add: ensure_def calm_def Let_def)
  then show ?thesis
    using a(2) by (simp add: readAt_def file_ReadAt_def split_beta reset_truncate split: option.split)
qed

lemma ReadAt_returns:
  assumes "calm E" "\<not> beingReset (it w)"
  shows "\<exists>r w'. ReadAt_loop E n off j m w = Some (r, w') \<and> \<not> beingReset (it w')"
  using assms(2)
proof (induction m arbitrary: j w)
  case (Suc m)
  let ?w1 = "upd_it (\<lambda>i. i\<lparr>pendingAccesses := pendingAccesses i + 1\<rparr>) w"
  obtain b err w2 where r: "readAt E n off ?w1 = ((b, err), w2)" by (metis prod_cases3 surj_pair)
  have g: "guarded (readAt E n off) w = Some ((b, err), postAccess w2)"
    using Suc.prems r by (simp add: guarded_def preAccess_def)
  have c: "\<not> beingReset (it (postAccess w2))"
    using reset_readAt [OF assms(1), of ?w1 n off] Suc.prems r by (simp add: postAccess_def)
  have k: "\<not> beingReset (it ((e_KickCleaner E (postAccess w2))\<lparr>now := t\<rparr>))" for t
    using assms(1) c by (simp add: calm_def)
  show ?case using g c k Suc.IH [OF k] by (cases err) (auto simp: Let_def)
qed simp

text \<open>The downloaders do not begin resets, nor do they change names or counts.\<close>

definition frozen :: "world \<Rightarrow> string \<times> int \<times> bool" where
  "frozen w = (i_name (it w), CacheItem.Item.opens (it w), beingReset (it w))"

lemma frozen_WriteAtNoOverwrite: "frozen (snd (WriteAtNoOverwrite b off w)) = frozen w"
proof -
  have f: "frozen (snd (file_WriteAt b off w)) = frozen w" for b off w
    by (simp add: file_WriteAt_def frozen_def split: option.split)
  have w: "frozen (written off z w) = frozen w" for off z w by (simp add: written_def frozen_def upd_info_def upd_it_def)
  have "frozen (snd (no_overwrite frs b off n sk w)) = frozen w" for frs n sk
  proof (induction frs b off n sk w rule: no_overwrite.induct)
    case (2 r present frs b off n sk w)
    obtain nn e0 w1 where x: "file_WriteAt (take (nat (sint (Size r))) b) off w = ((nn, e0), w1)" by (metis prod_cases3 surj_pair)
    have "frozen w1 = frozen w" using f [of "take (nat (sint (Size r))) b" off w] x by simp
    then show ?case using 2 x w by (auto simp: Let_def)
  qed simp
  then show ?thesis by (simp add: WriteAtNoOverwrite_def)
qed

lemma frozen_dstep: "dstep ev d = Some d' \<Longrightarrow> frozen (item d') = frozen (item d)"
proof -
  assume a: "dstep ev d = Some d'"
  have w: "frozen (item (write_step i p er d)) = frozen (item d)" for i p er d
  proof -
    obtain n sk e0 w1 where "WriteAtNoOverwrite p (dl_offset (dl d i)) (item d) = ((n, sk, e0), w1)" by (metis prod_cases3 surj_pair)
    then show ?thesis
      using frozen_WriteAtNoOverwrite [of p "dl_offset (dl d i)" "item d"]
      by (simp add: write_step_def dl_write_def Let_def upd_dl_def)
  qed
  have k: "item (kick_step i n err p er d) = item d" for i n err p er by (simp add: kick_step_def split_beta)
  have D: "item (Download r d) = item d" for r
    using ensure_fields(1) [of r "d\<lparr>next_waiter := Suc (next_waiter d)\<rparr>"] by (simp add: Download_def Let_def split_beta split: option.split)
  show ?thesis
    using a w k D by (cases ev) (auto simp: EnsureDownloader_def close_end_def Let_def split: if_splits phase.splits option.splits list.splits prod.splits)
qed

lemma frozen_dsched: "frozen (item (dsched evs d)) = frozen (item d)"
  by (induction evs arbitrary: d) (auto simp: dsched_Cons dsched_def [of "[]"] frozen_dstep split: option.split)

lemma dl_env_frozen: "frozen (snd (e_Download (dl_env d es es' E) r w)) = frozen w"
  "frozen (snd (e_EnsureDownloader (dl_env d es es' E) r w)) = frozen w"
proof -
  have D: "item (Download r (d\<lparr>item := w\<rparr>)) = w"
    using ensure_fields(1) [of r "d\<lparr>item := w, next_waiter := Suc (next_waiter d)\<rparr>"] by (simp add: Download_def Let_def split_beta split: option.split)
  show "frozen (snd (e_Download (dl_env d es es' E) r w)) = frozen w"
    using frozen_dsched [of es "Download r (d\<lparr>item := w\<rparr>)"] D by (simp add: dl_env_def Download_run_def Let_def split: option.split prod.split)
  show "frozen (snd (e_EnsureDownloader (dl_env d es es' E) r w)) = frozen w"
    using frozen_dsched [of es' "snd (EnsureDownloader r (d\<lparr>item := w\<rparr>))"] by (simp add: dl_env_def Ensure_run_def EnsureDownloader_def split_beta)
qed

lemma dl_env_calm: "\<forall>w. \<not> beingReset (it w) \<longrightarrow> \<not> beingReset (it (e_KickCleaner E w)) \<Longrightarrow> calm (dl_env d es es' E)"
  using dl_env_frozen [of d es es' E] by (auto simp: calm_def frozen_def) (simp add: dl_env_def)

section \<open>A file to read\<close>

text \<open>An item with the three bytes of \<open>demo_dls\<close>, all of them there, and a handle on it.\<close>

definition full_item :: Item where
  "full_item = (fresh_Item ''a'' 0)\<lparr>fd := Some 0, CacheItem.Item.opens := 1, info := (Info_clean 0)\<lparr>InfoSize := 3, Rs := [rg 0 3]\<rparr>\<rparr>"

definition full_fs :: Fs where
  "full_fs = \<lparr>files = [''a'' \<mapsto> 0], metas = Map.empty, inodes = (\<lambda>i. if i = 0 then [5, 6, 7] else []), mtimes = (\<lambda>_. 0),
     next_ino = 1, fault = (\<lambda>_. None), calls = 0\<rparr>"

definition full_engine :: Engine where
  "full_engine = demo_engine\<lparr>e_cache := (fresh_Cache (sample\<lparr>fs := full_fs\<rparr>) 0 (-1) (-1) 0)
     \<lparr>c_item := [(''a'', 0)], c_next := 1, c_obj := (\<lambda>_. full_item)\<rparr>\<rparr>"

definition full_cenv :: cenv where
  "full_cenv = demo_cenv\<lparr>c_env := (\<lambda>_. dl_env demo_dls demo_schedule [] dead_remote)\<rparr>"

definition full_handle :: ReadFileHandle where
  "full_handle = \<lparr>h_closed = False, h_file = \<lparr>f_inode = 2, f_size = 3, f_name = ''a'', f_remote = None\<rparr>, h_offset = 0, h_size = 3\<rparr>"

definition full_ops :: "read_op list" where
  "full_ops = [RdRead 2, RdRead 2, RdSeek (-1) 2, RdReadAt 1 1, RdClose, RdRead 1]"

interpretation demo_file: engine_file "[5, 6, 7]" demo_dls demo_schedule "[]" dead_remote full_cenv 0 "''a''"
  by unfold_locales (simp add: full_cenv_def)

lemma full_engine_ok:
  "map_of (c_item (e_cache full_engine)) (clean (f_name (h_file full_handle))) = Some 0"
  "usable [5, 6, 7] (at 0 (e_cache full_engine))"
  "\<not> beingReset (c_obj (e_cache full_engine) 0)" "c_env full_cenv 0 = dl_env demo_dls demo_schedule [] dead_remote"
  "\<And>w. readable C w \<Longrightarrow> usable C (e_KickCleaner dead_remote w)" "\<And>w. fd (it w) = None \<Longrightarrow> usable C (e_KickCleaner dead_remote w)"
  "list_all event_ok demo_schedule" "list_all event_ok []"
proof -
  have "clean ''a'' = ''a''" by code_simp
  then show "map_of (c_item (e_cache full_engine)) (clean (f_name (h_file full_handle))) = Some 0"
    by (simp add: full_engine_def full_handle_def)
  have "{0 ..< 3} = {0, 1, 2 :: int}" by auto
  then have "readable [5, 6, 7] (at 0 (e_cache full_engine))"
    by (auto simp: readable_def mirrors_def at_def full_engine_def full_item_def fresh_Item_def full_fs_def fresh_Cache_def file_data_def
      wf_ranges_def range_eval rset_def rbytes_def ok_range_def)
  then show "usable [5, 6, 7] (at 0 (e_cache full_engine))" by (simp add: usable_def)
  show "\<not> beingReset (c_obj (e_cache full_engine) 0)" by (simp add: full_engine_def full_item_def fresh_Item_def fresh_Cache_def)
  show "c_env full_cenv 0 = dl_env demo_dls demo_schedule [] dead_remote" by (simp add: full_cenv_def)
qed (simp_all add: dead_remote_def usable_def demo_schedule_def event_ok_def)

section \<open>Properties\<close>





end
