(* ===== verification/ProxyText.thy ===== *)
theory ProxyText
  imports CachePath GoIO
begin

text \<open>
  The text handling of \<open>pkg/proxy\<close>, \<open>caddy/module.go\<close> and \<open>main.go\<close>: cache paths from URLs, sizes such as
  \<open>100M\<close>, and URLs in base64. Strings are lists of bytes; \<open>md5.Sum\<close> is a parameter that returns 16 bytes.
\<close>

section \<open>strings\<close>

text \<open>\<open>strings.Index(s, sub)\<close>; \<open>None\<close> stands for -1.\<close>

fun str_Index :: "string \<Rightarrow> string \<Rightarrow> nat option" where
  "str_Index [] sub = (if sub = [] then Some 0 else None)"
| "str_Index (c # s) sub = (if has_prefix (c # s) sub then Some 0 else map_option Suc (str_Index s sub))"

text \<open>\<open>strings.TrimSpace\<close> for ASCII.\<close>

definition is_space :: "char \<Rightarrow> bool" where
  "is_space c \<longleftrightarrow> of_char c \<in> {9, 10, 11, 12, 13, 32 :: nat}"

definition TrimSpace :: "string \<Rightarrow> string" where
  "TrimSpace s = rev (dropWhile is_space (rev (dropWhile is_space s)))"

section \<open>Cache paths\<close>

text \<open>The verb \<open>%x\<close> for an array of bytes.\<close>

definition hex_digit :: "nat \<Rightarrow> char" where
  "hex_digit d = (if d < 10 then char_of (48 + d) else char_of (87 + d))"

definition hex :: "byte list \<Rightarrow> string" where
  "hex bs = concat (map (\<lambda>b. [hex_digit (unat b div 16), hex_digit (unat b mod 16)]) bs)"

text \<open>The part of the URL that is the key: without query, and without scheme and host, when so configured.\<close>

definition strip_query :: "string \<Rightarrow> string" where
  "strip_query s = (case str_Index s ''?'' of Some i \<Rightarrow> take i s | None \<Rightarrow> s)"

definition strip_domain :: "string \<Rightarrow> string" where
  "strip_domain s =
     (case str_Index s ''://'' of
        None \<Rightarrow> s
      | Some i \<Rightarrow> let r = drop (i + 3) s in (case str_Index r ''/'' of Some j \<Rightarrow> drop j r | None \<Rightarrow> ''/''))"

definition key_url :: "bool \<Rightarrow> bool \<Rightarrow> string \<Rightarrow> string" where
  "key_url sq sd url = (let k = (if sq then strip_query url else url) in if sd then strip_domain k else k)"

text \<open>The loop that puts the first \<open>n\<close> pairs of digits in front; it runs from pair \<open>i\<close>.\<close>

fun shards :: "nat \<Rightarrow> string \<Rightarrow> string" where
  "shards 0 h = []"
| "shards (Suc n) (a # b # h) = a # b # slash # shards n h"
| "shards (Suc n) h = []"

definition hash_path :: "int64 \<Rightarrow> string \<Rightarrow> string" where
  "hash_path level h = (if 0 <s level then shards (nat (sint level)) h @ h else h)"

section \<open>Sizes\<close>

definition is_digit :: "char \<Rightarrow> bool" where
  "is_digit c \<longleftrightarrow> of_char c \<in> {48 ..< 58 :: nat}"

definition digits_val :: "string \<Rightarrow> int" where
  "digits_val s = fold (\<lambda>c n. 10 * n + (of_char c - 48)) s 0"

text \<open>\<open>strconv.ParseInt(s, 10, 64)\<close>. One text stands for its errors.\<close>

definition ParseInt :: "string \<Rightarrow> go_err + int64" where
  "ParseInt s =
     (let neg = (s \<noteq> [] \<and> hd s = CHR ''-'');
          ds = (if s \<noteq> [] \<and> (hd s = CHR ''+'' \<or> hd s = CHR ''-'') then tl s else s);
          v = digits_val ds
      in if ds = [] \<or> \<not> list_all is_digit ds then Inl (Other ''strconv.ParseInt'')
         else if (if neg then v \<le> 2 ^ 63 else v < 2 ^ 63) then Inr (word_of_int (if neg then - v else v))
         else Inl (Other ''strconv.ParseInt''))"

definition parse_suffix :: "char \<Rightarrow> int64 option" where
  "parse_suffix c =
     (if c \<in> {CHR ''k'', CHR ''K''} then Some (2 ^ 10)
      else if c \<in> {CHR ''M'', CHR ''m''} then Some (2 ^ 20)
      else if c \<in> {CHR ''G'', CHR ''g''} then Some (2 ^ 30)
      else if c \<in> {CHR ''T'', CHR ''t''} then Some (2 ^ 40)
      else None)"

definition parseSize :: "string \<Rightarrow> go_err + int64" where
  "parseSize s0 =
     (let s = TrimSpace s0
      in if s = [] then Inr 0
         else case (case parse_suffix (last s) of Some m \<Rightarrow> (m, butlast s) | None \<Rightarrow> (1, s)) of
           (multiplier, s1) \<Rightarrow>
             (case ParseInt s1 of
                Inl e \<Rightarrow> Inl (Wrap ''invalid size'' e)
              | Inr v \<Rightarrow> Inr (v * multiplier)))"

section \<open>URLs in base64\<close>

text \<open>
  The alphabet of \<open>base64.URLEncoding\<close>, and \<open>DecodeString\<close> of \<open>RawURLEncoding\<close> and of \<open>URLEncoding\<close>: line breaks are
  ignored, and so are the bits of the last character that do not fill a byte.
\<close>

definition b64_val :: "char \<Rightarrow> nat option" where
  "b64_val c =
     (let n = of_char c
      in if 65 \<le> n \<and> n \<le> 90 then Some (n - 65)
         else if 97 \<le> n \<and> n \<le> 122 then Some (n - 71)
         else if 48 \<le> n \<and> n \<le> 57 then Some (n + 4)
         else if c = CHR ''-'' then Some 62
         else if c = CHR ''_'' then Some 63
         else None)"

fun vals :: "string \<Rightarrow> nat list option" where
  "vals [] = Some []"
| "vals (c # s) = (case (b64_val c, vals s) of (Some v, Some vs) \<Rightarrow> Some (v # vs) | _ \<Rightarrow> None)"

definition no_breaks :: "string \<Rightarrow> string" where
  "no_breaks s = filter (\<lambda>c. of_char c \<noteq> (10 :: nat) \<and> of_char c \<noteq> (13 :: nat)) s"

fun raw_bytes :: "nat list \<Rightarrow> string option" where
  "raw_bytes [] = Some []"
| "raw_bytes [a] = None"
| "raw_bytes [a, b] = Some [char_of (a * 4 + b div 16)]"
| "raw_bytes [a, b, c] = Some [char_of (a * 4 + b div 16), char_of (b mod 16 * 16 + c div 4)]"
| "raw_bytes (a # b # c # d # vs) = map_option (\<lambda>r. char_of (a * 4 + b div 16) # char_of (b mod 16 * 16 + c div 4)
     # char_of (c mod 4 * 64 + d) # r) (raw_bytes vs)"

definition raw_decode :: "string \<Rightarrow> string option" where
  "raw_decode s = Option.bind (vals (no_breaks s)) raw_bytes"

text \<open>With padding the length is a multiple of four and the last group may end with one or two \<open>=\<close>.\<close>

definition padded_decode :: "string \<Rightarrow> string option" where
  "padded_decode s0 =
     (let s = no_breaks s0; t = rev s
      in if length s mod 4 \<noteq> 0 then None
         else if t \<noteq> [] \<and> hd t = CHR ''=''
              then Option.bind (vals (rev (if tl t \<noteq> [] \<and> hd (tl t) = CHR ''='' then tl (tl t) else tl t))) raw_bytes
              else Option.bind (vals s) raw_bytes)"

text \<open>The target of \<open>/stream/...\<close>, and of the handler of \<open>main\<close> (\<open>param\<close> is the value of \<open>url\<close> in the query).\<close>

definition stream_target :: "string \<Rightarrow> string" where
  "stream_target path =
     (if has_prefix path ''/stream/''
      then let enc = drop (length ''/stream/'') path
           in (case raw_decode enc of Some u \<Rightarrow> u
               | None \<Rightarrow> (case padded_decode enc of Some u \<Rightarrow> u | None \<Rightarrow> []))
      else [])"

text \<open>\<open>mainHandler\<close>: the URL to serve, or nothing, which is answered with 400.\<close>

definition main_target :: "string \<Rightarrow> string \<Rightarrow> string option" where
  "main_target param path =
     (let u = (if param = [] then stream_target path else param) in if u = [] then None else Some u)"

end
