(* ===== verification/Proxy.thy ===== *)
theory Proxy
  imports ProxyText EngineRead
begin

text \<open>
  \<open>pkg/proxy/proxy.go\<close> and \<open>remote.go\<close>: the HTTP handler on top of the engine. What a call reads of the standard
  library is a parameter (\<open>stdlib\<close>), and so is the upstream server during a call (\<open>upstream\<close>). The answer of a
  call is a \<open>reply\<close>; the access log has no counterpart. Mutexes are held for single updates only, so a call is
  one step here; calls that overlap are not modelled.
\<close>

section \<open>HTTP\<close>

text \<open>Headers have canonical keys. \<open>Get\<close> returns the first value, or nothing.\<close>

type_synonym headers = "(string \<times> string list) list"

definition header_Get :: "headers \<Rightarrow> string \<Rightarrow> string" where
  "header_Get hs k = (case map_of hs k of Some (v # vs) \<Rightarrow> v | _ \<Rightarrow> [])"

definition header_Set :: "string \<Rightarrow> string \<Rightarrow> headers \<Rightarrow> headers" where
  "header_Set k v hs = AList.update k [v] hs"

record http_request =
  q_Method :: string
  q_url :: string
  q_Header :: headers
  q_Body :: "byte list"

record http_response =
  StatusCode :: nat
  rsp_Header :: headers
  rsp_Body :: reader

text \<open>\<open>http.NewRequest\<close> may refuse a URL; \<open>Client.Do\<close> answers a request or fails.\<close>

record upstream =
  up_refuses :: "string \<Rightarrow> go_err option"
  up_do :: "http_request \<Rightarrow> go_err + http_response"

text \<open>
  The standard library: MD5, HTTP dates, durations, types by extension, the directory for temporary files, and
  what \<open>http.ServeContent\<close> does with the file it is given in a call (it only seeks and reads).
\<close>

record stdlib =
  sl_md5 :: "string \<Rightarrow> byte list"
  sl_ParseTime :: "string \<Rightarrow> time option"
  sl_FormatTime :: "time \<Rightarrow> string"
  sl_ParseDuration :: "string \<Rightarrow> go_err + int64"
  sl_MimeType :: "string \<Rightarrow> string"
  sl_TempDir :: string
  sl_content :: "read_op list"

section \<open>State\<close>

record Metrics =
  m_Requests :: int64
  m_Hits :: int64
  m_Misses :: int64
  m_BytesServed :: int64
  m_BytesFromUpstream :: int64
  m_Purges :: int64

definition zero_Metrics :: Metrics where
  "zero_Metrics = \<lparr>m_Requests = 0, m_Hits = 0, m_Misses = 0, m_BytesServed = 0, m_BytesFromUpstream = 0, m_Purges = 0\<rparr>"

definition Snapshot :: "Metrics \<Rightarrow> (string \<times> int64) list" where
  "Snapshot m = [(''requests'', m_Requests m), (''hits'', m_Hits m), (''misses'', m_Misses m),
     (''bytes_served'', m_BytesServed m), (''bytes_from_upstream'', m_BytesFromUpstream m), (''purges'', m_Purges m)]"

record Options =
  o_CacheDir :: string
  o_CacheMaxAge :: string
  o_CacheMaxSize :: string
  o_CacheChunkSize :: string
  o_CacheChunkStreams :: int64
  o_StripQuery :: bool
  o_StripDomain :: bool
  o_ShardLevel :: int64
  o_Passthrough :: bool

definition DefaultOptions :: Options where
  "DefaultOptions = \<lparr>o_CacheDir = [], o_CacheMaxAge = [], o_CacheMaxSize = [], o_CacheChunkSize = [], o_CacheChunkStreams = 2,
     o_StripQuery = False, o_StripDomain = False, o_ShardLevel = 1, o_Passthrough = False\<rparr>"

record cacheEntry =
  ce_url :: string
  ce_headers :: headers

text \<open>\<open>Handler\<close>.\<close>

record Handler =
  p_Engine :: Engine
  p_mapping :: "(string \<times> cacheEntry) list"
  p_metrics :: Metrics
  p_stripQuery :: bool
  p_stripDomain :: bool
  p_shardLevel :: int64
  p_passthrough :: bool

definition mapping_put :: "string \<Rightarrow> string \<Rightarrow> headers \<Rightarrow> Handler \<Rightarrow> Handler" where
  "mapping_put url cachePath hs h =
     h\<lparr>p_mapping := AList.update cachePath \<lparr>ce_url = url, ce_headers = hs\<rparr> (p_mapping h)\<rparr>"

definition mapping_get :: "string \<Rightarrow> Handler \<Rightarrow> cacheEntry option" where
  "mapping_get cachePath h = map_of (p_mapping h) cachePath"

section \<open>The options of the engine\<close>

record engine_options =
  t_ChunkSize :: int64
  t_ChunkSizeLimit :: int64
  t_ChunkStreams :: int64
  t_CacheMaxAge :: int64
  t_CacheMaxSize :: int64
  t_CacheMinFreeSpace :: int64
  t_CachePollInterval :: int64
  t_WriteBack :: int64
  t_ReadAhead :: int64
  t_FastFingerprint :: bool
  t_HandleCaching :: int64
  t_CacheDir :: string

definition zero_options :: engine_options where
  "zero_options = \<lparr>t_ChunkSize = 0, t_ChunkSizeLimit = 0, t_ChunkStreams = 0, t_CacheMaxAge = 0, t_CacheMaxSize = 0,
     t_CacheMinFreeSpace = 0, t_CachePollInterval = 0, t_WriteBack = 0, t_ReadAhead = 0, t_FastFingerprint = False,
     t_HandleCaching = 0, t_CacheDir = []\<rparr>"

text \<open>\<open>types.Opt\<close>, the defaults of the engine. A second is \<open>10 ^ 9\<close>.\<close>

definition types_Opt :: engine_options where
  "types_Opt = zero_options\<lparr>t_CachePollInterval := 60 * 10 ^ 9, t_CacheMaxAge := 3600 * 10 ^ 9, t_CacheMaxSize := -1,
     t_CacheMinFreeSpace := -1, t_ChunkSize := 128 * 1048576, t_ChunkSizeLimit := -1, t_WriteBack := 5 * 10 ^ 9,
     t_HandleCaching := 5 * 10 ^ 9\<rparr>"

text \<open>The options \<open>NewHandler\<close> builds: a size that cannot be parsed is as good as none, a duration is an error.\<close>

definition set_size :: "string \<Rightarrow> (int64 \<Rightarrow> engine_options \<Rightarrow> engine_options) \<Rightarrow> engine_options \<Rightarrow> engine_options" where
  "set_size s f t = (if s = [] then t else case parseSize s of Inl _ \<Rightarrow> t | Inr n \<Rightarrow> f n t)"

definition handler_options :: "stdlib \<Rightarrow> Options \<Rightarrow> go_err + engine_options" where
  "handler_options sl opt =
     (let t0 = zero_options\<lparr>t_CacheDir := (if o_CacheDir opt = [] then path_Join (sl_TempDir sl) ''varc_cache'' else o_CacheDir opt)\<rparr>
      in case (if o_CacheMaxAge opt = [] then Inr t0
               else case sl_ParseDuration sl (o_CacheMaxAge opt) of
                 Inl e \<Rightarrow> Inl (Wrap ''invalid cache-max-age'' e)
               | Inr d \<Rightarrow> Inr (t0\<lparr>t_CacheMaxAge := d\<rparr>)) of
           Inl e \<Rightarrow> Inl e
         | Inr t1 \<Rightarrow>
             Inr ((set_size (o_CacheChunkSize opt) (\<lambda>n t. t\<lparr>t_ChunkSize := n\<rparr>)
               (set_size (o_CacheMaxSize opt) (\<lambda>n t. t\<lparr>t_CacheMaxSize := n\<rparr>) t1))\<lparr>t_ChunkStreams := o_CacheChunkStreams opt\<rparr>))"

text \<open>
  \<open>NewHandler\<close>: \<open>w\<close> is the file system it finds, \<open>names\<close> the files below the cache directory, \<open>ino0\<close> the counter of
  inodes. \<open>None\<close>: an item that is loaded waits for ever.
\<close>

definition new_cache :: "cenv \<Rightarrow> world \<Rightarrow> string list \<Rightarrow> engine_options \<Rightarrow> (go_err + Cache) option" where
  "new_cache E w names t =
     newCache E (t_CacheDir t) (w\<lparr>o_WriteBack := t_WriteBack t, o_HandleCaching := t_HandleCaching t\<rparr>) names
       (t_CacheMaxAge t) (t_CacheMaxSize t) (t_CacheMinFreeSpace t) (t_CachePollInterval t)"

definition NewHandler :: "stdlib \<Rightarrow> cenv \<Rightarrow> world \<Rightarrow> string list \<Rightarrow> uint64 \<Rightarrow> Options \<Rightarrow> (go_err + Handler) option" where
  "NewHandler sl E w names ino0 opt =
     (case handler_options sl opt of
        Inl e \<Rightarrow> Some (Inl e)
      | Inr t \<Rightarrow>
          (case new_cache E w names t of
             None \<Rightarrow> None
           | Some r \<Rightarrow>
               (case newEngine r ino0 of
                  Inl e \<Rightarrow> Some (Inl (Wrap ''failed to create engine'' e))
                | Inr e \<Rightarrow> Some (Inr \<lparr>p_Engine = e, p_mapping = [], p_metrics = zero_Metrics, p_stripQuery = o_StripQuery opt,
                      p_stripDomain = o_StripDomain opt, p_shardLevel = o_ShardLevel opt, p_passthrough = o_Passthrough opt\<rparr>))))"

section \<open>The upstream file\<close>

text \<open>\<open>remoteFile\<close>. It has no method \<open>Fingerprint\<close> and no method \<open>ModTime\<close>, which is what an item sees of it.\<close>

record remoteFile =
  rf_url :: string
  rf_headers :: headers
  rf_size :: int64
  rf_modTime :: time

definition item_remote :: "remoteFile \<Rightarrow> remote" where
  "item_remote f = \<lparr>ro_Size = rf_size f, ro_Fingerprint = None, ro_ModTime = None\<rparr>"

definition remoteFile_Open :: "upstream \<Rightarrow> remoteFile \<Rightarrow> RangeOption option \<Rightarrow> go_err + reader" where
  "remoteFile_Open up f opt =
     (case up_refuses up (rf_url f) of
        Some e \<Rightarrow> Inl (Wrap ''remoteFile.Open'' e)
      | None \<Rightarrow>
          (let hs = (case opt of None \<Rightarrow> rf_headers f | Some r \<Rightarrow> (case Header r of (k, v) \<Rightarrow> header_Set k v (rf_headers f)))
           in case up_do up \<lparr>q_Method = ''GET'', q_url = rf_url f, q_Header = hs, q_Body = []\<rparr> of
                Inl e \<Rightarrow> Inl (Wrap ''remoteFile.Open'' e)
              | Inr r \<Rightarrow>
                  if StatusCode r \<noteq> 200 \<and> StatusCode r \<noteq> 206
                  then Inl (Other (''remoteFile.Open: (status '' @ show_nat (StatusCode r) @ '')''))
                  else Inr (rsp_Body r)))"

text \<open>The object the readers are given; the server may answer every call differently.\<close>

definition remote_object :: "(nat \<Rightarrow> upstream) \<Rightarrow> remoteFile \<Rightarrow> RemoteObject" where
  "remote_object ups f = \<lparr>obj_size = rf_size f, obj_open = (\<lambda>k opt. remoteFile_Open (ups k) f opt)\<rparr>"

text \<open>\<open>newHTTPFile\<close>, the method of the handler: a \<open>HEAD\<close> request for size and time; a failure leaves them unknown.\<close>

definition newHTTPFile :: "stdlib \<Rightarrow> upstream \<Rightarrow> string \<Rightarrow> Handler \<Rightarrow> remoteFile" where
  "newHTTPFile sl up cachePath h =
     (case mapping_get cachePath h of
        None \<Rightarrow> \<lparr>rf_url = [], rf_headers = [], rf_size = -1, rf_modTime = 0\<rparr>
      | Some en \<Rightarrow>
          (let f = \<lparr>rf_url = ce_url en, rf_headers = ce_headers en, rf_size = -1, rf_modTime = 0\<rparr>
           in if up_refuses up (ce_url en) \<noteq> None then f
              else case up_do up \<lparr>q_Method = ''HEAD'', q_url = ce_url en, q_Header = ce_headers en, q_Body = []\<rparr> of
                Inl e \<Rightarrow> f
              | Inr r \<Rightarrow>
                  if StatusCode r \<noteq> 200 then f
                  else f\<lparr>rf_size := (case ParseInt (header_Get (rsp_Header r) ''Content-Length'') of Inr n \<Rightarrow> n | Inl _ \<Rightarrow> -1),
                         rf_modTime := (let lm = header_Get (rsp_Header r) ''Last-Modified''
                           in if lm = [] then 0 else case sl_ParseTime sl lm of Some t \<Rightarrow> t | None \<Rightarrow> 0)\<rparr>))"

section \<open>Replies\<close>

text \<open>
  What goes to the client: an error page, a status alone, the answer to a purge, what \<open>http.ServeContent\<close> makes
  of a file (headers set before, what it read), a plain copy, or the upstream's own response.
\<close>

datatype reply =
    RError nat string | RStatus nat headers | RPurged | RContent headers time "read_out list"
  | RCopy headers "byte list" "go_err option" | RUpstream http_response

definition hashCachePath :: "stdlib \<Rightarrow> Handler \<Rightarrow> string \<Rightarrow> string" where
  "hashCachePath sl h url = hash_path (p_shardLevel h) (hex (sl_md5 sl (key_url (p_stripQuery h) (p_stripDomain h) url)))"

definition shouldPassthrough :: "http_request \<Rightarrow> bool" where
  "shouldPassthrough r \<longleftrightarrow> q_Method r \<in> {''POST'', ''PUT'', ''PATCH'', ''DELETE''}
     \<or> header_Get (q_Header r) ''Authorization'' \<noteq> [] \<or> header_Get (q_Header r) ''Cookie'' \<noteq> []"

definition proxyDirect :: "upstream \<Rightarrow> http_request \<Rightarrow> string \<Rightarrow> reply" where
  "proxyDirect up r url =
     (case up_refuses up url of
        Some e \<Rightarrow> RError 500 (Error e)
      | None \<Rightarrow>
          (case up_do up (r\<lparr>q_url := url\<rparr>) of
             Inl e \<Rightarrow> RError 502 (Error e) | Inr rsp \<Rightarrow> RUpstream rsp))"

definition upd_metrics :: "(Metrics \<Rightarrow> Metrics) \<Rightarrow> Handler \<Rightarrow> Handler" where
  "upd_metrics f h = h\<lparr>p_metrics := f (p_metrics h)\<rparr>"

definition handlePurge :: "stdlib \<Rightarrow> string \<Rightarrow> Handler \<Rightarrow> reply \<times> Handler" where
  "handlePurge sl url h =
     (let cachePath = hashCachePath sl h url;
          h1 = h\<lparr>p_mapping := AList.delete cachePath (p_mapping h)\<rparr>
      in case Engine_Remove cachePath (p_Engine h1) of
           (Some e, en) \<Rightarrow> (RError 500 (''Purge failed: '' @ Error e), h1\<lparr>p_Engine := en\<rparr>)
         | (None, en) \<Rightarrow> (RPurged, upd_metrics (\<lambda>m. m\<lparr>m_Purges := m_Purges m + 1\<rparr>) (h1\<lparr>p_Engine := en\<rparr>)))"

text \<open>The content of a handle, by \<open>http.ServeContent\<close> or, when the size is unknown, by \<open>io.Copy\<close>.\<close>

definition serve_content :: "stdlib \<Rightarrow> cenv \<Rightarrow> headers \<Rightarrow> time \<Rightarrow> ReadFileHandle \<Rightarrow> Handler \<Rightarrow> (reply \<times> Handler) option" where
  "serve_content sl E hs t fh h =
     (case hrun E (sl_content sl) (fh, p_Engine h) of
        None \<Rightarrow> None | Some (outs, _, en) \<Rightarrow> Some (RContent hs t outs, h\<lparr>p_Engine := en\<rparr>))"

definition copy_content :: "cenv \<Rightarrow> headers \<Rightarrow> ReadFileHandle \<Rightarrow> Handler \<Rightarrow> (reply \<times> Handler) option" where
  "copy_content E hs fh h =
     (case copy_handle E [] fh (p_Engine h) of
        None \<Rightarrow> None | Some (out, err, _, en) \<Rightarrow> Some (RCopy hs out err, h\<lparr>p_Engine := en\<rparr>))"

definition set_last_modified :: "stdlib \<Rightarrow> time \<Rightarrow> headers \<Rightarrow> headers" where
  "set_last_modified sl t hs = (if t = 0 then hs else header_Set ''Last-Modified'' (sl_FormatTime sl t) hs)"

text \<open>\<open>tryStaleServe\<close>; \<open>Inl\<close>: nothing was served.\<close>

definition tryStaleServe :: "stdlib \<Rightarrow> cenv \<Rightarrow> string \<Rightarrow> Handler \<Rightarrow> ((unit + reply) \<times> Handler) option" where
  "tryStaleServe sl E cachePath h =
     (case CacheItem cachePath (p_Engine h) of (k, e1) \<Rightarrow>
        (case on_cache (item_Exists k) e1 of (ex, e2) \<Rightarrow>
           if \<not> ex then Some (Inl (), h\<lparr>p_Engine := e2\<rparr>)
           else case OpenCached E cachePath None e2 of
                  None \<Rightarrow> None
                | Some (Inl _, e3) \<Rightarrow> Some (Inl (), h\<lparr>p_Engine := e3\<rparr>)
                | Some (Inr fh, e3) \<Rightarrow>
                    (let i = fst (fh_Stat e3 fh);
                         hs = set_last_modified sl (n_ModTime i) (header_Set ''X-Cache'' ''STALE''
                                (header_Set ''Content-Length'' (show_int (n_Size i)) []))
                     in map_option (\<lambda>(r, h'). (Inr r, h'))
                          (if 0 \<le>s n_Size i then serve_content sl E hs (n_ModTime i) fh (h\<lparr>p_Engine := e3\<rparr>)
                           else copy_content E hs fh (h\<lparr>p_Engine := e3\<rparr>)))))"

section \<open>Serve\<close>

text \<open>The request headers that go upstream.\<close>

definition upstream_headers :: "headers \<Rightarrow> headers" where
  "upstream_headers hs = filter (\<lambda>(k, _). k \<notin>
     {''Range'', ''If-Range'', ''If-Modified-Since'', ''If-Unmodified-Since'', ''If-None-Match'', ''If-Match''}) hs"

fun hex_nat :: "nat \<Rightarrow> string" where
  "hex_nat n = (if n < 16 then [hex_digit n] else hex_nat (n div 16) @ [hex_digit (n mod 16)])"

declare hex_nat.simps [simp del]

definition etag :: "string \<Rightarrow> int64 \<Rightarrow> string" where
  "etag cachePath sz = ''\"'' @ cachePath @ ''-'' @ hex_nat (nat (sint sz)) @ ''\"''"

definition path_Ext :: "string \<Rightarrow> string" where
  "path_Ext p =
     (let f = rev (takeWhile (\<lambda>c. c \<noteq> slash) (rev p)); e = takeWhile (\<lambda>c. c \<noteq> CHR ''.'') (rev f)
      in if length e = length f then [] else CHR ''.'' # rev e)"

text \<open>From the file that has been opened: conditional requests, headers, content.\<close>

definition respond :: "stdlib \<Rightarrow> cenv \<Rightarrow> http_request \<Rightarrow> string \<Rightarrow> ReadFileHandle \<Rightarrow> Handler \<Rightarrow> (reply \<times> Handler) option" where
  "respond sl E r cachePath fh h =
     (let i = fst (fh_Stat (p_Engine h) fh); sz = n_Size i; t = n_ModTime i; tag = etag cachePath sz
      in if t \<noteq> 0 \<and> (case sl_ParseTime sl (header_Get (q_Header r) ''If-Modified-Since'') of Some u \<Rightarrow> t \<le> u | None \<Rightarrow> False)
         then Some (RStatus 304 [], h)
         else if t \<noteq> 0 \<and> 0 \<le>s sz \<and> header_Get (q_Header r) ''If-None-Match'' = tag
         then Some (RStatus 304 (header_Set ''ETag'' tag []), h)
         else let hs1 = (if t \<noteq> 0 \<and> 0 \<le>s sz then header_Set ''ETag'' tag [] else []);
                  hs2 = (if 0 \<le>s sz then header_Set ''Content-Length'' (show_int sz) hs1 else hs1);
                  mt = sl_MimeType sl (path_Ext cachePath);
                  hs3 = (if mt \<noteq> [] then header_Set ''Content-Type'' mt hs2 else hs2);
                  hs4 = set_last_modified sl t hs3
              in if 0 \<le>s sz
                 then map_option (\<lambda>(x, h'). (x, upd_metrics (\<lambda>m. m\<lparr>m_BytesServed := m_BytesServed m + sz\<rparr>) h'))
                        (serve_content sl E hs4 t fh h)
                 else if header_Get (q_Header r) ''Range'' \<noteq> []
                 then Some (RError 416 ''Cannot use Range on files of unknown length'', h)
                 else map_option (\<lambda>(x, h'). (x, upd_metrics (\<lambda>m. m\<lparr>m_BytesServed := m_BytesServed m + sz\<rparr>) h'))
                        (copy_content E hs4 fh h))"

definition count_request :: "bool \<Rightarrow> Metrics \<Rightarrow> Metrics" where
  "count_request hit m = (if hit then m\<lparr>m_Requests := m_Requests m + 1, m_Hits := m_Hits m + 1\<rparr>
     else m\<lparr>m_Requests := m_Requests m + 1, m_Misses := m_Misses m + 1\<rparr>)"

definition count_stale :: "Metrics \<Rightarrow> Metrics" where
  "count_stale m = m\<lparr>m_Hits := m_Hits m + 1\<rparr>"

text \<open>The part of \<open>Serve\<close> behind purge and passthrough.\<close>

definition serve_cached :: "stdlib \<Rightarrow> cenv \<Rightarrow> upstream \<Rightarrow> http_request \<Rightarrow> string \<Rightarrow> Handler \<Rightarrow> (reply \<times> Handler) option" where
  "serve_cached sl E up r url h =
     (let cachePath = hashCachePath sl h url;
          h1 = mapping_put url cachePath (upstream_headers (q_Header r)) h;
          f = newHTTPFile sl up cachePath h1
      in case CacheItem cachePath (p_Engine h1) of (k, e1) \<Rightarrow>
           (case on_cache (item_Exists k) e1 of (ex, e2) \<Rightarrow>
              let h2 = upd_metrics (count_request ex) (h1\<lparr>p_Engine := e2\<rparr>)
              in case OpenCached E cachePath (Some (item_remote f)) e2 of
                   None \<Rightarrow> None
                 | Some (Inl err, e3) \<Rightarrow>
                     (case tryStaleServe sl E cachePath (h2\<lparr>p_Engine := e3\<rparr>) of
                        None \<Rightarrow> None
                      | Some (Inr x, h3) \<Rightarrow> Some (x, upd_metrics count_stale h3)
                      | Some (Inl _, h3) \<Rightarrow> Some (RError 500 (''Failed to open file: '' @ Error err), h3))
                 | Some (Inr fh, e3) \<Rightarrow> respond sl E r cachePath fh (h2\<lparr>p_Engine := e3\<rparr>)))"

definition Serve :: "stdlib \<Rightarrow> cenv \<Rightarrow> upstream \<Rightarrow> http_request \<Rightarrow> string \<Rightarrow> Handler \<Rightarrow> (reply \<times> Handler) option" where
  "Serve sl E up r url h =
     (if url = [] then Some (RError 400 ''Target URL is required'', h)
      else if q_Method r = ''PURGE'' then Some (handlePurge sl url h)
      else if p_passthrough h \<or> shouldPassthrough r then Some (proxyDirect up r url, h)
      else serve_cached sl E up r url h)"

text \<open>\<open>ServeMetrics\<close>: the only number of type \<open>int64\<close> in the engine's statistics is \<open>bytesUsed\<close>.\<close>

definition ServeMetrics :: "Handler \<Rightarrow> (string \<times> int64) list" where
  "ServeMetrics h = AList.update ''bytesUsed'' (fst (snd (snd (Engine_Stats (p_Engine h))))) (Snapshot (p_metrics h))"

text \<open>\<open>Shutdown\<close>. The arguments are what removing the two directories returns and leaves, as for \<open>Engine.Close\<close>.\<close>

definition Shutdown :: "go_err option \<Rightarrow> (string \<Rightarrow> bool) \<Rightarrow> go_err option \<Rightarrow> (string \<Rightarrow> bool) \<Rightarrow> Handler \<Rightarrow> Handler" where
  "Shutdown e1 left1 e2 left2 h = h\<lparr>p_Engine := snd (Engine_Close e1 left1 e2 left2 (p_Engine h))\<rparr>"

end
