(* ===== verification/Caddy.thy ===== *)
theory Caddy
  imports Proxy
begin

text \<open>
  \<open>caddy/module.go\<close>: the module for the Caddy server. Caddy's dispenser of tokens, \<open>net/url\<close> and Caddy's response
  recorder are not in the repository: a Caddyfile block comes as its tokens, each with a mark that says whether it
  is on the line of the token before it (what \<open>NextArg\<close> asks), and the functions on URLs are parameters.
\<close>

section \<open>State\<close>

record url =
  u_Scheme :: string
  u_text :: string

text \<open>\<open>url.Parse\<close>, and \<open>JoinPath\<close> followed by \<open>String\<close>.\<close>

record url_lib =
  ul_Parse :: "string \<Rightarrow> go_err + url"
  ul_JoinPath :: "url \<Rightarrow> string \<Rightarrow> string"

record CaddyHandler =
  cd_Upstream :: string
  cd_MetricsPath :: string
  cd_Options :: Options
  cd_handler :: "Handler option"
  cd_upstreamURL :: "url option"

text \<open>What \<open>CaddyModule\<close> and \<open>parseCaddyfile\<close> begin with.\<close>

definition new_module :: CaddyHandler where
  "new_module = \<lparr>cd_Upstream = [], cd_MetricsPath = [], cd_Options = DefaultOptions, cd_handler = None, cd_upstreamURL = None\<rparr>"

section \<open>Configuration\<close>

text \<open>
  The fields of \<open>proxy.Options\<close> by their tags, with what a directive does to them. The tag \<open>-\<close> of the logger is
  found like any other, and nothing is done.
\<close>

datatype field = FBool "Options \<Rightarrow> Options" | FString "string \<Rightarrow> Options \<Rightarrow> Options" | FInt "int64 \<Rightarrow> Options \<Rightarrow> Options" | FOther

definition option_field :: "string \<Rightarrow> field option" where
  "option_field directive = map_of
     [(''cache_dir'', FString (\<lambda>v opt. opt\<lparr>o_CacheDir := v\<rparr>)),
      (''max_age'', FString (\<lambda>v opt. opt\<lparr>o_CacheMaxAge := v\<rparr>)),
      (''max_size'', FString (\<lambda>v opt. opt\<lparr>o_CacheMaxSize := v\<rparr>)),
      (''chunk_size'', FString (\<lambda>v opt. opt\<lparr>o_CacheChunkSize := v\<rparr>)),
      (''chunk_streams'', FInt (\<lambda>n opt. opt\<lparr>o_CacheChunkStreams := n\<rparr>)),
      (''strip_query'', FBool (\<lambda>opt. opt\<lparr>o_StripQuery := True\<rparr>)),
      (''strip_domain'', FBool (\<lambda>opt. opt\<lparr>o_StripDomain := True\<rparr>)),
      (''shard_level'', FInt (\<lambda>n opt. opt\<lparr>o_ShardLevel := n\<rparr>)),
      (''passthrough'', FBool (\<lambda>opt. opt\<lparr>o_Passthrough := True\<rparr>)),
      (''-'', FOther)] directive"

definition arg_err :: go_err where "arg_err = Other ''wrong argument count or unexpected line ending''"

text \<open>The body of a block. The tokens that follow an argument on its line are taken as directives.\<close>

fun unmarshal_block :: "(string \<times> bool) list \<Rightarrow> CaddyHandler \<Rightarrow> go_err + CaddyHandler" where
  "unmarshal_block [] h = Inr h"
| "unmarshal_block ((directive, _) # ts) h =
     (let arg = (case ts of (v, True) # _ \<Rightarrow> Some v | _ \<Rightarrow> None)
      in if directive = ''passthrough'' then unmarshal_block ts (h\<lparr>cd_Options := (cd_Options h)\<lparr>o_Passthrough := True\<rparr>\<rparr>)
         else if directive = ''metrics''
         then (case arg of None \<Rightarrow> Inl arg_err | Some v \<Rightarrow> unmarshal_block (tl ts) (h\<lparr>cd_MetricsPath := v\<rparr>))
         else if directive = ''upstream''
         then (case arg of None \<Rightarrow> Inl arg_err | Some v \<Rightarrow> unmarshal_block (tl ts) (h\<lparr>cd_Upstream := v\<rparr>))
         else case option_field directive of
                None \<Rightarrow> Inl (Other (''unknown subdirective: '' @ directive))
              | Some FOther \<Rightarrow> unmarshal_block ts h
              | Some (FBool f) \<Rightarrow> unmarshal_block ts (h\<lparr>cd_Options := f (cd_Options h)\<rparr>)
              | Some (FString f) \<Rightarrow>
                  (case arg of None \<Rightarrow> Inl arg_err
                   | Some v \<Rightarrow> unmarshal_block (tl ts) (h\<lparr>cd_Options := f v (cd_Options h)\<rparr>))
              | Some (FInt f) \<Rightarrow>
                  (case arg of None \<Rightarrow> Inl arg_err
                   | Some v \<Rightarrow>
                       (case ParseInt v of
                          Inl e \<Rightarrow> Inl (Other (''invalid value for '' @ directive @ '': '' @ Error e))
                        | Inr n \<Rightarrow> unmarshal_block (tl ts) (h\<lparr>cd_Options := f n (cd_Options h)\<rparr>))))"

text \<open>One segment per occurrence of the directive: its first argument, if any, and its block.\<close>

fun UnmarshalCaddyfile :: "(string option \<times> (string \<times> bool) list) list \<Rightarrow> CaddyHandler \<Rightarrow> go_err + CaddyHandler" where
  "UnmarshalCaddyfile [] h = Inr h"
| "UnmarshalCaddyfile ((arg, block) # segs) h =
     (case unmarshal_block block (case arg of None \<Rightarrow> h | Some v \<Rightarrow> h\<lparr>cd_Upstream := v\<rparr>) of
        Inl e \<Rightarrow> Inl e | Inr h1 \<Rightarrow> UnmarshalCaddyfile segs h1)"

definition parseCaddyfile :: "(string option \<times> (string \<times> bool) list) list \<Rightarrow> go_err + CaddyHandler" where
  "parseCaddyfile segs = UnmarshalCaddyfile segs new_module"

definition Provision ::
  "url_lib \<Rightarrow> stdlib \<Rightarrow> cenv \<Rightarrow> world \<Rightarrow> string list \<Rightarrow> uint64 \<Rightarrow> CaddyHandler \<Rightarrow> (go_err option \<times> CaddyHandler) option" where
  "Provision ul sl E w names ino0 h =
     (case (if cd_Upstream h = [] then Inr h
            else case ul_Parse ul (cd_Upstream h) of
              Inl e \<Rightarrow> Inl (Wrap ''invalid upstream URL'' e) | Inr u \<Rightarrow> Inr (h\<lparr>cd_upstreamURL := Some u\<rparr>)) of
        Inl e \<Rightarrow> Some (Some e, h)
      | Inr h1 \<Rightarrow>
          (case NewHandler sl E w names ino0 (cd_Options h1) of
             None \<Rightarrow> None
           | Some (Inl e) \<Rightarrow> Some (Some (Wrap ''failed to create cache handler'' e), h1)
           | Some (Inr p) \<Rightarrow> Some (None, h1\<lparr>cd_handler := Some p\<rparr>)))"

definition Validate :: "CaddyHandler \<Rightarrow> go_err option" where
  "Validate h =
     (if cd_Upstream h \<noteq> [] \<and> cd_upstreamURL h = None then Some (Other ''upstream URL was not parsed'')
      else if cd_Upstream h \<noteq> [] \<and> u_Scheme (the (cd_upstreamURL h)) \<notin> {''http'', ''https''}
      then Some (Other (''upstream URL must use http or https scheme, got '' @ u_Scheme (the (cd_upstreamURL h))))
      else if o_CacheChunkStreams (cd_Options h) <s 0
      then Some (Other (''chunk_streams must be non-negative, got '' @ show_int (o_CacheChunkStreams (cd_Options h))))
      else None)"

section \<open>Requests\<close>

text \<open>What the module reads of the URL of a request: its path, its query, and the value of \<open>url\<close> in the query.\<close>

record request_url =
  ru_Path :: string
  ru_RawQuery :: string
  ru_param :: string

definition resolveTargetURL :: "url_lib \<Rightarrow> CaddyHandler \<Rightarrow> request_url \<Rightarrow> string" where
  "resolveTargetURL ul h r =
     (case cd_upstreamURL h of
        Some u \<Rightarrow> ul_JoinPath ul u (ru_Path r) @ (if ru_RawQuery r = [] then [] else ''?'' @ ru_RawQuery r)
      | None \<Rightarrow> if ru_param r \<noteq> [] then ru_param r else stream_target (ru_Path r))"

datatype caddy_reply = CMetrics "(string \<times> int64) list" | CReply reply | CNext

text \<open>The status the recorder sees. \<open>http.ServeContent\<close> and \<open>io.Copy\<close> never answer 404.\<close>

fun reply_status :: "reply \<Rightarrow> nat" where
  "reply_status (RError s txt) = s"
| "reply_status (RStatus s hs) = s"
| "reply_status (RUpstream rsp) = StatusCode rsp"
| "reply_status r = 200"

text \<open>\<open>ServeHTTP\<close>; \<open>next\<close> says whether there is a next handler. The recovery from a panic has no counterpart.\<close>

definition ServeHTTP ::
  "url_lib \<Rightarrow> stdlib \<Rightarrow> cenv \<Rightarrow> upstream \<Rightarrow> bool \<Rightarrow> http_request \<Rightarrow> request_url \<Rightarrow> CaddyHandler \<Rightarrow> (caddy_reply \<times> CaddyHandler) option" where
  "ServeHTTP ul sl E up nxt r ru h =
     (case cd_handler h of
        None \<Rightarrow> None
      | Some p \<Rightarrow>
          if cd_MetricsPath h \<noteq> [] \<and> ru_Path ru = cd_MetricsPath h then Some (CMetrics (ServeMetrics p), h)
          else case Serve sl E up r (resolveTargetURL ul h ru) p of
                 None \<Rightarrow> None
               | Some (x, p1) \<Rightarrow>
                   Some (if o_Passthrough (cd_Options h) \<and> nxt \<and> reply_status x = 404 then CNext else CReply x,
                         h\<lparr>cd_handler := Some p1\<rparr>))"

text \<open>\<open>Cleanup\<close> never reports an error.\<close>

definition Cleanup :: "go_err option \<Rightarrow> (string \<Rightarrow> bool) \<Rightarrow> go_err option \<Rightarrow> (string \<Rightarrow> bool) \<Rightarrow> CaddyHandler \<Rightarrow> go_err option \<times> CaddyHandler" where
  "Cleanup e1 left1 e2 left2 h = (None, h\<lparr>cd_handler := map_option (Shutdown e1 left1 e2 left2) (cd_handler h)\<rparr>)"

end
