(* ===== verification/ProxyPaths.thy ===== *)
theory ProxyPaths
  imports Proxy
begin

text \<open>
  Theorems on the text handling: cache paths are canonical and as different as the hashes, sizes are parsed
  with the wrap-around of 64 bits, and URLs in base64 come back.
\<close>

section \<open>Cache paths\<close>

definition is_hex :: "char \<Rightarrow> bool" where
  "is_hex c \<longleftrightarrow> (\<exists>d < 16. c = hex_digit d)"

lemma hex_digit_inj: "d < 16 \<Longrightarrow> d' < 16 \<Longrightarrow> hex_digit d = hex_digit d' \<Longrightarrow> d = d'"
proof -
  assume a: "d < 16" "d' < 16" "hex_digit d = hex_digit d'"
  have v: "e < 16 \<Longrightarrow> of_char (hex_digit e) = (if e < 10 then 48 + e else 87 + e)" for e :: nat
    by (simp add: hex_digit_def)
  have "of_char (hex_digit d) = (of_char (hex_digit d') :: nat)" using a(3) by simp
  then show ?thesis using v [OF a(1)] v [OF a(2)] a(1,2) by (simp split: if_splits)
qed

lemma is_hex_chars: "is_hex c \<Longrightarrow> c \<noteq> slash \<and> c \<noteq> CHR ''.''"
proof -
  assume "is_hex c"
  then obtain d where d: "d < 16" "c = hex_digit d" by (auto simp: is_hex_def)
  then have "of_char c = (if d < 10 then 48 + d else 87 + d)" by (simp add: hex_digit_def)
  then have "of_char c \<noteq> (47 :: nat) \<and> of_char c \<noteq> (46 :: nat)" using d(1) by simp
  then show ?thesis by auto
qed

lemma byte_less: "unat (b :: byte) < 256"
proof -
  have "unat b < 2 ^ LENGTH(8)" by (rule unsigned_less)
  then show ?thesis by simp
qed

lemma hex_props: "length (hex bs) = 2 * length bs" "list_all is_hex (hex bs)"
proof -
  show "length (hex bs) = 2 * length bs" by (induction bs) (simp_all add: hex_def)
  have d: "d < 16 \<Longrightarrow> is_hex (hex_digit d)" for d by (auto simp: is_hex_def)
  have b: "is_hex (hex_digit (unat (b :: byte) div 16))" "is_hex (hex_digit (unat b mod 16))" for b
    using byte_less [of b] by (simp_all add: d)
  show "list_all is_hex (hex bs)" by (induction bs) (simp_all add: hex_def b)
qed

lemma hex_inj: "hex bs = hex cs \<Longrightarrow> bs = cs"
proof (induction bs arbitrary: cs)
  case Nil
  then show ?case by (cases cs) (simp_all add: hex_def)
next
  case (Cons b bs)
  then obtain c cs' where c: "cs = c # cs'" by (cases cs) (simp_all add: hex_def)
  have l: "unat (x :: byte) div 16 < 16" "unat x mod 16 < 16" for x using byte_less [of x] by simp_all
  have e: "hex_digit (unat b div 16) = hex_digit (unat c div 16)" "hex_digit (unat b mod 16) = hex_digit (unat c mod 16)"
    "hex bs = hex cs'"
    using Cons.prems by (simp_all add: hex_def c)
  have "unat b = unat c"
    using hex_digit_inj [OF l(1) l(1) e(1)] hex_digit_inj [OF l(2) l(2) e(2)] by (metis div_mult_mod_eq)
  then show ?case using Cons.IH [OF e(3)] by (simp add: c word_unat_eq_iff)
qed

fun pairs :: "string \<Rightarrow> string list" where
  "pairs (a # b # s) = [a, b] # pairs s"
| "pairs s = []"

lemma shards_join: "shards n s @ x = join_slash (take n (pairs s) @ [x])"
proof (induction n s rule: shards.induct)
  case (2 n a b h)
  obtain y ys where y: "take n (pairs h) @ [x] = y # ys" by (cases "take n (pairs h) @ [x]") auto
  have "shards (Suc n) (a # b # h) @ x = a # b # slash # join_slash (y # ys)" using 2 y by simp
  then show ?case by (simp add: y)
qed simp_all

lemma pairs_hex: "list_all is_hex s \<Longrightarrow> p \<in> set (pairs s) \<Longrightarrow> p \<noteq> [] \<and> list_all is_hex p"
  by (induction s rule: pairs.induct) auto

lemma hex_part: "list_all is_hex p \<Longrightarrow> p \<noteq> [] \<Longrightarrow> good_part p \<and> p \<noteq> ''..''"
  using is_hex_chars by (cases p) (auto simp: good_part_def list_all_iff)

lemma hash_path_canonical:
  assumes "list_all is_hex h" "h \<noteq> []"
  shows "canonical (hash_path level h)" "hash_path level h \<noteq> []"
proof -
  obtain ps where ps: "hash_path level h = join_slash (ps @ [h])" "\<forall>p \<in> set ps. p \<noteq> [] \<and> list_all is_hex p"
  proof (cases "0 <s level")
    case True
    have "\<forall>p \<in> set (take (nat (sint level)) (pairs h)). p \<noteq> [] \<and> list_all is_hex p"
      using pairs_hex [OF assms(1)] by (meson in_set_takeD)
    then show ?thesis using that True shards_join by (simp add: hash_path_def)
  next
    case False
    then show ?thesis using that [of "[]"] by (simp add: hash_path_def)
  qed
  have g: "\<forall>p \<in> set (ps @ [h]). good_part p \<and> p \<noteq> ''..''" using ps(2) assms hex_part by auto
  have "good_stack False (rev l)" if "\<forall>p \<in> set l. good_part p \<and> p \<noteq> ''..''" for l
  proof -
    have "good_stack False l" if "\<forall>p \<in> set l. good_part p \<and> p \<noteq> ''..''" for l using that by (induction l) auto
    then show ?thesis using that by simp
  qed
  from this [OF g] have st: "good_stack False (rev (ps @ [h]))" .
  show "canonical (hash_path level h)"
    unfolding canonical_def ps(1) using st by (intro exI [of _ "rev (ps @ [h])"]) (simp only: rev_rev_ident simp_thms)
  have "list_all (\<lambda>p. p \<noteq> []) (ps @ [h])" using ps(2) assms by (auto simp: list_all_iff)
  from join_empty [OF this] show "hash_path level h \<noteq> []" by (simp add: ps(1))
qed

lemma canonical_trim: "canonical s \<Longrightarrow> s \<noteq> [] \<Longrightarrow> trim_slash s = s"
proof -
  assume a: "canonical s" "s \<noteq> []"
  then obtain st where s: "s = join_slash (rev st)" "good_stack False st" by (auto simp: canonical_def)
  then have "rev st \<noteq> []" using a(2) by auto
  from trim_id [of s] join_head [OF good_stack_list [OF s(2)] this] join_last [OF good_stack_list [OF s(2)] this]
  show ?thesis using s(1) by simp
qed

lemma hash_path_suffix: "drop (length (hash_path level h) - length h) (hash_path level h) = h"
  by (simp add: hash_path_def)

lemma hashCachePath_clean:
  assumes "\<And>s. length (sl_md5 sl s) = 16"
  shows "clean (hashCachePath sl h u) = hashCachePath sl h u" "trim_slash (hashCachePath sl h u) = hashCachePath sl h u"
    "hashCachePath sl h u \<noteq> []"
proof -
  let ?x = "hex (sl_md5 sl (key_url (p_stripQuery h) (p_stripDomain h) u))"
  have x: "list_all is_hex ?x" "length ?x = 32" using hex_props assms by simp_all
  then have n: "?x \<noteq> []" by (metis list.size(3) zero_neq_numeral)
  note c = hash_path_canonical [OF x(1) n, of "p_shardLevel h", folded hashCachePath_def]
  show "clean (hashCachePath sl h u) = hashCachePath sl h u" "trim_slash (hashCachePath sl h u) = hashCachePath sl h u"
    "hashCachePath sl h u \<noteq> []" using c canonical_trim [OF c] clean_id [OF c(1)] by simp_all
qed

lemma hashCachePath_eq:
  assumes "\<And>s. length (sl_md5 sl s) = 16"
  shows "hashCachePath sl h u = hashCachePath sl h v
    \<longleftrightarrow> sl_md5 sl (key_url (p_stripQuery h) (p_stripDomain h) u) = sl_md5 sl (key_url (p_stripQuery h) (p_stripDomain h) v)"
proof -
  let ?k = "key_url (p_stripQuery h) (p_stripDomain h)"
  let ?x = "\<lambda>u. hex (sl_md5 sl (?k u))"
  have x: "length (?x u) = 32" for u using hex_props assms by simp
  have "hashCachePath sl h u = hashCachePath sl h v \<Longrightarrow> ?x u = ?x v"
    using hash_path_suffix [of "p_shardLevel h" "?x u"] hash_path_suffix [of "p_shardLevel h" "?x v"] x
    unfolding hashCachePath_def by metis
  then show ?thesis using hex_inj by (auto simp: hashCachePath_def)
qed

text \<open>C34: The cache path of a URL is a clean name that no trimming changes, however many shards are configured, and two
  URLs share their cache path exactly when their keys, what is left of them after stripping, have the same MD5.\<close>

theorem cache_paths:
  assumes "\<And>s. length (sl_md5 sl s) = 16"
  shows "hashCachePath sl h u \<noteq> [] \<and> trim_slash (hashCachePath sl h u) = hashCachePath sl h u
    \<and> clean (hashCachePath sl h u) = hashCachePath sl h u
    \<and> (hashCachePath sl h u = hashCachePath sl h v
       \<longleftrightarrow> sl_md5 sl (key_url (p_stripQuery h) (p_stripDomain h) u) = sl_md5 sl (key_url (p_stripQuery h) (p_stripDomain h) v))"
  using hashCachePath_clean [OF assms] hashCachePath_eq [OF assms] by simp

text \<open>A hash that depends on the length alone, for runs.\<close>

definition demo_md5 :: "string \<Rightarrow> byte list" where
  "demo_md5 s = word_of_nat (length s) # replicate 15 (171 :: byte)"

definition demo_stdlib :: stdlib where
  "demo_stdlib = \<lparr>sl_md5 = demo_md5, sl_ParseTime = (\<lambda>_. None), sl_FormatTime = (\<lambda>_. ''now''),
     sl_ParseDuration = (\<lambda>_. Inr 1), sl_MimeType = (\<lambda>_. []), sl_TempDir = ''/tmp'', sl_content = []\<rparr>"

definition demo_handler :: Handler where
  "demo_handler = \<lparr>p_Engine = demo_engine, p_mapping = [], p_metrics = zero_Metrics, p_stripQuery = True, p_stripDomain = True,
     p_shardLevel = 1, p_passthrough = False\<rparr>"

lemma cache_paths_witness:
  "hashCachePath demo_stdlib demo_handler ''http://a/b?c'' = ''02/02ababababababababababababababab''
    \<and> hashCachePath demo_stdlib demo_handler ''http://a/b?c'' = hashCachePath demo_stdlib demo_handler ''https://d/b''"
proof -
  have "hashCachePath demo_stdlib demo_handler ''http://a/b?c'' = ''02/02ababababababababababababababab''" by code_simp
  moreover have "sl_md5 demo_stdlib (key_url (p_stripQuery demo_handler) (p_stripDomain demo_handler) ''http://a/b?c'')
      = sl_md5 demo_stdlib (key_url (p_stripQuery demo_handler) (p_stripDomain demo_handler) ''https://d/b'')" by code_simp
  moreover have "length (sl_md5 demo_stdlib s) = 16" for s by (simp add: demo_stdlib_def demo_md5_def)
  ultimately show ?thesis using cache_paths [of demo_stdlib demo_handler] by blast
qed

section \<open>Sizes\<close>

lemma digits_val_append: "digits_val (s @ [c]) = 10 * digits_val s + (of_char c - 48)"
  by (simp add: digits_val_def)

lemma digit_code: "n < 10 \<Longrightarrow> of_char (char_of (48 + n)) = 48 + int n"
proof -
  assume "n < 10"
  then have "int (of_char (char_of (48 + n))) = 48 + int n" by simp
  then show ?thesis by (simp only: of_nat_of_char)
qed

lemma show_nat_digits: "list_all is_digit (show_nat n) \<and> show_nat n \<noteq> [] \<and> digits_val (show_nat n) = int n"
proof (induction n rule: less_induct)
  case (less n)
  show ?case
  proof (cases "n < 10")
    case True
    then show ?thesis by (subst (1 2 3) show_nat.simps) (simp add: is_digit_def digits_val_def digit_code)
  next
    case False
    then have l: "n div 10 < n" by simp
    have m: "n mod 10 < 10" by simp
    have "show_nat n = show_nat (n div 10) @ [char_of (48 + n mod 10)]" using False by (subst show_nat.simps) simp
    moreover have "10 * int (n div 10) + int (n mod 10) = int n" by presburger
    ultimately show ?thesis using less.IH [OF l] m by (simp add: is_digit_def digits_val_append digit_code)
  qed
qed

lemma digit_chars: "is_digit c \<Longrightarrow> \<not> is_space c \<and> parse_suffix c = None \<and> c \<noteq> CHR ''+'' \<and> c \<noteq> CHR ''-''"
proof -
  assume "is_digit c"
  then have "of_char c \<in> set [48 ..< 58 :: nat]" unfolding is_digit_def set_upt .
  then have "c \<in> char_of ` set [48 ..< 58 :: nat]" using char_of_char [of c] by (metis imageI)
  moreover have "list_all (\<lambda>c. \<not> is_space c \<and> parse_suffix c = None \<and> c \<noteq> CHR ''+'' \<and> c \<noteq> CHR ''-'') (map char_of [48 ..< 58 :: nat])"
    by code_simp
  ultimately show ?thesis by (auto simp: list_all_iff)
qed

lemma ParseInt_show: "n < 2 ^ 63 \<Longrightarrow> ParseInt (show_nat n) = Inr (word_of_nat n)"
proof -
  assume n: "n < 2 ^ 63"
  note d = show_nat_digits [of n]
  then have "is_digit (hd (show_nat n))" by (cases "show_nat n") auto
  then show ?thesis using digit_chars [of "hd (show_nat n)"] d n by (simp add: ParseInt_def Let_def)
qed

lemma TrimSpace_id: "s \<noteq> [] \<Longrightarrow> \<not> is_space (hd s) \<Longrightarrow> \<not> is_space (last s) \<Longrightarrow> TrimSpace s = s"
proof -
  have d: "l \<noteq> [] \<Longrightarrow> \<not> is_space (hd l) \<Longrightarrow> dropWhile is_space l = l" for l by (cases l) auto
  then show "s \<noteq> [] \<Longrightarrow> \<not> is_space (hd s) \<Longrightarrow> \<not> is_space (last s) \<Longrightarrow> TrimSpace s = s"
    by (simp add: TrimSpace_def hd_rev)
qed

lemma suffix_space: "parse_suffix c = Some m \<Longrightarrow> \<not> is_space c"
proof -
  assume "parse_suffix c = Some m"
  then have "c \<in> set ''kKMmGgTt''" by (auto simp: parse_suffix_def split: if_splits)
  moreover have "list_all (\<lambda>c. \<not> is_space c) ''kKMmGgTt''" by code_simp
  ultimately show ?thesis by (auto simp: list_all_iff)
qed

lemma sint_of_int_wrap: "2 ^ 63 \<le> z \<Longrightarrow> z < 2 ^ 64 \<Longrightarrow> sint (word_of_int z :: int64) = z - 2 ^ 64"
proof -
  assume a: "2 ^ 63 \<le> z" "z < (2 ^ 64 :: int)"
  have "word_of_int z = (word_of_int (z - 2 ^ 64) :: int64)" by (simp add: word_eq_iff_unsigned unsigned_of_int take_bit_eq_mod)
  moreover have "fits64 (z - 2 ^ 64)" using a by (simp add: fits64_def)
  ultimately show ?thesis using sint_of_int64 by metis
qed

text \<open>A decimal number followed by \<open>K\<close>, \<open>M\<close>, \<open>G\<close> or \<open>T\<close> (or their small letters) is parsed to that many bytes when they fit
  into 63 bits; from there on up to 64 bits the result is negative, and not an error.\<close>

theorem parseSize_exact:
  assumes "n < 2 ^ 63" "parse_suffix c = Some m"
  shows "\<exists>r. parseSize (show_nat n @ [c]) = Inr r
    \<and> (int n * sint m < 2 ^ 63 \<longrightarrow> sint r = int n * sint m)
    \<and> (2 ^ 63 \<le> int n * sint m \<longrightarrow> int n * sint m < 2 ^ 64 \<longrightarrow> sint r = int n * sint m - 2 ^ 64)"
proof -
  note d = show_nat_digits [of n]
  then have h: "is_digit (hd (show_nat n))" by (cases "show_nat n") auto
  have t: "TrimSpace (show_nat n @ [c]) = show_nat n @ [c]"
    using d digit_chars [OF h] suffix_space [OF assms(2)] by (intro TrimSpace_id) simp_all
  have r: "parseSize (show_nat n @ [c]) = Inr (word_of_nat n * m)"
    using assms by (simp add: parseSize_def Let_def t ParseInt_show)
  have "(word_of_int (sint m) :: int64) = m" by simp
  then have m: "word_of_nat n * m = word_of_int (int n * sint m)" by (metis of_int_mult of_int_of_nat_eq)
  have p: "0 \<le> sint m" using assms(2) unfolding parse_suffix_def by (auto split: if_splits)
  then have "0 \<le> int n * sint m" by simp
  then have "int n * sint m < 2 ^ 63 \<Longrightarrow> fits64 (int n * sint m)" by (simp add: fits64_def)
  then have "int n * sint m < 2 ^ 63 \<Longrightarrow> sint (word_of_nat n * m) = int n * sint m" unfolding m by (rule sint_of_int64)
  moreover have "2 ^ 63 \<le> int n * sint m \<Longrightarrow> int n * sint m < 2 ^ 64 \<Longrightarrow> sint (word_of_nat n * m) = int n * sint m - 2 ^ 64"
    unfolding m by (rule sint_of_int_wrap)
  ultimately show ?thesis using r by blast
qed

lemma chars_10: "char_of (48 :: nat) = CHR ''0''" "char_of (49 :: nat) = CHR ''1''" "char_of (51 :: nat) = CHR ''3''"
  "char_of (54 :: nat) = CHR ''6''" "char_of (56 :: nat) = CHR ''8''"
  by code_simp+

lemma parseSize_exact_witness: "(\<exists>r. parseSize ''100M'' = Inr r \<and> sint r = 104857600)
    \<and> (\<exists>r. parseSize ''8388608T'' = Inr r \<and> sint r = - (2 ^ 63))"
proof -
  have "show_nat 100 = ''100''" "show_nat 8388608 = ''8388608''" by (simp_all add: show_nat.simps chars_10)
  moreover have "parse_suffix CHR ''M'' = Some (2 ^ 20)" "parse_suffix CHR ''T'' = Some (2 ^ 40)" by code_simp+
  ultimately show ?thesis
    using parseSize_exact [of 100 "CHR ''M''" "2 ^ 20"] parseSize_exact [of 8388608 "CHR ''T''" "2 ^ 40"]
    by auto
qed

end
