(* ===== verification/MainServer.thy ===== *)
theory MainServer
  imports Proxy
begin

text \<open>
  \<open>main.go\<close>: the stand-alone server. The flags, the options they become, and what the registered handlers answer.
  The process is a run from the start to a signal. Flags are parsed and lines logged outside of the model.
  \<open>http.ServeMux\<close> first redirects a path that is not clean; the paths here are those it passes on.
\<close>

record main_flags =
  fl_cacheDir :: string
  fl_chunkSize :: string
  fl_chunkStreams :: int64
  fl_stripQuery :: bool
  fl_stripDomain :: bool
  fl_shardLevel :: int64

text \<open>The values of the flags that are not given.\<close>

definition default_flags :: "stdlib \<Rightarrow> main_flags" where
  "default_flags sl = \<lparr>fl_cacheDir = path_Join (sl_TempDir sl) ''varc_cache'', fl_chunkSize = [], fl_chunkStreams = 2,
     fl_stripQuery = False, fl_stripDomain = False, fl_shardLevel = 1\<rparr>"

definition main_options :: "main_flags \<Rightarrow> Options" where
  "main_options fl = \<lparr>o_CacheDir = fl_cacheDir fl, o_CacheMaxAge = [], o_CacheMaxSize = [], o_CacheChunkSize = fl_chunkSize fl,
     o_CacheChunkStreams = fl_chunkStreams fl, o_StripQuery = fl_stripQuery fl, o_StripDomain = fl_stripDomain fl,
     o_ShardLevel = fl_shardLevel fl, o_Passthrough = False\<rparr>"

datatype main_reply = MText string | MReply reply | MNotFound

text \<open>\<open>/healthz\<close> prints the directory into JSON as it is.\<close>

definition healthz :: "string \<Rightarrow> string" where
  "healthz dir = ''{\"status\":\"ok\",\"cache_dir\":\"'' @ dir @ ''\"}''"

definition mainHandler ::
  "stdlib \<Rightarrow> cenv \<Rightarrow> upstream \<Rightarrow> http_request \<Rightarrow> string \<Rightarrow> string \<Rightarrow> Handler \<Rightarrow> (reply \<times> Handler) option" where
  "mainHandler sl E up r param path h =
     (case main_target param path of
        None \<Rightarrow> Some (RError 400 ''Missing 'url' parameter or base64 path'', h)
      | Some u \<Rightarrow> Serve sl E up r u h)"

text \<open>The routes: \<open>/stream\<close>, all below \<open>/stream/\<close>, and \<open>/healthz\<close>. \<open>param\<close> is the value of \<open>url\<close> in the query.\<close>

definition main_mux ::
  "main_flags \<Rightarrow> stdlib \<Rightarrow> cenv \<Rightarrow> upstream \<Rightarrow> http_request \<Rightarrow> string \<Rightarrow> string \<Rightarrow> Handler \<Rightarrow> (main_reply \<times> Handler) option" where
  "main_mux fl sl E up r param path h =
     (if path = ''/stream'' \<or> has_prefix path ''/stream/''
      then map_option (\<lambda>(x, h1). (MReply x, h1)) (mainHandler sl E up r param path h)
      else if path = ''/healthz''
      then Some (MText (healthz (t_CacheDir (case handler_options sl (main_options fl) of Inr t \<Rightarrow> t | Inl _ \<Rightarrow> zero_options))), h)
      else Some (MNotFound, h))"

section \<open>The process\<close>

text \<open>A request with its surroundings; requests are served one after the other.\<close>

record main_call =
  mc_env :: cenv
  mc_up :: upstream
  mc_request :: http_request
  mc_param :: string
  mc_path :: string
  mc_reads :: "read_op list"

fun main_serve :: "main_flags \<Rightarrow> stdlib \<Rightarrow> main_call list \<Rightarrow> Handler \<Rightarrow> (main_reply list \<times> Handler) option" where
  "main_serve fl sl [] h = Some ([], h)"
| "main_serve fl sl (q # qs) h =
     (case main_mux fl (sl\<lparr>sl_content := mc_reads q\<rparr>) (mc_env q) (mc_up q) (mc_request q) (mc_param q) (mc_path q) h of
        None \<Rightarrow> None
      | Some (x, h1) \<Rightarrow> map_option (\<lambda>(xs, h2). (x # xs, h2)) (main_serve fl sl qs h1))"

text \<open>
  \<open>main\<close>: how the process ends. \<open>listen\<close> is the error of the listener, \<open>shut\<close> that of the server's \<open>Shutdown\<close>, which
  waits for the requests; the last arguments are those of the handler's \<open>Shutdown\<close>. \<open>Fatal\<close> leaves the process at
  once. \<open>None\<close>: a request, or the loading of an item, never ends.
\<close>

datatype main_end = MFatal string go_err | MExit "main_reply list" Handler

definition main_run ::
  "main_flags \<Rightarrow> stdlib \<Rightarrow> cenv \<Rightarrow> world \<Rightarrow> string list \<Rightarrow> uint64 \<Rightarrow> go_err option \<Rightarrow> main_call list \<Rightarrow> go_err option
    \<Rightarrow> go_err option \<Rightarrow> (string \<Rightarrow> bool) \<Rightarrow> go_err option \<Rightarrow> (string \<Rightarrow> bool) \<Rightarrow> main_end option" where
  "main_run fl sl E w names ino listen qs shut e1 left1 e2 left2 =
     (case NewHandler sl E w names ino (main_options fl) of
        None \<Rightarrow> None
      | Some (Inl e) \<Rightarrow> Some (MFatal ''Failed to create handler'' e)
      | Some (Inr h) \<Rightarrow>
          (case listen of
             Some e \<Rightarrow> Some (MFatal ''Listen error'' e)
           | None \<Rightarrow>
               (case main_serve fl sl qs h of
                  None \<Rightarrow> None
                | Some (xs, h1) \<Rightarrow>
                    (case shut of
                       Some e \<Rightarrow> Some (MFatal ''Server forced to shutdown'' e)
                     | None \<Rightarrow> Some (MExit xs (Shutdown e1 left1 e2 left2 h1))))))"

text \<open>A graceful end removes what the cache has stored: nothing is left for the next start.\<close>

theorem graceful_end_empties:
  assumes "main_run fl sl E w names ino listen qs shut e1 left1 e2 left2 = Some (MExit xs h)" "e1 = None"
  shows "files (fs (rest (e_cache (p_Engine h)))) = (\<lambda>_. None)"
  using assms by (auto simp: main_run_def Shutdown_def Engine_Close_def on_cache_def CleanUp_def split: option.splits sum.splits)

text \<open>The number of replies is that of the requests, and the first one is that of a new handler.\<close>

lemma main_serve_length: "main_serve fl sl qs h = Some (xs, h') \<Longrightarrow> length xs = length qs"
  by (induction qs arbitrary: h xs) (auto split: option.splits)

end
