(* ===== verification/ProxyStream.thy ===== *)
theory ProxyStream
  imports ProxyPaths
begin

text \<open>
  URLs in the path \<open>/stream/...\<close>: what an encoder for URLs writes, with and without padding, the handlers read.
\<close>

section \<open>The encoder\<close>

definition b64_char :: "nat \<Rightarrow> char" where
  "b64_char v = (if v < 26 then char_of (65 + v) else if v < 52 then char_of (71 + v)
     else if v < 62 then char_of (v - 4) else if v = 62 then CHR ''-'' else CHR ''_'')"

fun sextets :: "nat list \<Rightarrow> nat list" where
  "sextets [] = []"
| "sextets [a] = [a div 4, a mod 4 * 16]"
| "sextets [a, b] = [a div 4, a mod 4 * 16 + b div 16, b mod 16 * 4]"
| "sextets (a # b # c # s) = a div 4 # (a mod 4 * 16 + b div 16) # (b mod 16 * 4 + c div 64) # c mod 64 # sextets s"

definition raw_encode :: "string \<Rightarrow> string" where
  "raw_encode s = map b64_char (sextets (map of_char s))"

definition padded_encode :: "string \<Rightarrow> string" where
  "padded_encode s = raw_encode s @ replicate ((3 - length s mod 3) mod 3) CHR ''=''"

section \<open>Decoding\<close>

lemma b64_char_code: "v < 64 \<Longrightarrow> of_char (b64_char v) =
    (if v < 26 then 65 + v else if v < 52 then 71 + v else if v < 62 then v - 4 else if v = 62 then 45 else 95)"
  by (simp add: b64_char_def)

lemma b64_char_val:
  assumes "v < 64"
  shows "b64_val (b64_char v) = Some v \<and> b64_char v \<noteq> CHR ''=''
    \<and> of_char (b64_char v) \<noteq> (10 :: nat) \<and> of_char (b64_char v) \<noteq> (13 :: nat)"
proof -
  note c = b64_char_code [OF assms]
  have n: "of_char (b64_char v) \<notin> {10, 13, 61 :: nat}" using assms unfolding c by auto
  then have "b64_char v \<noteq> CHR ''=''" by auto
  moreover have "b64_val (b64_char v) = Some v"
  proof (cases "v < 62")
    case True
    then show ?thesis by (auto simp: b64_val_def Let_def c)
  next
    case False
    then have "v = 62 \<or> v = 63" using assms by auto
    then show ?thesis by (auto simp: b64_val_def b64_char_def)
  qed
  ultimately show ?thesis using n by simp
qed

lemma vals_chars: "\<forall>v \<in> set vs. v < 64 \<Longrightarrow> vals (map b64_char vs) = Some vs"
  by (induction vs) (simp_all add: b64_char_val)

lemma no_breaks_chars: "\<forall>v \<in> set vs. v < 64 \<Longrightarrow> no_breaks (map b64_char vs @ replicate n CHR ''='') = map b64_char vs @ replicate n CHR ''=''"
  using b64_char_val by (auto simp: no_breaks_def filter_id_conv)

lemma sextets_small: "\<forall>a \<in> set s. a < 256 \<Longrightarrow> \<forall>v \<in> set (sextets s). v < 64"
proof (induction s rule: sextets.induct)
  case (3 a b)
  then have "a div 4 < 64" "b div 16 < 16" "a mod 4 < 4" "b mod 16 < 16" by auto
  then show ?case by auto
next
  case (4 a b c s)
  then have "a div 4 < 64" "b div 16 < 16" "a mod 4 < 4" "b mod 16 < 16" "c div 64 < 4" "c mod 64 < 64" by auto
  then show ?case using 4 by auto
qed auto

lemma join_sextets:
  assumes "b < 256" "c < (256 :: nat)"
  shows "a div 4 * 4 + (a mod 4 * 16 + b div 16) div 16 = a"
    "(a mod 4 * 16 + b div 16) mod 16 * 16 + (b mod 16 * 4 + c div 64) div 4 = b"
    "(b mod 16 * 4 + c div 64) mod 4 * 64 + c mod 64 = c"
proof -
  have b: "b div 16 < 16" "c div 64 < 4" using assms by auto
  then show "a div 4 * 4 + (a mod 4 * 16 + b div 16) div 16 = a" by simp
  have "(b mod 16 * 4 + c div 64) div 4 = b mod 16" using b by simp
  moreover have "(a mod 4 * 16 + b div 16) mod 16 = b div 16" using b by simp
  ultimately show "(a mod 4 * 16 + b div 16) mod 16 * 16 + (b mod 16 * 4 + c div 64) div 4 = b" by simp
  have "(b mod 16 * 4 + c div 64) mod 4 = c div 64" using b by simp
  then show "(b mod 16 * 4 + c div 64) mod 4 * 64 + c mod 64 = c" by simp
qed

lemma raw_sextets: "\<forall>a \<in> set s. a < 256 \<Longrightarrow> raw_bytes (sextets s) = Some (map char_of s)"
proof (induction s rule: sextets.induct)
  case (3 a b)
  then show ?case using join_sextets(1,2) [of b 0] by simp
next
  case (4 a b c s)
  then have "b < 256" "c < 256" by simp_all
  then show ?case using 4 join_sextets [of b c] by simp
qed simp_all

lemma bytes_small: "\<forall>a \<in> set (map of_char s). a < (256 :: nat)"
  by simp

lemma raw_decode_encode: "raw_decode (raw_encode s) = Some s"
proof -
  note v = sextets_small [OF bytes_small [of s]]
  have "no_breaks (raw_encode s) = raw_encode s" using no_breaks_chars [OF v, of 0] by (simp add: raw_encode_def)
  then show ?thesis using vals_chars [OF v] raw_sextets [OF bytes_small [of s]]
    by (simp add: raw_decode_def raw_encode_def comp_def)
qed

section \<open>Padding\<close>

lemma length_sextets: "length (sextets s) + (3 - length s mod 3) mod 3 = 4 * ((length s + 2) div 3)"
proof (induction s rule: sextets.induct)
  case (4 a b c s)
  have "Suc (Suc (Suc (length s))) mod 3 = length s mod 3" "(Suc (Suc (Suc (length s))) + 2) div 3 = (length s + 2) div 3 + 1"
    by simp_all
  then show ?case using 4 by simp
qed simp_all

lemma raw_encode_chars: "c \<in> set (raw_encode s) \<Longrightarrow> c \<noteq> CHR ''=''"
  using sextets_small [OF bytes_small [of s]] b64_char_val by (auto simp: raw_encode_def)

lemma vals_equals: "CHR ''='' \<in> set s \<Longrightarrow> vals s = None"
proof (induction s)
  case (Cons c s)
  have "b64_val CHR ''='' = None" by code_simp
  then show ?case using Cons by (auto split: option.splits)
qed simp

lemma padded_decode_encode: "padded_decode (padded_encode s) = Some s"
proof -
  define n where "n = (3 - length s mod 3) mod 3"
  define r where "r = raw_encode s"
  note v = sextets_small [OF bytes_small [of s]]
  have nb: "no_breaks (r @ replicate n CHR ''='') = r @ replicate n CHR ''=''"
    using no_breaks_chars [OF v] by (simp add: r_def raw_encode_def)
  have d: "Option.bind (vals r) raw_bytes = Some s"
    using vals_chars [OF v] raw_sextets [OF bytes_small [of s]] by (simp add: r_def raw_encode_def comp_def)
  have l: "length (r @ replicate n CHR ''='') mod 4 = 0"
    using length_sextets [of "map of_char s :: nat list"] by (simp add: r_def n_def raw_encode_def)
  have e: "r \<noteq> [] \<Longrightarrow> hd (rev r) \<noteq> CHR ''=''" using raw_encode_chars [OF last_in_set] by (simp add: r_def hd_rev)
  have "n < 3" by (simp add: n_def)
  then consider "n = 0" | "n = 1" | "n = 2" by linarith
  then have "padded_decode (r @ replicate n CHR ''='') = Some s"
  proof cases
    case 1
    then show ?thesis using nb d l e by (cases "r = []") (simp_all add: padded_decode_def Let_def)
  next
    case 2
    then show ?thesis using nb d l e by (auto simp: padded_decode_def Let_def)
  next
    case 3
    then have "replicate n CHR ''='' = ''==''" by (simp add: numeral_2_eq_2)
    then show ?thesis using nb d l by (simp add: padded_decode_def Let_def)
  qed
  then show ?thesis by (simp add: padded_encode_def r_def n_def)
qed

lemma raw_decode_padded: "raw_decode (padded_encode s) = (if length s mod 3 = 0 then Some s else None)"
proof (cases "length s mod 3 = 0")
  case True
  then show ?thesis using raw_decode_encode by (simp add: padded_encode_def)
next
  case False
  then have "(3 - length s mod 3) mod 3 \<noteq> 0" by presburger
  then obtain n where n: "(3 - length s mod 3) mod 3 = Suc n" by (cases "(3 - length s mod 3) mod 3") auto
  note v = sextets_small [OF bytes_small [of s]]
  have "no_breaks (padded_encode s) = padded_encode s" using no_breaks_chars [OF v] by (simp add: padded_encode_def raw_encode_def)
  then show ?thesis using False vals_equals [of "padded_encode s"] by (simp add: raw_decode_def padded_encode_def n)
qed

text \<open>C35: Every URL comes back from the path \<open>/stream/...\<close>, with padding and without; an empty one is refused.\<close>

theorem stream_roundtrip:
  "main_target [] (''/stream/'' @ raw_encode u) = (if u = [] then None else Some u)
    \<and> main_target [] (''/stream/'' @ padded_encode u) = (if u = [] then None else Some u)"
  by (simp_all add: main_target_def stream_target_def has_prefix_def raw_decode_encode raw_decode_padded padded_decode_encode)

end
