(* ===== verification/ProxyRun.thy ===== *)
theory ProxyRun
  imports ProxyStream
begin

text \<open>
  Runs of the HTTP handler: any sequence of calls, each with its own answers of the upstream, of the file system
  and of \<open>http.ServeContent\<close>. What they keep of the engine's tree, and what they count.
\<close>

section \<open>Calls\<close>

record call =
  k_env :: cenv
  k_up :: upstream
  k_request :: http_request
  k_target :: string
  k_reads :: "read_op list"

definition call_lib :: "stdlib \<Rightarrow> call \<Rightarrow> stdlib" where
  "call_lib sl q = sl\<lparr>sl_content := k_reads q\<rparr>"

definition do_call :: "stdlib \<Rightarrow> call \<Rightarrow> Handler \<Rightarrow> (reply \<times> Handler) option" where
  "do_call sl q h = Serve (call_lib sl q) (k_env q) (k_up q) (k_request q) (k_target q) h"

fun serve_all :: "stdlib \<Rightarrow> call list \<Rightarrow> Handler \<Rightarrow> (reply list \<times> Handler) option" where
  "serve_all sl [] h = Some ([], h)"
| "serve_all sl (q # qs) h =
     (case do_call sl q h of
        None \<Rightarrow> None
      | Some (x, h1) \<Rightarrow> map_option (\<lambda>(xs, h2). (x # xs, h2)) (serve_all sl qs h1))"

section \<open>The tree of the engine\<close>

text \<open>The invariants of the engine go on, and no node is lost or changed.\<close>

definition engine_ok :: "Engine \<Rightarrow> bool" where
  "engine_ok e \<longleftrightarrow> tree_ok e \<and> idx (e_cache e)"

definition tree_keeps :: "Engine \<Rightarrow> Engine \<Rightarrow> bool" where
  "tree_keeps e e' \<longleftrightarrow> (engine_ok e \<longrightarrow> engine_ok e'
     \<and> (\<forall>p nd. map_of (children e) p = Some nd \<longrightarrow> map_of (children e') p = Some nd))"

lemma tree_keeps_refl [simp]: "tree_keeps e e" by (simp add: tree_keeps_def)

lemma tree_keeps_trans [trans]: "tree_keeps e e1 \<Longrightarrow> tree_keeps e1 e2 \<Longrightarrow> tree_keeps e e2"
  unfolding tree_keeps_def by blast

lemma tree_keeps_fine: "(engine_ok e \<Longrightarrow> fine e e') \<Longrightarrow> tree_keeps e e'"
proof -
  have m: "tree_step e e' \<Longrightarrow> map_of (children e) p = Some nd \<Longrightarrow> map_of (children e') p = Some nd" for p nd
    by (auto simp: tree_step_def same_tree_def adds_def)
  assume "engine_ok e \<Longrightarrow> fine e e'"
  then show ?thesis using step_ok [of e e'] steady_idx [of "e_cache e" "e_cache e'"] m
    by (simp add: tree_keeps_def engine_ok_def fine_def)
qed

lemma fine_same: "same_tree e e' \<Longrightarrow> steady (e_cache e) (e_cache e') \<Longrightarrow> fine e e'"
  by (simp add: fine_def tree_step_def)

lemma CacheItem_keeps: "CacheItem p e = (k, e') \<Longrightarrow> tree_keeps e e'"
proof (rule tree_keeps_fine)
  assume a: "CacheItem p e = (k, e')" "engine_ok e"
  then have "on_cache (Item_op p) e = (k, e')" by (simp add: CacheItem_def)
  from on_cache_cache [OF this] steady_get(1) a(2) show "fine e e'" by (auto simp: engine_ok_def intro: fine_same)
qed

lemma Exists_keeps: "on_cache (item_Exists k) e = (b, e') \<Longrightarrow> tree_keeps e e'"
proof (rule tree_keeps_fine)
  assume a: "on_cache (item_Exists k) e = (b, e')" "engine_ok e"
  note c = on_cache_cache [OF a(1)]
  have "steady (e_cache e) (snd (item_Exists k (e_cache e)))"
    unfolding item_Exists_def by (rule steady_run) (use a(2) in \<open>simp_all add: engine_ok_def\<close>)
  then show "fine e e'" using c by (auto intro: fine_same)
qed

lemma OpenCached_keeps: "OpenCached E p ob e = Some (r, e') \<Longrightarrow> tame E \<Longrightarrow> tree_keeps e e'"
  by (rule tree_keeps_fine) (use OpenCached_step(1) in \<open>auto simp: engine_ok_def\<close>)

lemma readAt_keeps: "fh_readAt E n off h e = Some (r, e') \<Longrightarrow> tame E \<Longrightarrow> tree_keeps e e'"
  by (rule tree_keeps_fine) (metis engine_ok_def fine_same fh_readAt_step)

lemma Read_keeps: "fh_Read E n h e = Some (r, h', e') \<Longrightarrow> tame E \<Longrightarrow> tree_keeps e e'"
  using readAt_keeps by (fastforce simp: fh_Read_def split: if_splits option.splits)

lemma hrun_keeps: "hrun E ops (h, e) = Some (outs, h', e') \<Longrightarrow> tame E \<Longrightarrow> tree_keeps e e'"
proof (induction ops arbitrary: h e outs)
  case (Cons op ops)
  obtain x h1 e1 xs where x: "hstep E op (h, e) = Some (x, h1, e1)" "hrun E ops (h1, e1) = Some (xs, h', e')"
    using Cons.prems(1) by (auto split: option.splits)
  have "tree_keeps e e1"
    using x(1) Read_keeps readAt_keeps Cons.prems(2) by (cases op) (auto simp: fh_ReadAt_def split: prod.splits)
  then show ?case using Cons.IH [OF x(2) Cons.prems(2)] tree_keeps_trans by blast
qed simp

lemma copy_handle_keeps:
  assumes "copy_handle E out h e = Some y"
  shows "tame E \<longrightarrow> tree_keeps e (snd (snd (snd y)))"
proof (rule copy_handle.raw_induct [OF _ assms])
  fix copy E out h e y
  assume IH: "\<And>E out h e y. copy E out h e = Some y \<Longrightarrow> tame E \<longrightarrow> tree_keeps e (snd (snd (snd y)))"
    and body: "(case fh_Read E 32768 h e of None \<Rightarrow> None
      | Some ((b, err), h1, e1) \<Rightarrow>
          (case err of None \<Rightarrow> copy E (out @ b) h1 e1
           | Some er \<Rightarrow> Some (out @ b, if er = EOF then None else Some er, h1, e1))) = Some y"
  obtain b er h1 e1 where r: "fh_Read E 32768 h e = Some ((b, er), h1, e1)" using body by (auto split: option.splits)
  note k = Read_keeps [OF r]
  show "tame E \<longrightarrow> tree_keeps e (snd (snd (snd y)))"
  proof (cases er)
    case None
    then have "copy E (out @ b) h1 e1 = Some y" using body r by simp
    from IH [OF this] show ?thesis using k tree_keeps_trans by blast
  next
    case (Some x)
    then show ?thesis using body r k by auto
  qed
qed

lemma copy_keeps: "copy_handle E out h e = Some (out', err, h', e') \<Longrightarrow> tame E \<Longrightarrow> tree_keeps e e'"
  using copy_handle_keeps by fastforce

lemma Remove_keeps: "Engine_Remove p e = (r, e') \<Longrightarrow> tree_keeps e e'"
proof -
  assume "Engine_Remove p e = (r, e')"
  then have e': "e' = snd (on_cache (Cache_Remove p) e)" by (auto simp: Engine_Remove_def)
  have c: "e_cache e' = snd (Cache_Remove p (e_cache e))" by (simp add: e' on_cache_def split_beta)
  have t: "tg (snd (run_item k remove c0)) = tg c0" for k c0 by (rule tg_run) simp
  have "idx (e_cache e) \<Longrightarrow> idx (e_cache e')"
    unfolding c by (auto simp: Cache_Remove_def t idx_def AList.delete_eq distinct_map_filter split: option.split)
  moreover have "same_tree e e'" by (simp add: e')
  ultimately show ?thesis by (auto simp: tree_keeps_def engine_ok_def same_tree_def tree_ok_def)
qed

section \<open>A call\<close>

text \<open>What a call leaves of the handler's configuration, and the counters of the metrics.\<close>

definition same_conf :: "Handler \<Rightarrow> Handler \<Rightarrow> bool" where
  "same_conf h h' \<longleftrightarrow> p_stripQuery h' = p_stripQuery h \<and> p_stripDomain h' = p_stripDomain h
     \<and> p_shardLevel h' = p_shardLevel h \<and> p_passthrough h' = p_passthrough h"

definition same_count :: "Handler \<Rightarrow> Handler \<Rightarrow> bool" where
  "same_count h h' \<longleftrightarrow> m_Requests (p_metrics h') = m_Requests (p_metrics h) \<and> m_Hits (p_metrics h') = m_Hits (p_metrics h)
     \<and> m_Misses (p_metrics h') = m_Misses (p_metrics h) \<and> m_Purges (p_metrics h') = m_Purges (p_metrics h)
     \<and> m_BytesFromUpstream (p_metrics h') = m_BytesFromUpstream (p_metrics h)"

lemma conf_simps [simp]: "same_conf h (h'\<lparr>p_Engine := e\<rparr>) = same_conf h h'" "same_conf h (upd_metrics f h') = same_conf h h'"
  "same_conf (h\<lparr>p_Engine := e\<rparr>) h' = same_conf h h'" "same_conf (upd_metrics f h) h' = same_conf h h'"
  "same_conf h (h'\<lparr>p_mapping := l\<rparr>) = same_conf h h'" "same_conf (h\<lparr>p_mapping := l\<rparr>) h' = same_conf h h'"
  "same_conf h (mapping_put u p hs h') = same_conf h h'" "same_conf (mapping_put u p hs h) h' = same_conf h h'" "same_conf h h"
  by (simp_all add: same_conf_def upd_metrics_def mapping_put_def)

lemma count_simps [simp]: "same_count h (h'\<lparr>p_Engine := e\<rparr>) = same_count h h'" "same_count h h"
  "same_count (h\<lparr>p_Engine := e\<rparr>) h' = same_count h h'"
  "same_count h (upd_metrics (\<lambda>m. m\<lparr>m_BytesServed := g m\<rparr>) h') = same_count h h'"
  by (simp_all add: same_count_def upd_metrics_def)

lemma Engine_simps [simp]: "p_Engine (upd_metrics f h) = p_Engine h" "p_Engine (mapping_put u p hs h) = p_Engine h"
  "p_metrics (mapping_put u p hs h) = p_metrics h" "p_metrics (upd_metrics f h) = f (p_metrics h)"
  by (simp_all add: upd_metrics_def mapping_put_def)

text \<open>A reply with content names the size of its file, and says whether it is stale.\<close>

fun stale :: "reply \<Rightarrow> bool" where
  "stale (RContent hs t outs) \<longleftrightarrow> header_Get hs ''X-Cache'' = ''STALE''"
| "stale (RCopy hs out err) \<longleftrightarrow> header_Get hs ''X-Cache'' = ''STALE''"
| "stale x \<longleftrightarrow> False"

lemma header_Get_Set: "header_Get (header_Set k v hs) k' = (if k' = k then v else header_Get hs k')"
  by (simp add: header_Get_def header_Set_def update_conv')

lemma header_Get_Nil [simp]: "header_Get [] k = []"
  by (simp add: header_Get_def)

lemma header_Get_last_modified: "k \<noteq> ''Last-Modified'' \<Longrightarrow> header_Get (set_last_modified sl t hs) k = header_Get hs k"
  by (simp add: set_last_modified_def header_Get_Set)

text \<open>The content of a handle: what all replies with content have in common.\<close>

definition content_of :: "Handler \<Rightarrow> headers \<Rightarrow> Handler \<Rightarrow> reply \<Rightarrow> bool" where
  "content_of h hs h' x \<longleftrightarrow> tree_keeps (p_Engine h) (p_Engine h') \<and> same_conf h h' \<and> same_count h h'
     \<and> ((\<exists>t outs. x = RContent hs t outs) \<or> (\<exists>out err. x = RCopy hs out err))"

lemma serve_content_of: "serve_content sl E hs t fh h = Some (x, h') \<Longrightarrow> tame E \<Longrightarrow> content_of h hs h' x"
  using hrun_keeps by (fastforce simp: serve_content_def content_of_def split: option.splits)

lemma copy_content_of: "copy_content E hs fh h = Some (x, h') \<Longrightarrow> tame E \<Longrightarrow> content_of h hs h' x"
  using copy_keeps by (fastforce simp: copy_content_def content_of_def split: option.splits)

text \<open>The size that a reply names is that of the node of its cache path.\<close>

definition sized :: "string \<Rightarrow> Handler \<Rightarrow> reply \<Rightarrow> bool" where
  "sized p h x \<longleftrightarrow> (\<forall>hs t outs. x = RContent hs t outs \<longrightarrow>
     (\<exists>f. map_of (children (p_Engine h)) (trim_slash p) = Some (FileNode f) \<and> header_Get hs ''Content-Length'' = show_int (f_size f)))"

lemma sized_content:
  assumes "content_of h hs h' x" "on_tree (p_Engine h) fh" "f_name (h_file fh) = trim_slash p" "engine_ok (p_Engine h)"
    and "header_Get hs ''Content-Length'' = show_int (f_size (h_file fh))"
  shows "sized p h' x"
  using assms by (auto simp: sized_def content_of_def tree_keeps_def on_tree_def)

lemma tryStale_step:
  assumes "tryStaleServe sl E p h = Some (r, h')" "tame E"
  shows "tree_keeps (p_Engine h) (p_Engine h')" "same_conf h h'" "same_count h h'" "r = Inr x \<Longrightarrow> stale x"
    "r = Inr x \<Longrightarrow> engine_ok (p_Engine h) \<Longrightarrow> sized p h' x"
proof -
  obtain k e1 where 1: "CacheItem p (p_Engine h) = (k, e1)" by (cases "CacheItem p (p_Engine h)")
  obtain ex e2 where 2: "on_cache (item_Exists k) e1 = (ex, e2)" by (cases "on_cache (item_Exists k) e1")
  note k2 = tree_keeps_trans [OF CacheItem_keeps [OF 1] Exists_keeps [OF 2]]
  have "tree_keeps (p_Engine h) (p_Engine h') \<and> same_conf h h' \<and> same_count h h'
    \<and> (\<forall>x. r = Inr x \<longrightarrow> stale x \<and> (engine_ok (p_Engine h) \<longrightarrow> sized p h' x))"
  proof (cases ex)
    case False
    then show ?thesis using assms(1) 1 2 k2 by (auto simp: tryStaleServe_def)
  next
    case True
    obtain q e3 where 3: "OpenCached E p None e2 = Some (q, e3)"
      using assms(1) 1 2 True by (auto simp: tryStaleServe_def split: option.splits)
    note k3 = tree_keeps_trans [OF k2 OpenCached_keeps [OF 3 assms(2)]]
    show ?thesis
    proof (cases q)
      case (Inl er)
      then show ?thesis using assms(1) 1 2 3 True k3 by (auto simp: tryStaleServe_def)
    next
      case (Inr fh)
      let ?i = "fst (fh_Stat e3 fh)"
      let ?hs = "set_last_modified sl (n_ModTime ?i) (header_Set ''X-Cache'' ''STALE''
                                (header_Set ''Content-Length'' (show_int (n_Size ?i)) []))"
      let ?h3 = "h\<lparr>p_Engine := e3\<rparr>"
      obtain x where x: "r = Inr x" "content_of ?h3 ?hs h' x"
        using assms(1) 1 2 3 True Inr serve_content_of copy_content_of assms(2)
        by (auto simp: tryStaleServe_def Let_def split: if_splits)
      have hs: "header_Get ?hs ''X-Cache'' = ''STALE''" "header_Get ?hs ''Content-Length'' = show_int (f_size (h_file fh))"
        by (simp_all add: header_Get_last_modified header_Get_Set fh_Stat_def File_info_def)
      have "stale x" using x(2) hs(1) by (auto simp: content_of_def)
      moreover have "sized p h' x" if "engine_ok (p_Engine h)"
      proof -
        have e: "engine_ok e2" "engine_ok e3" using k2 k3 that by (simp_all add: tree_keeps_def)
        have t: "tree_ok e2" "idx (e_cache e2)" using e(1) by (simp_all add: engine_ok_def)
        have o: "on_tree e3 fh" "f_name (h_file fh) = trim_slash p"
          using OpenCached_step(2,4) [OF 3 t assms(2)] Inr by blast+
        show ?thesis by (rule sized_content [OF x(2), of fh]) (use o e(2) hs(2) in simp_all)
      qed
      ultimately show ?thesis using x k3 tree_keeps_trans by (auto simp: content_of_def)
    qed
  qed
  then show "tree_keeps (p_Engine h) (p_Engine h')" "same_conf h h'" "same_count h h'" "r = Inr x \<Longrightarrow> stale x"
    "r = Inr x \<Longrightarrow> engine_ok (p_Engine h) \<Longrightarrow> sized p h' x" by blast+
qed

lemma five_ways:
  assumes "(if c1 then Some (a, h) else if c2 then Some (b, h) else if c3 then map_option (\<lambda>(x, h'). (x, g h')) u
      else if c4 then Some (d, h) else map_option (\<lambda>(x, h'). (x, g h')) v) = Some (x, h')"
  shows "(h' = h \<and> x \<in> {a, b, d}) \<or> (c3 \<and> (\<exists>h1. u = Some (x, h1) \<and> h' = g h1)) \<or> (\<exists>h1. v = Some (x, h1) \<and> h' = g h1)"
  using assms by (auto split: if_splits)

lemma respond_step:
  assumes "respond sl E r p fh h = Some (x, h')" "tame E"
  shows "tree_keeps (p_Engine h) (p_Engine h')" "same_conf h h'" "same_count h h'" "\<not> stale x" "x \<noteq> RPurged" "\<And>rsp. x \<noteq> RUpstream rsp"
    "engine_ok (p_Engine h) \<Longrightarrow> on_tree (p_Engine h) fh \<Longrightarrow> f_name (h_file fh) = trim_slash p \<Longrightarrow> sized p h' x"
proof -
  let ?i = "fst (fh_Stat (p_Engine h) fh)"
  let ?t = "n_ModTime ?i" and ?sz = "n_Size ?i"
  let ?hs1 = "if ?t \<noteq> 0 \<and> 0 \<le>s ?sz then header_Set ''ETag'' (etag p ?sz) [] else []"
  let ?hs2 = "if 0 \<le>s ?sz then header_Set ''Content-Length'' (show_int ?sz) ?hs1 else ?hs1"
  let ?mt = "sl_MimeType sl (path_Ext p)"
  let ?hs = "set_last_modified sl ?t (if ?mt \<noteq> [] then header_Set ''Content-Type'' ?mt ?hs2 else ?hs2)"
  let ?g = "upd_metrics (\<lambda>m. m\<lparr>m_BytesServed := m_BytesServed m + ?sz\<rparr>)"
  have X: "header_Get ?hs ''X-Cache'' = []" "0 \<le>s ?sz \<Longrightarrow> header_Get ?hs ''Content-Length'' = show_int (f_size (h_file fh))"
    by (simp_all add: header_Get_last_modified header_Get_Set fh_Stat_def File_info_def)
  consider (plain) "h' = h" "x \<in> {RStatus 304 [], RStatus 304 (header_Set ''ETag'' (etag p ?sz) []),
        RError 416 ''Cannot use Range on files of unknown length''}"
    | (content) h1 where "0 \<le>s ?sz" "serve_content sl E ?hs ?t fh h = Some (x, h1)" "h' = ?g h1"
    | (copy) h1 where "copy_content E ?hs fh h = Some (x, h1)" "h' = ?g h1"
    using five_ways [OF assms(1) [unfolded respond_def Let_def]] by blast
  then have "tree_keeps (p_Engine h) (p_Engine h') \<and> same_conf h h' \<and> same_count h h' \<and> \<not> stale x \<and> x \<noteq> RPurged
    \<and> (\<forall>rsp. x \<noteq> RUpstream rsp)
    \<and> (engine_ok (p_Engine h) \<and> on_tree (p_Engine h) fh \<and> f_name (h_file fh) = trim_slash p \<longrightarrow> sized p h' x)"
  proof cases
    case plain
    then show ?thesis by (auto simp: sized_def)
  next
    case content
    note c = serve_content_of [OF content(2) assms(2)]
    have s: "sized p h' x" if "engine_ok (p_Engine h)" "on_tree (p_Engine h) fh" "f_name (h_file fh) = trim_slash p"
      using sized_content [OF c that(2,3,1) X(2) [OF content(1)]] by (simp add: sized_def content(3))
    show ?thesis using c s X(1) content(3) by (auto simp: content_of_def)
  next
    case copy
    note c = copy_content_of [OF copy(1) assms(2)]
    obtain out err where x: "x = RCopy ?hs out err" using copy(1) by (auto simp: copy_content_def split: option.splits)
    have "sized p h' x" by (simp add: sized_def x)
    then show ?thesis using c x X(1) copy(2) by (simp add: content_of_def)
  qed
  then show "tree_keeps (p_Engine h) (p_Engine h')" "same_conf h h'" "same_count h h'" "\<not> stale x" "x \<noteq> RPurged" "\<And>rsp. x \<noteq> RUpstream rsp"
    "engine_ok (p_Engine h) \<Longrightarrow> on_tree (p_Engine h) fh \<Longrightarrow> f_name (h_file fh) = trim_slash p \<Longrightarrow> sized p h' x"
    by blast+
qed


section \<open>Serve\<close>

text \<open>The calls that go through the cache.\<close>

definition cacheable :: "http_request \<Rightarrow> string \<Rightarrow> Handler \<Rightarrow> bool" where
  "cacheable r url h \<longleftrightarrow> url \<noteq> [] \<and> q_Method r \<noteq> ''PURGE'' \<and> \<not> p_passthrough h \<and> \<not> shouldPassthrough r"

definition one :: "bool \<Rightarrow> int64" where
  "one b = (if b then 1 else 0)"

definition counts :: "Handler \<Rightarrow> bool \<Rightarrow> reply \<Rightarrow> Handler \<Rightarrow> bool" where
  "counts h c x h' \<longleftrightarrow> m_Requests (p_metrics h') = m_Requests (p_metrics h) + one c
     \<and> m_Hits (p_metrics h') + m_Misses (p_metrics h') = m_Hits (p_metrics h) + m_Misses (p_metrics h) + one c + one (stale x)
     \<and> m_Purges (p_metrics h') = m_Purges (p_metrics h) + one (x = RPurged)
     \<and> m_BytesFromUpstream (p_metrics h') = m_BytesFromUpstream (p_metrics h)"

lemma counts_request: "same_count (upd_metrics (count_request ex) h) h' \<Longrightarrow> \<not> stale x \<Longrightarrow> x \<noteq> RPurged \<Longrightarrow> counts h True x h'"
  by (simp add: counts_def same_count_def count_request_def one_def)

lemma counts_stale:
  "same_count (upd_metrics (count_request ex) h) h1 \<Longrightarrow> stale x \<Longrightarrow> x \<noteq> RPurged \<Longrightarrow> counts h True x (upd_metrics count_stale h1)"
  by (simp add: counts_def same_count_def count_request_def count_stale_def one_def)

lemma serve_cached_step:
  assumes "serve_cached sl E up r url h = Some (x, h')" "tame E"
  shows "tree_keeps (p_Engine h) (p_Engine h') \<and> same_conf h h' \<and> counts h True x h'
    \<and> (engine_ok (p_Engine h) \<longrightarrow> sized (hashCachePath sl h url) h' x)"
proof -
  let ?p = "hashCachePath sl h url"
  let ?h1 = "mapping_put url ?p (upstream_headers (q_Header r)) h"
  let ?f = "newHTTPFile sl up ?p ?h1"
  obtain k e1 where 1: "CacheItem ?p (p_Engine h) = (k, e1)" by (cases "CacheItem ?p (p_Engine h)")
  obtain ex e2 where 2: "on_cache (item_Exists k) e1 = (ex, e2)" by (cases "on_cache (item_Exists k) e1")
  note k2 = tree_keeps_trans [OF CacheItem_keeps [OF 1] Exists_keeps [OF 2]]
  let ?h2 = "upd_metrics (count_request ex) (?h1\<lparr>p_Engine := e2\<rparr>)"
  obtain q e3 where 3: "OpenCached E ?p (Some (item_remote ?f)) e2 = Some (q, e3)"
    using assms(1) 1 2 by (auto simp: serve_cached_def Let_def split: option.splits)
  note k3 = tree_keeps_trans [OF k2 OpenCached_keeps [OF 3 assms(2)]]
  let ?h3 = "?h2\<lparr>p_Engine := e3\<rparr>"
  have m: "same_count (upd_metrics (count_request ex) h) h'" if "same_count ?h3 h'" for h'
    using that by (simp add: same_count_def)
  have p: "p_Engine ?h3 = e3" "same_conf ?h3 h' \<Longrightarrow> same_conf h h'" for h' by simp_all
  show ?thesis
  proof (cases q)
    case (Inr fh)
    then have "respond sl E r ?p fh ?h3 = Some (x, h')" using assms(1) 1 2 3 by (simp add: serve_cached_def Let_def)
    note R = respond_step [OF this assms(2), unfolded p(1)]
    have "sized ?p h' x" if "engine_ok (p_Engine h)"
    proof -
      have e: "engine_ok e2" "engine_ok e3" using k2 k3 that by (simp_all add: tree_keeps_def)
      have t: "tree_ok e2" "idx (e_cache e2)" using e(1) by (simp_all add: engine_ok_def)
      show ?thesis using OpenCached_step(2,4) [OF 3 t assms(2) Inr] R(7) e(2) by blast
    qed
    then show ?thesis using R(1-5) k3 tree_keeps_trans p(2) counts_request [OF m] by blast
  next
    case (Inl er)
    obtain z h4 where z: "tryStaleServe sl E ?p ?h3 = Some (z, h4)"
      using assms(1) 1 2 3 Inl by (auto simp: serve_cached_def Let_def split: option.splits)
    note T = tryStale_step [OF z assms(2), unfolded p(1)]
    show ?thesis
    proof (cases z)
      case (Inl u)
      then have "x = RError 500 (''Failed to open file: '' @ Error er)" "h' = h4"
        using assms(1) 1 2 3 \<open>q = Inl er\<close> z by (simp_all add: serve_cached_def Let_def)
      then show ?thesis using T(1-3) k3 tree_keeps_trans p(2) counts_request [OF m] by (auto simp: sized_def)
    next
      case (Inr y)
      then have y: "x = y" "h' = upd_metrics count_stale h4"
        using assms(1) 1 2 3 \<open>q = Inl er\<close> z by (simp_all add: serve_cached_def Let_def)
      have "x \<noteq> RPurged" using T(4) [OF Inr] y(1) by auto
      moreover have "sized ?p h' x" if "engine_ok (p_Engine h)"
        using T(5) [OF Inr] k3 that y by (auto simp: tree_keeps_def sized_def)
      ultimately show ?thesis
        using T(1-3) T(4) [OF Inr] k3 tree_keeps_trans p(2) counts_stale [OF m] y by auto
    qed
  qed
qed

lemma purge_step:
  assumes "handlePurge sl url h = (x, h')"
  shows "tree_keeps (p_Engine h) (p_Engine h') \<and> same_conf h h' \<and> counts h False x h' \<and> sized p h' x"
proof -
  let ?h1 = "h\<lparr>p_mapping := AList.delete (hashCachePath sl h url) (p_mapping h)\<rparr>"
  obtain r e where 1: "Engine_Remove (hashCachePath sl h url) (p_Engine ?h1) = (r, e)"
    by (cases "Engine_Remove (hashCachePath sl h url) (p_Engine ?h1)")
  then have "tree_keeps (p_Engine h) e" using Remove_keeps by simp
  then show ?thesis using assms 1 unfolding handlePurge_def Let_def
    by (cases r) (auto simp: counts_def one_def sized_def)
qed

lemma Serve_step:
  assumes "Serve sl E up r url h = Some (x, h')" "tame E"
  shows "tree_keeps (p_Engine h) (p_Engine h') \<and> same_conf h h' \<and> counts h (cacheable r url h) x h'
    \<and> (engine_ok (p_Engine h) \<longrightarrow> sized (hashCachePath sl h url) h' x)"
proof -
  have D: "\<exists>y. proxyDirect up r url = y \<and> \<not> stale y \<and> y \<noteq> RPurged \<and> sized p h y" for p
    by (auto simp: proxyDirect_def sized_def split: option.splits sum.splits)
  consider "url = []" | "url \<noteq> []" "q_Method r = ''PURGE''"
    | "url \<noteq> []" "q_Method r \<noteq> ''PURGE''" "p_passthrough h \<or> shouldPassthrough r" | "cacheable r url h"
    by (auto simp: cacheable_def)
  then show ?thesis
  proof cases
    case 1
    then show ?thesis using assms(1) by (auto simp: Serve_def cacheable_def counts_def one_def sized_def)
  next
    case 2
    then show ?thesis using assms(1) purge_step [of sl url h x h'] by (auto simp: Serve_def cacheable_def)
  next
    case 3
    then have "h' = h" "x = proxyDirect up r url" using assms(1) by (auto simp: Serve_def)
    then show ?thesis using D 3 by (auto simp: cacheable_def counts_def one_def)
  next
    case 4
    then show ?thesis using serve_cached_step [of sl E up r url h x h'] assms by (auto simp: Serve_def cacheable_def)
  qed
qed

section \<open>Runs\<close>

lemma call_lib_path [simp]: "hashCachePath (call_lib sl q) h url = hashCachePath sl h url"
  by (simp add: hashCachePath_def call_lib_def)

lemma conf_path: "same_conf h h' \<Longrightarrow> hashCachePath sl h' url = hashCachePath sl h url \<and> cacheable r url h' = cacheable r url h"
  by (simp add: same_conf_def hashCachePath_def cacheable_def)

lemma do_call_step:
  assumes "do_call sl q h = Some (x, h')" "tame (k_env q)"
  shows "tree_keeps (p_Engine h) (p_Engine h') \<and> same_conf h h' \<and> counts h (cacheable (k_request q) (k_target q) h) x h'
    \<and> (engine_ok (p_Engine h) \<longrightarrow> sized (hashCachePath sl h (k_target q)) h' x)"
  using Serve_step [OF assms(1) [unfolded do_call_def] assms(2)] by simp

lemma conf_trans: "same_conf h h1 \<Longrightarrow> same_conf h1 h2 \<Longrightarrow> same_conf h h2"
  by (simp add: same_conf_def)

lemma serve_all_step:
  assumes "serve_all sl qs h = Some (xs, h')" "list_all (\<lambda>q. tame (k_env q)) qs"
  shows "tree_keeps (p_Engine h) (p_Engine h')" "same_conf h h'"
  using assms
proof (induction qs arbitrary: h xs)
  case (Cons q qs)
  case 1
  then obtain x h1 ys where "do_call sl q h = Some (x, h1)" "serve_all sl qs h1 = Some (ys, h')" by (auto split: option.splits)
  then show ?case using do_call_step [of sl q h x h1] Cons.IH(1) [of h1 ys] 1 tree_keeps_trans by auto
next
  case (Cons q qs)
  case 2
  then obtain x h1 ys where "do_call sl q h = Some (x, h1)" "serve_all sl qs h1 = Some (ys, h')" by (auto split: option.splits)
  then show ?case using do_call_step [of sl q h x h1] Cons.IH(2) [of h1 ys] 2 conf_trans by auto
qed simp_all

end
