(* ===== verification/EngineNew.thy ===== *)
theory EngineNew
  imports EngineProps
begin

text \<open>
  The cache that \<open>cache.New\<close> loads has its index in order, so what is shown of sessions holds from the start of
  the program on.
\<close>

lemma tag_close_fd [simp]: "tag (snd (close_fd w)) = tag w"
  by (simp add: close_fd_def split_beta)

lemma tag_store [simp]: "tag (snd (store w)) = tag w"
  by (simp add: store_def)

lemma tag_set_mtime [simp]: "tag (set_mtime t w) = tag w"
  by (simp add: set_mtime_def)

lemma tag_queue_upload [simp]: "tag (queue_upload w) = tag w"
  by (simp add: queue_upload_def Let_def tag_def upd_it_def)

lemma tag_actualClose: "env_tame E \<Longrightarrow> tag (snd (actualClose E b w)) = tag w"
  by (simp add: actualClose_def split_beta Let_def tag_ensure tag_close_downloaders)

lemma tag_close_locked: "env_tame E \<Longrightarrow> tag (snd (close_locked E w)) = (fst (tag w), snd (tag w) - 1)"
proof -
  assume a: "env_tame E"
  have o: "tag (upd_it (\<lambda>i. i\<lparr>opens := opens i - 1\<rparr>) (upd_info f w)) = (fst (tag w), snd (tag w) - 1)" for f
    by (simp add: tag_def upd_it_def upd_info_def)
  show ?thesis by (simp add: close_locked_def Let_def tag_actualClose [OF a] o)
qed

lemma tag_open_locked:
  assumes "env_tame E" "open_locked E ob w = (err, w')"
  shows "fst (tag w') = fst (tag w)" "snd (tag w) \<le> snd (tag w')" "err = None \<Longrightarrow> snd (tag w') = snd (tag w) + 1"
proof -
  obtain er cr w1 where o: "open_create E ob w = ((er, cr), w1)" by (metis prod_cases3 surj_pair)
  note t = tag_open_create [OF assms(1) o]
  have "tag w' = tag w1" "err = None \<Longrightarrow> er = None"
    using assms(2) o by (auto simp: open_locked_def open_create_def Let_def split_beta split: if_splits option.splits)
  then show "fst (tag w') = fst (tag w)" "snd (tag w) \<le> snd (tag w')" "err = None \<Longrightarrow> snd (tag w') = snd (tag w) + 1"
    using t by auto
qed

lemma tag_Open_loop:
  assumes "env_tame E" "Open_loop E ob n w = Some (err, w')"
  shows "fst (tag w') = fst (tag w) \<and> snd (tag w) \<le> snd (tag w') \<and> (0 < n \<longrightarrow> err = None \<longrightarrow> snd (tag w) < snd (tag w'))"
  using assms(2)
proof (induction n arbitrary: w)
  case (Suc n)
  obtain e1 w1 where g: "guarded (open_locked E ob) w = Some (e1, w1)" using Suc.prems by (auto split: option.splits)
  then obtain w2 where w: "open_locked E ob (upd_it (\<lambda>i. i\<lparr>pendingAccesses := pendingAccesses i + 1\<rparr>) w) = (e1, w2)" "w1 = postAccess w2"
    by (auto simp: guarded_def preAccess_def split: option.splits prod.splits if_splits)
  note o = tag_open_locked [OF assms(1) w(1), simplified]
  have t1: "tag w1 = tag w2" by (simp add: w(2) postAccess_def)
  show ?case
  proof (cases "e1 = None \<or> gives_up (the e1)")
    case True
    then show ?thesis using Suc.prems g o t1 by (cases e1) auto
  next
    case False
    let ?w3 = "e_KickCleaner E w1"
    have t3: "tag ?w3 = tag w1" by (rule env_tameD(5) [OF assms(1)])
    show ?thesis
    proof (cases n)
      case 0
      then show ?thesis using Suc.prems g o t1 t3 False by (cases e1) (auto simp: Let_def)
    next
      case S: (Suc m)
      then have "Open_loop E ob n ?w3 = Some (err, w')" using Suc.prems g False by (cases e1) (auto simp: Let_def)
      from Suc.IH [OF this] S t1 t3 o show ?thesis by auto
    qed
  qed
qed simp

lemma tag_reload:
  assumes "env_tame E" "reload E addv w = Some (r, w')" "0 \<le> snd (tag w)"
  shows "fst (tag w') = fst (tag w)" "0 \<le> snd (tag w')"
proof -
  have "fst (tag w') = fst (tag w) \<and> 0 \<le> snd (tag w')"
  proof (cases "Dirty (inf w)")
    case False
    then show ?thesis using assms by (simp add: reload_def)
  next
    case True
    obtain e1 w1 where o: "Open E None w = Some (e1, w1)" using assms(2) True by (auto simp: reload_def split: option.splits)
    note O = tag_Open_loop [OF assms(1) o [unfolded Open_def]]
    show ?thesis
    proof (cases e1)
      case (Some e)
      then show ?thesis using assms(2,3) True o O by (auto simp: reload_def)
    next
      case None
      obtain e2 w2 where c: "Close E w1 = Some (e2, w2)" using assms(2) True o None by (auto simp: reload_def split: option.splits)
      then obtain w3 where "close_locked E (upd_it (\<lambda>i. i\<lparr>pendingAccesses := pendingAccesses i + 1\<rparr>) w1) = (e2, w3)" "w2 = postAccess w3"
        by (auto simp: Close_def guarded_def preAccess_def split: option.splits prod.splits if_splits)
      then have t: "tag w2 = (fst (tag w1), snd (tag w1) - 1)"
        using tag_close_locked [OF assms(1), of "upd_it (\<lambda>i. i\<lparr>pendingAccesses := pendingAccesses i + 1\<rparr>) w1"]
        by (simp add: postAccess_def)
      obtain z ez w4 where gs: "getSize w2 = ((z, ez), w4)" by (metis prod_cases3 surj_pair)
      have "tag w4 = tag w2" using tag_getSize [of w2] gs by simp
      then have "tag w' = tag w2" using assms(2) True o None c gs
        by (auto simp: reload_def split: option.splits)
      then show ?thesis using t O None assms(3) by auto
    qed
  qed
  then show "fst (tag w') = fst (tag w)" "0 \<le> snd (tag w')" by blast+
qed

lemma reload_all_idx: "reload_all E ns c = Some c' \<Longrightarrow> tame E \<Longrightarrow> idx c \<Longrightarrow> idx c'"
proof (induction ns arbitrary: c)
  case (Cons n ns)
  obtain k b c1 where g: "get n c = ((k, b), c1)" by (metis prod_cases3 surj_pair)
  have K: "idx c1" "map_of (c_item c1) (clean n) = Some k"
    using steady_get [of c n k c1] steady_idx Cons.prems(3) g by (auto simp: Item_op_def)
  show ?case
  proof (cases b)
    case True
    then show ?thesis using Cons g K by auto
  next
    case False
    then obtain r w where w: "reload (c_env E k) (\<lambda>_ _. None) (at k c1) = Some (r, w)" "reload_all E ns (put_back k w c1) = Some c'"
      using Cons.prems(1) g by (auto split: option.splits)
    have e: "env_tame (c_env E k)" using Cons.prems(2) by (simp add: tame_def)
    have "0 \<le> snd (tag (at k c1))" using idx_D [OF K] by (simp add: tg_def)
    note R = tag_reload [OF e w(1) this]
    have "idx (put_back k w c1)" using K(1) R unfolding idx_def by (auto simp: tg_put_back tg_def)
    from Cons.IH [OF w(2) Cons.prems(2) this] show ?thesis .
  qed
qed simp

lemma newCache_idx:
  assumes "newCache E dir w names age sz free poll = Some (Inr c)" "tame E"
  shows "idx c"
proof -
  obtain w2 c1 where 1: "reload_all E names (fresh_Cache w2 age sz free poll) = Some c1" "c = c1\<lparr>c_kick := Some 0\<rparr>"
    using assms(1) by (auto simp: newCache_def split: if_splits prod.splits option.splits)
  have "idx (fresh_Cache w2 age sz free poll)" by (simp add: idx_def fresh_Cache_def)
  from reload_all_idx [OF 1(1) assms(2) this] show ?thesis using 1(2) by (simp add: idx_def tg_eq)
qed

end
