(* ===== verification/ProxyProps.thy ===== *)
theory ProxyProps
  imports ProxyRun EngineNew
begin

text \<open>
  The properties of the HTTP handler over whole runs.
\<close>

section \<open>A new handler\<close>

lemma NewHandler_parts:
  assumes "NewHandler sl E w names ino opt = Some (Inr h)"
  obtains t c where "handler_options sl opt = Inr t" "new_cache E w names t = Some (Inr c)" "newEngine (Inr c) ino = Inr (p_Engine h)"
    "p_metrics h = zero_Metrics" "p_mapping h = []"
proof -
  obtain t where t: "handler_options sl opt = Inr t" using assms by (auto simp: NewHandler_def split: sum.splits)
  obtain r where r: "new_cache E w names t = Some r" using assms t by (auto simp: NewHandler_def split: option.splits)
  obtain e where e: "newEngine r ino = Inr e" "h = \<lparr>p_Engine = e, p_mapping = [], p_metrics = zero_Metrics, p_stripQuery = o_StripQuery opt,
                      p_stripDomain = o_StripDomain opt, p_shardLevel = o_ShardLevel opt, p_passthrough = o_Passthrough opt\<rparr>"
    using assms t r by (auto simp: NewHandler_def split: sum.splits)
  then obtain c where "r = Inr c" by (cases r) (auto simp: newEngine_def)
  then show thesis using that t r e by simp
qed

lemma newEngine_fields: "newEngine (Inr c) ino = Inr e \<Longrightarrow> e_cache e = c \<and> children e = []"
  by (auto simp: newEngine_def)

lemma NewHandler_ok: "NewHandler sl E w names ino opt = Some (Inr h) \<Longrightarrow> tame E \<Longrightarrow> engine_ok (p_Engine h)"
proof -
  assume a: "NewHandler sl E w names ino opt = Some (Inr h)" "tame E"
  from NewHandler_parts [OF a(1)] obtain t c where
    c: "new_cache E w names t = Some (Inr c)" "newEngine (Inr c) ino = Inr (p_Engine h)" by metis
  then show ?thesis using newEngine_fields [OF c(2)] newCache_idx [OF _ a(2)] unfolding new_cache_def
    by (auto simp: engine_ok_def tree_ok_def)
qed

lemma handler_options_poll: "handler_options sl opt = Inr t \<Longrightarrow> t_CachePollInterval t = 0"
proof -
  have s: "t_CachePollInterval (set_size s f t) = t_CachePollInterval t" if "\<And>n t. t_CachePollInterval (f n t) = t_CachePollInterval t" for s f t
    using that by (simp add: set_size_def split: sum.split)
  assume "handler_options sl opt = Inr t"
  then show ?thesis by (auto simp: handler_options_def Let_def s zero_options_def split: if_splits sum.splits)
qed

section \<open>A handler to run\<close>

text \<open>A hash of one byte, an upstream that tells sizes and delivers nothing, and calls that seek to the end.\<close>

definition tiny_stdlib :: stdlib where
  "tiny_stdlib = demo_stdlib\<lparr>sl_md5 := (\<lambda>_. [171])\<rparr>"

definition demo_options :: Options where
  "demo_options = DefaultOptions\<lparr>o_CacheDir := ''/c'', o_CacheMaxSize := ''1K''\<rparr>"

definition demo_upstream :: "nat \<Rightarrow> upstream" where
  "demo_upstream n = \<lparr>up_refuses = (\<lambda>_. None), up_do = (\<lambda>r. if q_Method r = ''HEAD''
     then Inr \<lparr>StatusCode = 200, rsp_Header = [(''Content-Length'', [show_nat n])], rsp_Body = Reader [] EOF None None\<rparr>
     else Inl (Other ''timeout''))\<rparr>"

definition demo_call :: "string \<Rightarrow> nat \<Rightarrow> call" where
  "demo_call m n = \<lparr>k_env = demo_cenv, k_up = demo_upstream n,
     k_request = \<lparr>q_Method = m, q_url = [], q_Header = [], q_Body = []\<rparr>, k_target = ''http://a/b'', k_reads = [RdSeek 0 2]\<rparr>"

definition demo_start :: "(go_err + Handler) option" where
  "demo_start = NewHandler tiny_stdlib demo_cenv demo_world [] 0 demo_options"

lemma demo_tame: "tame (k_env (demo_call m n))"
  by (simp add: demo_call_def demo_engine_ok(1))

lemma demo_start_obtain: obtains h where "demo_start = Some (Inr h)"
proof -
  have "case demo_start of Some (Inr h) \<Rightarrow> True | _ \<Rightarrow> False" by code_simp
  then show thesis using that by (auto split: option.splits sum.splits)
qed

section \<open>The cleaner\<close>

lemma idle_step:
  assumes "cstep E c c'" "CachePollInterval c = 0"
  shows "CachePollInterval c' = 0" "outOfSpace c \<Longrightarrow> outOfSpace c'"
    "(cleanerKicked c \<longrightarrow> outOfSpace c) \<Longrightarrow> (cleanerKicked c' \<longrightarrow> outOfSpace c')"
  using cstep_flags [OF assms(1)] cstep_poll [OF assms(1)] assms(2)
  by (auto simp: flags_def kick_start_def clean_kicked_def clean_tick_def cleaner_runs_def split: if_splits option.splits nat.splits)

text \<open>C36: No handler ever runs the cleaner of its cache: whatever \<open>max_age\<close> and \<open>max_size\<close> say, its cache is only
  emptied by purges, and an item that kicks the cleaner waits for ever.\<close>

theorem handler_never_cleans:
  assumes "NewHandler sl E w names ino opt = Some (Inr h)" "(cstep E')\<^sup>*\<^sup>* (e_cache (p_Engine h)) c"
  shows "clean_kicked E' c = None \<and> clean_tick E' c = None
    \<and> (kick_start c = Some c1 \<longrightarrow> (cstep E')\<^sup>*\<^sup>* c1 c2 \<longrightarrow> outOfSpace c2)"
proof -
  from NewHandler_parts [OF assms(1)] obtain t c0 where
    t: "handler_options sl opt = Inr t" "new_cache E w names t = Some (Inr c0)" "newEngine (Inr c0) ino = Inr (p_Engine h)" by metis
  note f = newCache_flags [OF t(2) [unfolded new_cache_def]]
  have p: "CachePollInterval c0 = 0" using f(2) handler_options_poll [OF t(1)] by simp
  have e: "e_cache (p_Engine h) = c0" using newEngine_fields [OF t(3)] by simp
  have st: "CachePollInterval c = 0 \<and> (cleanerKicked c \<longrightarrow> outOfSpace c)" using assms(2)
  proof (induction rule: rtranclp_induct)
    case base
    then show ?case using p f(3,4) e by simp
  next
    case (step a b)
    then show ?case using idle_step by blast
  qed
  have "outOfSpace c2" if k: "kick_start c = Some c1" "(cstep E')\<^sup>*\<^sup>* c1 c2"
  proof -
    have c1: "outOfSpace c1" "CachePollInterval c1 = 0" using k(1) st by (auto simp: kick_start_def split: if_splits option.splits nat.splits)
    from k(2) have "outOfSpace c2 \<and> CachePollInterval c2 = 0"
    proof (induction rule: rtranclp_induct)
      case (step a b)
      then show ?case using idle_step by blast
    qed (use c1 in simp)
    then show ?thesis by simp
  qed
  then show ?thesis using st by (simp add: clean_kicked_def clean_tick_def cleaner_runs_def)
qed

lemma handler_never_cleans_witness:
  "\<exists>h c1. demo_start = Some (Inr h) \<and> kick_start (e_cache (p_Engine h)) = Some c1
     \<and> clean_kicked demo_cenv c1 = None \<and> outOfSpace c1"
proof -
  obtain h where h: "demo_start = Some (Inr h)" by (rule demo_start_obtain)
  from handler_never_cleans [OF h [unfolded demo_start_def] rtranclp.rtrancl_refl]
  have i: "clean_tick demo_cenv (e_cache (p_Engine h)) = None" by blast
  have "case demo_start of Some (Inr h) \<Rightarrow> kick_start (e_cache (p_Engine h)) \<noteq> None | _ \<Rightarrow> False" by code_simp
  then obtain c1 where c1: "kick_start (e_cache (p_Engine h)) = Some c1" unfolding h
    by (cases "kick_start (e_cache (p_Engine h))") simp_all
  have s: "cstep demo_cenv (e_cache (p_Engine h)) c1" by (rule cs_kick [OF c1])
  note n = handler_never_cleans [OF h [unfolded demo_start_def]]
  from n [OF r_into_rtranclp [of "cstep demo_cenv", OF s]] n [OF rtranclp.rtrancl_refl] c1 h show ?thesis by blast
qed

section \<open>Counting\<close>

lemma count_Cons: "(of_nat (length (filter P (x # xs))) :: int64) = one (P x) + of_nat (length (filter P xs))"
  by (simp add: one_def)

text \<open>C5: Over any run of calls: one request, and one hit or miss, for every call that goes through the cache; a further
  hit for each stale reply; one purge for each successful \<open>PURGE\<close>; and nothing is ever counted as coming from
  the upstream.\<close>

theorem metrics_balance:
  assumes "NewHandler sl E w names ino opt = Some (Inr h0)" "list_all (\<lambda>q. tame (k_env q)) qs"
    and "serve_all sl qs h0 = Some (xs, h)"
  shows "length xs = length qs
    \<and> m_Requests (p_metrics h) = of_nat (length (filter (\<lambda>q. cacheable (k_request q) (k_target q) h0) qs))
    \<and> m_Hits (p_metrics h) + m_Misses (p_metrics h) = m_Requests (p_metrics h) + of_nat (length (filter stale xs))
    \<and> m_Purges (p_metrics h) = of_nat (length (filter (\<lambda>x. x = RPurged) xs))
    \<and> m_BytesFromUpstream (p_metrics h) = 0"
proof -
  let ?n = "\<lambda>P l. (of_nat (length (filter P l)) :: int64)"
  have "length xs = length qs
    \<and> m_Requests (p_metrics h) = m_Requests (p_metrics h1) + ?n (\<lambda>q. cacheable (k_request q) (k_target q) h1) qs
    \<and> m_Hits (p_metrics h) + m_Misses (p_metrics h) = m_Hits (p_metrics h1) + m_Misses (p_metrics h1)
       + ?n (\<lambda>q. cacheable (k_request q) (k_target q) h1) qs + ?n stale xs
    \<and> m_Purges (p_metrics h) = m_Purges (p_metrics h1) + ?n (\<lambda>x. x = RPurged) xs
    \<and> m_BytesFromUpstream (p_metrics h) = m_BytesFromUpstream (p_metrics h1)"
    if "serve_all sl qs h1 = Some (xs, h)" for h1
    using that assms(2)
  proof (induction qs arbitrary: h1 xs)
    case (Cons q qs)
    obtain x h2 ys where 1: "do_call sl q h1 = Some (x, h2)" "serve_all sl qs h2 = Some (ys, h)" "xs = x # ys"
      using Cons.prems(1) by (auto split: option.splits)
    have c: "same_conf h1 h2" "counts h1 (cacheable (k_request q) (k_target q) h1) x h2"
      using do_call_step [OF 1(1)] Cons.prems(2) by auto
    have "cacheable r u h2 = cacheable r u h1" for r u using conf_path [OF c(1)] by blast
    then show ?case using Cons.IH [OF 1(2)] Cons.prems(2) c(2) 1(3)
      by (simp add: counts_def count_Cons algebra_simps del: filter.simps)
  qed simp
  from this [OF assms(3)] NewHandler_parts [OF assms(1)] show ?thesis
    by (metis (no_types, lifting) Metrics.select_convs add_cancel_right_left add.commute zero_Metrics_def)
qed

lemma metrics_balance_witness:
  "\<exists>h0 xs h. demo_start = Some (Inr h0) \<and> serve_all tiny_stdlib [demo_call ''GET'' 2, demo_call ''PURGE'' 0] h0 = Some (xs, h)
     \<and> m_Purges (p_metrics h) = 1 \<and> m_Hits (p_metrics h) + m_Misses (p_metrics h) = 1 \<and> m_BytesFromUpstream (p_metrics h) = 0"
proof -
  let ?qs = "[demo_call ''GET'' 2, demo_call ''PURGE'' 0]"
  obtain h0 where h0: "demo_start = Some (Inr h0)" by (rule demo_start_obtain)
  have "case demo_start of Some (Inr h) \<Rightarrow> (case serve_all tiny_stdlib ?qs h of
      Some (xs, h') \<Rightarrow> (case xs of [x, y] \<Rightarrow> \<not> stale x \<and> x \<noteq> RPurged \<and> y = RPurged | _ \<Rightarrow> False) | _ \<Rightarrow> False) | _ \<Rightarrow> False"
    by code_simp
  then have "case serve_all tiny_stdlib ?qs h0 of
      Some (xs, h') \<Rightarrow> (case xs of [x, y] \<Rightarrow> \<not> stale x \<and> x \<noteq> RPurged \<and> y = RPurged | _ \<Rightarrow> False) | _ \<Rightarrow> False"
    unfolding h0 by simp
  then obtain xs h where xs: "serve_all tiny_stdlib ?qs h0 = Some (xs, h)"
    "case xs of [x, y] \<Rightarrow> \<not> stale x \<and> x \<noteq> RPurged \<and> y = RPurged | _ \<Rightarrow> False"
    by (cases "serve_all tiny_stdlib ?qs h0") auto
  then obtain x y where "xs = [x, y]" by (auto split: list.splits)
  with xs have r: "serve_all tiny_stdlib ?qs h0 = Some ([x, y], h)" "\<not> stale x" "x \<noteq> RPurged" "y = RPurged" by simp_all
  have "cacheable (k_request (demo_call ''GET'' 2)) (k_target (demo_call ''GET'' 2)) h0"
    "\<not> cacheable (k_request (demo_call ''PURGE'' 0)) (k_target (demo_call ''PURGE'' 0)) h0"
    using h0 by (auto simp: cacheable_def demo_call_def shouldPassthrough_def demo_start_def NewHandler_def demo_options_def
      DefaultOptions_def split: sum.splits option.splits)
  with metrics_balance [OF h0 [unfolded demo_start_def] _ r(1)] r(2-4) demo_tame h0 r(1) show ?thesis
    by (auto simp del: serve_all.simps)
qed

section \<open>The size of a file\<close>



end
