(* ===== verification/ProxyRemote.thy ===== *)
theory ProxyRemote
  imports ProxyRun Sequential
begin

text \<open>
  The upstream file over HTTP: a server that supports byte ranges keeps the contract that the readers of the cache
  ask of a remote object.
\<close>

section \<open>The header of a range\<close>

text \<open>What a server reads in \<open>Range\<close>: the first byte, and the last one if it is given (RFC 9110, section 14).\<close>

definition parse_range :: "string \<Rightarrow> (nat \<times> nat option) option" where
  "parse_range s =
     (if \<not> has_prefix s ''bytes='' then None
      else let t = drop 6 s; a = takeWhile is_digit t; r = dropWhile is_digit t
           in if a \<noteq> [] \<and> r \<noteq> [] \<and> hd r = CHR ''-'' \<and> list_all is_digit (tl r)
              then Some (nat (digits_val a), if tl r = [] then None else Some (nat (digits_val (tl r)))) else None)"

lemma minus_no_digit: "\<not> is_digit CHR ''-''"
  using digit_chars by blast

lemma parse_show: "parse_range (''bytes='' @ show_nat n @ CHR ''-'' # s)
    = (if list_all is_digit s then Some (n, if s = [] then None else Some (nat (digits_val s))) else None)"
proof -
  note d = show_nat_digits [of n]
  have t: "takeWhile is_digit (show_nat n @ x # s) = show_nat n" "dropWhile is_digit (show_nat n @ x # s) = x # s"
    if "\<not> is_digit x" for x using d that by (simp_all add: list_all_iff)
  show ?thesis using d by (simp add: parse_range_def has_prefix_def Let_def t [OF minus_no_digit] minus_no_digit)
qed

lemma parse_Header:
  assumes "0 \<le> sint (Start opt)"
  shows "parse_range (snd (Header opt))
    = Some (nat (sint (Start opt)), if EndOpt opt <s 0 then None else Some (nat (sint (EndOpt opt))))"
proof -
  have s: "show_int (Start opt) = show_nat (nat (sint (Start opt)))" using assms by (simp add: show_int_def word_sless_alt)
  show ?thesis
  proof (cases "EndOpt opt <s 0")
    case True
    then show ?thesis using parse_show [of "nat (sint (Start opt))" "[]"] by (simp add: Header_def s)
  next
    case False
    note d = show_nat_digits [of "nat (sint (EndOpt opt))"]
    have "show_int (EndOpt opt) = show_nat (nat (sint (EndOpt opt)))" using False by (simp add: show_int_def)
    then show ?thesis using False d parse_show [of "nat (sint (Start opt))" "show_nat (nat (sint (EndOpt opt)))"] by (simp add: Header_def s)
  qed
qed

section \<open>Servers\<close>

text \<open>The status and the body of the answer of a server that supports ranges.\<close>

definition range_answer :: "byte list \<Rightarrow> string \<Rightarrow> nat \<times> byte list" where
  "range_answer C rg0 =
     (case parse_range rg0 of
        None \<Rightarrow> (200, C)
      | Some (a, e) \<Rightarrow>
          if length C \<le> a then (416, [])
          else case e of None \<Rightarrow> (206, drop a C)
               | Some b \<Rightarrow> if b < a then (200, C) else (206, take (b - a + 1) (drop a C)))"

text \<open>The documented behaviour of the server of \<open>url\<close>, for every request the handler and its readers make.\<close>

definition honest :: "upstream \<Rightarrow> string \<Rightarrow> byte list \<Rightarrow> bool" where
  "honest up url C \<longleftrightarrow> up_refuses up url = None
     \<and> (\<forall>r. q_url r = url \<longrightarrow> q_Method r = ''GET'' \<longrightarrow> (\<exists>hs. up_do up r = Inr
          \<lparr>StatusCode = fst (range_answer C (header_Get (q_Header r) ''Range'')), rsp_Header = hs,
           rsp_Body = Reader (snd (range_answer C (header_Get (q_Header r) ''Range''))) EOF None None\<rparr>))
     \<and> (\<forall>r. q_url r = url \<longrightarrow> q_Method r = ''HEAD'' \<longrightarrow> (\<exists>rsp. up_do up r = Inr rsp \<and> StatusCode rsp = 200
          \<and> header_Get (rsp_Header rsp) ''Content-Length'' = show_nat (length C)))"

lemma remote_serves:
  assumes "\<And>k. honest (ups k) (rf_url f) C" "header_Get (rf_headers f) ''Range'' = []"
    and "int (length C) \<le> max_int64" "rf_size f = word_of_nat (length C)"
  shows "serves (remote_object ups f) C \<and> refuses_end (remote_object ups f) C"
proof -
  let ?q = "\<lambda>hs. \<lparr>q_Method = ''GET'', q_url = rf_url f, q_Header = hs, q_Body = []\<rparr>"
  have do: "\<exists>hs'. up_do (ups k) (?q hs) = Inr \<lparr>StatusCode = fst (range_answer C (header_Get hs ''Range'')), rsp_Header = hs',
      rsp_Body = Reader (snd (range_answer C (header_Get hs ''Range''))) EOF None None\<rparr>" for k hs
  proof -
    have "\<forall>r. q_url r = rf_url f \<longrightarrow> q_Method r = ''GET'' \<longrightarrow> (\<exists>hs. up_do (ups k) r = Inr
          \<lparr>StatusCode = fst (range_answer C (header_Get (q_Header r) ''Range'')), rsp_Header = hs,
           rsp_Body = Reader (snd (range_answer C (header_Get (q_Header r) ''Range''))) EOF None None\<rparr>)"
      using assms(1) [of k] unfolding honest_def by blast
    from this [rule_format, of "?q hs"] show ?thesis by simp
  qed
  have ok: "up_refuses (ups k) (rf_url f) = None" for k using assms(1) [of k] by (simp add: honest_def)
  have op: "remoteFile_Open (ups k) f opt =
      (let a = range_answer C (case opt of None \<Rightarrow> [] | Some r \<Rightarrow> snd (Header r))
       in if fst a \<noteq> 200 \<and> fst a \<noteq> 206 then Inl (Other (''remoteFile.Open: (status '' @ show_nat (fst a) @ '')''))
          else Inr (Reader (snd a) EOF None None))" for k opt
  proof -
    define hs where "hs = (case opt of None \<Rightarrow> rf_headers f | Some r \<Rightarrow> (case Header r of (k, v) \<Rightarrow> header_Set k v (rf_headers f)))"
    have h: "header_Get hs ''Range'' = (case opt of None \<Rightarrow> [] | Some r \<Rightarrow> snd (Header r))"
      using assms(2) by (simp add: hs_def header_Get_Set Header_def split: option.split)
    obtain hs' where "up_do (ups k) (?q hs) = Inr \<lparr>StatusCode = fst (range_answer C (header_Get hs ''Range'')), rsp_Header = hs',
      rsp_Body = Reader (snd (range_answer C (header_Get hs ''Range''))) EOF None None\<rparr>" using do by blast
    then show ?thesis by (simp add: remoteFile_Open_def ok hs_def [symmetric] h Let_def)
  qed
  have none: "range_answer C [] = (200, C)" by (simp add: range_answer_def parse_range_def has_prefix_def)
  have some: "range_answer C (snd (Header opt)) = (if length C \<le> nat (sint (Start opt)) then (416, [])
      else if EndOpt opt <s 0 then (206, drop (nat (sint (Start opt))) C)
      else if nat (sint (EndOpt opt)) < nat (sint (Start opt)) then (200, C)
      else (206, take (nat (sint (EndOpt opt)) - nat (sint (Start opt)) + 1) (drop (nat (sint (Start opt))) C)))"
    if "0 \<le> sint (Start opt)" for opt
    using parse_Header [OF that] by (simp add: range_answer_def)
  have n: "nat (b - a + 1) = nat b - nat a + 1" if "0 \<le> a" "a \<le> b" for a b :: int using that by linarith
  have c: "int (length C) \<le> x \<Longrightarrow> C \<noteq> [] \<Longrightarrow> 0 < x" for x by (cases C) auto
  show ?thesis
    using assms(3,4) by (auto simp: serves_def refuses_end_def remote_object_def op none some Let_def n word_sless_alt dest: c)
qed

lemma newHTTPFile_honest:
  assumes "honest up url C" "mapping_get p h = Some \<lparr>ce_url = url, ce_headers = hs\<rparr>" "int (length C) \<le> max_int64"
  shows "rf_url (newHTTPFile sl up p h) = url \<and> rf_headers (newHTTPFile sl up p h) = hs
    \<and> rf_size (newHTTPFile sl up p h) = word_of_nat (length C)"
proof -
  have "length C < 2 ^ 63" using assms(3) by simp
  then have "ParseInt (show_nat (length C)) = Inr (word_of_nat (length C))" by (rule ParseInt_show)
  moreover have "up_refuses up url = None" using assms(1) by (simp add: honest_def)
  moreover obtain rsp where "up_do up \<lparr>q_Method = ''HEAD'', q_url = url, q_Header = hs, q_Body = []\<rparr> = Inr rsp" "StatusCode rsp = 200"
    "header_Get (rsp_Header rsp) ''Content-Length'' = show_nat (length C)"
  proof -
    have "\<forall>r. q_url r = url \<longrightarrow> q_Method r = ''HEAD'' \<longrightarrow> (\<exists>rsp. up_do up r = Inr rsp \<and> StatusCode rsp = 200
          \<and> header_Get (rsp_Header rsp) ''Content-Length'' = show_nat (length C))" using assms(1) unfolding honest_def by blast
    from this [rule_format, of "\<lparr>q_Method = ''HEAD'', q_url = url, q_Header = hs, q_Body = []\<rparr>"] show thesis using that by auto
  qed
  ultimately show ?thesis using assms(2) by (simp add: newHTTPFile_def)
qed

lemma upstream_headers_Range: "header_Get (upstream_headers hs) ''Range'' = []"
proof -
  have "map_of (upstream_headers hs) ''Range'' = None" by (auto simp: upstream_headers_def map_of_eq_None_iff)
  then show ?thesis by (simp add: header_Get_def)
qed


section \<open>Reading over HTTP\<close>

text \<open>C38: The readers of the cache read the upstream's file through ranges: once a call has entered its URL into the
  mapping, a sequential reader of the file the handler makes delivers the bytes of an honest server's file,
  whatever \<open>Range\<close> the client's own request had.\<close>

theorem http_session:
  assumes "\<And>k. honest (ups k) url C" "honest up url C" "3 * int (length C) \<le> max_int64"
    and "f = newHTTPFile sl up p (mapping_put url p (upstream_headers (q_Header r)) h)"
    and "New (rf_size f) initial maxc streams = (initial', maxc', streams', True)"
    and "sint initial \<le> max_int64 - int (length C)"
    and "0 \<le> sint off" "sint off < int (length C)" "sint off + int (sum_list ns) \<le> int (length C)"
  shows "\<exists>cr cr'. Seek (newSequential (remote_object ups f) initial' maxc') off SeekStart = ((off, None), cr)
    \<and> read_all Read cr ns = Some (take (sum_list ns) (drop (nat (sint off)) C), cr')"
proof -
  let ?h = "mapping_put url p (upstream_headers (q_Header r)) h"
  have m: "mapping_get p ?h = Some \<lparr>ce_url = url, ce_headers = upstream_headers (q_Header r)\<rparr>"
    by (simp add: mapping_get_def mapping_put_def update_conv')
  have n: "int (length C) \<le> max_int64" using assms(3) by simp
  note F = newHTTPFile_honest [OF assms(2) m n, of sl, folded assms(4)]
  have "serves (remote_object ups f) C"
    using remote_serves [of ups f C] assms(1) n F upstream_headers_Range by auto
  moreover have "New (obj_size (remote_object ups f)) initial maxc streams = (initial', maxc', streams', True)"
    using assms(5) by (simp add: remote_object_def)
  ultimately show ?thesis using chunked_session [OF _ assms(3) _ assms(6-9)] by blast
qed

text \<open>A server of seven bytes.\<close>

definition seven_server :: upstream where
  "seven_server = \<lparr>up_refuses = (\<lambda>_. None), up_do = (\<lambda>r. if q_Method r = ''HEAD''
     then Inr \<lparr>StatusCode = 200, rsp_Header = [(''Content-Length'', [show_nat 7])], rsp_Body = Reader [] EOF None None\<rparr>
     else case range_answer [1, 2, 3, 4, 5, 6, 7] (header_Get (q_Header r) ''Range'') of
       (st, b) \<Rightarrow> Inr \<lparr>StatusCode = st, rsp_Header = [], rsp_Body = Reader b EOF None None\<rparr>)\<rparr>"

lemma http_session_witness:
  "\<exists>cr cr'. Seek (newSequential (remote_object (\<lambda>_. seven_server) \<lparr>rf_url = ''u'', rf_headers = [], rf_size = 7, rf_modTime = 0\<rparr>) 2 4)
      1 SeekStart = ((1, None), cr)
    \<and> read_all Read cr [1, 0, 4] = Some ([2, 3, 4, 5, 6], cr')"
proof -
  let ?r = "\<lparr>q_Method = ''GET'', q_url = [], q_Header = [(''Range'', [''bytes=0-''])], q_Body = []\<rparr>"
  let ?f = "newHTTPFile demo_stdlib seven_server ''p'' (mapping_put ''u'' ''p'' (upstream_headers (q_Header ?r)) demo_handler)"
  have h: "honest seven_server ''u'' [1, 2, 3, 4, 5, 6, 7]"
    by (auto simp: honest_def seven_server_def header_Get_def numeral_eq_Suc split: prod.split)
  have f: "?f = \<lparr>rf_url = ''u'', rf_headers = [], rf_size = 7, rf_modTime = 0\<rparr>" by code_simp
  have n: "New (rf_size ?f) 2 4 0 = (2, 4, 0, True)" unfolding f by code_simp
  from http_session [OF h h _ refl n, of 1 "[1, 0, 4]"] show ?thesis unfolding f by simp
qed

end
