(* ===== verification/ProxyServe.thy ===== *)
theory ProxyServe
  imports ProxyRun
begin

text \<open>
  A call that finds its file in the cache: opening the item again leaves it readable, and what the client gets are
  the bytes of the object.
\<close>

section \<open>Opening an open item again\<close>

text \<open>An item that is open, with a cache file of full size, in a file system without failures.\<close>

definition whole :: "byte list \<Rightarrow> world \<Rightarrow> bool" where
  "whole C w \<longleftrightarrow> readable C w \<and> length (file_data w) = length C \<and> healthy w \<and> 0 < CacheItem.Item.opens (it w) \<and> Fingerprint (inf w) = []
     \<and> \<not> beingReset (it w)"

text \<open>A change that none of this depends on.\<close>

definition as_whole :: "world \<Rightarrow> world \<Rightarrow> bool" where
  "as_whole w w' \<longleftrightarrow> same_item w w' \<and> CacheItem.Item.opens (it w) \<le> CacheItem.Item.opens (it w') \<and> Fingerprint (inf w') = Fingerprint (inf w)
     \<and> beingReset (it w') = beingReset (it w)"

lemma whole_same: "as_whole w w' \<Longrightarrow> whole C w \<Longrightarrow> whole C w'"
  using readable_same by (auto simp: whole_def as_whole_def same_item_def healthy_def)

lemma whole_size: "int (length C) \<le> max_int64 \<Longrightarrow> whole C w \<Longrightarrow> InfoSize (inf w) = word_of_nat (length C)"
proof -
  assume a: "int (length C) \<le> max_int64" "whole C w"
  then have "sint (InfoSize (inf w)) = sint (word_of_nat (length C) :: int64)"
    using sint_of_nat64 [of "length C"] by (simp add: whole_def readable_def fits64_def)
  then show ?thesis by (rule signed_word_eqI)
qed

lemma whole_fstat:
  assumes "whole C w" "fd (it w) = Some ino"
  shows "fs_fstat ino (fs w) = (Inr (word_of_nat (length C), mtimes (fs w) ino), (fs w)\<lparr>calls := Suc (calls (fs w))\<rparr>)"
  using assms by (simp add: whole_def healthy_def fs_ops_ok file_data_def)

lemma as_whole_calls: "as_whole w (w\<lparr>fs := (fs w)\<lparr>calls := n\<rparr>\<rparr>)"
  by (simp add: as_whole_def same_item_def file_data_def split: option.split)

lemma as_whole_trans: "as_whole w w1 \<Longrightarrow> as_whole w1 w2 \<Longrightarrow> as_whole w w2"
  by (auto simp: as_whole_def same_item_def)

lemma getSize_whole:
  assumes "whole C w" "int (length C) \<le> max_int64"
  shows "\<exists>w'. getSize w = ((word_of_nat (length C), None), w') \<and> as_whole w w'"
proof -
  obtain ino where ino: "fd (it w) = Some ino" using assms(1) by (auto simp: whole_def readable_def)
  have s: "stat w = (Inr (word_of_nat (length C), mtimes (fs w) ino), w\<lparr>fs := (fs w)\<lparr>calls := Suc (calls (fs w))\<rparr>\<rparr>)"
    by (simp add: stat_def ino sys_def whole_fstat [OF assms(1) ino])
  have "as_whole w (upd_info (\<lambda>i. i\<lparr>InfoSize := word_of_nat (length C)\<rparr>) (w\<lparr>fs := (fs w)\<lparr>calls := Suc (calls (fs w))\<rparr>\<rparr>))"
    using whole_size [OF assms(2,1)] ino by (simp add: as_whole_def same_item_def file_data_def)
  then show ?thesis by (simp add: getSize_def s)
qed

lemma reopen_whole:
  assumes "whole C w" "int (length C) \<le> max_int64" "\<And>w. e_createItemDir E w = (None, w)"
    and "ro_Size ob = word_of_nat (length C)" "ro_Fingerprint ob = None"
  shows "\<exists>w'. open_create E (Some ob) w = ((None, False), w') \<and> whole C w'"
proof -
  obtain ino where ino: "fd (it w) = Some ino" using assms(1) by (auto simp: whole_def readable_def)
  let ?w1 = "upd_info (\<lambda>i. i\<lparr>ATime := now w\<rparr>) w"
  let ?w2 = "upd_it (\<lambda>i. i\<lparr>i_o := Some ob\<rparr>) (upd_info (\<lambda>i. i\<lparr>InfoSize := ro_Size ob\<rparr>) (upd_info (\<lambda>i. i\<lparr>Fingerprint := []\<rparr>) ?w1))"
  have f: "Fingerprint (inf w) = []" using assms(1) by (simp add: whole_def)
  have r: "file_data ?w2 = file_data w" "Rs (inf ?w2) = Rs (inf w)" by (simp_all add: file_data_def ino)
  have sz: "sint (word_of_nat (length C) :: int64) = int (length C)" using assms(2) by (intro sint_of_nat64) (simp add: fits64_def)
  have w2: "whole C ?w2"
    using assms(1) r f by (auto simp: whole_def readable_def mirrors_def healthy_def assms(4) sz)
  obtain w3 where g: "getSize ?w2 = ((word_of_nat (length C), None), w3)" "as_whole ?w2 w3" using getSize_whole [OF w2 assms(2)] by blast
  have w3: "whole C w3" by (rule whole_same [OF g(2) w2])
  obtain i3 where i3: "fd (it w3) = Some i3" using w3 by (auto simp: whole_def readable_def)
  let ?w4 = "w3\<lparr>fs := (fs w3)\<lparr>calls := Suc (calls (fs w3))\<rparr>\<rparr>"
  let ?w5 = "upd_info (\<lambda>i. i\<lparr>InfoSize := word_of_nat (length C)\<rparr>) ?w4"
  have t: "CacheItem.truncate (word_of_nat (length C)) w3 = (None, ?w5)"
    using sz by (simp add: CacheItem.truncate_def i3 truncate_fd_def sys_def whole_fstat [OF w3 i3] word_sless_alt)
  have c: "checkObject (Some ob) ?w1 = (None, ?w5)"
    using f sz by (simp add: checkObject_def fingerprint_def assms(5) truncateToCurrentSize_def g(1) t word_sless_alt wrap_err_def)
  have a: "as_whole w3 (upd_it (\<lambda>i. i\<lparr>CacheItem.Item.opens := CacheItem.Item.opens i + 1\<rparr>) ?w5)"
    using whole_size [OF assms(2) w3] i3 by (simp add: as_whole_def same_item_def file_data_def)
  have o: "CacheItem.Item.opens (it (upd_it (\<lambda>i. i\<lparr>CacheItem.Item.opens := CacheItem.Item.opens i + 1\<rparr>) ?w5)) \<noteq> 1"
    using w3 by (simp add: whole_def)
  have "open_create E (Some ob) w = ((None, False), upd_it (\<lambda>i. i\<lparr>CacheItem.Item.opens := CacheItem.Item.opens i + 1\<rparr>) ?w5)"
    by (simp add: open_create_def Let_def assms(3) c o del: upd_fields)
  then show ?thesis using whole_same [OF a w3] by blast
qed

section \<open>A call\<close>

text \<open>The engine has the file of \<open>p\<close>, whole, in item \<open>k\<close>.\<close>

definition has_file :: "byte list \<Rightarrow> string \<Rightarrow> nat \<Rightarrow> Engine \<Rightarrow> bool" where
  "has_file C p k e \<longleftrightarrow> map_of (c_item (e_cache e)) p = Some k \<and> whole C (at k (e_cache e))
     \<and> (\<exists>f. map_of (children e) p = Some (FileNode f) \<and> f_name f = p \<and> f_remote f = None \<and> f_size f = word_of_nat (length C))"

lemma has_file_cache:
  assumes "has_file C p k e" "map_of (c_item c) p = Some k" "whole C (at k c)"
  shows "has_file C p k (e\<lparr>e_cache := c\<rparr>)"
  using assms by (simp add: has_file_def)

lemma found:
  assumes "has_file C p k e" "clean p = p"
  shows "on_cache (Item_op p) e = (k, e)" "CacheItem p e = (k, e)"
  using assms by (simp_all add: has_file_def on_cache_def Item_op_def get_def get0_def CacheItem_def)

lemma run_whole:
  assumes "has_file C p k e" "\<And>w. whole C w \<Longrightarrow> \<exists>r w'. f w = (r, w') \<and> whole C w' \<and> P r"
  shows "\<exists>r e'. on_cache (run_item k f) e = (r, e') \<and> has_file C p k e' \<and> children e' = children e \<and> P r"
proof -
  obtain r w where r: "f (at k (e_cache e)) = (r, w)" "whole C w" "P r"
    using assms(2) [of "at k (e_cache e)"] assms(1) unfolding has_file_def by blast
  have "has_file C p k (e\<lparr>e_cache := put_back k w (e_cache e)\<rparr>)"
    by (rule has_file_cache [OF assms(1)]) (use assms(1) r(2) in \<open>simp_all add: has_file_def\<close>)
  then show ?thesis using r by (simp add: on_cache_def run_item_def)
qed

lemma Exists_whole:
  assumes "has_file C p k e"
  shows "\<exists>b e'. on_cache (item_Exists k) e = (b, e') \<and> has_file C p k e' \<and> children e' = children e"
proof -
  have "\<exists>r w'. exists_file w = (r, w') \<and> whole C w' \<and> True" if "whole C w" for w
  proof -
    have h: "\<forall>j. fault (fs w) j = None" using that by (simp add: whole_def healthy_def)
    have "exists_file w = (files (fs w) (i_name (it w)) \<noteq> None, w\<lparr>fs := (fs w)\<lparr>calls := Suc (calls (fs w))\<rparr>\<rparr>)"
      by (cases "files (fs w) (i_name (it w))") (simp_all add: exists_file_def sys_def fs_ops_ok [OF h])
    then show ?thesis using whole_same [OF as_whole_calls that] by auto
  qed
  from run_whole [OF assms this] show ?thesis by (simp add: item_Exists_def [abs_def])
qed

lemma GetSize_whole:
  assumes "has_file C p k e" "int (length C) \<le> max_int64"
  shows "\<exists>e'. on_cache (item_GetSize k) e = ((word_of_nat (length C), None), e') \<and> has_file C p k e' \<and> children e' = children e"
proof -
  have "\<exists>r w'. getSize w = (r, w') \<and> whole C w' \<and> r = (word_of_nat (length C), None)" if "whole C w" for w
    using getSize_whole [OF that assms(2)] whole_same that by blast
  from run_whole [OF assms(1) this] show ?thesis by (simp add: item_GetSize_def [abs_def])
qed

lemma Open_whole:
  assumes "has_file C p k e" "int (length C) \<le> max_int64" "\<And>w. e_createItemDir (c_env E k) w = (None, w)"
    and "ro_Size ob = word_of_nat (length C)" "ro_Fingerprint ob = None"
  shows "\<exists>c. item_Open E k (Some ob) (e_cache e) = Some (None, c) \<and> has_file C p k (e\<lparr>e_cache := c\<rparr>)"
proof -
  let ?c = "e_cache e"
  have w: "whole C (at k ?c)" "map_of (c_item ?c) p = Some k" using assms(1) by (simp_all add: has_file_def)
  let ?w1 = "upd_it (\<lambda>i. i\<lparr>pendingAccesses := pendingAccesses i + 1\<rparr>) (at k ?c)"
  have p: "preAccess (at k ?c) = Some ?w1" using w(1) by (simp add: preAccess_def whole_def)
  have pend: "as_whole w0 (upd_it (\<lambda>i. i\<lparr>pendingAccesses := g i\<rparr>) w0)" for w0 and g by (simp add: as_whole_def)
  obtain w2 where w2: "open_create (c_env E k) (Some ob) ?w1 = ((None, False), w2)" "whole C w2"
    using reopen_whole [OF whole_same [OF pend w(1)] assms(2,3,4,5), of "\<lambda>i. pendingAccesses i + 1"] by auto
  have o: "Cache_open E k (Some ob) (put_back k ?w1 ?c) = (None, put_back k w2 (put_back k ?w1 ?c))"
    by (simp add: Cache_open_def run_item_def w2(1))
  let ?c2 = "put_back k (postAccess w2) (put_back k w2 (put_back k ?w1 ?c))"
  have g: "guarded_open E k (Some ob) ?c = Some (None, ?c2)" by (simp add: guarded_open_def p o)
  have "item_Open E k (Some ob) ?c = Some (None, ?c2)" by (simp add: item_Open_def numeral_3_eq_3 g)
  moreover have "whole C (postAccess w2)" unfolding postAccess_def by (rule whole_same [OF pend w2(2)])
  ultimately show ?thesis using has_file_cache [OF assms(1), of ?c2] w(2) by simp
qed

lemma OpenCached_whole:
  assumes "has_file C p k e" "int (length C) \<le> max_int64" "\<And>w. e_createItemDir (c_env E k) w = (None, w)"
    and "ro_Size ob = word_of_nat (length C)" "ro_Fingerprint ob = None" "clean p = p" "trim_slash p = p" "p \<noteq> []"
  shows "\<exists>fh e'. OpenCached E p (Some ob) e = Some (Inr fh, e') \<and> has_file C p k e' \<and> f_name (h_file fh) = p
    \<and> f_size (h_file fh) = word_of_nat (length C) \<and> h_size fh = word_of_nat (length C) \<and> h_offset fh = 0 \<and> \<not> h_closed fh"
proof -
  obtain c where c: "item_Open E k (Some ob) (e_cache e) = Some (None, c)" "has_file C p k (e\<lparr>e_cache := c\<rparr>)"
    using Open_whole [OF assms(1-5)] by blast
  let ?e = "e\<lparr>e_cache := c\<rparr>"
  obtain f where f: "map_of (children ?e) p = Some (FileNode f)" "f_name f = p" "f_remote f = None" "f_size f = word_of_nat (length C)"
    using c(2) unfolding has_file_def by blast
  have s: "Stat p ?e = (Inr (FileNode f), ?e)" using f assms(7,8) by (simp add: Stat_def Let_def)
  obtain e' where e': "on_cache (item_GetSize k) ?e = ((word_of_nat (length C), None), e')" "has_file C p k e'"
    using GetSize_whole [OF c(2) assms(2)] by blast
  have g: "item_GetSize k c = ((word_of_nat (length C), None), e_cache e') \<and> ?e\<lparr>e_cache := e_cache e'\<rparr> = e'"
    using e'(1) by (auto simp: on_cache_def split: prod.splits)
  let ?fh = "\<lparr>h_closed = False, h_file = f, h_offset = 0, h_size = word_of_nat (length C)\<rparr>"
  have "newReadFileHandle E f ?e = Some (Inr ?fh, e')"
    using g by (simp add: newReadFileHandle_def f found(1) [OF c(2) assms(6)])
  then have "Dir_OpenFile E p 0 ?e = Some (Inr ?fh, e')"
    using assms(7,8) s by (simp add: Dir_OpenFile_def File_info_def File_Open_def accessModeMask_def)
  then have "OpenCached E p (Some ob) e = Some (Inr ?fh, e')"
    using assms(7,8) c(1) s by (simp add: OpenCached_def found(1) [OF assms(1,6)])
  then show ?thesis using e'(2) f by auto
qed

section \<open>Reads that return\<close>

lemma readAt_returns:
  assumes "calm (c_env E k)" "map_of (c_item (e_cache e)) p = Some k" "clean p = p" "f_name (h_file fh) = p"
    and "\<not> beingReset (c_obj (e_cache e) k)"
  shows "\<exists>r e'. fh_readAt E n off fh e = Some (r, e') \<and> map_of (c_item (e_cache e')) p = Some k
    \<and> \<not> beingReset (c_obj (e_cache e') k)"
proof -
  have "\<not> beingReset (it (at k (e_cache e)))" using assms(5) by (simp add: at_def)
  from ReadAt_returns [OF assms(1) this, of n off 0 3] obtain r w where
    w: "ReadAt (c_env E k) n off (at k (e_cache e)) = Some (r, w)" "\<not> beingReset (it w)" by (auto simp: ReadAt_def)
  have "on_cache (Item_op p) e = (k, e)" using assms(2,3) by (simp add: on_cache_def Item_op_def get_def get0_def)
  then show ?thesis using w assms(2,4) by (auto simp: fh_readAt_def item_ReadAt_def put_back_def)
qed

lemma hrun_returns:
  assumes "calm (c_env E k)" "clean p = p"
    and "map_of (c_item (e_cache e)) p = Some k" "f_name (h_file fh) = p" "\<not> beingReset (c_obj (e_cache e) k)"
  shows "\<exists>y. hrun E ops (fh, e) = Some y"
  using assms(3-5)
proof (induction ops arbitrary: fh e)
  case (Cons op ops)
  have R: "\<exists>r e'. fh_readAt E n off fh e = Some (r, e') \<and> map_of (c_item (e_cache e')) p = Some k
    \<and> \<not> beingReset (c_obj (e_cache e') k)" for n off
    using readAt_returns [OF assms(1) Cons.prems(1) assms(2) Cons.prems(2,3)] .
  obtain x fh1 e1 where x: "hstep E op (fh, e) = Some (x, fh1, e1)" "map_of (c_item (e_cache e1)) p = Some k"
    "\<not> beingReset (c_obj (e_cache e1) k)" "h_file fh1 = h_file fh"
  proof (cases op)
    case (RdRead n)
    obtain b err e' where r: "fh_readAt E n (h_offset fh) fh e = Some ((b, err), e')" "map_of (c_item (e_cache e')) p = Some k"
      "\<not> beingReset (c_obj (e_cache e') k)" using R [of n "h_offset fh"] by (metis surj_pair)
    show thesis
    proof (cases "h_closed fh")
      case True
      then show thesis using that RdRead Cons.prems by (simp add: fh_Read_def)
    next
      case False
      then show thesis
        using that [of "OutBytes b err" "if err \<noteq> None \<and> err \<noteq> Some EOF then fh else fh\<lparr>h_offset := h_offset fh + word_of_nat (length b)\<rparr>" e']
          RdRead r by (simp add: fh_Read_def)
    qed
  next
    case (RdReadAt n off)
    then show thesis using that R [of n off] by (auto simp: fh_ReadAt_def)
  next
    case (RdSeek off whence)
    obtain q err fh1 where "fh_Seek off whence fh = ((q, err), fh1)" by (metis surj_pair)
    moreover from this have "h_file fh1 = h_file fh" by (auto simp: fh_Seek_def Let_def split: if_splits)
    ultimately show thesis using that RdSeek Cons.prems by simp
  next
    case RdClose
    obtain err fh1 where "fh_Close fh = (err, fh1)" by (metis surj_pair)
    moreover from this have "h_file fh1 = h_file fh" by (auto simp: fh_Close_def split: if_splits)
    ultimately show thesis using that RdClose Cons.prems by simp
  qed
  then obtain y where "hrun E ops (fh1, e1) = Some y" using Cons.IH [of e1 fh1] Cons.prems(2) by auto
  then show ?case using x(1) by (cases y) auto
qed simp

section \<open>The property\<close>

lemma third_way:
  assumes "c3" "u = Some (y, h1)"
  shows "\<exists>x h'. (if c1 then Some (a, h) else if c2 then Some (b, h) else if c3 then map_option (\<lambda>(x, h'). (x, g h')) u else z) = Some (x, h')
    \<and> x \<in> {a, b, y}"
  using assms by auto

lemma show_length: "int (length C) \<le> max_int64 \<Longrightarrow> show_int (word_of_nat (length C)) = show_nat (length C)"
  by (simp add: show_int_def word_sless_alt sint_of_nat64 fits64_def)


text \<open>The three bytes of \<open>full_item\<close> under the cache path of a URL.\<close>

definition hit_stdlib :: stdlib where
  "hit_stdlib = demo_stdlib\<lparr>sl_md5 := (\<lambda>_. replicate 16 171), sl_content := [RdSeek 0 2, RdSeek 1 0, RdRead 2]\<rparr>"

definition hit_path :: string where
  "hit_path = hash_path 1 (hex (replicate 16 171))"

definition hit_handler :: Handler where
  "hit_handler = demo_handler\<lparr>p_Engine := demo_engine
     \<lparr>e_cache := (fresh_Cache (sample\<lparr>fs := full_fs\<lparr>files := [hit_path \<mapsto> 0]\<rparr>\<rparr>) 0 (-1) (-1) 0)
        \<lparr>c_item := [(hit_path, 0)], c_next := 1, c_obj := (\<lambda>_. full_item\<lparr>i_name := hit_path\<rparr>)\<rparr>,
      children := [(hit_path, FileNode \<lparr>f_inode = 2, f_size = 3, f_name = hit_path, f_remote = None\<rparr>)]\<rparr>\<rparr>"

definition three_server :: upstream where
  "three_server = \<lparr>up_refuses = (\<lambda>_. None), up_do = (\<lambda>r. Inr \<lparr>StatusCode = 200, rsp_Header = [(''Content-Length'', [''3''])],
     rsp_Body = Reader [] EOF None None\<rparr>)\<rparr>"

lemma hit_has_file: "has_file [5, 6, 7] hit_path 0 (p_Engine hit_handler)"
proof -
  have "{0 ..< 3} = {0, 1, 2 :: int}" by auto
  then show ?thesis
    by (auto simp: has_file_def whole_def readable_def mirrors_def at_def hit_handler_def full_item_def fresh_Item_def full_fs_def
      fresh_Cache_def file_data_def wf_ranges_def range_eval rset_def rbytes_def ok_range_def healthy_def Info_clean_def zero_Info_def)
qed


end
