(* ===== verification/FileWin.thy ===== *)
theory FileWin
  imports ProxyPaths
begin

unbundle bit_operations_syntax

text \<open>
  The helpers beside the program's core: the Windows variant of \<open>lib/file\<close> (\<open>file_windows.go\<close>, \<open>unc_windows.go\<close>,
  \<open>driveletter_windows.go\<close>), whose other variant passes on to the \<open>os\<close> package, and \<open>FileMode\<close> of
  \<open>internal/types\<close>. System calls are parameters.
\<close>

section \<open>Long paths\<close>

abbreviation backslash :: char where "backslash \<equiv> CHR 0x5C"

definition is_letter :: "char \<Rightarrow> bool" where
  "is_letter c \<longleftrightarrow> of_char c \<in> {65 .. 90 :: nat} \<union> {97 .. 122}"

text \<open>The pattern \<open>^[a-zA-Z]\:\\\<close>.\<close>

fun isAbsWinDrive :: "string \<Rightarrow> bool" where
  "isAbsWinDrive (c # d # e # s) \<longleftrightarrow> is_letter c \<and> d = CHR '':'' \<and> e = backslash"
| "isAbsWinDrive s \<longleftrightarrow> False"

definition long_prefix :: string where
  "long_prefix = [backslash, backslash, CHR ''?'', backslash]"

definition UNCPath :: "string \<Rightarrow> string" where
  "UNCPath l =
     (if has_prefix l [backslash, backslash]
      then if has_prefix l long_prefix then l
           else long_prefix @ ''UNC'' @ [backslash] @ drop 2 l
      else if isAbsWinDrive l then long_prefix @ l
      else l)"

lemma has_prefix_append [simp]: "has_prefix (p @ s) p"
  by (simp add: has_prefix_def)

lemma has_prefix_iff: "has_prefix s p \<longleftrightarrow> (\<exists>t. s = p @ t)"
  by (auto simp: has_prefix_def) (metis append_take_drop_id)

lemma UNC_long: "has_prefix l long_prefix \<Longrightarrow> UNCPath l = l"
  by (auto simp: UNCPath_def has_prefix_iff long_prefix_def)

text \<open>
  A second conversion adds nothing. A drive path and a share become long paths, and a long path never loses
  what it stands for.
\<close>

theorem UNCPath_idem:
  "UNCPath (UNCPath l) = UNCPath l
   \<and> (isAbsWinDrive l \<or> has_prefix l [backslash, backslash] \<longrightarrow> has_prefix (UNCPath l) long_prefix)
   \<and> (\<exists>k. UNCPath l = long_prefix @ drop k l \<or> UNCPath l = long_prefix @ ''UNC'' @ [backslash] @ drop k l \<or> UNCPath l = l)"
proof -
  have l: "has_prefix (UNCPath l) long_prefix \<or> UNCPath l = l"
    by (auto simp: UNCPath_def has_prefix_def long_prefix_def)
  have d: "isAbsWinDrive l \<Longrightarrow> \<not> has_prefix l [backslash, backslash]"
    by (cases l rule: isAbsWinDrive.cases) (auto simp: has_prefix_def is_letter_def)
  have "\<exists>k. UNCPath l = long_prefix @ drop k l \<or> UNCPath l = long_prefix @ ''UNC'' @ [backslash] @ drop k l \<or> UNCPath l = l"
    by (cases "has_prefix l [backslash, backslash]") (auto simp: UNCPath_def intro: exI [of _ 0] exI [of _ 2])
  then show ?thesis using l UNC_long d by (auto simp: UNCPath_def)
qed

section \<open>Drive letters\<close>

text \<open>The loop from \<open>l\<close> down to \<open>D\<close>; \<open>st l\<close> is what \<open>os.Stat\<close> of the drive answers, 0 means that none is free.\<close>

fun find_drive :: "(nat \<Rightarrow> go_err option) \<Rightarrow> nat \<Rightarrow> nat" where
  "find_drive st l = (if l < 68 then 0 else if st l = Some ErrNotExist then l else find_drive st (l - 1))"

declare find_drive.simps [simp del]

definition FindUnusedDriveLetter :: "(nat \<Rightarrow> go_err option) \<Rightarrow> nat" where
  "FindUnusedDriveLetter st = find_drive st 90"

lemma find_drive_spec: "find_drive st l = (let S = {i. 68 \<le> i \<and> i \<le> l \<and> st i = Some ErrNotExist} in if S = {} then 0 else Max S)"
proof (induction st l rule: find_drive.induct)
  case (1 st l)
  let ?S = "\<lambda>l. {i. 68 \<le> i \<and> i \<le> l \<and> st i = Some ErrNotExist}"
  have fin: "finite (?S l)" by (rule finite_subset [of _ "{..l}"]) auto
  consider "l < 68" | "68 \<le> l" "st l = Some ErrNotExist" | "68 \<le> l" "st l \<noteq> Some ErrNotExist" by linarith
  then show ?case
  proof cases
    case 1
    then show ?thesis by (auto simp: find_drive.simps [of st l])
  next
    case 2
    then have "l \<in> ?S l" by simp
    moreover have "Max (?S l) = l" using fin 2 by (intro Max_eqI) auto
    ultimately show ?thesis using 2 by (auto simp: find_drive.simps [of st l] Let_def)
  next
    case 3
    then have "i \<le> l \<and> st i = Some ErrNotExist \<longleftrightarrow> i \<le> l - 1 \<and> st i = Some ErrNotExist" for i
      by (cases "i = l") auto
    then have "?S l = ?S (l - 1)" by blast
    then show ?thesis using 1 3 by (simp add: find_drive.simps [of st l])
  qed
qed

section \<open>Opening files on Windows\<close>

text \<open>The flags of \<open>syscall\<close> there, and the values \<open>CreateFile\<close> knows.\<close>

definition win_O_CREAT :: int64 where "win_O_CREAT = 0x40"
definition win_O_EXCL :: int64 where "win_O_EXCL = 0x80"
definition win_O_TRUNC :: int64 where "win_O_TRUNC = 0x200"
definition win_O_APPEND :: int64 where "win_O_APPEND = 0x400"

definition GENERIC_READ :: "32 word" where "GENERIC_READ = 0x80000000"
definition GENERIC_WRITE :: "32 word" where "GENERIC_WRITE = 0x40000000"
definition FILE_APPEND_DATA :: "32 word" where "FILE_APPEND_DATA = 4"

datatype createmode = CREATE_NEW | CREATE_ALWAYS | OPEN_EXISTING | OPEN_ALWAYS | TRUNCATE_EXISTING

text \<open>The rights \<open>OpenFile\<close> asks for and the way it creates the file. \<open>O_RDONLY\<close>, \<open>O_WRONLY\<close> and \<open>O_RDWR\<close> are 0, 1 and 2.\<close>

definition win_access :: "int64 \<Rightarrow> 32 word" where
  "win_access mode =
     (let a0 = (if mode AND 3 = 0 then GENERIC_READ else if mode AND 3 = 1 then GENERIC_WRITE
                else if mode AND 3 = 2 then GENERIC_READ OR GENERIC_WRITE else 0);
          a1 = (if mode AND win_O_CREAT \<noteq> 0 then a0 OR GENERIC_WRITE else a0)
      in if mode AND win_O_APPEND \<noteq> 0 then (a1 AND NOT GENERIC_WRITE) OR FILE_APPEND_DATA else a1)"

definition win_createmode :: "int64 \<Rightarrow> createmode" where
  "win_createmode mode =
     (if mode AND (win_O_CREAT OR win_O_EXCL) = win_O_CREAT OR win_O_EXCL then CREATE_NEW
      else if mode AND (win_O_CREAT OR win_O_TRUNC) = win_O_CREAT OR win_O_TRUNC then CREATE_ALWAYS
      else if mode AND win_O_CREAT = win_O_CREAT then OPEN_ALWAYS
      else if mode AND win_O_TRUNC = win_O_TRUNC then TRUNCATE_EXISTING
      else OPEN_EXISTING)"

text \<open>
  \<open>OpenFile\<close>. \<open>CreateFile\<close> answers a path, rights, shared rights, the way of creation and attributes; a path with a
  zero byte is not one of the system. \<open>Open\<close> and \<open>Create\<close> are those of \<open>file.go\<close>.
\<close>

type_synonym 'h create_file = "string \<Rightarrow> 32 word \<Rightarrow> 32 word \<Rightarrow> createmode \<Rightarrow> 32 word \<Rightarrow> go_err + 'h"

definition win_OpenFile :: "'h create_file \<Rightarrow> string \<Rightarrow> int64 \<Rightarrow> go_err + 'h" where
  "win_OpenFile CreateFile path mode =
     (if path = [] then Inl (Other ''ERROR_FILE_NOT_FOUND'')
      else if char_of (0 :: nat) \<in> set path then Inl ErrInvalid
      else CreateFile path (win_access mode) (1 OR 2 OR 4) (win_createmode mode) (0x80 OR 0x02000000))"

definition file_Open :: "(string \<Rightarrow> int64 \<Rightarrow> go_err + 'h) \<Rightarrow> string \<Rightarrow> go_err + 'h" where
  "file_Open OpenFile name = OpenFile name 0"

definition file_Create :: "(string \<Rightarrow> int64 \<Rightarrow> go_err + 'h) \<Rightarrow> string \<Rightarrow> go_err + 'h" where
  "file_Create OpenFile name = OpenFile name (2 OR win_O_CREAT OR win_O_TRUNC)"

lemmas win_constants = win_O_CREAT_def win_O_EXCL_def win_O_TRUNC_def win_O_APPEND_def GENERIC_READ_def GENERIC_WRITE_def
  FILE_APPEND_DATA_def

lemma no_write: "((a AND NOT GENERIC_WRITE) OR FILE_APPEND_DATA) AND GENERIC_WRITE = 0"
proof -
  have "(a AND NOT GENERIC_WRITE) AND GENERIC_WRITE = a AND (NOT GENERIC_WRITE AND GENERIC_WRITE)" by (simp only: and.assoc)
  moreover have "FILE_APPEND_DATA AND GENERIC_WRITE = 0" by (simp add: win_constants)
  ultimately show ?thesis by (simp add: bit.conj_disj_distrib2)
qed

lemma may_append: "((a AND NOT GENERIC_WRITE) OR FILE_APPEND_DATA) AND FILE_APPEND_DATA = FILE_APPEND_DATA"
  by (simp add: bit.conj_disj_distrib2)

text \<open>Every handle may be shared, renamed and deleted under others; one opened to append can write nowhere else.\<close>

theorem win_OpenFile_rights:
  assumes "path \<noteq> []" "char_of (0 :: nat) \<notin> set path"
  shows "win_OpenFile cf path mode = cf path (win_access mode) 7 (win_createmode mode) 0x02000080
    \<and> (mode AND win_O_APPEND \<noteq> 0 \<longrightarrow> win_access mode AND GENERIC_WRITE = 0 \<and> win_access mode AND FILE_APPEND_DATA \<noteq> 0)
    \<and> file_Open (win_OpenFile cf) path = cf path GENERIC_READ 7 OPEN_EXISTING 0x02000080
    \<and> file_Create (win_OpenFile cf) path = cf path (GENERIC_READ OR GENERIC_WRITE) 7 CREATE_ALWAYS 0x02000080"
proof -
  have s: "win_OpenFile cf path m = cf path (win_access m) 7 (win_createmode m) 0x02000080" for m
    using assms by (simp add: win_OpenFile_def)
  have a: "mode AND win_O_APPEND \<noteq> 0 \<Longrightarrow> win_access mode AND GENERIC_WRITE = 0 \<and> win_access mode AND FILE_APPEND_DATA = FILE_APPEND_DATA"
    by (simp add: win_access_def Let_def no_write may_append)
  have o: "win_access 0 = GENERIC_READ" "win_createmode 0 = OPEN_EXISTING"
    by (simp_all add: win_access_def win_createmode_def win_constants)
  have c: "win_access (2 OR win_O_CREAT OR win_O_TRUNC) = GENERIC_READ OR GENERIC_WRITE"
    "win_createmode (2 OR win_O_CREAT OR win_O_TRUNC) = CREATE_ALWAYS"
    by (simp_all add: win_access_def win_createmode_def win_constants)
  have n: "FILE_APPEND_DATA \<noteq> 0" by (simp add: FILE_APPEND_DATA_def)
  show ?thesis using a n by (simp add: s file_Open_def file_Create_def o c)
qed

lemma win_OpenFile_rights_witness:
  "file_Open (win_OpenFile (\<lambda>p a s m f. Inr (a, m))) ''x'' = Inr (GENERIC_READ, OPEN_EXISTING)"
  using win_OpenFile_rights [of "''x''" "\<lambda>p a s m f. Inr (a, m)"] by (simp add: char_of_def)

section \<open>Reserved names\<close>

text \<open>\<open>filepath.Base\<close> on Windows; \<open>vol\<close> is the length of the volume name of a path.\<close>

definition is_sep :: "char \<Rightarrow> bool" where
  "is_sep c \<longleftrightarrow> c = backslash \<or> c = slash"

definition win_Base :: "(string \<Rightarrow> nat) \<Rightarrow> string \<Rightarrow> string" where
  "win_Base vol path =
     (if path = [] then ''.''
      else let p = rev (dropWhile is_sep (rev path)); q = drop (vol p) p; b = rev (takeWhile (\<lambda>c. \<not> is_sep c) (rev q))
           in if b = [] then [backslash] else b)"

definition lower :: "char \<Rightarrow> char" where
  "lower c = (if of_char c \<in> {65 .. 90 :: nat} then char_of (of_char c + (32 :: nat)) else c)"

text \<open>The pattern of the device names, up to the first dot.\<close>

definition is_device :: "string \<Rightarrow> bool" where
  "is_device base =
     (let n = map lower (takeWhile (\<lambda>c. c \<noteq> CHR ''.'') base)
      in n \<in> {''con'', ''prn'', ''aux'', ''nul''}
         \<or> (length n = 4 \<and> take 3 n \<in> {''com'', ''lpt''} \<and> of_char (n ! 3) \<in> {49 .. 57 :: nat}))"

definition IsReserved :: "(string \<Rightarrow> nat) \<Rightarrow> string \<Rightarrow> go_err option" where
  "IsReserved vol path =
     (if path = [] then Some (Other ''path is empty'')
      else let base = win_Base vol path
           in if base = ''.'' then Some (Other ''path is the dot'')
              else if base = [backslash] then Some (Other ''path consists entirely of separators'')
              else if last base = CHR '' '' then Some (Other ''base file name ends with a space'')
              else if last base = CHR ''.'' then Some (Other ''base file name ends with a period'')
              else if is_device base then Some (Other ''base file name is reserved windows device name'')
              else None)"

lemma IsReserved_examples:
  "IsReserved (\<lambda>_. 0) ''dir/Com7.tar.gz'' \<noteq> None" "IsReserved (\<lambda>_. 0) ''dir/console'' = None" "IsReserved (\<lambda>_. 0) ''nul/x'' = None"
  "IsReserved (\<lambda>_. 0) ''x. '' \<noteq> None"
  by code_simp+

section \<open>FileMode\<close>

text \<open>\<open>String\<close> is \<open>%03o\<close>; \<open>Set\<close> reads an octal \<open>int32\<close>, with a sign.\<close>

fun oct_nat :: "nat \<Rightarrow> string" where
  "oct_nat n = (if n < 8 then [char_of (48 + n)] else oct_nat (n div 8) @ [char_of (48 + n mod 8)])"

declare oct_nat.simps [simp del]

definition FileMode_String :: "32 word \<Rightarrow> string" where
  "FileMode_String x = (let s = oct_nat (unat x) in replicate (3 - length s) (CHR ''0'') @ s)"

definition is_octal :: "char \<Rightarrow> bool" where
  "is_octal c \<longleftrightarrow> of_char c \<in> {48 ..< 56 :: nat}"

definition octal_val :: "string \<Rightarrow> int" where
  "octal_val s = fold (\<lambda>c n. 8 * n + (of_char c - 48)) s 0"

definition FileMode_Set :: "string \<Rightarrow> go_err + 32 word" where
  "FileMode_Set s =
     (let neg = (s \<noteq> [] \<and> hd s = CHR ''-'');
          ds = (if s \<noteq> [] \<and> (hd s = CHR ''+'' \<or> hd s = CHR ''-'') then tl s else s);
          v = octal_val ds
      in if ds = [] \<or> \<not> list_all is_octal ds then Inl (Wrap ''bad FileMode - must be octal digits'' (Other ''strconv.ParseInt''))
         else if (if neg then v \<le> 2 ^ 31 else v < 2 ^ 31) then Inr (word_of_int (if neg then - v else v))
         else Inl (Wrap ''bad FileMode - must be octal digits'' (Other ''strconv.ParseInt'')))"

lemma octal_val_append: "octal_val (s @ [c]) = 8 * octal_val s + (of_char c - 48)"
  by (simp add: octal_val_def)

lemma oct_nat_digits: "list_all is_octal (oct_nat n) \<and> oct_nat n \<noteq> [] \<and> octal_val (oct_nat n) = int n"
proof (induction n rule: less_induct)
  case (less n)
  show ?case
  proof (cases "n < 8")
    case True
    then show ?thesis by (subst (1 2 3) oct_nat.simps) (simp add: is_octal_def octal_val_def digit_code)
  next
    case False
    then have l: "n div 8 < n" by simp
    have m: "n mod 8 < 8" by simp
    have "oct_nat n = oct_nat (n div 8) @ [char_of (48 + n mod 8)]" using False by (subst oct_nat.simps) simp
    moreover have "8 * int (n div 8) + int (n mod 8) = int n" by presburger
    ultimately show ?thesis using less.IH [OF l] m by (simp add: is_octal_def octal_val_append digit_code)
  qed
qed

lemma octal_zeros: "octal_val (replicate k (CHR ''0'') @ s) = octal_val s \<and> list_all is_octal (replicate k (CHR ''0''))"
  by (induction k) (simp_all add: octal_val_def is_octal_def)

text \<open>A mode that is printed and set again is the same below the sign bit of 32 bits, and above it is refused.\<close>

theorem FileMode_roundtrip:
  "FileMode_Set (FileMode_String x) = (if unat x < 2 ^ 31 then Inr x
     else Inl (Wrap ''bad FileMode - must be octal digits'' (Other ''strconv.ParseInt'')))"
proof -
  let ?s = "FileMode_String x"
  note d = oct_nat_digits [of "unat x"]
  have v: "octal_val ?s = int (unat x)" and a: "list_all is_octal ?s" and n: "?s \<noteq> []"
    using d octal_zeros by (simp_all add: FileMode_String_def Let_def)
  then have "is_octal (hd ?s)" by (cases ?s) auto
  then have h: "hd ?s \<noteq> CHR ''+''" "hd ?s \<noteq> CHR ''-''" by (auto simp: is_octal_def)
  have w: "(word_of_int (int (unat x)) :: 32 word) = x" by simp
  have u: "int (unat x) < 2 ^ 31 \<longleftrightarrow> unat x < 2 ^ 31"
    using of_nat_less_iff [of "unat x" "2 ^ 31", where 'a = int] by (simp only: of_nat_power of_nat_numeral)
  have e: "FileMode_Set ?s = (if octal_val ?s < 2 ^ 31 then Inr (word_of_int (octal_val ?s))
      else Inl (Wrap ''bad FileMode - must be octal digits'' (Other ''strconv.ParseInt'')))"
    using a n h by (simp add: FileMode_Set_def Let_def)
  show ?thesis by (simp only: e v u w)
qed

end
