(* ===== verification/Spec2Isabelle.thy ===== *)
theory Spec2Isabelle
  imports RangesFind Sequential WriteBackQueue DownloadersRun CacheKick CacheNames CacheDirs ParallelSession EngineRead CaddyFile MainServer
    ProxyProps ProxyRemote ProxyServe FileWin
begin

text \<open>
  A verification development for \<^bold>\<open>varc\<close>, a caching HTTP proxy in Go (paths below are those under \<open>src/\<close>).

  \<^bold>\<open>The program.\<close> A request names a URL. The HTTP handler (\<open>pkg/proxy\<close>, used by the stand-alone server \<open>main.go\<close> and
  the Caddy module \<open>caddy/module.go\<close>) turns the URL into a cache path, asks the upstream server for the size with
  \<open>HEAD\<close>, and opens the path in the engine (\<open>internal/*.go\<close>), which keeps a tree of nodes and gives out read handles.
  A read goes to an item of the disk cache (\<open>internal/cache/item.go\<close>), which knows by byte ranges (\<open>lib/ranges\<close>) what
  of the object its sparse file holds. What is missing is fetched by downloaders (\<open>internal/cache/downloaders\<close>),
  goroutines that copy from a chunked reader (\<open>internal/chunkedreader\<close>, the parallel one with \<open>lib/rwbuffer\<close>) over the
  upstream file (\<open>pkg/proxy/remote.go\<close>). The cache (\<open>internal/cache/cache.go\<close>) indexes the items, cleans up, and finds
  its items again after a restart. Modified items are queued for upload (\<open>internal/cache/writeback\<close>).

  \<^bold>\<open>Theories, by component.\<close>
  \<^item> \<open>Prelude\<close>: \<open>int64\<close> as words and the collections of word lemmas. \<open>GoIO\<close>: errors, readers, \<open>io.ReadFull\<close>, and
    \<open>types.RemoteObject\<close>, whose every call of \<open>Open\<close> may answer differently.
  \<^item> \<open>Ranges\<close>, \<open>RangesFind\<close>: \<open>lib/ranges\<close>. Invariant \<open>wf_ranges\<close>, abstraction \<open>rset\<close> to the set of bytes, locale
    \<open>byte_ranges\<close> with the laws the item relies on.
  \<^item> \<open>Sequential\<close>: the sequential reader, locale \<open>chunked_reader\<close>. \<open>RWBuffer\<close>, \<open>Parallel\<close>, \<open>ParallelData\<close>, \<open>ParallelRun\<close>,
    \<open>ParallelSeek\<close>, \<open>ParallelWait\<close>, \<open>ParallelSession\<close>: the parallel reader with its goroutines.
  \<^item> \<open>GoHeap\<close>, \<open>WriteBack\<close>, \<open>WriteBackQueue\<close>: \<open>container/heap\<close> over the locale \<open>heap_interface\<close>, and the write-back queue
    as a step relation of callers, uploaders and a timer.
  \<^item> \<open>CacheFs\<close>, \<open>CacheItem\<close>: the file system and all operations of \<open>Item\<close>. \<open>ItemData\<close>, \<open>ItemRead\<close> (locale \<open>item_env\<close>: what
    an item asks of its downloaders), \<open>ItemWrite\<close>, \<open>ItemLife\<close>: their theorems.
  \<^item> \<open>Downloaders\<close>, \<open>DownloadersData\<close>, \<open>DownloadersWait\<close>, \<open>DownloadersRun\<close>: the downloaders, interpreted as an \<open>item_env\<close>.
  \<^item> \<open>Cache\<close>, \<open>CacheFrame\<close>, \<open>CacheUsed\<close>, \<open>CacheClean\<close>, \<open>CacheKick\<close>, \<open>CacheNames\<close>: the index, the cleaner and those who wait
    for it, renaming and restarting. \<open>CachePath\<close>: names and paths. \<open>CacheDirs\<close>: directories.
  \<^item> \<open>Engine\<close>, \<open>EngineOpens\<close>, \<open>EngineRun\<close>, \<open>EngineSession\<close>, \<open>EngineTree\<close>, \<open>EngineProps\<close>, \<open>EngineRead\<close>, \<open>EngineNew\<close>: the engine,
    its sessions, and reading through its handles (locale \<open>engine_file\<close>).
  \<^item> \<open>ProxyText\<close>, \<open>Proxy\<close>: the HTTP handler. \<open>ProxyPaths\<close>, \<open>ProxyStream\<close>, \<open>ProxyRun\<close>, \<open>ProxyProps\<close>, \<open>ProxyRemote\<close>, \<open>ProxyServe\<close>:
    its theorems. \<open>Caddy\<close>, \<open>CaddyFile\<close>, \<open>MainServer\<close>: the two front ends. \<open>FileWin\<close>: helpers for Windows, and \<open>types.FileMode\<close>.

  Definitions have the names of the Go functions where Isabelle allows it (\<open>Insert\<close>, \<open>WriteAtNoOverwrite\<close>,
  \<open>purgeOverQuota\<close>, \<open>OpenCached\<close>, \<open>Serve\<close>); those with a common name have a prefix (\<open>wb_Swap\<close>, \<open>fh_Read\<close>, \<open>par_Seek\<close>).
  Records have the fields of the Go structs. Pointers that are shared are addresses into a store (queue items,
  cache items); all else is held by value.

  \<^bold>\<open>What the theorems show.\<close>
  \<^item> Data: from the byte ranges up, what is marked as present is in the file, what a reader, a handle or an HTTP
    client gets are the bytes of the remote object, and a downloader never overwrites what is present, for all
    chunk sizes, patterns of failing system calls and schedules of the goroutines (\<open>RangesFind\<close>, \<open>Sequential\<close>,
    \<open>ParallelSession\<close>, \<open>ItemData\<close>, \<open>DownloadersRun\<close>, \<open>EngineRead\<close>, \<open>ProxyRemote\<close>, \<open>ProxyServe\<close>). Writing to an item and
    truncating it refine the same operations on the content it stands for (\<open>ItemWrite\<close>).
  \<^item> Bookkeeping: the queue of uploads and its limit (\<open>WriteBackQueue\<close>), the space in use (\<open>CacheClean\<close>), the tree and its
    inodes (\<open>EngineProps\<close>), the counters of the handler (\<open>ProxyProps\<close>).
  \<^item> Progress: the queue does not stall, the parallel reader comes to an end when the server delivers, those who
    wait for the cleaner are released (\<open>CacheKick\<close>), copying a handle ends (\<open>EngineRead\<close>).
  \<^item> Names: cache paths are canonical, files of different names are different, renaming and restarting keep an
    item, sizes are parsed up to the bound of 63 bits, encoded URLs and printed Caddyfiles come back, and removing empty directories takes
    no file (\<open>CachePath\<close>, \<open>CacheNames\<close>, \<open>ProxyPaths\<close>, \<open>ProxyStream\<close>, \<open>CacheDirs\<close>).
  \<^item> Where the code does not do what it means to, a theorem says what it does, each next to the theorems on the
    same operation: writes that are lost, reads that return zeros while an item is renamed, a close that loses
    data, a channel that is closed twice, a reader that hangs, a cleaner that never runs, a length that is frozen.

  \<^bold>\<open>Concurrency, loops and bounds.\<close> What the code does under one lock is one step. Goroutines are steps of a
  relation or of a list of events that is a parameter (\<open>dstep\<close>, \<open>go_step\<close>, the steps of \<open>WriteBack\<close>, \<open>cstep\<close>); the theorems hold for
  every such list. Calls of the HTTP handler follow each other. A loop that may wait for ever returns an option,
  where \<open>None\<close> is the endless wait, and theorems that promise a result say that it is \<open>Some\<close>. Loops that end have a
  termination proof (\<open>removeEmptyDir\<close>, \<open>FindAll\<close>, the heap). Where a loop takes fuel, as \<open>process_loop\<close> and the retries of
  \<open>Item.ReadAt\<close>, the fuel is the length of the queue or the number of retries in the code. Integers are words of 64 bits
  wherever the code has \<open>int64\<close>; hypotheses such as \<open>length C \<le> max_int64\<close> say which objects have a size at all.

  \<^bold>\<open>Parameters.\<close> The file system's faults (\<open>fault\<close>), the upstream server (\<open>upstream\<close>), MD5, dates, MIME types and what
  \<open>http.ServeContent\<close> reads (\<open>stdlib\<close>), free space and the order of map iteration (\<open>cenv\<close>), Caddy's tokens and URLs.

  \<^bold>\<open>Not modelled.\<close> Log lines and \<open>Cache.Dump\<close>, which only print; \<open>getDiskUsage\<close> and \<open>SetSparse\<close>, which are system calls;
  the walk over the cache directory, whose result is the list of files a new cache finds; the parsing of flags, the
  registration with Caddy and its recovery from a panic; contexts, except where
  an upload or a download is cancelled; \<open>FileMode.UnmarshalJSON\<close>, which nothing calls. HTTP calls that overlap are not modelled.
\<close>

end
